(* ===== verification/Prelude.thy ===== *)
theory Prelude
  imports Main "HOL-Library.Word"
begin

text \<open>
  What every component of the development shares: the machine types of the C and C++
  sources (\<open>size_t\<close> on a 64-bit platform is \<open>usize\<close>), the collections of
  simplification rules the component theories fill, and generic facts on words, lists and
  list updates that several components use.
\<close>

unbundle bit_operations_syntax

type_synonym usize = "64 word"
type_synonym u64 = "64 word"
type_synonym u32 = "32 word"
type_synonym u16 = "16 word"

abbreviation SIZE_MAX_P1 :: nat where
  "SIZE_MAX_P1 \<equiv> 18446744073709551616"

named_theorems ring_simps "facts on the slots and the contents of a ring"
named_theorems buf_simps "facts on the readable part of a Buffer"

section \<open>Words and naturals\<close>

lemma usize_bound [simp]: "unat (w :: usize) < SIZE_MAX_P1"
  using unsigned_less [of w] by simp

lemma unat_of_nat_usize: "n < SIZE_MAX_P1 \<Longrightarrow> unat (of_nat n :: usize) = n"
  by (simp add: unat_of_nat take_bit_eq_mod)

lemma unat_add_usize: "unat a + unat b < SIZE_MAX_P1 \<Longrightarrow> unat (a + b :: usize) = unat a + unat b"
  by (subst unat_add_lem [symmetric]) simp

lemma unat_sub_usize: "unat b \<le> unat a \<Longrightarrow> unat (a - b :: usize) = unat a - unat b"
  by (simp add: unat_sub word_le_nat_alt)

text \<open>
  The distance \<open>c - a\<close> between two free-running counters splits at any counter in
  between, whatever wrap-around happened: the counters are compared by distance only.
\<close>

lemma usize_distance_split:
  fixes a b c :: usize
  assumes "unat (b - a) + unat (c - b) < SIZE_MAX_P1"
  shows "unat (c - a) = unat (b - a) + unat (c - b)"
proof -
  have "c - a = (b - a) + (c - b)" by simp
  then show ?thesis using assms by (metis unat_add_usize)
qed

lemma usize_less_iff: "(a :: usize) < b \<longleftrightarrow> unat a < unat b"
  by (rule word_less_nat_alt)

lemma usize_le_iff: "(a :: usize) \<le> b \<longleftrightarrow> unat a \<le> unat b"
  by (rule word_le_nat_alt)

lemma usize_eq_0_iff: "(a :: usize) = 0 \<longleftrightarrow> unat a = 0"
  by (simp add: unat_eq_0)

section \<open>Powers of two and the mask trick\<close>

lemma and_pred_eq_0_power: "0 < n \<Longrightarrow> n AND (n - 1) = (0::nat) \<Longrightarrow> \<exists>k. n = 2 ^ k"
proof (induction n rule: less_induct)
  case (less n)
  show ?case
  proof (cases "odd n")
    case True
    then obtain m where n: "n = 2 * m + 1" by (metis oddE)
    then have "n AND (n - 1) = 2 * m"
      by (subst and_rec) (simp add: and.idem)
    with less.prems(2) n have "n = 2 ^ 0" by simp
    then show ?thesis by blast
  next
    case False
    then obtain m where n: "n = 2 * m" by (metis evenE)
    with less.prems(1) have m: "0 < m" "m < n" by auto
    then have "n - 1 = 2 * (m - 1) + 1" using n by simp
    then have "n AND (n - 1) = 2 * (m AND (m - 1))"
      using n by (subst and_rec) simp
    with less.prems(2) have "m AND (m - 1) = 0" by simp
    with less.IH m obtain k where "m = 2 ^ k" by blast
    with n have "n = 2 ^ Suc k" by simp
    then show ?thesis by blast
  qed
qed

lemma unat_and_mask: "k < 64 \<Longrightarrow> unat (w AND (2 ^ k - 1) :: usize) = unat w mod 2 ^ k"
  by (simp add: mask_eq_exp_minus_1 [symmetric] take_bit_eq_mask [symmetric] unsigned_take_bit_eq)
    (simp add: take_bit_eq_mod)

lemma mod_add_inj:
  fixes n :: nat
  assumes "(a + i) mod n = (a + j) mod n" "i < n" "j < n"
  shows "i = j"
proof -
  have "x = y" if "x \<le> y" "y < n" "(a + x) mod n = (a + y) mod n" for x y
  proof -
    have "n dvd (a + y) - (a + x)"
      using that by (metis mod_eq_dvd_iff_nat nat_add_left_cancel_le)
    with that show ?thesis by (auto dest: dvd_imp_le)
  qed
  with assms show ?thesis by (metis linear)
qed

section \<open>Lists\<close>

lemma nth_take_append_drop: "n \<le> length xs \<Longrightarrow> take n xs @ drop n xs = xs"
  by simp

lemma map_upt_shift: "map f [k..<k + n] = map (\<lambda>i. f (k + i)) [0..<n]"
  by (induction n) (simp_all)

lemma length_eq_take: "n \<le> length xs \<Longrightarrow> length (take n xs) = n"
  by simp

section \<open>Searching: std::search and std::string::find\<close>

text \<open>
  The first position at which the pattern occurs, or \<open>None\<close> where the C++ algorithm returns the
  end of the range (\<^verbatim>\<open>std::search\<close>) or \<^verbatim>\<open>npos\<close> (\<^verbatim>\<open>std::string::find\<close>).
\<close>

fun search :: "'a list \<Rightarrow> 'a list \<Rightarrow> nat option" where
  "search pat [] = (if pat = [] then Some 0 else None)"
| "search pat (x # xs) =
     (if take (length pat) (x # xs) = pat then Some 0 else map_option Suc (search pat xs))"

definition occurs :: "'a list \<Rightarrow> 'a list \<Rightarrow> bool" where
  "occurs pat xs \<longleftrightarrow> search pat xs \<noteq> None"

lemma search_SomeD: "search pat xs = Some i \<Longrightarrow> i + length pat \<le> length xs \<and> take (length pat) (drop i xs) = pat"
proof (induction xs arbitrary: i)
  case (Cons x xs)
  then show ?case
    by (cases i) (auto split: if_splits dest: arg_cong [of _ _ length])
qed (simp split: if_splits)

lemma search_Some_split:
  assumes "search pat xs = Some i"
  shows "xs = take i xs @ pat @ drop (i + length pat) xs"
  using search_SomeD [OF assms] by (metis add.commute append_take_drop_id drop_drop)

lemma search_first: "search pat xs = Some i \<Longrightarrow> j < i \<Longrightarrow> take (length pat) (drop j xs) \<noteq> pat"
proof (induction xs arbitrary: i j)
  case (Cons x xs)
  then show ?case by (cases j) (auto split: if_splits)
qed (simp split: if_splits)

lemma search_at: "take (length pat) (drop i xs) = pat \<Longrightarrow> i \<le> length xs \<Longrightarrow> \<exists>j \<le> i. search pat xs = Some j"
proof (induction xs arbitrary: i)
  case (Cons x xs)
  show ?case
  proof (cases "take (length pat) (x # xs) = pat")
    case False
    with Cons.prems obtain k where "i = Suc k" by (cases i) auto
    with Cons False show ?thesis by fastforce
  qed auto
qed auto

lemma search_None: "search pat xs = None \<longleftrightarrow> (\<nexists>us vs. xs = us @ pat @ vs)"
proof
  assume n: "search pat xs = None"
  show "\<nexists>us vs. xs = us @ pat @ vs"
  proof clarify
    fix us vs assume "xs = us @ pat @ vs"
    then have "take (length pat) (drop (length us) xs) = pat" "length us \<le> length xs" by simp_all
    with search_at n show False by fastforce
  qed
next
  assume "\<nexists>us vs. xs = us @ pat @ vs"
  then have "search pat xs \<noteq> Some i" for i
    using search_Some_split [of pat xs i] by blast
  then show "search pat xs = None" by (cases "search pat xs") auto
qed

lemma occurs_iff: "occurs pat xs \<longleftrightarrow> (\<exists>us vs. xs = us @ pat @ vs)"
  using search_None [of pat xs] by (auto simp: occurs_def)

text \<open>More input never moves the first occurrence.\<close>

lemma search_append: "search pat xs = Some i \<Longrightarrow> search pat (xs @ ys) = Some i"
proof (induction xs arbitrary: i)
  case Nil
  then show ?case by (cases ys) (auto split: if_splits)
next
  case (Cons x xs)
  show ?case
  proof (cases "take (length pat) (x # xs) = pat")
    case True
    then have "length pat \<le> length (x # xs)" by (metis length_take min.cobounded1)
    then have "take (length pat) ((x # xs) @ ys) = take (length pat) (x # xs)"
      by (simp only: take_append) simp
    with True Cons.prems show ?thesis by (auto split: if_splits)
  next
    case False
    with Cons.prems obtain k where k: "search pat xs = Some k" "i = Suc k" by auto
    have "take (length pat) ((x # xs) @ ys) \<noteq> pat"
    proof
      assume eq: "take (length pat) ((x # xs) @ ys) = pat"
      have "length pat \<le> length xs" using search_SomeD [OF k(1)] by simp
      then have "take (length pat) ((x # xs) @ ys) = take (length pat) (x # xs)"
        by (simp only: take_append) simp
      with eq False show False by simp
    qed
    with False k Cons.IH [OF k(1)] show ?thesis by simp
  qed
qed

lemma search_take:
  assumes "search pat xs = Some k" "k + length pat \<le> n"
  shows "search pat (take n xs) = Some k"
proof -
  have "take (length pat) (drop k (take n xs)) = pat" "k \<le> length (take n xs)"
    using search_SomeD [OF assms(1)] assms(2) by (auto simp: drop_take min_def)
  then obtain j where j: "j \<le> k" "search pat (take n xs) = Some j" using search_at by blast
  then have "search pat xs = Some j"
    using search_append [of pat "take n xs" j "drop n xs"] by simp
  with assms(1) j show ?thesis by simp
qed

text \<open>Positions without a match can be skipped.\<close>

lemma search_skip:
  "(\<And>j. j < m \<Longrightarrow> take (length pat) (drop j xs) \<noteq> pat) \<Longrightarrow> m \<le> length xs \<Longrightarrow>
     search pat xs = map_option (\<lambda>i. i + m) (search pat (drop m xs))"
proof (induction m arbitrary: xs)
  case (Suc m)
  then obtain x ys where xs: "xs = x # ys" by (cases xs) auto
  have "take (length pat) (drop j ys) \<noteq> pat" if "j < m" for j
    using Suc.prems(1) [of "Suc j"] that xs by simp
  then have "search pat ys = map_option (\<lambda>i. i + m) (search pat (drop m ys))"
    using Suc.prems(2) xs by (intro Suc.IH) auto
  moreover have "search pat xs = map_option Suc (search pat ys)"
    using Suc.prems(1) [of 0] xs by simp
  ultimately show ?case using xs by (simp add: option.map_comp comp_def)
qed (simp add: option.map_ident)

section \<open>Contiguous memory\<close>

text \<open>\<^verbatim>\<open>std::copy\<close> of \<open>ys\<close> to offset \<open>i\<close>, and \<^verbatim>\<open>std::vector::resize\<close> with value-initialised tail.\<close>

definition copy_into :: "'a list \<Rightarrow> nat \<Rightarrow> 'a list \<Rightarrow> 'a list" where
  "copy_into xs i ys = take i xs @ ys @ drop (i + length ys) xs"

definition vec_resize :: "'a \<Rightarrow> 'a list \<Rightarrow> nat \<Rightarrow> 'a list" where
  "vec_resize d xs n = take n xs @ replicate (n - length xs) d"

lemma length_copy_into [simp]: "i + length ys \<le> length xs \<Longrightarrow> length (copy_into xs i ys) = length xs"
  by (simp add: copy_into_def)

lemma length_vec_resize [simp]: "length (vec_resize d xs n) = n"
  by (simp add: vec_resize_def)

lemma take_copy_into [simp]: "i \<le> length xs \<Longrightarrow> take i (copy_into xs i ys) = take i xs"
  by (simp add: copy_into_def)

lemma slice_copy_into:
  "i \<le> j \<Longrightarrow> j + length ys \<le> length xs \<Longrightarrow>
     drop i (take (j + length ys) (copy_into xs j ys)) = drop i (take j xs) @ ys"
  by (simp add: copy_into_def)

lemma take_vec_resize [simp]: "k \<le> length xs \<Longrightarrow> k \<le> n \<Longrightarrow> take k (vec_resize d xs n) = take k xs"
  by (simp add: vec_resize_def min_def)

end
