(* ===== verification/Queue_Interface.thy ===== *)
theory Queue_Interface
  imports Prelude
begin

text \<open>
  The contract of a bounded bulk queue, as the two queues of \<^verbatim>\<open>ring_buffer.h\<close> offer it to
  their callers: a bulk enqueue that accepts as many items as fit and says how many, and a bulk
  dequeue that delivers at most as many as asked for. The lemmas of the locale are what a client
  may rely on, whatever the implementation.
\<close>

datatype 'a queue_op = Enq_bulk "'a list" | Deq_bulk usize

text \<open>
  A client run: the items the queue accepted, the items it delivered, and the final queue.
\<close>

fun queue_run ::
  "('q \<Rightarrow> 'a list \<Rightarrow> usize \<Rightarrow> usize \<times> 'q) \<Rightarrow> ('q \<Rightarrow> usize \<Rightarrow> 'a list \<times> usize \<times> 'q) \<Rightarrow>
   'q \<Rightarrow> 'a queue_op list \<Rightarrow> 'a list \<times> 'a list \<times> 'q" where
  "queue_run enq deq q [] = ([], [], q)"
| "queue_run enq deq q (Enq_bulk items # ops) =
     (let (n, q') = enq q items (of_nat (length items));
          (acc, del, q'') = queue_run enq deq q' ops
      in (take (unat n) items @ acc, del, q''))"
| "queue_run enq deq q (Deq_bulk n # ops) =
     (let (out, m, q') = deq q n;
          (acc, del, q'') = queue_run enq deq q' ops
      in (acc, out @ del, q''))"

locale bounded_queue =
  fixes enq :: "'q \<Rightarrow> 'a list \<Rightarrow> usize \<Rightarrow> usize \<times> 'q"
    and deq :: "'q \<Rightarrow> usize \<Rightarrow> 'a list \<times> usize \<times> 'q"
    and contents :: "'q \<Rightarrow> 'a list"
    and capacity :: "'q \<Rightarrow> nat"
    and invar :: "'q \<Rightarrow> bool"
  assumes bounded: "invar q \<Longrightarrow> length (contents q) \<le> capacity q"
    and enq_count: "\<lbrakk>invar q; unat count \<le> length items; enq q items count = (n, q')\<rbrakk>
      \<Longrightarrow> unat n = min (unat count) (capacity q - length (contents q))"
    and enq_contents: "\<lbrakk>invar q; unat count \<le> length items; enq q items count = (n, q')\<rbrakk>
      \<Longrightarrow> contents q' = contents q @ take (unat n) items"
    and enq_invar: "\<lbrakk>invar q; unat count \<le> length items; enq q items count = (n, q')\<rbrakk>
      \<Longrightarrow> invar q' \<and> capacity q' = capacity q"
    and deq_out: "\<lbrakk>invar q; deq q count = (out, n, q')\<rbrakk>
      \<Longrightarrow> out = take (unat count) (contents q) \<and> unat n = length out"
    and deq_contents: "\<lbrakk>invar q; deq q count = (out, n, q')\<rbrakk>
      \<Longrightarrow> contents q' = drop (unat count) (contents q)"
    and deq_invar: "\<lbrakk>invar q; deq q count = (out, n, q')\<rbrakk>
      \<Longrightarrow> invar q' \<and> capacity q' = capacity q"
begin

lemmas queue_laws = enq_contents enq_invar deq_out deq_contents deq_invar

lemma unat_of_length: "unat (of_nat (length xs) :: usize) \<le> length xs"
  by (simp add: unat_of_nat)

lemma deq_splits:
  assumes "invar q" "deq q count = (out, n, q')"
  shows "contents q = out @ contents q'"
  using deq_out [OF assms] deq_contents [OF assms] by simp

text \<open>First in, first out: what went in is what came out followed by what is still inside.\<close>

lemma run_fifo:
  "invar q \<Longrightarrow> queue_run enq deq q ops = (acc, del, q') \<Longrightarrow>
     contents q @ acc = del @ contents q' \<and> invar q' \<and> capacity q' = capacity q"
proof (induction ops arbitrary: q acc del q')
  case Nil
  then show ?case by simp
next
  case (Cons p ops)
  show ?case
  proof (cases p)
    case (Enq_bulk items)
    obtain n q1 where e: "enq q items (of_nat (length items)) = (n, q1)" by fastforce
    obtain acc1 del1 q2 where r: "queue_run enq deq q1 ops = (acc1, del1, q2)"
      by (metis prod_cases3)
    note laws = enq_contents [OF Cons.prems(1) unat_of_length e]
      enq_invar [OF Cons.prems(1) unat_of_length e]
    from laws Cons.IH [OF _ r] Cons.prems(2) Enq_bulk e r show ?thesis by auto
  next
    case (Deq_bulk count)
    obtain out n q1 where d: "deq q count = (out, n, q1)" by (metis prod_cases3)
    obtain acc1 del1 q2 where r: "queue_run enq deq q1 ops = (acc1, del1, q2)"
      by (metis prod_cases3)
    note laws = deq_splits [OF Cons.prems(1) d] deq_invar [OF Cons.prems(1) d]
    from laws Cons.IH [OF _ r] Cons.prems(2) Deq_bulk d r show ?thesis by auto
  qed
qed

lemma enq_all_or_full:
  assumes "invar q" "unat count \<le> length items" "enq q items count = (n, q')"
  shows "n = count \<or> length (contents q') = capacity q'"
proof -
  note c = enq_count [OF assms] and k = enq_contents [OF assms] and i = enq_invar [OF assms]
  have "length (contents q) \<le> capacity q" by (rule bounded [OF assms(1)])
  with c k i assms(2) show ?thesis
    by (cases "unat count \<le> capacity q - length (contents q)") (auto simp: min_def intro: unsigned_word_eqI)
qed

end

end
