(* ===== verification/Ring_Buffer.thy ===== *)
theory Ring_Buffer
  imports Prelude Queue_Interface
begin

text \<open>
  \<^verbatim>\<open>ring_buffer/include/ring_buffer.h\<close>: the shared data area \<^verbatim>\<open>RingBufferBase\<close> with its
  two free-running \<^verbatim>\<open>size_t\<close> indices, and the mutex-protected \<^verbatim>\<open>MPMCLockedQueue\<close>, whose
  operations are sequential functions because each holds the lock for its whole body.
  The lock-free \<^verbatim>\<open>SPSCQueue\<close> builds on the same base in theory \<open>Spsc_Queue\<close>.
\<close>

section \<open>RingBufferBase\<close>

text \<open>\<^verbatim>\<open>Capacity\<close> is a template parameter; in the model it is the length of \<open>buffer\<close>.\<close>

record 'a ring =
  buffer :: "'a list"
  write_idx :: usize
  read_idx :: usize

definition Capacity :: "('a, 'b) ring_scheme \<Rightarrow> usize" where
  "Capacity q = of_nat (length (buffer q))"

text \<open>The \<^verbatim>\<open>static_assert\<close> of the base class.\<close>

definition valid_capacity :: "usize \<Rightarrow> bool" where
  "valid_capacity n \<longleftrightarrow> n > 0 \<and> n AND (n - 1) = 0"

definition ring_init :: "nat \<Rightarrow> 'a \<Rightarrow> 'a ring" where
  "ring_init n d = \<lparr>buffer = replicate n d, write_idx = 0, read_idx = 0\<rparr>"

text \<open>The array subscript \<^verbatim>\<open>idx & (Capacity - 1)\<close>.\<close>

definition slot :: "usize \<Rightarrow> usize \<Rightarrow> nat" where
  "slot cap idx = unat (idx AND (cap - 1))"

text \<open>The two copy loops, from loop index \<open>i\<close> on.\<close>

fun fill_loop :: "usize \<Rightarrow> 'a list \<Rightarrow> usize \<Rightarrow> usize \<Rightarrow> 'a list \<Rightarrow> 'a list" where
  "fill_loop cap buf w i [] = buf"
| "fill_loop cap buf w i (x # xs) = fill_loop cap (buf[slot cap (w + i) := x]) w (i + 1) xs"

definition copy_loop :: "usize \<Rightarrow> 'a list \<Rightarrow> usize \<Rightarrow> nat \<Rightarrow> 'a list" where
  "copy_loop cap buf r n = map (\<lambda>i. buf ! slot cap (r + of_nat i)) [0..<n]"

section \<open>MPMCLockedQueue\<close>

definition mpmc_enqueue_bulk :: "'a ring \<Rightarrow> 'a list \<Rightarrow> usize \<Rightarrow> usize \<times> 'a ring" where
  "mpmc_enqueue_bulk q items count =
     (let w = write_idx q; r = read_idx q;
          available = Capacity q - (w - r);
          count = (if count > available then available else count)
      in if count = 0 then (0, q)
         else (count, q\<lparr>buffer := fill_loop (Capacity q) (buffer q) w 0 (take (unat count) items),
                        write_idx := w + count\<rparr>))"

definition mpmc_dequeue_bulk :: "'a ring \<Rightarrow> usize \<Rightarrow> 'a list \<times> usize \<times> 'a ring" where
  "mpmc_dequeue_bulk q count =
     (let r = read_idx q; w = write_idx q;
          available = w - r;
          count = (if count > available then available else count)
      in if count = 0 then ([], 0, q)
         else (copy_loop (Capacity q) (buffer q) r (unat count), count,
               q\<lparr>read_idx := r + count\<rparr>))"

definition mpmc_enqueue :: "'a ring \<Rightarrow> 'a \<Rightarrow> bool \<times> 'a ring" where
  "mpmc_enqueue q item = (let (n, q') = mpmc_enqueue_bulk q [item] 1 in (n = 1, q'))"

definition mpmc_dequeue :: "'a ring \<Rightarrow> 'a option \<times> 'a ring" where
  "mpmc_dequeue q =
     (let (out, n, q') = mpmc_dequeue_bulk q 1 in (if n = 1 then Some (hd out) else None, q'))"

section \<open>Slots\<close>

lemma valid_capacity_power:
  assumes "valid_capacity cap"
  obtains k where "k < 64" "cap = 2 ^ k" "unat cap = 2 ^ k"
proof -
  have pos: "0 < unat cap"
    using assms by (simp add: valid_capacity_def unat_gt_0 word_neq_0_conv)
  have "unat (cap AND (cap - 1)) = unat cap AND (unat cap - 1)"
    using pos by (simp add: unsigned_and_eq unat_sub_usize)
  then have "unat cap AND (unat cap - 1) = 0"
    using assms by (simp add: valid_capacity_def)
  with pos and_pred_eq_0_power obtain k where k: "unat cap = 2 ^ k" by blast
  have "k < 64"
  proof (rule ccontr)
    assume "\<not> k < 64"
    then have "(2::nat) ^ 64 \<le> 2 ^ k" by (intro power_increasing) auto
    moreover have "unat cap < 2 ^ 64" using usize_bound [of cap] by simp
    ultimately show False using k by simp
  qed
  moreover have "cap = 2 ^ k"
  proof -
    have "of_nat (unat cap) = (2 :: usize) ^ k" by (simp add: k)
    then show ?thesis by simp
  qed
  ultimately show thesis using k that by blast
qed

lemma slot_mod: "valid_capacity cap \<Longrightarrow> slot cap w = unat w mod unat cap"
  by (erule valid_capacity_power) (simp add: slot_def unat_and_mask)

lemma slot_add: "valid_capacity cap \<Longrightarrow> slot cap (w + of_nat i) = (unat w + i) mod unat cap"
proof (erule valid_capacity_power)
  fix k assume k: "k < 64" "cap = 2 ^ k" "unat cap = 2 ^ k"
  have dvd: "(2::nat) ^ k dvd SIZE_MAX_P1"
    using k(1) le_imp_power_dvd [of k 64 "2::nat"] by simp
  have "unat (w + of_nat i) = (unat w + i mod SIZE_MAX_P1) mod SIZE_MAX_P1"
    by (simp add: unat_word_ariths unat_of_nat)
  also have "\<dots> = (unat w + i) mod SIZE_MAX_P1"
    by (simp add: mod_add_right_eq)
  finally have "unat (w + of_nat i) mod 2 ^ k = (unat w + i) mod 2 ^ k"
    using dvd by (simp add: mod_mod_cancel)
  then show ?thesis using k by (simp add: slot_def unat_and_mask)
qed

lemma slot_less: "valid_capacity cap \<Longrightarrow> slot cap w < unat cap"
  by (simp add: slot_mod valid_capacity_def unat_gt_0 word_neq_0_conv)

lemma slot_inj:
  assumes "valid_capacity cap" "i < unat cap" "j < unat cap"
    "slot cap (w + of_nat i) = slot cap (w + of_nat j)"
  shows "i = j"
proof -
  have "(unat w + i) mod unat cap = (unat w + j) mod unat cap"
    using assms by (simp add: slot_add)
  then show ?thesis using assms(2,3) by (rule mod_add_inj)
qed

section \<open>The copy loops\<close>

lemma length_fill_loop [simp]: "length (fill_loop cap buf w i xs) = length buf"
  by (induction cap buf w i xs rule: fill_loop.induct) simp_all

lemma length_copy_loop [simp]: "length (copy_loop cap buf r n) = n"
  by (simp add: copy_loop_def)

lemma nth_copy_loop [simp]: "i < n \<Longrightarrow> copy_loop cap buf r n ! i = buf ! slot cap (r + of_nat i)"
  by (simp add: copy_loop_def)

lemma fill_loop_untouched:
  "(\<And>j. j < length xs \<Longrightarrow> slot cap (w + i + of_nat j) \<noteq> s) \<Longrightarrow> fill_loop cap buf w i xs ! s = buf ! s"
proof (induction cap buf w i xs rule: fill_loop.induct)
  case (2 cap buf w i x xs)
  have "slot cap (w + (i + 1) + of_nat j) \<noteq> s" if "j < length xs" for j
    using "2.prems" [of "Suc j"] that by (simp add: ac_simps)
  with "2.IH" have "fill_loop cap buf w i (x # xs) ! s = buf[slot cap (w + i) := x] ! s"
    by simp
  moreover have "slot cap (w + i) \<noteq> s" using "2.prems" [of 0] by simp
  ultimately show ?case by simp
qed simp

lemma fill_loop_written:
  assumes "valid_capacity cap" "length buf = unat cap"
  shows "length xs \<le> unat cap \<Longrightarrow> j < length xs \<Longrightarrow>
    fill_loop cap buf w i xs ! slot cap (w + i + of_nat j) = xs ! j"
  using assms(2)
proof (induction xs arbitrary: buf i j)
  case (Cons x xs)
  let ?b = "buf[slot cap (w + i) := x]"
  show ?case
  proof (cases j)
    case 0
    have "slot cap (w + (i + 1) + of_nat k) \<noteq> slot cap (w + i)" if "k < length xs" for k
      using slot_inj [OF assms(1), of "Suc k" 0 "w + i"] that Cons.prems(1)
      by (auto simp: ac_simps)
    then have "fill_loop cap ?b w (i + 1) xs ! slot cap (w + i) = ?b ! slot cap (w + i)"
      by (rule fill_loop_untouched)
    with 0 Cons.prems(3) slot_less [OF assms(1)] show ?thesis by simp
  next
    case (Suc k)
    then show ?thesis
      using Cons.IH [of k ?b "i + 1"] Cons.prems by (simp add: ac_simps)
  qed
qed simp

lemma copy_loop_append:
  "copy_loop cap buf r (m + n) = copy_loop cap buf r m @ copy_loop cap buf (r + of_nat m) n"
  by (rule nth_equalityI) (auto simp: nth_append add.assoc simp flip: of_nat_add)

section \<open>The queue a ring stands for\<close>

definition contents :: "('a, 'b) ring_scheme \<Rightarrow> 'a list" where
  "contents q =
     copy_loop (Capacity q) (buffer q) (read_idx q) (unat (write_idx q - read_idx q))"

definition ring_ok :: "('a, 'b) ring_scheme \<Rightarrow> bool" where
  "ring_ok q \<longleftrightarrow> length (buffer q) < SIZE_MAX_P1 \<and> valid_capacity (Capacity q) \<and>
     unat (write_idx q - read_idx q) \<le> length (buffer q)"

lemma ring_okD [dest]:
  assumes "ring_ok q"
  shows "valid_capacity (Capacity q)" "unat (Capacity q) = length (buffer q)"
    "unat (write_idx q - read_idx q) \<le> length (buffer q)"
    "length (contents q) = unat (write_idx q - read_idx q)"
  using assms by (auto simp: ring_ok_def Capacity_def contents_def unat_of_nat_usize)

lemma ring_ok_bound: "ring_ok q \<Longrightarrow> length (buffer q) < SIZE_MAX_P1"
  by (simp add: ring_ok_def)

lemma ring_init_ok:
  "n < SIZE_MAX_P1 \<Longrightarrow> valid_capacity (of_nat n) \<Longrightarrow> ring_ok (ring_init n d)"
  by (simp add: ring_ok_def ring_init_def Capacity_def)

lemma ring_init_contents: "contents (ring_init n d) = []"
  by (simp add: contents_def ring_init_def copy_loop_def)

text \<open>
  Filling the slots from index \<open>w\<close> on leaves the \<open>d\<close> elements behind \<open>w\<close> alone and puts the
  new ones after them, as long as all of them fit into the ring.
\<close>

lemma copy_after_fill:
  assumes "valid_capacity cap" "length buf = unat cap" "d + length xs \<le> unat cap"
    "w = r + of_nat d"
  shows "copy_loop cap (fill_loop cap buf w 0 xs) r (d + length xs) = copy_loop cap buf r d @ xs"
proof (rule nth_equalityI)
  fix i assume "i < length (copy_loop cap (fill_loop cap buf w 0 xs) r (d + length xs))"
  then have i: "i < d + length xs" by simp
  show "copy_loop cap (fill_loop cap buf w 0 xs) r (d + length xs) ! i = (copy_loop cap buf r d @ xs) ! i"
  proof (cases "i < d")
    case True
    have "slot cap (w + 0 + of_nat j) \<noteq> slot cap (r + of_nat i)" if "j < length xs" for j
      using slot_inj [OF assms(1), of "d + j" i r] that assms(3,4) True
      by (auto simp: add.assoc)
    then have "fill_loop cap buf w 0 xs ! slot cap (r + of_nat i) = buf ! slot cap (r + of_nat i)"
      by (rule fill_loop_untouched)
    with True i show ?thesis by (simp add: nth_append)
  next
    case False
    then obtain j where j: "i = d + j" "j < length xs" using i by (metis add.commute
          less_diff_conv2 linorder_not_less le_iff_add nat_add_left_cancel_less)
    have "fill_loop cap buf w 0 xs ! slot cap (w + 0 + of_nat j) = xs ! j"
      using assms(3) j(2) by (intro fill_loop_written [OF assms(1,2)]) auto
    with j i show ?thesis by (simp add: nth_append assms(4) add.assoc)
  qed
qed simp

definition accepted :: "('a, 'b) ring_scheme \<Rightarrow> usize \<Rightarrow> usize" where
  "accepted q count = min count (Capacity q - (write_idx q - read_idx q))"

lemma accepted_unat:
  assumes "ring_ok q"
  shows "unat (accepted q count) = min (unat count) (length (buffer q) - length (contents q))"
proof -
  note ok = ring_okD [OF assms]
  have "unat (Capacity q - (write_idx q - read_idx q)) = length (buffer q) - length (contents q)"
    using ok by (simp add: unat_sub_usize)
  then show ?thesis
    by (simp add: accepted_def min_def usize_le_iff)
qed

lemma mpmc_enqueue_bulk_eq:
  "mpmc_enqueue_bulk q items count =
     (if accepted q count = 0 then (0, q)
      else (accepted q count,
        q\<lparr>buffer := fill_loop (Capacity q) (buffer q) (write_idx q) 0 (take (unat (accepted q count)) items),
          write_idx := write_idx q + accepted q count\<rparr>))"
  by (simp add: mpmc_enqueue_bulk_def accepted_def Let_def min_def not_less [symmetric])

lemma mpmc_enqueue_bulk_correct:
  assumes "ring_ok q" "unat count \<le> length items" "mpmc_enqueue_bulk q items count = (n, q')"
  shows "unat n = min (unat count) (length (buffer q) - length (contents q))"
    and "contents q' = contents q @ take (unat n) items"
    and "ring_ok q'" and "length (buffer q') = length (buffer q)"
proof -
  note ok = ring_okD [OF assms(1)]
  have n: "n = accepted q count" and q': "q' = (if n = 0 then q else
      q\<lparr>buffer := fill_loop (Capacity q) (buffer q) (write_idx q) 0 (take (unat n) items),
        write_idx := write_idx q + n\<rparr>)"
    using assms(3) by (auto simp: mpmc_enqueue_bulk_eq split: if_splits)
  show cnt: "unat n = min (unat count) (length (buffer q) - length (contents q))"
    using accepted_unat [OF assms(1)] n by simp
  let ?d = "unat (write_idx q - read_idx q)"
  have fits: "?d + unat n \<le> unat (Capacity q)" and len: "length (take (unat n) items) = unat n"
    using cnt ok assms(2) by auto
  have d': "unat (write_idx q + n - read_idx q) = ?d + unat n"
    using usize_distance_split [of "write_idx q" "read_idx q" "write_idx q + n"] fits
      usize_bound [of "Capacity q"] by simp
  show len': "length (buffer q') = length (buffer q)" by (simp add: q')
  have cap': "Capacity q' = Capacity q" by (simp add: Capacity_def len')
  show "contents q' = contents q @ take (unat n) items"
    using copy_after_fill [OF ok(1), of "buffer q" ?d "take (unat n) items" "write_idx q" "read_idx q"]
      ok fits len d'
    by (cases "n = 0") (simp_all add: contents_def Capacity_def q' del: length_take)
  show "ring_ok q'"
    using assms(1) ok fits d' by (cases "n = 0") (simp_all add: ring_ok_def cap' q' Capacity_def)
qed

definition delivered :: "('a, 'b) ring_scheme \<Rightarrow> usize \<Rightarrow> usize" where
  "delivered q count = min count (write_idx q - read_idx q)"

lemma mpmc_dequeue_bulk_eq:
  "mpmc_dequeue_bulk q count =
     (if delivered q count = 0 then ([], 0, q)
      else (copy_loop (Capacity q) (buffer q) (read_idx q) (unat (delivered q count)),
            delivered q count, q\<lparr>read_idx := read_idx q + delivered q count\<rparr>))"
  by (simp add: mpmc_dequeue_bulk_def delivered_def Let_def min_def not_less [symmetric])

lemma delivered_unat:
  "ring_ok q \<Longrightarrow> unat (delivered q count) = min (unat count) (length (contents q))"
  by (auto dest!: ring_okD simp: delivered_def min_def usize_le_iff)

lemma contents_advance:
  assumes "m \<le> unat (write_idx q - read_idx q)"
  shows "contents q = copy_loop (Capacity q) (buffer q) (read_idx q) m @
      copy_loop (Capacity q) (buffer q) (read_idx q + of_nat m) (unat (write_idx q - read_idx q) - m)"
  using copy_loop_append [of "Capacity q" "buffer q" "read_idx q" m] assms
  by (metis contents_def le_add_diff_inverse)

lemma distance_advance:
  fixes r w m :: usize
  assumes "unat m \<le> unat (w - r)"
  shows "unat (w - (r + m)) = unat (w - r) - unat m"
  using unat_sub_usize [OF assms] by (simp add: algebra_simps)

lemma mpmc_dequeue_bulk_correct:
  assumes "ring_ok q" "mpmc_dequeue_bulk q count = (out, n, q')"
  shows "out = take (unat count) (contents q)" and "unat n = length out"
    and "contents q' = drop (unat count) (contents q)"
    and "ring_ok q'" and "length (buffer q') = length (buffer q)"
proof -
  note ok = ring_okD [OF assms(1)]
  have n: "n = delivered q count"
    and out: "out = copy_loop (Capacity q) (buffer q) (read_idx q) (unat n)"
    and q': "q' = q\<lparr>read_idx := read_idx q + n\<rparr>"
    using assms(2) by (auto simp: mpmc_dequeue_bulk_eq copy_loop_def split: if_splits)
  have cnt: "unat n = min (unat count) (length (contents q))"
    using delivered_unat [OF assms(1)] n by simp
  then have le: "unat n \<le> unat (write_idx q - read_idx q)" using ok by simp
  have cap': "Capacity q' = Capacity q" by (simp add: Capacity_def q')
  have split: "contents q = out @ contents q'"
    using contents_advance [OF le] distance_advance [OF le] out
    by (simp add: q' contents_def [of "q\<lparr>read_idx := read_idx q + n\<rparr>"] cap' [unfolded q'])
  show len: "unat n = length out" by (simp add: out)
  show "out = take (unat count) (contents q)" "contents q' = drop (unat count) (contents q)"
    using split cnt len by (auto simp: min_def split: if_splits)
  show "ring_ok q'" "length (buffer q') = length (buffer q)"
    using assms(1) distance_advance [OF le] le by (auto simp: ring_ok_def q' Capacity_def)
qed

interpretation mpmc: bounded_queue mpmc_enqueue_bulk mpmc_dequeue_bulk contents
  "\<lambda>q. length (buffer q)" ring_ok
proof (unfold_locales, goal_cases)
  case (1 q)
  then show ?case using ring_okD(3,4) by metis
next
  case (2 q count items n q')
  then show ?case by (rule mpmc_enqueue_bulk_correct(1))
next
  case (3 q count items n q')
  then show ?case by (rule mpmc_enqueue_bulk_correct(2))
next
  case (4 q count items n q')
  then show ?case using mpmc_enqueue_bulk_correct(3,4) by metis
next
  case (5 q count out n q')
  then show ?case using mpmc_dequeue_bulk_correct(1,2) by metis
next
  case (6 q count out n q')
  then show ?case by (rule mpmc_dequeue_bulk_correct(3))
next
  case (7 q count out n q')
  then show ?case using mpmc_dequeue_bulk_correct(4,5) by metis
qed

section \<open>What a caller of MPMCLockedQueue may rely on\<close>

text \<open>
  C19: Any sequence of bulk calls keeps the queue a first-in-first-out queue bounded by the
  capacity, from any state of the indices, wrapped around or not: the items held at first and
  the accepted ones are, in this order, the delivered ones and the ones still held.
\<close>

theorem mpmc_fifo:
  assumes "ring_ok q" "queue_run mpmc_enqueue_bulk mpmc_dequeue_bulk q ops = (acc, del, q')"
  shows "contents q @ acc = del @ contents q' \<and> length (contents q') \<le> length (buffer q)"
  using mpmc.run_fifo [OF assms] mpmc.bounded [of q'] by auto

definition wrapping_ring :: "nat ring" where
  "wrapping_ring = \<lparr>buffer = [0, 0, 0, 0], write_idx = - 1, read_idx = - 2\<rparr>"

definition full_ring :: "nat ring" where
  "full_ring = \<lparr>buffer = [2, 3, 0, 1], write_idx = 2, read_idx = - 2\<rparr>"

definition drained_ring :: "nat ring" where
  "drained_ring = full_ring\<lparr>read_idx := 0\<rparr>"

lemma wrapping_ring_ok: "ring_ok wrapping_ring"
  by (simp add: ring_ok_def wrapping_ring_def valid_capacity_def Capacity_def)

theorem mpmc_fifo_witness:
  "contents wrapping_ring @ [1, 2, 3] = [0, 1] @ contents drained_ring \<and>
    length (contents drained_ring) \<le> length (buffer wrapping_ring)"
proof (rule mpmc_fifo)
  show "ring_ok wrapping_ring" by (rule wrapping_ring_ok)
  show "queue_run mpmc_enqueue_bulk mpmc_dequeue_bulk wrapping_ring
      [Enq_bulk [1, 2, 3, 4, 5], Deq_bulk 2] =
    ([1, 2, 3], [0, 1], drained_ring)"
    by code_simp
qed

text \<open>
  C37: One bulk enqueue accepts exactly as many items as there is room for, appends them in
  order, and keeps the ring well-formed; a bulk dequeue delivers the oldest ones and removes them.
\<close>

theorem mpmc_bulk_refines:
  assumes "ring_ok q" "unat count \<le> length items"
    "mpmc_enqueue_bulk q items count = (n, q1)" "mpmc_dequeue_bulk q1 m = (out, k, q2)"
  shows "unat n = min (unat count) (length (buffer q) - length (contents q)) \<and>
    contents q1 = contents q @ take (unat n) items \<and>
    out = take (unat m) (contents q1) \<and> contents q2 = drop (unat m) (contents q1) \<and> ring_ok q2"
  using mpmc_enqueue_bulk_correct [OF assms(1-3)]
    mpmc_dequeue_bulk_correct [OF mpmc_enqueue_bulk_correct(3) [OF assms(1-3)] assms(4)]
  by blast

theorem mpmc_bulk_refines_witness:
  "unat (3::usize) = min (unat (5::usize)) (length (buffer wrapping_ring) - length (contents wrapping_ring)) \<and>
    contents full_ring =
      contents wrapping_ring @ take (unat (3::usize)) [1, 2, 3, 4, 5] \<and>
    [0, 1] = take (unat (2::usize)) (contents full_ring) \<and>
    contents drained_ring =
      drop (unat (2::usize)) (contents full_ring) \<and>
    ring_ok drained_ring"
proof (rule mpmc_bulk_refines [where items = "[1, 2, 3, 4, 5]" and k = 2 and m = 2])
  show "ring_ok wrapping_ring" by (rule wrapping_ring_ok)
  show "unat (5::usize) \<le> length [1, 2, 3, 4, 5 :: nat]" by simp
  show "mpmc_enqueue_bulk wrapping_ring [1, 2, 3, 4, 5] 5 =
      (3, full_ring)" by code_simp
  show "mpmc_dequeue_bulk full_ring 2 =
      ([0, 1], 2, drained_ring)" by code_simp
qed

end
