(* ===== verification/Spsc_Queue.thy ===== *)
theory Spsc_Queue
  imports Ring_Buffer
begin

text \<open>
  \<^verbatim>\<open>SPSCQueue\<close> of \<^verbatim>\<open>ring_buffer/include/ring_buffer.h\<close>: one producer thread inside
  \<^verbatim>\<open>enqueue_bulk\<close> and one consumer thread inside \<^verbatim>\<open>dequeue_bulk\<close>, interleaved at every
  atomic operation and at every element copied. Each rule of the step relation is one atomic
  action of the source; the acquire/release orders of the source make the interleaving of these
  actions the right semantics for the data slots. A weak compare-and-swap may fail spuriously,
  so its failing rule has no guard. The fields \<open>pushed\<close> and \<open>popped\<close> are history: the
  items of the committed batches and the items handed to the consumer.
\<close>

section \<open>State\<close>

record 'a spsc = "'a ring" +
  commit_idx :: usize

text \<open>Where \<^verbatim>\<open>enqueue_bulk\<close> is, with its locals \<^verbatim>\<open>write_idx\<close>, \<^verbatim>\<open>items\<close>, \<^verbatim>\<open>count\<close>, \<^verbatim>\<open>i\<close>.\<close>

datatype 'a producer =
    P_Idle
  | P_LoadRead usize "'a list" usize
  | P_Cas usize "'a list" usize
  | P_Fill usize "'a list" usize nat
  | P_Spin usize "'a list" usize
  | P_Store usize "'a list" usize

text \<open>Where \<^verbatim>\<open>dequeue_bulk\<close> is, with \<^verbatim>\<open>read_idx\<close>, \<^verbatim>\<open>count\<close> or \<^verbatim>\<open>actual\<close>, and \<^verbatim>\<open>out\<close>.\<close>

datatype 'a consumer =
    C_Idle
  | C_LoadCommit usize usize
  | C_Copy usize usize "'a list"
  | C_Cas usize usize "'a list"

record 'a spsc_sys =
  queue :: "'a spsc"
  prod :: "'a producer"
  cons :: "'a consumer"
  pushed :: "'a list"
  popped :: "'a list"

definition spsc_init :: "nat \<Rightarrow> 'a \<Rightarrow> 'a spsc_sys" where
  "spsc_init n d =
     \<lparr>queue = \<lparr>buffer = replicate n d, write_idx = 0, read_idx = 0, commit_idx = 0\<rparr>,
      prod = P_Idle, cons = C_Idle, pushed = [], popped = []\<rparr>"

section \<open>Steps\<close>

text \<open>The room computation, done at the first load and after every failed exchange.\<close>

definition clamp_free :: "'a spsc \<Rightarrow> usize \<Rightarrow> usize \<Rightarrow> usize" where
  "clamp_free q w count =
     (let available = Capacity q - (w - read_idx q)
      in if count > available then available else count)"

definition clamp_used :: "'a spsc \<Rightarrow> usize \<Rightarrow> usize \<Rightarrow> usize" where
  "clamp_used q r count =
     (let available = commit_idx q - r in if count \<le> available then count else available)"

definition fill_slot :: "'a spsc \<Rightarrow> usize \<Rightarrow> 'a list \<Rightarrow> nat \<Rightarrow> 'a spsc" where
  "fill_slot q w items i =
     q\<lparr>buffer := (buffer q)[slot (Capacity q) (w + of_nat i) := items ! i]\<rparr>"

inductive producer_step :: "'a spsc_sys \<Rightarrow> 'a spsc_sys \<Rightarrow> bool" where
  enq_call: "prod s = P_Idle \<Longrightarrow> unat count \<le> length items \<Longrightarrow>
    producer_step s (s\<lparr>prod := P_LoadRead (write_idx (queue s)) items count\<rparr>)"
| enq_load: "prod s = P_LoadRead w items count \<Longrightarrow> c = clamp_free (queue s) w count \<Longrightarrow>
    producer_step s (s\<lparr>prod := if c = 0 then P_Idle else P_Cas w items c\<rparr>)"
| enq_cas: "prod s = P_Cas w items count \<Longrightarrow> write_idx (queue s) = w \<Longrightarrow>
    producer_step s (s\<lparr>queue := (queue s)\<lparr>write_idx := w + count\<rparr>, prod := P_Fill w items count 0\<rparr>)"
| enq_cas_fail: "prod s = P_Cas w items count \<Longrightarrow>
    producer_step s (s\<lparr>prod := P_LoadRead (write_idx (queue s)) items count\<rparr>)"
| enq_fill: "prod s = P_Fill w items count i \<Longrightarrow> i < unat count \<Longrightarrow>
    producer_step s (s\<lparr>queue := fill_slot (queue s) w items i, prod := P_Fill w items count (i + 1)\<rparr>)"
| enq_filled: "prod s = P_Fill w items count i \<Longrightarrow> \<not> i < unat count \<Longrightarrow>
    producer_step s (s\<lparr>prod := P_Spin w items count\<rparr>)"
| enq_spin: "prod s = P_Spin w items count \<Longrightarrow> commit_idx (queue s) \<noteq> w \<Longrightarrow>
    producer_step s s"
| enq_spun: "prod s = P_Spin w items count \<Longrightarrow> commit_idx (queue s) = w \<Longrightarrow>
    producer_step s (s\<lparr>prod := P_Store w items count\<rparr>)"
| enq_commit: "prod s = P_Store w items count \<Longrightarrow>
    producer_step s (s\<lparr>queue := (queue s)\<lparr>commit_idx := w + count\<rparr>, prod := P_Idle,
      pushed := pushed s @ take (unat count) items\<rparr>)"

inductive consumer_step :: "'a spsc_sys \<Rightarrow> 'a spsc_sys \<Rightarrow> bool" where
  deq_call: "cons s = C_Idle \<Longrightarrow>
    consumer_step s (s\<lparr>cons := C_LoadCommit (read_idx (queue s)) count\<rparr>)"
| deq_load: "cons s = C_LoadCommit r count \<Longrightarrow> actual = clamp_used (queue s) r count \<Longrightarrow>
    consumer_step s (s\<lparr>cons := if actual = 0 then C_Idle else C_Copy r actual []\<rparr>)"
| deq_copy: "cons s = C_Copy r actual out \<Longrightarrow> length out < unat actual \<Longrightarrow>
    consumer_step s (s\<lparr>cons := C_Copy r actual
      (out @ [buffer (queue s) ! slot (Capacity (queue s)) (r + of_nat (length out))])\<rparr>)"
| deq_copied: "cons s = C_Copy r actual out \<Longrightarrow> \<not> length out < unat actual \<Longrightarrow>
    consumer_step s (s\<lparr>cons := C_Cas r actual out\<rparr>)"
| deq_cas: "cons s = C_Cas r actual out \<Longrightarrow> read_idx (queue s) = r \<Longrightarrow>
    consumer_step s (s\<lparr>queue := (queue s)\<lparr>read_idx := r + actual\<rparr>, cons := C_Idle,
      popped := popped s @ out\<rparr>)"
| deq_cas_fail: "cons s = C_Cas r actual out \<Longrightarrow>
    consumer_step s s"

inductive spsc_reachable :: "nat \<Rightarrow> 'a \<Rightarrow> 'a spsc_sys \<Rightarrow> bool" for n d where
  start: "spsc_reachable n d (spsc_init n d)"
| produce: "spsc_reachable n d s \<Longrightarrow> producer_step s t \<Longrightarrow> spsc_reachable n d t"
| consume: "spsc_reachable n d s \<Longrightarrow> consumer_step s t \<Longrightarrow> spsc_reachable n d t"

inductive_cases producer_stepE: "producer_step s t"
inductive_cases consumer_stepE: "consumer_step s t"

section \<open>The steps as a function\<close>

text \<open>
  The same steps, executable: a schedule is a list of actions, each of which calls one of the two
  operations, lets one thread take its next step, or makes a pending exchange fail.
\<close>

datatype 'a action =
    Call_enqueue "'a list" usize
  | Call_dequeue usize
  | Producer
  | Consumer
  | Producer_cas_fails
  | Consumer_cas_fails

definition producer_next :: "'a spsc_sys \<Rightarrow> 'a spsc_sys option" where
  "producer_next s = (case prod s of
     P_Idle \<Rightarrow> None
   | P_LoadRead w items count \<Rightarrow>
       let c = clamp_free (queue s) w count
       in Some (s\<lparr>prod := if c = 0 then P_Idle else P_Cas w items c\<rparr>)
   | P_Cas w items count \<Rightarrow>
       if write_idx (queue s) = w
       then Some (s\<lparr>queue := (queue s)\<lparr>write_idx := w + count\<rparr>, prod := P_Fill w items count 0\<rparr>)
       else Some (s\<lparr>prod := P_LoadRead (write_idx (queue s)) items count\<rparr>)
   | P_Fill w items count i \<Rightarrow>
       if i < unat count
       then Some (s\<lparr>queue := fill_slot (queue s) w items i, prod := P_Fill w items count (i + 1)\<rparr>)
       else Some (s\<lparr>prod := P_Spin w items count\<rparr>)
   | P_Spin w items count \<Rightarrow>
       if commit_idx (queue s) = w then Some (s\<lparr>prod := P_Store w items count\<rparr>) else Some s
   | P_Store w items count \<Rightarrow>
       Some (s\<lparr>queue := (queue s)\<lparr>commit_idx := w + count\<rparr>, prod := P_Idle,
         pushed := pushed s @ take (unat count) items\<rparr>))"

definition consumer_next :: "'a spsc_sys \<Rightarrow> 'a spsc_sys option" where
  "consumer_next s = (case cons s of
     C_Idle \<Rightarrow> None
   | C_LoadCommit r count \<Rightarrow>
       let actual = clamp_used (queue s) r count
       in Some (s\<lparr>cons := if actual = 0 then C_Idle else C_Copy r actual []\<rparr>)
   | C_Copy r actual out \<Rightarrow>
       if length out < unat actual
       then Some (s\<lparr>cons := C_Copy r actual
         (out @ [buffer (queue s) ! slot (Capacity (queue s)) (r + of_nat (length out))])\<rparr>)
       else Some (s\<lparr>cons := C_Cas r actual out\<rparr>)
   | C_Cas r actual out \<Rightarrow>
       if read_idx (queue s) = r
       then Some (s\<lparr>queue := (queue s)\<lparr>read_idx := r + actual\<rparr>, cons := C_Idle,
         popped := popped s @ out\<rparr>)
       else Some s)"

fun spsc_next :: "'a spsc_sys \<Rightarrow> 'a action \<Rightarrow> 'a spsc_sys option" where
  "spsc_next s (Call_enqueue items count) =
     (if prod s = P_Idle \<and> unat count \<le> length items
      then Some (s\<lparr>prod := P_LoadRead (write_idx (queue s)) items count\<rparr>) else None)"
| "spsc_next s (Call_dequeue count) =
     (if cons s = C_Idle then Some (s\<lparr>cons := C_LoadCommit (read_idx (queue s)) count\<rparr>) else None)"
| "spsc_next s Producer = producer_next s"
| "spsc_next s Consumer = consumer_next s"
| "spsc_next s Producer_cas_fails = (case prod s of
     P_Cas w items count \<Rightarrow> Some (s\<lparr>prod := P_LoadRead (write_idx (queue s)) items count\<rparr>)
   | _ \<Rightarrow> None)"
| "spsc_next s Consumer_cas_fails = (case cons s of C_Cas r actual out \<Rightarrow> Some s | _ \<Rightarrow> None)"

fun spsc_run :: "'a spsc_sys \<Rightarrow> 'a action list \<Rightarrow> 'a spsc_sys option" where
  "spsc_run s [] = Some s"
| "spsc_run s (a # as) = (case spsc_next s a of None \<Rightarrow> None | Some t \<Rightarrow> spsc_run t as)"

lemma producer_next_step:
  assumes "producer_next s = Some t"
  shows "producer_step s t"
proof (cases "prod s")
  case (P_LoadRead w items count)
  with assms enq_load [OF P_LoadRead refl] show ?thesis by (simp add: producer_next_def Let_def)
next
  case (P_Fill w items count i)
  with assms enq_fill [OF P_Fill] show ?thesis
    by (auto simp: producer_next_def intro: enq_filled split: if_splits)
qed (use assms in \<open>auto simp: producer_next_def intro: producer_step.intros split: if_splits\<close>)

lemma consumer_next_step:
  assumes "consumer_next s = Some t"
  shows "consumer_step s t"
proof (cases "cons s")
  case (C_LoadCommit r count)
  with assms deq_load [OF C_LoadCommit refl] show ?thesis by (simp add: consumer_next_def Let_def)
qed (use assms in \<open>auto simp: consumer_next_def intro: consumer_step.intros split: if_splits\<close>)

lemma spsc_next_step: "spsc_next s a = Some t \<Longrightarrow> producer_step s t \<or> consumer_step s t"
  by (cases a) (auto dest: producer_next_step consumer_next_step
      intro: producer_step.intros consumer_step.intros
      split: producer.splits consumer.splits if_splits)

lemma spsc_run_reachable:
  "spsc_reachable n d s \<Longrightarrow> spsc_run s as = Some t \<Longrightarrow> spsc_reachable n d t"
proof (induction as arbitrary: s)
  case (Cons a as)
  then obtain u where "spsc_next s a = Some u" and u: "spsc_run u as = Some t"
    by (auto split: option.splits)
  then have "spsc_reachable n d u"
    using Cons.prems(1) by (blast dest: spsc_next_step intro: produce consume)
  then show ?case using u by (rule Cons.IH)
qed simp

section \<open>Invariant\<close>

text \<open>The committed part of the ring: what a consumer may still read.\<close>

definition committed :: "'a spsc \<Rightarrow> 'a list" where
  "committed q =
     copy_loop (Capacity q) (buffer q) (read_idx q) (unat (commit_idx q - read_idx q))"

text \<open>Between two batches everything reserved is committed; in a batch, exactly the batch is not.\<close>

definition between_batches :: "'a spsc \<Rightarrow> bool" where
  "between_batches q \<longleftrightarrow>
     commit_idx q = write_idx q \<and> unat (write_idx q - read_idx q) \<le> length (buffer q)"

definition in_batch :: "'a spsc \<Rightarrow> usize \<Rightarrow> 'a list \<Rightarrow> usize \<Rightarrow> nat \<Rightarrow> bool" where
  "in_batch q w items count i \<longleftrightarrow>
     commit_idx q = w \<and> write_idx q = w + count \<and> unat count \<le> length items \<and>
     unat (w - read_idx q) + unat count \<le> length (buffer q) \<and> i \<le> unat count \<and>
     (\<forall>j < i. buffer q ! slot (Capacity q) (w + of_nat j) = items ! j)"

fun producer_inv :: "'a spsc \<Rightarrow> 'a producer \<Rightarrow> bool" where
  "producer_inv q P_Idle \<longleftrightarrow> between_batches q"
| "producer_inv q (P_LoadRead w items count) \<longleftrightarrow>
     between_batches q \<and> w = write_idx q \<and> unat count \<le> length items"
| "producer_inv q (P_Cas w items count) \<longleftrightarrow>
     between_batches q \<and> w = write_idx q \<and> unat count \<le> length items \<and>
     unat (w - read_idx q) + unat count \<le> length (buffer q)"
| "producer_inv q (P_Fill w items count i) \<longleftrightarrow> in_batch q w items count i"
| "producer_inv q (P_Spin w items count) \<longleftrightarrow> in_batch q w items count (unat count)"
| "producer_inv q (P_Store w items count) \<longleftrightarrow> in_batch q w items count (unat count)"

fun consumer_inv :: "'a spsc \<Rightarrow> 'a consumer \<Rightarrow> bool" where
  "consumer_inv q C_Idle \<longleftrightarrow> True"
| "consumer_inv q (C_LoadCommit r count) \<longleftrightarrow> r = read_idx q"
| "consumer_inv q (C_Copy r actual out) \<longleftrightarrow>
     r = read_idx q \<and> unat actual \<le> unat (commit_idx q - read_idx q) \<and> length out \<le> unat actual \<and>
     out = take (length out) (committed q)"
| "consumer_inv q (C_Cas r actual out) \<longleftrightarrow>
     r = read_idx q \<and> unat actual \<le> unat (commit_idx q - read_idx q) \<and> length out = unat actual \<and>
     out = take (length out) (committed q)"

definition spsc_inv :: "'a spsc_sys \<Rightarrow> bool" where
  "spsc_inv s \<longleftrightarrow>
     length (buffer (queue s)) < SIZE_MAX_P1 \<and> valid_capacity (Capacity (queue s)) \<and>
     popped s @ committed (queue s) = pushed s \<and>
     producer_inv (queue s) (prod s) \<and> consumer_inv (queue s) (cons s)"

lemma spsc_init_inv: "n < SIZE_MAX_P1 \<Longrightarrow> valid_capacity (of_nat n) \<Longrightarrow> spsc_inv (spsc_init n d)"
  by (simp add: spsc_inv_def spsc_init_def Capacity_def committed_def copy_loop_def between_batches_def)

lemma Capacity_simps [simp]:
  "Capacity (q\<lparr>write_idx := w\<rparr>) = Capacity q"
  "Capacity (q\<lparr>read_idx := r\<rparr>) = Capacity q"
  "Capacity (q'\<lparr>commit_idx := c\<rparr>) = Capacity q'"
  "Capacity (fill_slot q' w items i) = Capacity q'"
  by (simp_all add: Capacity_def fill_slot_def)

lemma fill_slot_simps [simp]:
  "buffer (fill_slot q w items i) = (buffer q)[slot (Capacity q) (w + of_nat i) := items ! i]"
  "write_idx (fill_slot q w items i) = write_idx q"
  "read_idx (fill_slot q w items i) = read_idx q"
  "commit_idx (fill_slot q w items i) = commit_idx q"
  by (simp_all add: fill_slot_def)

lemma length_committed [simp]: "length (committed q) = unat (commit_idx q - read_idx q)"
  by (simp add: committed_def)

lemma producer_inv_bound:
  "producer_inv q p \<Longrightarrow> unat (commit_idx q - read_idx q) \<le> length (buffer q)"
  by (cases p) (auto simp: between_batches_def in_batch_def)

section \<open>The producer keeps it\<close>

text \<open>A slot past the committed range is not a slot of the committed range.\<close>

lemma slot_past_committed:
  assumes "valid_capacity (Capacity q)" "length (buffer q) < SIZE_MAX_P1"
    "unat (w - read_idx q) + i < length (buffer q)" "k < unat (w - read_idx q) + i"
  shows "slot (Capacity q) (read_idx q + of_nat k) \<noteq> slot (Capacity q) (w + of_nat i)"
proof
  assume eq: "slot (Capacity q) (read_idx q + of_nat k) = slot (Capacity q) (w + of_nat i)"
  have cap: "unat (Capacity q) = length (buffer q)"
    using assms(2) by (simp add: Capacity_def unat_of_nat_usize)
  have "w + of_nat i = read_idx q + of_nat (unat (w - read_idx q) + i)" by simp
  with eq have eq': "slot (Capacity q) (read_idx q + of_nat k)
      = slot (Capacity q) (read_idx q + of_nat (unat (w - read_idx q) + i))" by metis
  have "k < unat (Capacity q)" "unat (w - read_idx q) + i < unat (Capacity q)"
    using assms(3,4) cap by linarith+
  then have "k = unat (w - read_idx q) + i" using eq' by (rule slot_inj [OF assms(1)])
  with assms(4) show False by simp
qed

lemma committed_fill_slot:
  assumes "valid_capacity (Capacity q)" "length (buffer q) < SIZE_MAX_P1"
    "unat (commit_idx q - read_idx q) + i < length (buffer q)"
  shows "committed (fill_slot q (commit_idx q) items i) = committed q"
  using slot_past_committed [OF assms, THEN not_sym]
  by (intro nth_equalityI) (auto simp: committed_def)

lemma in_batch_fill_slot:
  assumes "valid_capacity (Capacity q)" "length (buffer q) < SIZE_MAX_P1"
    "in_batch q w items count i" "i < unat count"
  shows "in_batch (fill_slot q w items i) w items count (i + 1)"
proof -
  have cap: "unat (Capacity q) = length (buffer q)"
    using assms(2) by (simp add: Capacity_def unat_of_nat_usize)
  have "slot (Capacity q) (w + of_nat i) \<noteq> slot (Capacity q) (w + of_nat j)" if "j < i" for j
    using slot_inj [OF assms(1), of j i w] that assms(3,4) cap by (auto simp: in_batch_def)
  moreover have "slot (Capacity q) (w + of_nat i) < length (buffer q)"
    using slot_less [OF assms(1)] cap by simp
  ultimately show ?thesis
    using assms(3,4) by (auto simp: in_batch_def less_Suc_eq)
qed

lemma committed_commit:
  assumes "in_batch q w items count (unat count)" "length (buffer q) < SIZE_MAX_P1"
  shows "committed (q\<lparr>commit_idx := w + count\<rparr>) = committed q @ take (unat count) items"
proof -
  have d: "unat (w + count - read_idx q) = unat (w - read_idx q) + unat count"
    using usize_distance_split [of w "read_idx q" "w + count"] assms
    by (simp add: in_batch_def)
  have "copy_loop (Capacity q) (buffer q) w (unat count) = take (unat count) items"
    using assms(1) by (intro nth_equalityI) (auto simp: in_batch_def)
  then show ?thesis
    using copy_loop_append [of "Capacity q" "buffer q" "read_idx q" "unat (w - read_idx q)"] d assms(1)
    by (simp add: committed_def in_batch_def)
qed

lemma clamp_free_room:
  assumes "length (buffer q) < SIZE_MAX_P1" "unat (w - read_idx q) \<le> length (buffer q)"
  shows "unat (clamp_free q w count) \<le> unat count"
    and "unat (w - read_idx q) + unat (clamp_free q w count) \<le> length (buffer q)"
proof -
  have cap: "unat (Capacity q) = length (buffer q)"
    using assms(1) by (simp add: Capacity_def unat_of_nat_usize)
  have "unat (Capacity q - (w - read_idx q)) = length (buffer q) - unat (w - read_idx q)"
    using assms(2) cap by (simp add: unat_sub_usize)
  then show "unat (clamp_free q w count) \<le> unat count"
    "unat (w - read_idx q) + unat (clamp_free q w count) \<le> length (buffer q)"
    using assms(2) by (auto simp: clamp_free_def Let_def usize_less_iff)
qed

text \<open>What the consumer knows survives every change the producer makes.\<close>

lemma consumer_inv_mono:
  assumes "consumer_inv q c" "read_idx q' = read_idx q"
    "take (unat (commit_idx q - read_idx q)) (committed q') = committed q"
    "unat (commit_idx q - read_idx q) \<le> unat (commit_idx q' - read_idx q')"
  shows "consumer_inv q' c"
proof -
  have "take k (committed q') = take k (committed q)" if "k \<le> unat (commit_idx q - read_idx q)" for k
    using assms(3) that by (metis min.absorb1 take_take)
  note same = this
  show ?thesis
  proof (cases c)
    case (C_Copy r actual out)
    with assms(1,2,4) same [of "length out"] show ?thesis by auto
  next
    case (C_Cas r actual out)
    with assms(1,2,4) same [of "length out"] show ?thesis by auto
  qed (use assms(1,2) in auto)
qed

lemma producer_step_inv:
  assumes "producer_step s t" "spsc_inv s"
  shows "spsc_inv t"
proof -
  let ?q = "queue s"
  have len: "length (buffer ?q) < SIZE_MAX_P1" and cap: "valid_capacity (Capacity ?q)"
    and hist: "popped s @ committed ?q = pushed s" and pinv: "producer_inv ?q (prod s)"
    and cinv: "consumer_inv ?q (cons s)"
    using assms(2) by (auto simp: spsc_inv_def)
  note bound = producer_inv_bound [OF pinv]
  from assms(1) show ?thesis
  proof cases
    case (enq_load w items count c)
    then have "unat (w - read_idx ?q) \<le> length (buffer ?q)"
      using pinv by (auto simp: between_batches_def)
    from clamp_free_room [OF len this, of count] enq_load assms(2) show ?thesis
      by (auto simp: spsc_inv_def)
  next
    case (enq_cas w items count)
    with pinv have "commit_idx ?q = w" "write_idx ?q = w" "unat count \<le> length items"
      "unat (w - read_idx ?q) + unat count \<le> length (buffer ?q)"
      by (auto simp: between_batches_def)
    then have "producer_inv (?q\<lparr>write_idx := w + count\<rparr>) (P_Fill w items count 0)"
      by (simp add: in_batch_def)
    moreover have "consumer_inv (?q\<lparr>write_idx := w + count\<rparr>) (cons s)"
      using cinv by (rule consumer_inv_mono) (simp_all add: committed_def)
    ultimately show ?thesis using enq_cas len cap hist
      by (simp add: spsc_inv_def committed_def)
  next
    case (enq_fill w items count i)
    with pinv have w: "w = commit_idx ?q" and ib: "in_batch ?q w items count i"
      and room: "unat (commit_idx ?q - read_idx ?q) + i < length (buffer ?q)"
      by (auto simp: in_batch_def)
    from in_batch_fill_slot [OF cap len ib] enq_fill
    have "producer_inv (queue t) (prod t)" by simp
    moreover have same: "committed (queue t) = committed ?q"
      using committed_fill_slot [OF cap len room] enq_fill w by simp
    moreover have "consumer_inv (queue t) (cons t)"
      using cinv enq_fill same by (auto intro!: consumer_inv_mono [of ?q])
    ultimately show ?thesis using enq_fill len cap hist by (simp add: spsc_inv_def)
  next
    case (enq_filled w items count i)
    with pinv have "i = unat count" by (simp add: in_batch_def)
    with enq_filled assms(2) show ?thesis by (simp add: spsc_inv_def)
  next
    case (enq_commit w items count)
    with pinv have ib: "in_batch ?q w items count (unat count)" by simp
    note app = committed_commit [OF ib len]
    have d: "unat (w + count - read_idx ?q) = unat (w - read_idx ?q) + unat count"
      using usize_distance_split [of w "read_idx ?q" "w + count"] ib len
      by (simp add: in_batch_def)
    have "producer_inv (queue t) (prod t)"
      using enq_commit ib d by (auto simp: in_batch_def between_batches_def)
    moreover have "consumer_inv (queue t) (cons t)"
      using enq_commit cinv app ib d
      by (auto intro!: consumer_inv_mono [of ?q] simp: in_batch_def)
    ultimately show ?thesis using enq_commit len cap hist app by (auto simp: spsc_inv_def)
  qed (use assms(2) in \<open>auto simp: spsc_inv_def\<close>)
qed

section \<open>The consumer keeps it\<close>

lemma nth_committed:
  "i < unat (commit_idx q - read_idx q) \<Longrightarrow>
     committed q ! i = buffer q ! slot (Capacity q) (read_idx q + of_nat i)"
  by (simp add: committed_def)

lemma committed_advance:
  assumes "unat actual \<le> unat (commit_idx q - read_idx q)"
  shows "committed q = take (unat actual) (committed q) @
      committed (q\<lparr>read_idx := read_idx q + actual\<rparr>)"
proof -
  have "committed q = copy_loop (Capacity q) (buffer q) (read_idx q) (unat actual) @
      committed (q\<lparr>read_idx := read_idx q + actual\<rparr>)"
    using copy_loop_append [of "Capacity q" "buffer q" "read_idx q" "unat actual"
        "unat (commit_idx q - read_idx q) - unat actual"] distance_advance [OF assms] assms
    by (simp add: committed_def)
  moreover from this have "take (unat actual) (committed q) =
      copy_loop (Capacity q) (buffer q) (read_idx q) (unat actual)"
    by (metis append_eq_conv_conj length_copy_loop)
  ultimately show ?thesis by simp
qed

lemma producer_inv_advance:
  assumes "producer_inv q p" "unat actual \<le> unat (commit_idx q - read_idx q)"
  shows "producer_inv (q\<lparr>read_idx := read_idx q + actual\<rparr>) p"
  using assms distance_advance [of actual "commit_idx q" "read_idx q"]
  by (cases p) (auto simp: between_batches_def in_batch_def)

lemma clamp_used_le: "unat (clamp_used q r count) \<le> unat (commit_idx q - r)"
  by (simp add: clamp_used_def Let_def usize_le_iff)

lemma consumer_step_inv:
  assumes "consumer_step s t" "spsc_inv s"
  shows "spsc_inv t"
proof -
  let ?q = "queue s"
  have len: "length (buffer ?q) < SIZE_MAX_P1" and cap: "valid_capacity (Capacity ?q)"
    and hist: "popped s @ committed ?q = pushed s" and pinv: "producer_inv ?q (prod s)"
    and cinv: "consumer_inv ?q (cons s)"
    using assms(2) by (auto simp: spsc_inv_def)
  from assms(1) show ?thesis
  proof cases
    case (deq_load r count actual)
    with cinv clamp_used_le [of ?q "read_idx ?q" count] assms(2) show ?thesis
      by (auto simp: spsc_inv_def)
  next
    case (deq_copy r actual out)
    with cinv have out: "out = take (length out) (committed ?q)" "r = read_idx ?q"
      and room: "length out < unat (commit_idx ?q - read_idx ?q)" by auto
    have "take (Suc (length out)) (committed ?q) =
        out @ [buffer ?q ! slot (Capacity ?q) (r + of_nat (length out))]"
      using room out by (simp add: take_Suc_conv_app_nth nth_committed)
    with deq_copy cinv assms(2) show ?thesis by (auto simp: spsc_inv_def)
  next
    case (deq_cas r actual out)
    with cinv have room: "unat actual \<le> unat (commit_idx ?q - read_idx ?q)"
      and out: "out = take (unat actual) (committed ?q)" by auto
    have t: "t = s\<lparr>queue := ?q\<lparr>read_idx := read_idx ?q + actual\<rparr>, cons := C_Idle,
        popped := popped s @ out\<rparr>" using deq_cas by simp
    have "popped t @ committed (queue t) = pushed t"
      using committed_advance [OF room, folded out] hist by (simp add: t)
    then show ?thesis
      using producer_inv_advance [OF pinv room] len cap by (simp add: spsc_inv_def t)
  qed (use assms(2) in \<open>auto simp: spsc_inv_def\<close>)
qed

lemma reachable_inv:
  assumes "spsc_reachable n d s" "n < SIZE_MAX_P1" "valid_capacity (of_nat n)"
  shows "spsc_inv s"
  using assms(1)
proof (induction rule: spsc_reachable.induct)
  case start
  show ?case using assms(2,3) by (rule spsc_init_inv)
next
  case (produce s t)
  then show ?case by (blast intro: producer_step_inv)
next
  case (consume s t)
  then show ?case by (blast intro: consumer_step_inv)
qed

section \<open>What the invariant gives\<close>

text \<open>
  C2: First in, first out, without loss or duplication: in every reachable state of the
  lock-free queue, whatever the interleaving, the items handed to the consumer are a prefix of
  the items the producer has committed, and what is between the two is exactly the committed part
  of the ring, which never exceeds the capacity.
\<close>

theorem spsc_fifo:
  assumes "n < SIZE_MAX_P1" "valid_capacity (of_nat n)" "spsc_reachable n d s"
  shows "pushed s = popped s @ committed (queue s) \<and>
    length (committed (queue s)) \<le> length (buffer (queue s))"
proof -
  have "spsc_inv s" using assms(3,1,2) by (rule reachable_inv)
  then show ?thesis
    using producer_inv_bound by (auto simp: spsc_inv_def)
qed

text \<open>
  C23: No data race on a slot: when the producer is about to write a slot and the consumer is
  about to read one, the two slots are different, although both run without a lock.
\<close>

theorem spsc_no_slot_race:
  assumes "n < SIZE_MAX_P1" "valid_capacity (of_nat n)" "spsc_reachable n d s"
    "prod s = P_Fill w items count i" "i < unat count"
    "cons s = C_Copy r actual out" "length out < unat actual"
  shows "slot (Capacity (queue s)) (w + of_nat i) \<noteq>
    slot (Capacity (queue s)) (r + of_nat (length out))"
proof -
  have inv: "spsc_inv s" using assms(3,1,2) by (rule reachable_inv)
  then have ib: "in_batch (queue s) w items count i" and r: "r = read_idx (queue s)"
    and k: "length out < unat (commit_idx (queue s) - read_idx (queue s))"
    using assms(4-7) by (auto simp: spsc_inv_def)
  then show ?thesis
    using slot_past_committed [of "queue s" w i "length out"] inv assms(5)
    by (auto simp: spsc_inv_def in_batch_def)
qed

text \<open>
  The spin on \<^verbatim>\<open>commit_idx_\<close> never waits: with one producer, the previous batch has
  always been committed when the producer gets to the spin, so it leaves it at once, and the
  store it then makes only moves the index forward by the batch.
\<close>

theorem spsc_spin_exits:
  assumes "n < SIZE_MAX_P1" "valid_capacity (of_nat n)" "spsc_reachable n d s"
    "prod s = P_Spin w items count"
  shows "commit_idx (queue s) = w \<and> write_idx (queue s) = w + count \<and>
    producer_step s (s\<lparr>prod := P_Store w items count\<rparr>)"
proof -
  have "spsc_inv s" using assms(3,1,2) by (rule reachable_inv)
  then have "commit_idx (queue s) = w" "write_idx (queue s) = w + count"
    using assms(4) by (auto simp: spsc_inv_def in_batch_def)
  then show ?thesis using assms(4) by (blast intro: enq_spun)
qed

section \<open>Concrete runs\<close>

text \<open>
  One batch of one item committed, the next one reserved and about to be filled, and a consumer
  about to copy the first: the two threads are inside their copy loops at the same time.
\<close>

definition busy_schedule :: "nat action list" where
  "busy_schedule = Call_enqueue [7] 1 # replicate 6 Producer @
     [Call_enqueue [8] 1, Producer, Producer, Call_dequeue 1, Consumer]"

definition busy_state :: "nat spsc_sys" where
  "busy_state = \<lparr>queue = \<lparr>buffer = [7, 0], write_idx = 2, read_idx = 0, commit_idx = 1\<rparr>,
     prod = P_Fill 1 [8] 1 0, cons = C_Copy 0 1 [], pushed = [7], popped = []\<rparr>"

lemma busy_run: "spsc_run (spsc_init 2 0) busy_schedule = Some busy_state"
  by code_simp

lemma busy_reachable: "spsc_reachable 2 0 busy_state"
  using spsc_reachable.start busy_run by (rule spsc_run_reachable)

lemma cap2: "(2::nat) < SIZE_MAX_P1" "valid_capacity (of_nat 2)"
  by (simp_all add: valid_capacity_def)

theorem spsc_fifo_witness:
  "pushed busy_state = popped busy_state @ committed (queue busy_state) \<and>
    length (committed (queue busy_state)) \<le> length (buffer (queue busy_state))"
  by (rule spsc_fifo [OF cap2 busy_reachable])

theorem spsc_no_slot_race_witness:
  "slot (Capacity (queue busy_state)) (1 + of_nat 0) \<noteq>
    slot (Capacity (queue busy_state)) (0 + of_nat (length ([] :: nat list)))"
  by (rule spsc_no_slot_race [OF cap2 busy_reachable, of 1 "[8]" 1 0 0 1 "[]"])
    (simp_all add: busy_state_def)

definition spin_state :: "nat spsc_sys" where
  "spin_state = \<lparr>queue = \<lparr>buffer = [7, 0], write_idx = 1, read_idx = 0, commit_idx = 0\<rparr>,
     prod = P_Spin 0 [7] 1, cons = C_Idle, pushed = [], popped = []\<rparr>"

lemma spin_reachable: "spsc_reachable 2 0 spin_state"
proof (rule spsc_run_reachable [OF spsc_reachable.start])
  show "spsc_run (spsc_init 2 0) (Call_enqueue [7] 1 # replicate 4 Producer) = Some spin_state"
    by code_simp
qed

theorem spsc_spin_exits_witness:
  "commit_idx (queue spin_state) = 0 \<and> write_idx (queue spin_state) = 0 + 1 \<and>
    producer_step spin_state (spin_state\<lparr>prod := P_Store 0 [7] 1\<rparr>)"
  by (rule spsc_spin_exits [OF cap2 spin_reachable]) (simp add: spin_state_def)

end
