(* ===== verification/Spsc_Client.thy ===== *)
theory Spsc_Client
  imports Spsc_Queue
begin

text \<open>
  Calls of the lock-free queue that run to their end undisturbed, and the test of its edge cases,
  \<^verbatim>\<open>test_edge_cases\<close> of \<^verbatim>\<open>ring_buffer/tests/test_ring_buffer.cpp\<close>, which makes such calls from one
  thread.
\<close>

section \<open>Calls that run alone\<close>

text \<open>
  A call of one element takes at most six actions after its first load, seven are allowed; it
  returns whether the history has grown.
\<close>

fun finish_enqueue :: "nat \<Rightarrow> 'a spsc_sys \<Rightarrow> 'a spsc_sys option" where
  "finish_enqueue k s =
     (if prod s = P_Idle then Some s
      else case k of 0 \<Rightarrow> None | Suc k \<Rightarrow> (case producer_next s of None \<Rightarrow> None | Some s \<Rightarrow> finish_enqueue k s))"

fun finish_dequeue :: "nat \<Rightarrow> 'a spsc_sys \<Rightarrow> 'a spsc_sys option" where
  "finish_dequeue k s =
     (if cons s = C_Idle then Some s
      else case k of 0 \<Rightarrow> None | Suc k \<Rightarrow> (case consumer_next s of None \<Rightarrow> None | Some s \<Rightarrow> finish_dequeue k s))"

definition spsc_enqueue :: "'a \<Rightarrow> 'a spsc_sys \<Rightarrow> (bool \<times> 'a spsc_sys) option" where
  "spsc_enqueue v s =
     (case Option.bind (spsc_next s (Call_enqueue [v] 1)) (finish_enqueue 7) of
        None \<Rightarrow> None
      | Some s' \<Rightarrow> Some (length (pushed s) < length (pushed s'), s'))"

definition spsc_dequeue :: "'a spsc_sys \<Rightarrow> ('a option \<times> 'a spsc_sys) option" where
  "spsc_dequeue s =
     (case Option.bind (spsc_next s (Call_dequeue 1)) (finish_dequeue 7) of
        None \<Rightarrow> None
      | Some s' \<Rightarrow> Some (if length (popped s) < length (popped s') then Some (last (popped s')) else None, s'))"

section \<open>The edge cases\<close>

text \<open>One assertion of the test: an element to enqueue or to dequeue, with the result that is asserted.\<close>

datatype edge_assert = Enqueue int bool | Dequeue "int option"

fun edge_holds :: "edge_assert list \<Rightarrow> int spsc_sys \<Rightarrow> bool" where
  "edge_holds [] s \<longleftrightarrow> True"
| "edge_holds (Enqueue v b # as) s \<longleftrightarrow>
     (case spsc_enqueue v s of None \<Rightarrow> False | Some (ok, s') \<Rightarrow> ok = b \<and> edge_holds as s')"
| "edge_holds (Dequeue r # as) s \<longleftrightarrow>
     (case spsc_dequeue s of None \<Rightarrow> False | Some (out, s') \<Rightarrow> out = r \<and> edge_holds as s')"

definition test_edge_cases :: "edge_assert list" where
  "test_edge_cases =
     [Dequeue None,
      Enqueue 1 True, Enqueue 2 True, Enqueue 3 True, Enqueue 4 True,
      Enqueue 5 False,
      Dequeue (Some 1), Enqueue 5 True,
      Dequeue (Some 2), Dequeue (Some 3), Dequeue (Some 4), Dequeue (Some 5), Dequeue None]"

lemma edge_cases_pass: "edge_holds test_edge_cases (spsc_init 4 0)"
  by code_simp

section \<open>Such calls return\<close>

lemma finish_enqueue_idle [simp]: "prod s = P_Idle \<Longrightarrow> finish_enqueue k s = Some s"
  by (cases k) simp_all

lemma finish_enqueue_busy:
  "prod s \<noteq> P_Idle \<Longrightarrow> finish_enqueue (Suc k) s =
     (case producer_next s of None \<Rightarrow> None | Some s \<Rightarrow> finish_enqueue k s)"
  by simp

lemma finish_dequeue_idle [simp]: "cons s = C_Idle \<Longrightarrow> finish_dequeue k s = Some s"
  by (cases k) simp_all

lemma finish_dequeue_busy:
  "cons s \<noteq> C_Idle \<Longrightarrow> finish_dequeue (Suc k) s =
     (case consumer_next s of None \<Rightarrow> None | Some s \<Rightarrow> finish_dequeue k s)"
  by simp

declare finish_enqueue.simps [simp del] finish_dequeue.simps [simp del]

text \<open>
  A call of \<^verbatim>\<open>enqueue\<close> that is not disturbed returns, from any state between two calls of the
  producer, whatever the consumer is in the middle of: it succeeds unless the ring is full.
\<close>

lemma enqueue_alone_returns:
  assumes inv: "spsc_inv s" and idle: "prod s = P_Idle"
  shows "\<exists>s'. spsc_enqueue v s = Some (length (committed (queue s)) < length (buffer (queue s)), s') \<and>
    prod s' = P_Idle \<and> cons s' = cons s \<and> popped s' = popped s \<and>
    pushed s' = pushed s @ (if length (committed (queue s)) < length (buffer (queue s)) then [v] else [])"
proof -
  define q where "q = queue s"
  define w where "w = write_idx q"
  have ok: "commit_idx q = w" "unat (w - read_idx q) \<le> length (buffer q)" "length (buffer q) < SIZE_MAX_P1"
    using inv idle by (auto simp: spsc_inv_def between_batches_def q_def w_def)
  have len: "length (committed q) = unat (w - read_idx q)" using ok(1) by simp
  have cap: "unat (Capacity q) = length (buffer q)" using ok(3) by (simp add: Capacity_def unat_of_nat_usize)
  define a where "a = Capacity q - (w - read_idx q)"
  have "unat a = length (buffer q) - length (committed q)"
    unfolding a_def len using ok(2) cap by (simp add: unat_sub_usize)
  then have room: "a = 0 \<longleftrightarrow> \<not> length (committed q) < length (buffer q)"
    using unat_eq_zero [of a] by linarith
  define c where "c = clamp_free q w 1"
  have "a < 1 \<longleftrightarrow> a = 0" by (simp add: word_less_nat_alt unat_eq_zero)
  then have "c = (if a = 0 then 0 else 1)" by (auto simp: c_def clamp_free_def Let_def a_def)
  then have c: "c = (if length (committed q) < length (buffer q) then 1 else 0)" using room by simp
  have first: "spsc_next s (Call_enqueue [v] 1) = Some (s\<lparr>prod := P_LoadRead w [v] 1\<rparr>)"
    using idle by (simp add: q_def w_def)
  show ?thesis
  proof (cases "length (committed q) < length (buffer q)")
    case False
    then have "finish_enqueue 7 (s\<lparr>prod := P_LoadRead w [v] 1\<rparr>) = Some (s\<lparr>prod := P_Idle\<rparr>)"
      using c by (simp add: eval_nat_numeral finish_enqueue_busy producer_next_def c_def q_def)
    then show ?thesis using first False idle by (simp add: spsc_enqueue_def q_def)
  next
    case True
    then have one: "c = 1" using c by simp
    have "finish_enqueue 7 (s\<lparr>prod := P_LoadRead w [v] 1\<rparr>) = Some (s\<lparr>queue := (fill_slot (q\<lparr>write_idx := w + 1\<rparr>) w [v] 0)
        \<lparr>commit_idx := w + 1\<rparr>, prod := P_Idle, pushed := pushed s @ [v]\<rparr>)"
      using one ok(1) w_def
      by (simp add: eval_nat_numeral finish_enqueue_busy producer_next_def c_def q_def [symmetric])
    then show ?thesis using first True by (simp add: spsc_enqueue_def q_def)
  qed
qed

text \<open>And so does \<^verbatim>\<open>dequeue\<close>: it delivers the oldest committed element if there is one.\<close>

lemma dequeue_alone_returns:
  assumes idle: "cons s = C_Idle"
  shows "\<exists>s'. spsc_dequeue s =
      Some (case committed (queue s) of [] \<Rightarrow> None | v # vs \<Rightarrow> Some v, s') \<and>
    cons s' = C_Idle \<and> prod s' = prod s \<and> pushed s' = pushed s \<and>
    popped s' = popped s @ take 1 (committed (queue s))"
proof -
  define q where "q = queue s"
  define r where "r = read_idx q"
  define n where "n = clamp_used q r 1"
  have len: "length (committed q) = unat (commit_idx q - r)" by (simp add: r_def)
  have "1 \<le> x \<longleftrightarrow> x \<noteq> 0" for x :: usize
    using unat_eq_zero [of x] by (auto simp: word_le_nat_alt Suc_le_eq)
  then have "n = (if commit_idx q - r = 0 then 0 else 1)" by (auto simp: n_def clamp_used_def Let_def)
  then have n: "n = (if committed q = [] then 0 else 1)" using len unat_eq_zero by (metis length_0_conv)
  have first: "spsc_next s (Call_dequeue 1) = Some (s\<lparr>cons := C_LoadCommit r 1\<rparr>)"
    using idle by (simp add: q_def r_def)
  show ?thesis
  proof (cases "committed q")
    case Nil
    then have "finish_dequeue 7 (s\<lparr>cons := C_LoadCommit r 1\<rparr>) = Some (s\<lparr>cons := C_Idle\<rparr>)"
      using n by (simp add: eval_nat_numeral finish_dequeue_busy consumer_next_def n_def q_def)
    then show ?thesis using first Nil by (simp add: spsc_dequeue_def q_def)
  next
    case (Cons v vs)
    then have one: "n = 1" using n by simp
    have "0 < unat (commit_idx q - r)" using Cons len by simp
    then have "committed q ! 0 = buffer q ! slot (Capacity q) r"
      by (simp add: committed_def copy_loop_def r_def)
    then have v: "buffer q ! slot (Capacity q) r = v" using Cons by simp
    have "finish_dequeue 7 (s\<lparr>cons := C_LoadCommit r 1\<rparr>) =
        Some (s\<lparr>queue := q\<lparr>read_idx := r + 1\<rparr>, cons := C_Idle, popped := popped s @ [v]\<rparr>)"
      using one v by (simp add: eval_nat_numeral finish_dequeue_busy consumer_next_def n_def q_def [symmetric] r_def)
    then show ?thesis using first Cons by (simp add: spsc_dequeue_def q_def)
  qed
qed

end
