(* ===== verification/Spsc_Tests.thy ===== *)
theory Spsc_Tests
  imports Spsc_Client
begin

text \<open>
  The two threads that \<^verbatim>\<open>test_spsc_1m\<close> and \<^verbatim>\<open>test_spsc_bulk\<close> of
  \<^verbatim>\<open>ring_buffer/tests/test_ring_buffer.cpp\<close> and \<^verbatim>\<open>demo_spsc\<close> of \<^verbatim>\<open>ring_buffer/src/main.cpp\<close> run on the
  lock-free queue: one puts in the numbers from 0 in chunks, the other takes them out and stores them.
  The steps are those of \<^theory_text>\<open>Spsc_Queue\<close>, with the loops of the threads around the calls.
\<close>

section \<open>The threads\<close>

text \<open>
  The three programs differ in their numbers, and in how the consumer takes what it gets: the tests
  collect a chunk in an array and copy it when it is full, the demonstration reads to where the
  values belong. A chunk of one is the loop around \<^verbatim>\<open>enqueue\<close> or \<^verbatim>\<open>dequeue\<close>.
\<close>

record spsc_script =
  amount :: nat
  chunk_size :: nat
  reads_direct :: bool

text \<open>
  The locals of the threads: how many numbers were sent, the chunk and how much of it was put, and the
  same for the receiver. A thread that is inside a call remembers the length of the history at its
  start; what the call returns is by how much that has grown. The results begin as -1, as in the tests.
\<close>

record spsc_test =
  sys :: "int spsc_sys"
  sent_count :: nat
  data :: "int list"
  put :: nat
  put_mark :: "nat option"
  received :: nat
  got :: "int list"
  got_mark :: "nat option"
  results :: "int list"

definition start_spsc_test :: "spsc_script \<Rightarrow> int spsc_sys \<Rightarrow> spsc_test" where
  "start_spsc_test p s = \<lparr>sys = s, sent_count = 0, data = [], put = 0, put_mark = None,
     received = 0, got = [], got_mark = None, results = replicate (amount p) (-1)\<rparr>"

text \<open>\<^verbatim>\<open>(N - sent < BULK) ? (N - sent) : BULK\<close>, and the numbers from \<^verbatim>\<open>sent\<close> on.\<close>

definition chunk_length :: "spsc_script \<Rightarrow> nat \<Rightarrow> nat" where
  "chunk_length p k = (if amount p - k < chunk_size p then amount p - k else chunk_size p)"

definition chunk_data :: "spsc_script \<Rightarrow> nat \<Rightarrow> int list" where
  "chunk_data p k = map (\<lambda>i. int (k + i)) [0..<chunk_length p k]"

definition with_chunk :: "spsc_script \<Rightarrow> spsc_test \<Rightarrow> spsc_test" where
  "with_chunk p t = (if data t = [] then t\<lparr>data := chunk_data p (sent_count t), put := 0\<rparr> else t)"

definition call_enqueue :: "spsc_script \<Rightarrow> spsc_test \<Rightarrow> spsc_test option" where
  "call_enqueue p t =
     (if put_mark t = None \<and> sent_count t < amount p then
        let t = with_chunk p t; rest = drop (put t) (data t)
        in map_option (\<lambda>s. t\<lparr>sys := s, put_mark := Some (length (pushed s))\<rparr>)
             (spsc_next (sys t) (Call_enqueue rest (of_nat (length rest))))
      else None)"

definition return_enqueue :: "spsc_test \<Rightarrow> spsc_test option" where
  "return_enqueue t =
     (case put_mark t of
        None \<Rightarrow> None
      | Some k \<Rightarrow>
          if prod (sys t) = P_Idle then
            let n = put t + (length (pushed (sys t)) - k)
            in Some (if n < length (data t) then t\<lparr>put := n, put_mark := None\<rparr>
                     else t\<lparr>sent_count := sent_count t + length (data t), data := [], put := 0, put_mark := None\<rparr>)
          else None)"

definition call_dequeue :: "spsc_script \<Rightarrow> spsc_test \<Rightarrow> spsc_test option" where
  "call_dequeue p t =
     (if got_mark t = None \<and> received t < amount p then
        map_option (\<lambda>s. t\<lparr>sys := s, got_mark := Some (length (popped s))\<rparr>)
          (spsc_next (sys t) (Call_dequeue (of_nat (chunk_length p (received t) - length (got t)))))
      else None)"

fun store_at :: "int list \<Rightarrow> nat \<Rightarrow> int list \<Rightarrow> int list" where
  "store_at rs i [] = rs"
| "store_at rs i (x # xs) = store_at (rs[i := x]) (i + 1) xs"

definition return_dequeue :: "spsc_script \<Rightarrow> spsc_test \<Rightarrow> spsc_test option" where
  "return_dequeue p t =
     (case got_mark t of
        None \<Rightarrow> None
      | Some k \<Rightarrow>
          if cons (sys t) = C_Idle then
            let out = got t @ drop k (popped (sys t))
            in Some (if \<not> reads_direct p \<and> length out < chunk_length p (received t) then t\<lparr>got := out, got_mark := None\<rparr>
                     else t\<lparr>results := store_at (results t) (received t) out, received := received t + length out,
                            got := [], got_mark := None\<rparr>)
          else None)"

text \<open>Between its calls a thread takes the steps of the call it is in.\<close>

inductive spsc_test_step :: "spsc_script \<Rightarrow> spsc_test \<Rightarrow> spsc_test \<Rightarrow> bool" for p where
  enqueue_called: "call_enqueue p t = Some u \<Longrightarrow> spsc_test_step p t u"
| enqueue_moves: "prod (sys t) \<noteq> P_Idle \<Longrightarrow> producer_step (sys t) s \<Longrightarrow> spsc_test_step p t (t\<lparr>sys := s\<rparr>)"
| enqueue_returns: "return_enqueue t = Some u \<Longrightarrow> spsc_test_step p t u"
| dequeue_called: "call_dequeue p t = Some u \<Longrightarrow> spsc_test_step p t u"
| dequeue_moves: "cons (sys t) \<noteq> C_Idle \<Longrightarrow> consumer_step (sys t) s \<Longrightarrow> spsc_test_step p t (t\<lparr>sys := s\<rparr>)"
| dequeue_returns: "return_dequeue p t = Some u \<Longrightarrow> spsc_test_step p t u"

text \<open>Both threads have been joined, and the assertions after that.\<close>

definition threads_joined :: "spsc_script \<Rightarrow> spsc_test \<Rightarrow> bool" where
  "threads_joined p t \<longleftrightarrow> amount p \<le> sent_count t \<and> put_mark t = None \<and> amount p \<le> received t \<and> got_mark t = None"

definition results_match :: "spsc_script \<Rightarrow> spsc_test \<Rightarrow> bool" where
  "results_match p t \<longleftrightarrow> list_all (\<lambda>i. results t ! i = int i) [0..<amount p]"

section \<open>The programs\<close>

definition test_spsc_1m :: spsc_script where
  "test_spsc_1m = \<lparr>amount = 1000000, chunk_size = 1, reads_direct = False\<rparr>"

definition test_spsc_bulk :: spsc_script where
  "test_spsc_bulk = \<lparr>amount = 1000, chunk_size = 10, reads_direct = False\<rparr>"

definition demo_spsc_bulk :: spsc_script where
  "demo_spsc_bulk = \<lparr>amount = 1000000, chunk_size = 256, reads_direct = True\<rparr>"

text \<open>The demonstration first puts in five values one by one and takes them out again, from one thread.\<close>

definition demo_spsc_single :: "edge_assert list" where
  "demo_spsc_single = map (\<lambda>i. Enqueue (int i * 10) True) [0..<5] @ map (\<lambda>i. Dequeue (Some (int i * 10))) [0..<5]"

section \<open>What holds during a run\<close>

text \<open>A queue that both threads are outside of, and that is empty.\<close>

definition fresh_queue :: "int spsc_sys \<Rightarrow> bool" where
  "fresh_queue s \<longleftrightarrow> spsc_inv s \<and> 0 < length (buffer (queue s)) \<and> prod s = P_Idle \<and> cons s = C_Idle \<and> popped s = pushed s"

text \<open>The items and the count of a call that is running.\<close>

fun enqueue_args :: "'a producer \<Rightarrow> ('a list \<times> usize) option" where
  "enqueue_args P_Idle = None"
| "enqueue_args (P_LoadRead w items count) = Some (items, count)"
| "enqueue_args (P_Cas w items count) = Some (items, count)"
| "enqueue_args (P_Fill w items count i) = Some (items, count)"
| "enqueue_args (P_Spin w items count) = Some (items, count)"
| "enqueue_args (P_Store w items count) = Some (items, count)"

fun dequeue_args :: "'a consumer \<Rightarrow> usize option" where
  "dequeue_args C_Idle = None"
| "dequeue_args (C_LoadCommit r count) = Some count"
| "dequeue_args (C_Copy r count out) = Some count"
| "dequeue_args (C_Cas r count out) = Some count"

lemma enqueue_args_None [simp]: "enqueue_args pc = None \<longleftrightarrow> pc = P_Idle"
  by (cases pc) simp_all

lemma dequeue_args_None [simp]: "dequeue_args pc = None \<longleftrightarrow> pc = C_Idle"
  by (cases pc) simp_all

text \<open>What a step does to the histories and to the call it belongs to.\<close>

lemma producer_effect:
  assumes "producer_step s s'" "prod s \<noteq> P_Idle" "spsc_inv s"
  shows "popped s' = popped s \<and> cons s' = cons s \<and> length (buffer (queue s')) = length (buffer (queue s)) \<and>
    (\<exists>items count. enqueue_args (prod s) = Some (items, count) \<and>
      (prod s' \<noteq> P_Idle \<and> pushed s' = pushed s \<and> map_option fst (enqueue_args (prod s')) = Some items \<or>
       prod s' = P_Idle \<and> (\<exists>n. n \<le> length items \<and> pushed s' = pushed s @ take n items)))"
  using assms(1)
proof cases
  case (enq_load w items count c)
  then show ?thesis by (auto intro!: exI [of _ "0::nat"])
next
  case (enq_commit w items count)
  then have "unat count \<le> length items" using assms(3) by (simp add: spsc_inv_def in_batch_def)
  then show ?thesis using enq_commit by auto
qed (use assms(2) in \<open>auto simp: fill_slot_def\<close>)

lemma consumer_effect:
  assumes "consumer_step s s'" "cons s \<noteq> C_Idle" "spsc_inv s"
  shows "pushed s' = pushed s \<and> prod s' = prod s \<and> length (buffer (queue s')) = length (buffer (queue s)) \<and>
    (\<exists>count. dequeue_args (cons s) = Some count \<and>
      (cons s' \<noteq> C_Idle \<and> popped s' = popped s \<and> (\<exists>n \<le> count. dequeue_args (cons s') = Some n) \<or>
       cons s' = C_Idle \<and> (\<exists>out. length out \<le> unat count \<and> popped s' = popped s @ out)))"
  using assms(1)
proof cases
  case (deq_load r count actual)
  have "actual \<le> count" using deq_load by (auto simp: clamp_used_def Let_def)
  then show ?thesis using deq_load by auto
next
  case (deq_cas r actual out)
  then have "length out = unat actual" using assms(3) by (simp add: spsc_inv_def)
  then show ?thesis using deq_cas by auto
qed (use assms(2) in auto)

definition putter_inv :: "spsc_script \<Rightarrow> nat \<Rightarrow> spsc_test \<Rightarrow> bool" where
  "putter_inv p l t \<longleftrightarrow> sent_count t \<le> amount p \<and>
     (if data t = [] then put t = 0
      else data t = chunk_data p (sent_count t) \<and> put t < length (data t)) \<and>
     (case put_mark t of
        None \<Rightarrow> prod (sys t) = P_Idle \<and> length (pushed (sys t)) = l + sent_count t + put t
      | Some k \<Rightarrow> data t \<noteq> [] \<and> k = l + sent_count t + put t \<and>
          (case enqueue_args (prod (sys t)) of
             None \<Rightarrow> k \<le> length (pushed (sys t)) \<and> length (pushed (sys t)) \<le> l + sent_count t + length (data t)
           | Some (items, count) \<Rightarrow> length (pushed (sys t)) = k \<and> items = drop (put t) (data t)))"

definition getter_inv :: "spsc_script \<Rightarrow> nat \<Rightarrow> spsc_test \<Rightarrow> bool" where
  "getter_inv p l t \<longleftrightarrow> received t \<le> amount p \<and> got t = map int [received t..<received t + length (got t)] \<and>
     length (results t) = amount p \<and> (\<forall>i < received t. results t ! i = int i) \<and>
     (if received t = amount p then got t = [] else length (got t) < chunk_length p (received t)) \<and>
     (case got_mark t of
        None \<Rightarrow> cons (sys t) = C_Idle \<and> length (popped (sys t)) = l + received t + length (got t)
      | Some k \<Rightarrow> received t < amount p \<and> k = l + received t + length (got t) \<and>
          (case dequeue_args (cons (sys t)) of
             None \<Rightarrow> k \<le> length (popped (sys t)) \<and> length (popped (sys t)) \<le> l + received t + chunk_length p (received t)
           | Some count \<Rightarrow> length (popped (sys t)) = k \<and> unat count \<le> chunk_length p (received t) - length (got t)))"

text \<open>The history is what was there before, then the numbers from 0.\<close>

definition counts_up :: "int list \<Rightarrow> int list \<Rightarrow> bool" where
  "counts_up b xs \<longleftrightarrow> xs = b @ map int [0..<length xs - length b]"

definition test_inv :: "spsc_script \<Rightarrow> int list \<Rightarrow> spsc_test \<Rightarrow> bool" where
  "test_inv p b t \<longleftrightarrow> spsc_inv (sys t) \<and> 0 < length (buffer (queue (sys t))) \<and> counts_up b (pushed (sys t)) \<and>
     putter_inv p (length b) t \<and> getter_inv p (length b) t"

lemma counts_up_length: "counts_up b xs \<Longrightarrow> length b \<le> length xs"
  unfolding counts_up_def by (metis le_add1 length_append)

lemma counts_up_more:
  assumes "counts_up b xs"
  shows "counts_up b (xs @ map int [length xs - length b..<length xs - length b + n])"
proof -
  define k where "k = length xs - length b"
  have "xs = b @ map int [0..<k]" using assms by (simp add: counts_up_def k_def)
  moreover have "map int [0..<k] @ map int [k..<k + n] = map int [0..<k + n]"
    using upt_add_eq_append [of 0 k n] by simp
  moreover have "length xs + n - length b = k + n" using counts_up_length [OF assms] by (simp add: k_def)
  ultimately show ?thesis unfolding counts_up_def k_def [symmetric]
    by (metis append.assoc length_append length_map length_upt add_diff_cancel_left')
qed

lemma counts_up_prefix:
  assumes "counts_up b (xs @ ys)" "length b \<le> length xs"
  shows "counts_up b xs"
proof -
  define k where "k = length xs - length b"
  have "take (length xs) (xs @ ys) = take (length xs) (b @ map int [0..<length (xs @ ys) - length b])"
    using assms(1) by (metis counts_up_def)
  then have "xs = b @ take k (map int [0..<length (xs @ ys) - length b])" using assms(2) by (simp add: k_def)
  moreover have "k \<le> length (xs @ ys) - length b" by (simp add: k_def)
  ultimately show ?thesis by (simp add: counts_up_def k_def [symmetric] take_map)
qed

lemma counts_up_drop:
  assumes "counts_up b xs" "length b \<le> k" "k \<le> length xs"
  shows "drop k xs = map int [k - length b..<length xs - length b]"
proof -
  have "drop k xs = drop k (b @ map int [0..<length xs - length b])" using assms(1) by (metis counts_up_def)
  then show ?thesis using assms(2) by (simp add: drop_map)
qed

lemma chunk_data_drop: "take n (drop i (chunk_data p k)) = map int [k + i..<k + min (i + n) (chunk_length p k)]"
proof -
  have "chunk_data p k = map int [k..<k + chunk_length p k]"
    by (rule nth_equalityI) (simp_all add: chunk_data_def)
  then show ?thesis by (simp add: drop_map take_map min_def add.assoc)
qed

lemma length_chunk_data [simp]: "length (chunk_data p k) = chunk_length p k"
  by (simp add: chunk_data_def)

lemma chunk_length_bound: "k \<le> amount p \<Longrightarrow> k + chunk_length p k \<le> amount p"
  by (auto simp: chunk_length_def)

lemma chunk_length_pos: "k < amount p \<Longrightarrow> 0 < chunk_size p \<Longrightarrow> 0 < chunk_length p k"
  by (simp add: chunk_length_def)

lemma store_at_ok:
  "i + length xs \<le> length rs \<Longrightarrow> length (store_at rs i xs) = length rs \<and>
     (\<forall>j. store_at rs i xs ! j = (if i \<le> j \<and> j < i + length xs then xs ! (j - i) else rs ! j))"
proof (induction xs arbitrary: rs i)
  case (Cons x xs)
  then have "length (store_at (rs[i := x]) (i + 1) xs) = length rs \<and>
     (\<forall>j. store_at (rs[i := x]) (i + 1) xs ! j = (if i + 1 \<le> j \<and> j < i + 1 + length xs then xs ! (j - (i + 1)) else rs[i := x] ! j))"
    using Cons.IH [of "i + 1" "rs[i := x]"] by simp
  then show ?case using Cons.prems by (auto simp: nth_Cons' nth_list_update)
qed simp

section \<open>It does hold\<close>

lemma putter_cong:
  assumes same: "prod (sys u) = prod (sys t)" "pushed (sys u) = pushed (sys t)" "sent_count u = sent_count t"
    "data u = data t" "put u = put t" "put_mark u = put_mark t"
  shows "putter_inv p l u = putter_inv p l t"
  unfolding putter_inv_def same ..

lemma getter_cong:
  assumes same: "cons (sys u) = cons (sys t)" "popped (sys u) = popped (sys t)" "received u = received t"
    "got u = got t" "got_mark u = got_mark t" "results u = results t"
  shows "getter_inv p l u = getter_inv p l t"
  unfolding getter_inv_def same ..

lemma start_spsc_test_inv:
  assumes "fresh_queue s" "0 < chunk_size p"
  shows "test_inv p (pushed s) (start_spsc_test p s)"
proof -
  have "getter_inv p (length (pushed s)) (start_spsc_test p s)"
    using assms by (simp add: getter_inv_def start_spsc_test_def fresh_queue_def chunk_length_pos)
  then show ?thesis
    using assms by (simp add: test_inv_def putter_inv_def start_spsc_test_def fresh_queue_def counts_up_def)
qed

lemma call_enqueue_inv:
  assumes inv: "test_inv p b t" and call: "call_enqueue p t = Some u" and size: "0 < chunk_size p"
  shows "test_inv p b u"
proof -
  have idle: "put_mark t = None" "sent_count t < amount p" using call by (auto simp: call_enqueue_def split: if_splits)
  have t: "putter_inv p (length b) t" "spsc_inv (sys t)" using inv by (simp_all add: test_inv_def)
  define v where "v = with_chunk p t"
  have v: "data v = chunk_data p (sent_count t)" "put v < length (data v)" "put v = put t" "sent_count v = sent_count t"
    "sys v = sys t" "v = t\<lparr>data := data v, put := put v\<rparr>"
    using t(1) chunk_length_pos [OF idle(2) size] by (auto simp: v_def with_chunk_def putter_inv_def split: if_splits)
  define rest where "rest = drop (put v) (data v)"
  obtain s where s: "spsc_next (sys t) (Call_enqueue rest (of_nat (length rest))) = Some s"
    "u = v\<lparr>sys := s, put_mark := Some (length (pushed s))\<rparr>"
    using call by (auto simp: call_enqueue_def Let_def v_def [symmetric] rest_def v(5) split: if_splits)
  have s': "s = (sys t)\<lparr>prod := P_LoadRead (write_idx (queue (sys t))) rest (of_nat (length rest))\<rparr>"
    "prod (sys t) = P_Idle" "unat (of_nat (length rest) :: usize) \<le> length rest" using s(1) by (auto split: if_splits)
  have "spsc_inv s" using spsc_next_step [OF s(1)] producer_step_inv consumer_step_inv t(2) by blast
  moreover have "getter_inv p (length b) u = getter_inv p (length b) t"
    by (rule getter_cong; subst s(2), subst v(6)) (simp_all add: s')
  moreover have "data v \<noteq> []" using v(2) by auto
  then have "putter_inv p (length b) u"
    using t(1) idle v(1-5) by (simp add: putter_inv_def s s' rest_def)
  ultimately show ?thesis using inv by (simp add: test_inv_def s s')
qed

lemma enqueue_moves_inv:
  assumes inv: "test_inv p b t" and busy: "prod (sys t) \<noteq> P_Idle" and step: "producer_step (sys t) s"
  shows "test_inv p b (t\<lparr>sys := s\<rparr>)"
proof -
  have t: "putter_inv p (length b) t" "spsc_inv (sys t)" "counts_up b (pushed (sys t))" using inv by (simp_all add: test_inv_def)
  obtain items count where args: "enqueue_args (prod (sys t)) = Some (items, count)"
    and eff: "popped s = popped (sys t)" "cons s = cons (sys t)" "length (buffer (queue s)) = length (buffer (queue (sys t)))"
      "prod s \<noteq> P_Idle \<and> pushed s = pushed (sys t) \<and> map_option fst (enqueue_args (prod s)) = Some items \<or>
       prod s = P_Idle \<and> (\<exists>n. n \<le> length items \<and> pushed s = pushed (sys t) @ take n items)"
    using producer_effect [OF step busy t(2)] by blast
  have "put_mark t \<noteq> None" using t(1) busy by (cases "put_mark t") (simp_all add: putter_inv_def)
  then obtain k where mark: "put_mark t = Some k" by blast
  then have k: "put_mark t = Some k" "data t \<noteq> []" "k = length b + sent_count t + put t" "length (pushed (sys t)) = k"
    "items = drop (put t) (data t)" "data t = chunk_data p (sent_count t)" "put t < length (data t)"
    using t(1) args by (simp_all add: putter_inv_def split: if_splits)
  have "putter_inv p (length b) (t\<lparr>sys := s\<rparr>) \<and> counts_up b (pushed s)"
    using eff(4)
  proof
    assume e: "prod s \<noteq> P_Idle \<and> pushed s = pushed (sys t) \<and> map_option fst (enqueue_args (prod s)) = Some items"
    then obtain count' where "enqueue_args (prod s) = Some (items, count')" by (cases "enqueue_args (prod s)") auto
    then show ?thesis using e t(1,3) k by (simp add: putter_inv_def)
  next
    assume e: "prod s = P_Idle \<and> (\<exists>n. n \<le> length items \<and> pushed s = pushed (sys t) @ take n items)"
    then obtain n where n: "n \<le> length items" "pushed s = pushed (sys t) @ take n items" by blast
    have "put t + n \<le> chunk_length p (sent_count t)" using n(1) k(5-7) by simp
    then have "take n items = map int [sent_count t + put t..<sent_count t + put t + n]"
      by (simp add: k(5,6) chunk_data_drop min_def add.assoc)
    moreover have "sent_count t + put t = length (pushed (sys t)) - length b" using k(3,4) by simp
    ultimately have "counts_up b (pushed s)" using counts_up_more [OF t(3)] n(2) by simp
    moreover have "enqueue_args (prod s) = None" using e by simp
    ultimately show ?thesis using t(1) k n by (simp add: putter_inv_def)
  qed
  moreover have "spsc_inv s" using producer_step_inv step t(2) by blast
  moreover have "getter_inv p (length b) (t\<lparr>sys := s\<rparr>) = getter_inv p (length b) t"
    by (rule getter_cong) (simp_all add: eff(1,2))
  ultimately show ?thesis using inv eff(3) by (simp add: test_inv_def)
qed

lemma return_enqueue_inv:
  assumes inv: "test_inv p b t" and ret: "return_enqueue t = Some u"
  shows "test_inv p b u"
proof -
  have t: "putter_inv p (length b) t" using inv by (simp add: test_inv_def)
  obtain k where k: "put_mark t = Some k" "prod (sys t) = P_Idle" using ret
    by (auto simp: return_enqueue_def split: option.splits if_splits)
  have d: "data t = chunk_data p (sent_count t)" "data t \<noteq> []" "k = length b + sent_count t + put t"
      "k \<le> length (pushed (sys t))" "length (pushed (sys t)) \<le> length b + sent_count t + length (data t)" "sent_count t \<le> amount p"
    using t k by (auto simp: putter_inv_def split: if_splits)
  define n where "n = put t + (length (pushed (sys t)) - k)"
  have u: "u = (if n < length (data t) then t\<lparr>put := n, put_mark := None\<rparr>
      else t\<lparr>sent_count := sent_count t + length (data t), data := [], put := 0, put_mark := None\<rparr>)"
    using ret k by (auto simp: return_enqueue_def Let_def n_def)
  have "sent_count t + chunk_length p (sent_count t) \<le> amount p" using chunk_length_bound d(6) .
  then have "putter_inv p (length b) u" using d k u n_def by (auto simp: putter_inv_def)
  moreover have "sys u = sys t" by (simp add: u)
  moreover have "getter_inv p (length b) u = getter_inv p (length b) t" by (rule getter_cong) (simp_all add: u)
  ultimately show ?thesis using inv by (simp add: test_inv_def)
qed

lemma call_dequeue_inv:
  assumes inv: "test_inv p b t" and call: "call_dequeue p t = Some u" and fits: "amount p < SIZE_MAX_P1"
  shows "test_inv p b u"
proof -
  have idle: "got_mark t = None" "received t < amount p" using call by (auto simp: call_dequeue_def split: if_splits)
  have t: "getter_inv p (length b) t" "spsc_inv (sys t)" using inv by (simp_all add: test_inv_def)
  define n where "n = chunk_length p (received t) - length (got t)"
  obtain s where s: "spsc_next (sys t) (Call_dequeue (of_nat n)) = Some s" "u = t\<lparr>sys := s, got_mark := Some (length (popped s))\<rparr>"
    using call by (auto simp: call_dequeue_def n_def split: if_splits)
  have s': "s = (sys t)\<lparr>cons := C_LoadCommit (read_idx (queue (sys t))) (of_nat n)\<rparr>" "cons (sys t) = C_Idle"
    using s(1) by (auto split: if_splits)
  have "n \<le> amount p" by (auto simp: n_def chunk_length_def)
  then have "unat (of_nat n :: usize) = n" using fits by (simp add: unat_of_nat_usize)
  then have "getter_inv p (length b) u"
    using t(1) idle by (simp add: getter_inv_def s s' n_def)
  moreover have "spsc_inv s" using spsc_next_step [OF s(1)] producer_step_inv consumer_step_inv t(2) by blast
  moreover have "putter_inv p (length b) u = putter_inv p (length b) t" by (rule putter_cong) (simp_all add: s s')
  ultimately show ?thesis using inv by (simp add: test_inv_def s s')
qed

lemma dequeue_moves_inv:
  assumes inv: "test_inv p b t" and busy: "cons (sys t) \<noteq> C_Idle" and step: "consumer_step (sys t) s"
  shows "test_inv p b (t\<lparr>sys := s\<rparr>)"
proof -
  have t: "getter_inv p (length b) t" "spsc_inv (sys t)" using inv by (simp_all add: test_inv_def)
  obtain count where args: "dequeue_args (cons (sys t)) = Some count"
    and eff: "pushed s = pushed (sys t)" "prod s = prod (sys t)" "length (buffer (queue s)) = length (buffer (queue (sys t)))"
      "cons s \<noteq> C_Idle \<and> popped s = popped (sys t) \<and> (\<exists>n \<le> count. dequeue_args (cons s) = Some n) \<or>
       cons s = C_Idle \<and> (\<exists>out. length out \<le> unat count \<and> popped s = popped (sys t) @ out)"
    using consumer_effect [OF step busy t(2)] by blast
  have "got_mark t \<noteq> None" using t(1) busy by (cases "got_mark t") (simp_all add: getter_inv_def)
  then obtain k where mark: "got_mark t = Some k" by blast
  have k: "received t < amount p" "k = length b + received t + length (got t)" "length (popped (sys t)) = k"
      "unat count \<le> chunk_length p (received t) - length (got t)" "length (got t) < chunk_length p (received t)"
    using t(1) args mark by (simp_all add: getter_inv_def split: if_splits)
  have "getter_inv p (length b) (t\<lparr>sys := s\<rparr>)"
    using eff(4)
  proof
    assume e: "cons s \<noteq> C_Idle \<and> popped s = popped (sys t) \<and> (\<exists>n \<le> count. dequeue_args (cons s) = Some n)"
    then obtain n where "n \<le> count" "dequeue_args (cons s) = Some n" by blast
    moreover then have "unat n \<le> chunk_length p (received t) - length (got t)"
      using k(4) by (meson le_trans usize_le_iff)
    ultimately show ?thesis using e t(1) k mark by (simp add: getter_inv_def)
  next
    assume e: "cons s = C_Idle \<and> (\<exists>out. length out \<le> unat count \<and> popped s = popped (sys t) @ out)"
    then obtain out where "length out \<le> unat count" "popped s = popped (sys t) @ out" by blast
    moreover have "dequeue_args (cons s) = None" using e by simp
    ultimately show ?thesis using t(1) k mark by (simp add: getter_inv_def)
  qed
  moreover have "spsc_inv s" using consumer_step_inv step t(2) by blast
  moreover have "putter_inv p (length b) (t\<lparr>sys := s\<rparr>) = putter_inv p (length b) t"
    by (rule putter_cong) (simp_all add: eff(1,2))
  ultimately show ?thesis using inv eff(1,3) by (simp add: test_inv_def)
qed

lemma return_dequeue_inv:
  assumes inv: "test_inv p b t" and ret: "return_dequeue p t = Some u" and size: "0 < chunk_size p"
  shows "test_inv p b u"
proof -
  have t: "getter_inv p (length b) t" "spsc_inv (sys t)" "counts_up b (pushed (sys t))" using inv by (simp_all add: test_inv_def)
  obtain k where k: "got_mark t = Some k" "cons (sys t) = C_Idle" using ret
    by (auto simp: return_dequeue_def split: option.splits if_splits)
  have d: "received t < amount p" "k = length b + received t + length (got t)" "k \<le> length (popped (sys t))"
      "length (popped (sys t)) \<le> length b + received t + chunk_length p (received t)"
      "got t = map int [received t..<received t + length (got t)]" "length (results t) = amount p"
      "\<forall>i < received t. results t ! i = int i"
    using t(1) k by (simp_all add: getter_inv_def split: if_splits)
  have "popped (sys t) @ committed (queue (sys t)) = pushed (sys t)" using t(2) by (simp add: spsc_inv_def)
  moreover have "length b \<le> length (popped (sys t))" using d(2,3) by linarith
  ultimately have up: "counts_up b (popped (sys t))" using t(3) counts_up_prefix by metis
  define out where "out = got t @ drop k (popped (sys t))"
  have bound: "received t + chunk_length p (received t) \<le> amount p" using chunk_length_bound d(1) by simp
  define m where "m = length (popped (sys t)) - length b - received t"
  have m: "received t + length (got t) \<le> received t + m" "m \<le> chunk_length p (received t)"
      "length (popped (sys t)) = length b + received t + m" using d(2-4) by (simp_all add: m_def)
  have "drop k (popped (sys t)) = map int [received t + length (got t)..<received t + m]"
    using counts_up_drop [OF up _ d(3)] d(2) m(3) by simp
  then have "out = map int ([received t..<received t + length (got t)] @ [received t + length (got t)..<received t + m])"
    using d(5) by (simp add: out_def)
  also have "[received t..<received t + length (got t)] @ [received t + length (got t)..<received t + m] = [received t..<received t + m]"
    using m(1) by (metis le_add1 upt_add_eq_append le_iff_add add.assoc add_le_cancel_left)
  finally have out: "out = map int [received t..<received t + m]" .
  have u: "u = (if \<not> reads_direct p \<and> length out < chunk_length p (received t) then t\<lparr>got := out, got_mark := None\<rparr>
      else t\<lparr>results := store_at (results t) (received t) out, received := received t + length out, got := [], got_mark := None\<rparr>)"
    using ret k by (auto simp: return_dequeue_def Let_def out_def)
  have "getter_inv p (length b) u"
  proof (cases "\<not> reads_direct p \<and> length out < chunk_length p (received t)")
    case True
    then show ?thesis using d k m(3) out by (simp add: u getter_inv_def)
  next
    case False
    have stored: "length (store_at (results t) (received t) out) = amount p"
      "store_at (results t) (received t) out ! j = (if received t \<le> j \<and> j < received t + m then int j else results t ! j)" for j
      using store_at_ok [of "received t" out "results t"] bound m(2) d(6) out by (auto simp: nth_append)
    have "received t + m \<le> amount p" using bound m(2) by linarith
    moreover have "received t + m \<noteq> amount p \<Longrightarrow> 0 < chunk_length p (received t + m)"
      using calculation chunk_length_pos size by (metis le_neq_implies_less)
    ultimately show ?thesis
      using False d(7) k(2) m(3) stored out by (auto simp: u getter_inv_def)
  qed
  moreover have "sys u = sys t" by (simp add: u)
  moreover have "putter_inv p (length b) u = putter_inv p (length b) t" by (rule putter_cong) (simp_all add: u)
  ultimately show ?thesis using inv by (simp add: test_inv_def)
qed

lemma spsc_test_step_inv:
  assumes step: "spsc_test_step p t u" and inv: "test_inv p b t" and size: "0 < chunk_size p" "amount p < SIZE_MAX_P1"
  shows "test_inv p b u"
  using step
proof cases
  case enqueue_called
  then show ?thesis using call_enqueue_inv [OF inv _ size(1)] by simp
next
  case (enqueue_moves s)
  then show ?thesis using enqueue_moves_inv [OF inv] by simp
next
  case enqueue_returns
  then show ?thesis using return_enqueue_inv [OF inv] by simp
next
  case dequeue_called
  then show ?thesis using call_dequeue_inv [OF inv _ size(2)] by simp
next
  case (dequeue_moves s)
  then show ?thesis using dequeue_moves_inv [OF inv] by simp
next
  case dequeue_returns
  then show ?thesis using return_dequeue_inv [OF inv _ size(1)] by simp
qed

section \<open>The assertions\<close>

inductive spsc_test_reaches :: "spsc_script \<Rightarrow> int spsc_sys \<Rightarrow> spsc_test \<Rightarrow> bool" for p s where
  begins: "spsc_test_reaches p s (start_spsc_test p s)"
| goes_on: "spsc_test_reaches p s t \<Longrightarrow> spsc_test_step p t u \<Longrightarrow> spsc_test_reaches p s u"

lemma spsc_test_reaches_inv:
  assumes "spsc_test_reaches p s t" "fresh_queue s" "0 < chunk_size p" "amount p < SIZE_MAX_P1"
  shows "test_inv p (pushed s) t"
  using assms(1)
proof (induction rule: spsc_test_reaches.induct)
  case begins
  show ?case using start_spsc_test_inv assms(2,3) .
next
  case (goes_on t u)
  then show ?case using spsc_test_step_inv assms(3,4) by blast
qed

lemma joined_matches:
  assumes "test_inv p b t" "threads_joined p t"
  shows "results t = map int [0..<amount p]" "results_match p t"
proof -
  have g: "length (results t) = amount p" "\<forall>i < amount p. results t ! i = int i"
    using assms unfolding test_inv_def getter_inv_def threads_joined_def by auto
  then show "results t = map int [0..<amount p]" by (intro nth_equalityI) auto
  show "results_match p t" using g(2) by (simp add: results_match_def list_all_iff)
qed

section \<open>Neither thread gets stuck\<close>

text \<open>How far a call is from its end when nothing disturbs it, and whether it is going to move something.\<close>

fun enqueue_left :: "'a producer \<Rightarrow> nat" where
  "enqueue_left P_Idle = 0"
| "enqueue_left (P_LoadRead w items count) = unat count + 5"
| "enqueue_left (P_Cas w items count) = unat count + 4"
| "enqueue_left (P_Fill w items count i) = unat count - i + 3"
| "enqueue_left (P_Spin w items count) = 2"
| "enqueue_left (P_Store w items count) = 1"

fun enqueue_moving :: "'a producer \<Rightarrow> bool" where
  "enqueue_moving P_Idle = False"
| "enqueue_moving (P_LoadRead w items count) = False"
| "enqueue_moving (P_Cas w items count) = (count \<noteq> 0)"
| "enqueue_moving (P_Fill w items count i) = (count \<noteq> 0)"
| "enqueue_moving (P_Spin w items count) = (count \<noteq> 0)"
| "enqueue_moving (P_Store w items count) = (count \<noteq> 0)"

fun dequeue_left :: "'a consumer \<Rightarrow> nat" where
  "dequeue_left C_Idle = 0"
| "dequeue_left (C_LoadCommit r count) = unat count + 3"
| "dequeue_left (C_Copy r count out) = unat count - length out + 2"
| "dequeue_left (C_Cas r count out) = 1"

fun dequeue_moving :: "'a consumer \<Rightarrow> bool" where
  "dequeue_moving C_Idle = False"
| "dequeue_moving (C_LoadCommit r count) = False"
| "dequeue_moving (C_Copy r count out) = (count \<noteq> 0)"
| "dequeue_moving (C_Cas r count out) = (count \<noteq> 0)"

lemma producer_advances:
  assumes inv: "spsc_inv s" and busy: "prod s \<noteq> P_Idle"
  shows "\<exists>s'. producer_step s s' \<and> enqueue_left (prod s') < enqueue_left (prod s) \<and>
    (enqueue_moving (prod s) \<longrightarrow> enqueue_moving (prod s') \<or> length (pushed s) < length (pushed s'))"
proof (cases "prod s")
  case (P_LoadRead w items count)
  have "unat (w - read_idx (queue s)) \<le> length (buffer (queue s))" "length (buffer (queue s)) < SIZE_MAX_P1"
    using inv P_LoadRead by (auto simp: spsc_inv_def between_batches_def)
  then have "unat (clamp_free (queue s) w count) \<le> unat count" by (rule clamp_free_room(1) [rotated])
  then show ?thesis using P_LoadRead enq_load [OF P_LoadRead refl] by (intro exI conjI) auto
next
  case (P_Cas w items count)
  then have "write_idx (queue s) = w" using inv by (simp add: spsc_inv_def between_batches_def)
  then show ?thesis using P_Cas enq_cas [OF P_Cas] by (intro exI conjI) auto
next
  case (P_Fill w items count i)
  show ?thesis
  proof (cases "i < unat count")
    case True
    then show ?thesis using P_Fill enq_fill [OF P_Fill] by (intro exI conjI) auto
  next
    case False
    then show ?thesis using P_Fill enq_filled [OF P_Fill] by (intro exI conjI) auto
  qed
next
  case (P_Spin w items count)
  then have "commit_idx (queue s) = w" using inv by (simp add: spsc_inv_def in_batch_def)
  then show ?thesis using P_Spin enq_spun [OF P_Spin] by (intro exI conjI) auto
next
  case (P_Store w items count)
  then have "unat count \<le> length items" using inv by (simp add: spsc_inv_def in_batch_def)
  moreover have "count \<noteq> 0 \<Longrightarrow> 0 < unat count" using unat_eq_zero by blast
  ultimately show ?thesis using P_Store enq_commit [OF P_Store] by (intro exI conjI) auto
qed (use busy in simp)

lemma consumer_advances:
  assumes inv: "spsc_inv s" and busy: "cons s \<noteq> C_Idle"
  shows "\<exists>s'. consumer_step s s' \<and> dequeue_left (cons s') < dequeue_left (cons s) \<and>
    (dequeue_moving (cons s) \<longrightarrow> dequeue_moving (cons s') \<or> length (popped s) < length (popped s'))"
proof (cases "cons s")
  case (C_LoadCommit r count)
  have "clamp_used (queue s) r count \<le> count" by (auto simp: clamp_used_def Let_def)
  then have "unat (clamp_used (queue s) r count) \<le> unat count" by (simp add: usize_le_iff)
  then show ?thesis using C_LoadCommit deq_load [OF C_LoadCommit refl] by (intro exI conjI) auto
next
  case (C_Copy r count out)
  show ?thesis
  proof (cases "length out < unat count")
    case True
    then show ?thesis using C_Copy deq_copy [OF C_Copy] by (intro exI conjI) auto
  next
    case False
    then show ?thesis using C_Copy deq_copied [OF C_Copy] by (intro exI conjI) auto
  qed
next
  case (C_Cas r count out)
  then have "read_idx (queue s) = r" "length out = unat count" using inv by (auto simp: spsc_inv_def)
  moreover have "count \<noteq> 0 \<Longrightarrow> 0 < unat count" using unat_eq_zero by blast
  ultimately show ?thesis using C_Cas deq_cas [OF C_Cas] by (intro exI conjI) auto
qed (use busy in simp)

text \<open>A call that is running can be run to its end.\<close>

lemma enqueue_finishes:
  assumes "test_inv p b t" "prod (sys t) \<noteq> P_Idle"
  shows "\<exists>s. (spsc_test_step p)\<^sup>*\<^sup>* t (t\<lparr>sys := s\<rparr>) \<and> test_inv p b (t\<lparr>sys := s\<rparr>) \<and> prod s = P_Idle \<and> cons s = cons (sys t) \<and>
    popped s = popped (sys t) \<and> length (pushed (sys t)) \<le> length (pushed s) \<and>
    (enqueue_moving (prod (sys t)) \<longrightarrow> length (pushed (sys t)) < length (pushed s))"
  using assms
proof (induction "enqueue_left (prod (sys t))" arbitrary: t rule: less_induct)
  case less
  have inv: "spsc_inv (sys t)" using less.prems(1) by (simp add: test_inv_def)
  obtain s1 where s1: "producer_step (sys t) s1" "enqueue_left (prod s1) < enqueue_left (prod (sys t))"
    "enqueue_moving (prod (sys t)) \<longrightarrow> enqueue_moving (prod s1) \<or> length (pushed (sys t)) < length (pushed s1)"
    using producer_advances [OF inv less.prems(2)] by blast
  have step: "spsc_test_step p t (t\<lparr>sys := s1\<rparr>)" using enqueue_moves less.prems(2) s1(1) .
  have eff: "popped s1 = popped (sys t)" "cons s1 = cons (sys t)" "length (pushed (sys t)) \<le> length (pushed s1)"
    using producer_effect [OF s1(1) less.prems(2) inv] by auto
  have inv1: "test_inv p b (t\<lparr>sys := s1\<rparr>)" using enqueue_moves_inv less.prems s1(1) .
  show ?case
  proof (cases "prod s1 = P_Idle")
    case True
    then show ?thesis using step inv1 eff s1(3) by (intro exI [of _ s1]) auto
  next
    case False
    from less.hyps [of "t\<lparr>sys := s1\<rparr>"] s1(2) inv1 False obtain s where
      s: "(spsc_test_step p)\<^sup>*\<^sup>* (t\<lparr>sys := s1\<rparr>) (t\<lparr>sys := s\<rparr>)" "test_inv p b (t\<lparr>sys := s\<rparr>)" "prod s = P_Idle" "cons s = cons s1"
      "popped s = popped s1" "length (pushed s1) \<le> length (pushed s)"
      "enqueue_moving (prod s1) \<longrightarrow> length (pushed s1) < length (pushed s)" by auto
    have "(spsc_test_step p)\<^sup>*\<^sup>* t (t\<lparr>sys := s\<rparr>)" using step s(1) by (rule converse_rtranclp_into_rtranclp)
    then show ?thesis using s(2-7) eff s1(3) by (intro exI [of _ s]) auto
  qed
qed

lemma dequeue_finishes:
  assumes "test_inv p b t" "cons (sys t) \<noteq> C_Idle"
  shows "\<exists>s. (spsc_test_step p)\<^sup>*\<^sup>* t (t\<lparr>sys := s\<rparr>) \<and> test_inv p b (t\<lparr>sys := s\<rparr>) \<and> cons s = C_Idle \<and> prod s = prod (sys t) \<and>
    pushed s = pushed (sys t) \<and> length (popped (sys t)) \<le> length (popped s) \<and>
    (dequeue_moving (cons (sys t)) \<longrightarrow> length (popped (sys t)) < length (popped s))"
  using assms
proof (induction "dequeue_left (cons (sys t))" arbitrary: t rule: less_induct)
  case less
  have inv: "spsc_inv (sys t)" using less.prems(1) by (simp add: test_inv_def)
  obtain s1 where s1: "consumer_step (sys t) s1" "dequeue_left (cons s1) < dequeue_left (cons (sys t))"
    "dequeue_moving (cons (sys t)) \<longrightarrow> dequeue_moving (cons s1) \<or> length (popped (sys t)) < length (popped s1)"
    using consumer_advances [OF inv less.prems(2)] by blast
  have step: "spsc_test_step p t (t\<lparr>sys := s1\<rparr>)" using dequeue_moves less.prems(2) s1(1) .
  have eff: "pushed s1 = pushed (sys t)" "prod s1 = prod (sys t)" "length (popped (sys t)) \<le> length (popped s1)"
    using consumer_effect [OF s1(1) less.prems(2) inv] by auto
  have inv1: "test_inv p b (t\<lparr>sys := s1\<rparr>)" using dequeue_moves_inv less.prems s1(1) .
  show ?case
  proof (cases "cons s1 = C_Idle")
    case True
    then show ?thesis using step inv1 eff s1(3) by (intro exI [of _ s1]) auto
  next
    case False
    from less.hyps [of "t\<lparr>sys := s1\<rparr>"] s1(2) inv1 False obtain s where
      s: "(spsc_test_step p)\<^sup>*\<^sup>* (t\<lparr>sys := s1\<rparr>) (t\<lparr>sys := s\<rparr>)" "test_inv p b (t\<lparr>sys := s\<rparr>)" "cons s = C_Idle" "prod s = prod s1"
      "pushed s = pushed s1" "length (popped s1) \<le> length (popped s)"
      "dequeue_moving (cons s1) \<longrightarrow> length (popped s1) < length (popped s)" by auto
    have "(spsc_test_step p)\<^sup>*\<^sup>* t (t\<lparr>sys := s\<rparr>)" using step s(1) by (rule converse_rtranclp_into_rtranclp)
    then show ?thesis using s(2-7) eff s1(3) by (intro exI [of _ s]) auto
  qed
qed

text \<open>Each thread can get to the place between two of its calls.\<close>

lemma enqueue_rests:
  assumes inv: "test_inv p b t"
  shows "\<exists>u. (spsc_test_step p)\<^sup>*\<^sup>* t u \<and> test_inv p b u \<and> put_mark u = None \<and> got_mark u = got_mark t \<and>
    popped (sys u) = popped (sys t) \<and> length (pushed (sys t)) \<le> length (pushed (sys u)) \<and>
    (enqueue_moving (prod (sys t)) \<longrightarrow> length (pushed (sys t)) < length (pushed (sys u)))"
proof -
  obtain v where v: "(spsc_test_step p)\<^sup>*\<^sup>* t v" "test_inv p b v" "prod (sys v) = P_Idle" "put_mark v = put_mark t"
    "got_mark v = got_mark t" "popped (sys v) = popped (sys t)" "length (pushed (sys t)) \<le> length (pushed (sys v))"
    "enqueue_moving (prod (sys t)) \<longrightarrow> length (pushed (sys t)) < length (pushed (sys v))"
  proof (cases "prod (sys t) = P_Idle")
    case True
    then show ?thesis using inv that [of t] by simp
  next
    case False
    from enqueue_finishes [OF inv this] obtain s where
      "(spsc_test_step p)\<^sup>*\<^sup>* t (t\<lparr>sys := s\<rparr>)" "test_inv p b (t\<lparr>sys := s\<rparr>)" "prod s = P_Idle"
      "popped s = popped (sys t)" "length (pushed (sys t)) \<le> length (pushed s)"
      "enqueue_moving (prod (sys t)) \<longrightarrow> length (pushed (sys t)) < length (pushed s)" by blast
    then show ?thesis using that [of "t\<lparr>sys := s\<rparr>"] by simp
  qed
  show ?thesis
  proof (cases "put_mark v")
    case None
    then show ?thesis using v by blast
  next
    case (Some k)
    then obtain u where u: "return_enqueue v = Some u" "put_mark u = None" "got_mark u = got_mark v" "sys u = sys v"
      using v(3) by (simp add: return_enqueue_def Let_def)
    have "(spsc_test_step p)\<^sup>*\<^sup>* t u" using v(1) enqueue_returns [OF u(1)] by (rule rtranclp.rtrancl_into_rtrancl)
    then show ?thesis using return_enqueue_inv [OF v(2) u(1)] u(2-4) v by auto
  qed
qed

lemma dequeue_rests:
  assumes inv: "test_inv p b t" and size: "0 < chunk_size p"
  shows "\<exists>u. (spsc_test_step p)\<^sup>*\<^sup>* t u \<and> test_inv p b u \<and> got_mark u = None \<and> put_mark u = put_mark t \<and>
    pushed (sys u) = pushed (sys t) \<and> length (popped (sys t)) \<le> length (popped (sys u)) \<and>
    (dequeue_moving (cons (sys t)) \<longrightarrow> length (popped (sys t)) < length (popped (sys u)))"
proof -
  obtain v where v: "(spsc_test_step p)\<^sup>*\<^sup>* t v" "test_inv p b v" "cons (sys v) = C_Idle" "got_mark v = got_mark t"
    "put_mark v = put_mark t" "pushed (sys v) = pushed (sys t)" "length (popped (sys t)) \<le> length (popped (sys v))"
    "dequeue_moving (cons (sys t)) \<longrightarrow> length (popped (sys t)) < length (popped (sys v))"
  proof (cases "cons (sys t) = C_Idle")
    case True
    then show ?thesis using inv that [of t] by simp
  next
    case False
    from dequeue_finishes [OF inv this] obtain s where
      "(spsc_test_step p)\<^sup>*\<^sup>* t (t\<lparr>sys := s\<rparr>)" "test_inv p b (t\<lparr>sys := s\<rparr>)" "cons s = C_Idle"
      "pushed s = pushed (sys t)" "length (popped (sys t)) \<le> length (popped s)"
      "dequeue_moving (cons (sys t)) \<longrightarrow> length (popped (sys t)) < length (popped s)" by blast
    then show ?thesis using that [of "t\<lparr>sys := s\<rparr>"] by simp
  qed
  show ?thesis
  proof (cases "got_mark v")
    case None
    then show ?thesis using v by blast
  next
    case (Some k)
    then obtain u where u: "return_dequeue p v = Some u" "got_mark u = None" "put_mark u = put_mark v" "sys u = sys v"
      using v(3) by (simp add: return_dequeue_def Let_def)
    have "(spsc_test_step p)\<^sup>*\<^sup>* t u" using v(1) dequeue_returns [OF u(1)] by (rule rtranclp.rtrancl_into_rtrancl)
    then show ?thesis using return_dequeue_inv [OF v(2) u(1) size] u(2-4) v by auto
  qed
qed

text \<open>A thread that has something to do can begin a call, and the call is going to move something.\<close>

lemma dequeue_begins:
  assumes inv: "test_inv p b t" and rest: "got_mark t = None" and some: "committed (queue (sys t)) \<noteq> []"
    and more: "received t < amount p" and fits: "amount p < SIZE_MAX_P1"
  shows "\<exists>u. (spsc_test_step p)\<^sup>*\<^sup>* t u \<and> test_inv p b u \<and> dequeue_moving (cons (sys u)) \<and>
    pushed (sys u) = pushed (sys t) \<and> popped (sys u) = popped (sys t)"
proof -
  have g: "getter_inv p (length b) t" using inv by (simp add: test_inv_def)
  have idle: "cons (sys t) = C_Idle" and want: "length (got t) < chunk_length p (received t)"
    using g rest more by (simp_all add: getter_inv_def split: if_splits)
  define n where "n = chunk_length p (received t) - length (got t)"
  have "n \<le> amount p" "0 < n" using want by (auto simp: n_def chunk_length_def)
  then have n: "(of_nat n :: usize) \<noteq> 0" using fits unat_of_nat_usize [of n] by force
  define r where "r = read_idx (queue (sys t))"
  define u where "u = t\<lparr>sys := (sys t)\<lparr>cons := C_LoadCommit r (of_nat n)\<rparr>, got_mark := Some (length (popped (sys t)))\<rparr>"
  have call: "call_dequeue p t = Some u" using idle rest more by (simp add: call_dequeue_def u_def n_def r_def)
  have inv_u: "test_inv p b u" using call_dequeue_inv [OF inv call fits] .
  define actual where "actual = clamp_used (queue (sys u)) r (of_nat n)"
  have "unat (commit_idx (queue (sys t)) - r) \<noteq> 0" using some by (simp add: r_def flip: length_committed)
  then have actual: "actual \<noteq> 0" using n by (auto simp: actual_def clamp_used_def Let_def u_def)
  have "cons (sys u) = C_LoadCommit r (of_nat n)" by (simp add: u_def)
  from deq_load [OF this actual_def] have step: "consumer_step (sys u) ((sys u)\<lparr>cons := C_Copy r actual []\<rparr>)"
    using actual by simp
  have busy: "cons (sys u) \<noteq> C_Idle" by (simp add: u_def)
  define v where "v = u\<lparr>sys := (sys u)\<lparr>cons := C_Copy r actual []\<rparr>\<rparr>"
  have "spsc_test_step p u v" unfolding v_def using busy step by (rule dequeue_moves)
  then have "(spsc_test_step p)\<^sup>*\<^sup>* t v" using dequeue_called [OF call] by (meson converse_rtranclp_into_rtranclp r_into_rtranclp)
  moreover have "test_inv p b v" unfolding v_def using inv_u busy step by (rule dequeue_moves_inv)
  ultimately show ?thesis using actual by (intro exI [of _ v]) (simp add: v_def u_def)
qed

lemma enqueue_begins:
  assumes inv: "test_inv p b t" and rest: "put_mark t = None" and none: "committed (queue (sys t)) = []"
    and more: "sent_count t < amount p" and fits: "amount p < SIZE_MAX_P1" and size: "0 < chunk_size p"
  shows "\<exists>u. (spsc_test_step p)\<^sup>*\<^sup>* t u \<and> test_inv p b u \<and> enqueue_moving (prod (sys u)) \<and> got_mark u = got_mark t \<and>
    pushed (sys u) = pushed (sys t) \<and> popped (sys u) = popped (sys t)"
proof -
  have t: "putter_inv p (length b) t" "spsc_inv (sys t)" "0 < length (buffer (queue (sys t)))" using inv by (simp_all add: test_inv_def)
  have idle: "prod (sys t) = P_Idle" using t(1) rest by (simp add: putter_inv_def)
  define v where "v = with_chunk p t"
  have v: "data v = chunk_data p (sent_count t)" "put v < length (data v)" "sys v = sys t" "got_mark v = got_mark t"
    using t(1) chunk_length_pos [OF more size] by (auto simp: v_def with_chunk_def putter_inv_def split: if_splits)
  define items where "items = drop (put v) (data v)"
  have "length items \<le> amount p" "0 < length items" using v(1,2) by (auto simp: items_def chunk_length_def)
  then have items: "unat (of_nat (length items) :: usize) = length items" "(of_nat (length items) :: usize) \<noteq> 0"
    using fits unat_of_nat_usize [of "length items"] by auto
  define w where "w = write_idx (queue (sys t))"
  define u where "u = v\<lparr>sys := (sys t)\<lparr>prod := P_LoadRead w items (of_nat (length items))\<rparr>,
      put_mark := Some (length (pushed (sys t)))\<rparr>"
  have call: "call_enqueue p t = Some u"
    using idle rest more items(1) v(3)
    by (simp add: call_enqueue_def u_def w_def Let_def v_def [symmetric] items_def [symmetric] del: length_drop)
  have inv_u: "test_inv p b u" using call_enqueue_inv [OF inv call size] .
  define c where "c = clamp_free (queue (sys u)) w (of_nat (length items))"
  have "commit_idx (queue (sys t)) = w" using t(2) idle by (simp add: spsc_inv_def between_batches_def w_def)
  moreover have "unat (commit_idx (queue (sys t)) - read_idx (queue (sys t))) = 0" using none by (simp flip: length_committed)
  ultimately have "w - read_idx (queue (sys t)) = 0" by (simp add: unat_eq_zero)
  moreover have "length (buffer (queue (sys t))) < SIZE_MAX_P1" using t(2) by (simp add: spsc_inv_def)
  then have "Capacity (queue (sys t)) \<noteq> 0" using t(3) unat_of_nat_usize by (fastforce simp: Capacity_def)
  ultimately have c: "c \<noteq> 0" using items(2) by (simp add: c_def clamp_free_def Let_def u_def)
  have "prod (sys u) = P_LoadRead w items (of_nat (length items))" by (simp add: u_def)
  from enq_load [OF this c_def] have step: "producer_step (sys u) ((sys u)\<lparr>prod := P_Cas w items c\<rparr>)" using c by simp
  have busy: "prod (sys u) \<noteq> P_Idle" by (simp add: u_def)
  define x where "x = u\<lparr>sys := (sys u)\<lparr>prod := P_Cas w items c\<rparr>\<rparr>"
  have "spsc_test_step p u x" unfolding x_def using busy step by (rule enqueue_moves)
  then have "(spsc_test_step p)\<^sup>*\<^sup>* t x" using enqueue_called [OF call] by (meson converse_rtranclp_into_rtranclp r_into_rtranclp)
  moreover have "test_inv p b x" unfolding x_def using inv_u busy step by (rule enqueue_moves_inv)
  ultimately show ?thesis using c v(4) by (intro exI [of _ x]) (simp add: x_def u_def)
qed

lemma moved_bound:
  assumes "test_inv p b t"
  shows "length (popped (sys t)) \<le> length (pushed (sys t))" "length (pushed (sys t)) \<le> length b + amount p"
proof -
  have "popped (sys t) @ committed (queue (sys t)) = pushed (sys t)" using assms by (simp add: test_inv_def spsc_inv_def)
  then show "length (popped (sys t)) \<le> length (pushed (sys t))" by (metis le_add1 length_append)
  have g: "putter_inv p (length b) t" using assms by (simp add: test_inv_def)
  have d: "sent_count t + length (data t) \<le> amount p" "put t \<le> length (data t)"
    using g chunk_length_bound by (auto simp: putter_inv_def split: if_splits)
  show "length (pushed (sys t)) \<le> length b + amount p"
  proof (cases "put_mark t")
    case None
    then show ?thesis using g d by (simp add: putter_inv_def)
  next
    case (Some k)
    then show ?thesis
      using g d by (cases "enqueue_args (prod (sys t))") (auto simp: putter_inv_def split: if_splits)
  qed
qed

text \<open>When everything has moved and both threads are between calls, they are at their ends.\<close>

lemma at_the_end:
  assumes inv: "test_inv p b t" and rest: "put_mark t = None" "got_mark t = None"
    and none: "committed (queue (sys t)) = []" and sent: "\<not> sent_count t < amount p"
  shows "threads_joined p t"
proof -
  have t: "putter_inv p (length b) t" "getter_inv p (length b) t" using inv by (simp_all add: test_inv_def)
  have all: "sent_count t = amount p" using t(1) sent by (simp add: putter_inv_def)
  have "chunk_length p (amount p) = 0" by (simp add: chunk_length_def)
  then have "put t = 0" using t(1) all by (auto simp: putter_inv_def split: if_splits)
  then have "length (pushed (sys t)) = length b + amount p" using t(1) rest(1) all by (simp add: putter_inv_def)
  moreover have "popped (sys t) = pushed (sys t)" using inv none by (simp add: test_inv_def spsc_inv_def)
  ultimately have "received t + length (got t) = amount p" using t(2) rest(2) by (simp add: getter_inv_def)
  moreover have "received t + chunk_length p (received t) \<le> amount p"
    using t(2) chunk_length_bound by (simp add: getter_inv_def)
  ultimately have "received t = amount p" using t(2) by (auto simp: getter_inv_def split: if_splits)
  then show ?thesis using all rest by (simp add: threads_joined_def)
qed

lemma test_can_finish:
  assumes "test_inv p b t" and size: "0 < chunk_size p" and fits: "amount p < SIZE_MAX_P1"
  shows "\<exists>u. (spsc_test_step p)\<^sup>*\<^sup>* t u \<and> threads_joined p u"
  using assms(1)
proof (induction "2 * (length b + amount p) - (length (pushed (sys t)) + length (popped (sys t)))" arbitrary: t rule: less_induct)
  case less
  have later: "\<exists>u. (spsc_test_step p)\<^sup>*\<^sup>* t u \<and> threads_joined p u"
    if v: "(spsc_test_step p)\<^sup>*\<^sup>* t v" "test_inv p b v"
      and more: "length (pushed (sys t)) + length (popped (sys t)) < length (pushed (sys v)) + length (popped (sys v))" for v
  proof -
    have "2 * (length b + amount p) - (length (pushed (sys v)) + length (popped (sys v))) <
        2 * (length b + amount p) - (length (pushed (sys t)) + length (popped (sys t)))"
      unfolding mult_2 using more moved_bound [OF v(2)] by (intro diff_less_mono2) linarith+
    from less.hyps [OF this v(2)] show ?thesis using v(1) by (meson rtranclp_trans)
  qed
  obtain t1 where t1: "(spsc_test_step p)\<^sup>*\<^sup>* t t1" "test_inv p b t1" "put_mark t1 = None"
    "popped (sys t1) = popped (sys t)" "length (pushed (sys t)) \<le> length (pushed (sys t1))"
    using enqueue_rests [OF less.prems] by blast
  obtain t2 where t2: "(spsc_test_step p)\<^sup>*\<^sup>* t1 t2" "test_inv p b t2" "got_mark t2 = None" "put_mark t2 = None"
    "pushed (sys t2) = pushed (sys t1)" "length (popped (sys t1)) \<le> length (popped (sys t2))"
    using dequeue_rests [OF t1(2) size] t1(3) by auto
  have to_t2: "(spsc_test_step p)\<^sup>*\<^sup>* t t2" using t1(1) t2(1) by (rule rtranclp_trans)
  have fwd: "length (pushed (sys t)) \<le> length (pushed (sys t2))" "length (popped (sys t)) \<le> length (popped (sys t2))"
    using t1(4,5) t2(5,6) by simp_all
  consider (take) "committed (queue (sys t2)) \<noteq> []" | (give) "committed (queue (sys t2)) = []" "sent_count t2 < amount p"
    | (over) "committed (queue (sys t2)) = []" "\<not> sent_count t2 < amount p" by blast
  then show ?case
  proof cases
    case take
    have "received t2 < amount p"
    proof (rule ccontr)
      assume "\<not> received t2 < amount p"
      then have "length (popped (sys t2)) = length b + amount p"
        using t2(2,3) by (auto simp: test_inv_def getter_inv_def)
      moreover have "popped (sys t2) @ committed (queue (sys t2)) = pushed (sys t2)"
        using t2(2) by (simp add: test_inv_def spsc_inv_def)
      then have "length (popped (sys t2)) < length (pushed (sys t2))" using take by (metis length_append length_greater_0_conv less_add_same_cancel1)
      ultimately show False using moved_bound(2) [OF t2(2)] by simp
    qed
    from dequeue_begins [OF t2(2,3) take this fits] obtain v where
      v: "(spsc_test_step p)\<^sup>*\<^sup>* t2 v" "test_inv p b v" "dequeue_moving (cons (sys v))"
        "pushed (sys v) = pushed (sys t2)" "popped (sys v) = popped (sys t2)" by blast
    from dequeue_rests [OF v(2) size] v(3) obtain w where
      w: "(spsc_test_step p)\<^sup>*\<^sup>* v w" "test_inv p b w" "pushed (sys w) = pushed (sys v)"
        "length (popped (sys v)) < length (popped (sys w))" by blast
    have "(spsc_test_step p)\<^sup>*\<^sup>* t w" using to_t2 v(1) w(1) by (meson rtranclp_trans)
    then show ?thesis by (rule later) (use w v fwd in simp_all)
  next
    case give
    from enqueue_begins [OF t2(2,4) give fits size] obtain v where
      v: "(spsc_test_step p)\<^sup>*\<^sup>* t2 v" "test_inv p b v" "enqueue_moving (prod (sys v))"
        "pushed (sys v) = pushed (sys t2)" "popped (sys v) = popped (sys t2)" by blast
    from enqueue_rests [OF v(2)] v(3) obtain w where
      w: "(spsc_test_step p)\<^sup>*\<^sup>* v w" "test_inv p b w" "popped (sys w) = popped (sys v)"
        "length (pushed (sys v)) < length (pushed (sys w))" by blast
    have "(spsc_test_step p)\<^sup>*\<^sup>* t w" using to_t2 v(1) w(1) by (meson rtranclp_trans)
    then show ?thesis by (rule later) (use w v fwd in simp_all)
  next
    case over
    then show ?thesis using at_the_end [OF t2(2,4,3)] to_t2 by blast
  qed
qed

lemma script_passes:
  assumes "fresh_queue s" "0 < chunk_size p" "amount p < SIZE_MAX_P1" "spsc_test_reaches p s t"
  shows "(threads_joined p t \<longrightarrow> results t = map int [0..<amount p] \<and> results_match p t) \<and>
    (\<exists>u. (spsc_test_step p)\<^sup>*\<^sup>* t u \<and> threads_joined p u)"
proof -
  have inv: "test_inv p (pushed s) t" using spsc_test_reaches_inv assms(4,1,2,3) .
  then show ?thesis using joined_matches test_can_finish [OF inv assms(2,3)] by blast
qed

section \<open>One by one\<close>

text \<open>The queue after the calls of one thread, when all of them return what is asserted.\<close>

fun edge_after :: "edge_assert list \<Rightarrow> int spsc_sys \<Rightarrow> int spsc_sys option" where
  "edge_after [] s = Some s"
| "edge_after (Enqueue v b # as) s =
     (case spsc_enqueue v s of None \<Rightarrow> None | Some (ok, s') \<Rightarrow> if ok = b then edge_after as s' else None)"
| "edge_after (Dequeue r # as) s =
     (case spsc_dequeue s of None \<Rightarrow> None | Some (v, s') \<Rightarrow> if v = r then edge_after as s' else None)"

lemma edge_after_holds: "edge_after as s \<noteq> None \<longleftrightarrow> edge_holds as s"
  by (induction as s rule: edge_after.induct) (auto split: option.split)

definition idle_queue :: "int spsc_sys \<Rightarrow> bool" where
  "idle_queue s \<longleftrightarrow> spsc_inv s \<and> 0 < length (buffer (queue s)) \<and> prod s = P_Idle \<and> cons s = C_Idle"

lemma producer_step_length: "producer_step s s' \<Longrightarrow> length (buffer (queue s')) = length (buffer (queue s))"
  by (cases rule: producer_step.cases) (auto simp: fill_slot_def)

lemma consumer_step_length: "consumer_step s s' \<Longrightarrow> length (buffer (queue s')) = length (buffer (queue s))"
  by (cases rule: consumer_step.cases) auto

lemma finish_enqueue_keeps:
  "finish_enqueue k s = Some s' \<Longrightarrow> spsc_inv s \<Longrightarrow> spsc_inv s' \<and> length (buffer (queue s')) = length (buffer (queue s))"
proof (induction k arbitrary: s)
  case 0
  then show ?case by (auto simp: finish_enqueue.simps split: if_splits)
next
  case (Suc k)
  show ?case
  proof (cases "prod s = P_Idle")
    case False
    then obtain s1 where s1: "producer_next s = Some s1" "finish_enqueue k s1 = Some s'"
      using Suc.prems(1) by (auto simp: finish_enqueue_busy split: option.splits)
    have "producer_step s s1" using s1(1) by (rule producer_next_step)
    then show ?thesis using Suc.IH [OF s1(2)] producer_step_inv producer_step_length Suc.prems(2) by metis
  qed (use Suc.prems in simp)
qed

lemma finish_dequeue_keeps:
  "finish_dequeue k s = Some s' \<Longrightarrow> spsc_inv s \<Longrightarrow> spsc_inv s' \<and> length (buffer (queue s')) = length (buffer (queue s))"
proof (induction k arbitrary: s)
  case 0
  then show ?case by (auto simp: finish_dequeue.simps split: if_splits)
next
  case (Suc k)
  show ?case
  proof (cases "cons s = C_Idle")
    case False
    then obtain s1 where s1: "consumer_next s = Some s1" "finish_dequeue k s1 = Some s'"
      using Suc.prems(1) by (auto simp: finish_dequeue_busy split: option.splits)
    have "consumer_step s s1" using s1(1) by (rule consumer_next_step)
    then show ?thesis using Suc.IH [OF s1(2)] consumer_step_inv consumer_step_length Suc.prems(2) by metis
  qed (use Suc.prems in simp)
qed

lemma enqueue_one:
  assumes idle: "idle_queue s" and room: "length (pushed s) < length (popped s) + length (buffer (queue s))"
  shows "\<exists>s'. spsc_enqueue v s = Some (True, s') \<and> idle_queue s' \<and> pushed s' = pushed s @ [v] \<and> popped s' = popped s \<and>
    length (buffer (queue s')) = length (buffer (queue s))"
proof -
  have inv: "spsc_inv s" and "prod s = P_Idle" using idle by (simp_all add: idle_queue_def)
  moreover have "popped s @ committed (queue s) = pushed s" using inv by (simp add: spsc_inv_def)
  then have "length (committed (queue s)) < length (buffer (queue s))"
    using room by (metis length_append nat_add_left_cancel_less)
  ultimately obtain s' where s': "spsc_enqueue v s = Some (True, s')" "prod s' = P_Idle" "cons s' = cons s"
    "popped s' = popped s" "pushed s' = pushed s @ [v]" using enqueue_alone_returns [of s v] by auto
  obtain s1 where s1: "spsc_next s (Call_enqueue [v] 1) = Some s1" "finish_enqueue 7 s1 = Some s'"
    using s'(1) by (auto simp: spsc_enqueue_def bind_eq_Some_conv split: option.splits)
  have "spsc_inv s1" "length (buffer (queue s1)) = length (buffer (queue s))"
    using spsc_next_step [OF s1(1)] producer_step_inv consumer_step_inv producer_step_length consumer_step_length inv by metis+
  then show ?thesis using finish_enqueue_keeps [OF s1(2)] s' idle by (simp add: idle_queue_def del: length_greater_0_conv)
qed

lemma dequeue_one:
  assumes idle: "idle_queue s" and some: "pushed s = popped s @ v # vs"
  shows "\<exists>s'. spsc_dequeue s = Some (Some v, s') \<and> idle_queue s' \<and> pushed s' = pushed s \<and> popped s' = popped s @ [v] \<and>
    length (buffer (queue s')) = length (buffer (queue s))"
proof -
  have inv: "spsc_inv s" and c: "cons s = C_Idle" using idle by (simp_all add: idle_queue_def)
  have "popped s @ committed (queue s) = pushed s" using inv by (simp add: spsc_inv_def)
  then have "committed (queue s) = v # vs" using some by simp
  then obtain s' where s': "spsc_dequeue s = Some (Some v, s')" "cons s' = C_Idle" "prod s' = prod s"
    "pushed s' = pushed s" "popped s' = popped s @ [v]" using dequeue_alone_returns [OF c] by auto
  obtain s1 where s1: "spsc_next s (Call_dequeue 1) = Some s1" "finish_dequeue 7 s1 = Some s'"
    using s'(1) by (auto simp: spsc_dequeue_def bind_eq_Some_conv split: option.splits)
  have "spsc_inv s1" "length (buffer (queue s1)) = length (buffer (queue s))"
    using spsc_next_step [OF s1(1)] producer_step_inv consumer_step_inv producer_step_length consumer_step_length inv by metis+
  then show ?thesis using finish_dequeue_keeps [OF s1(2)] s' idle by (simp add: idle_queue_def del: length_greater_0_conv)
qed

lemma enqueue_each:
  assumes "idle_queue s" "length (pushed s) + length vs \<le> length (popped s) + length (buffer (queue s))"
  shows "\<exists>s'. edge_after (map (\<lambda>v. Enqueue v True) vs @ as) s = edge_after as s' \<and> idle_queue s' \<and>
    pushed s' = pushed s @ vs \<and> popped s' = popped s"
  using assms
proof (induction vs arbitrary: s)
  case (Cons v vs)
  obtain s1 where s1: "spsc_enqueue v s = Some (True, s1)" "idle_queue s1" "pushed s1 = pushed s @ [v]"
    "popped s1 = popped s" "length (buffer (queue s1)) = length (buffer (queue s))"
    using enqueue_one [OF Cons.prems(1), of v] Cons.prems(2) by auto
  have "length (pushed s1) + length vs \<le> length (popped s1) + length (buffer (queue s1))" using Cons.prems(2) s1 by simp
  from Cons.IH [OF s1(2) this] show ?case using s1 by auto
qed auto

lemma dequeue_each:
  assumes "idle_queue s" "pushed s = popped s @ vs"
  shows "\<exists>s'. edge_after (map (\<lambda>v. Dequeue (Some v)) vs @ as) s = edge_after as s' \<and> idle_queue s' \<and>
    pushed s' = pushed s \<and> popped s' = pushed s"
  using assms
proof (induction vs arbitrary: s)
  case (Cons v vs)
  obtain s1 where s1: "spsc_dequeue s = Some (Some v, s1)" "idle_queue s1" "pushed s1 = pushed s"
    "popped s1 = popped s @ [v]" using dequeue_one [OF Cons.prems] by blast
  then have "pushed s1 = popped s1 @ vs" using Cons.prems(2) by simp
  from Cons.IH [OF s1(2) this] show ?case using s1 by auto
qed auto

lemma init_idle: "0 < n \<Longrightarrow> n < SIZE_MAX_P1 \<Longrightarrow> valid_capacity (of_nat n) \<Longrightarrow> idle_queue (spsc_init n d)"
  using spsc_init_inv [of n d] by (simp add: idle_queue_def) (simp add: spsc_init_def)

lemma init_fresh: "0 < n \<Longrightarrow> n < SIZE_MAX_P1 \<Longrightarrow> valid_capacity (of_nat n) \<Longrightarrow> fresh_queue (spsc_init n d)"
  using init_idle [of n d] by (simp add: idle_queue_def fresh_queue_def) (simp add: spsc_init_def)

lemma singles_pass:
  assumes "idle_queue s" "pushed s = popped s" "length vs \<le> length (buffer (queue s))"
  shows "\<exists>s'. edge_after (map (\<lambda>v. Enqueue v True) vs @ map (\<lambda>v. Dequeue (Some v)) vs) s = Some s' \<and> fresh_queue s'"
proof -
  have "length (pushed s) + length vs \<le> length (popped s) + length (buffer (queue s))" using assms(2,3) by simp
  from enqueue_each [OF assms(1) this, of "map (\<lambda>v. Dequeue (Some v)) vs"] obtain s1 where
    s1: "edge_after (map (\<lambda>v. Enqueue v True) vs @ map (\<lambda>v. Dequeue (Some v)) vs) s = edge_after (map (\<lambda>v. Dequeue (Some v)) vs) s1"
      "idle_queue s1" "pushed s1 = pushed s @ vs" "popped s1 = popped s" by blast
  have "pushed s1 = popped s1 @ vs" using s1 assms(2) by simp
  from dequeue_each [OF s1(2) this, of "[]"] show ?thesis using s1(1) by (auto simp: idle_queue_def fresh_queue_def)
qed

section \<open>The tests pass\<close>

text \<open>The three programs, each with the queue that its two threads start from.\<close>

definition spsc_programs :: "(spsc_script \<times> int spsc_sys option) list" where
  "spsc_programs =
     [(test_spsc_1m, Some (spsc_init 131072 0)), (test_spsc_bulk, Some (spsc_init 256 0)),
      (demo_spsc_bulk, edge_after demo_spsc_single (spsc_init 1024 0))]"

lemma programs_start_fresh:
  assumes "(p, q) \<in> set spsc_programs"
  shows "\<exists>s. q = Some s \<and> fresh_queue s \<and> 0 < chunk_size p \<and> amount p \<le> 1000000"
proof -
  let ?vs = "map (\<lambda>i. int i * 10) [0..<5]"
  have caps: "valid_capacity (of_nat 131072)" "valid_capacity (of_nat 256)" "valid_capacity (of_nat 1024)"
    by (simp_all add: valid_capacity_def)
  have "demo_spsc_single = map (\<lambda>v. Enqueue v True) ?vs @ map (\<lambda>v. Dequeue (Some v)) ?vs"
    by (simp add: demo_spsc_single_def comp_def)
  moreover have "idle_queue (spsc_init 1024 0)" by (rule init_idle) (use caps in simp_all)
  then have "\<exists>s'. edge_after (map (\<lambda>v. Enqueue v True) ?vs @ map (\<lambda>v. Dequeue (Some v)) ?vs) (spsc_init 1024 0) = Some s' \<and> fresh_queue s'"
    by (rule singles_pass) (simp_all add: spsc_init_def)
  ultimately have demo: "\<exists>s. edge_after demo_spsc_single (spsc_init 1024 0) = Some s \<and> fresh_queue s" by simp
  have init: "fresh_queue (spsc_init 131072 0)" "fresh_queue (spsc_init 256 0)"
    by (rule init_fresh; use caps in simp)+
  show ?thesis
    using assms demo init by (auto simp: spsc_programs_def test_spsc_1m_def test_spsc_bulk_def demo_spsc_bulk_def)
qed

text \<open>
  C10: The two tests of the lock-free queue and its demonstration can only pass and never get stuck: the
  single calls that the demonstration begins with return what they should; then, however the two
  threads are interleaved, once both are joined the consumer has stored exactly the numbers from 0 in
  order, and from every state of the run there is a way on to the point where both are joined.
\<close>

theorem spsc_tests_pass:
  assumes "(p, q) \<in> set spsc_programs"
  shows "\<exists>s. q = Some s \<and> (\<forall>t. spsc_test_reaches p s t \<longrightarrow>
    (threads_joined p t \<longrightarrow> results t = map int [0..<amount p] \<and> results_match p t) \<and>
    (\<exists>u. (spsc_test_step p)\<^sup>*\<^sup>* t u \<and> threads_joined p u))"
proof -
  obtain s where s: "q = Some s" "fresh_queue s" "0 < chunk_size p" "amount p \<le> 1000000"
    using programs_start_fresh [OF assms] by blast
  have "amount p < SIZE_MAX_P1" using s(4) by simp
  then show ?thesis using script_passes [OF s(2,3)] s(1) by blast
qed

theorem spsc_tests_pass_witness:
  "\<exists>s. Some (spsc_init 256 0) = Some s \<and> (\<forall>t. spsc_test_reaches test_spsc_bulk s t \<longrightarrow>
    (threads_joined test_spsc_bulk t \<longrightarrow>
       results t = map int [0..<amount test_spsc_bulk] \<and> results_match test_spsc_bulk t) \<and>
    (\<exists>u. (spsc_test_step test_spsc_bulk)\<^sup>*\<^sup>* t u \<and> threads_joined test_spsc_bulk u))"
  by (rule spsc_tests_pass) (simp add: spsc_programs_def)

end
