(* ===== verification/Multiset_Facts.thy ===== *)
theory Multiset_Facts
  imports Prelude "HOL-Library.Multiset"
begin

text \<open>
  What a list of threads holds, as a multiset or a sum over the threads: how it changes when one
  thread's entry is replaced. The clients of the queues and of the thread pool count with it.
\<close>

lemma mset_concat_update:
  "i < length xs \<Longrightarrow>
     mset (concat (map f (xs[i := x]))) + mset (f (xs ! i)) = mset (concat (map f xs)) + mset (f x)"
proof (induction xs arbitrary: i)
  case (Cons y ys)
  then show ?case by (cases i) (auto simp: ac_simps)
qed simp

lemma sum_list_map_update:
  fixes f :: "'a \<Rightarrow> nat"
  shows "i < length xs \<Longrightarrow> sum_list (map f (xs[i := x])) + f (xs ! i) = sum_list (map f xs) + f x"
proof (induction xs arbitrary: i)
  case (Cons y ys)
  then show ?case by (cases i) auto
qed simp

end
