(* ===== verification/Queue_Clients.thy ===== *)
theory Queue_Clients
  imports Ring_Buffer Multiset_Facts
begin

text \<open>
  A client of \<^verbatim>\<open>MPMCLockedQueue\<close>: the test \<^verbatim>\<open>test_mpmc_4p4c\<close> of
  \<^verbatim>\<open>ring_buffer/tests/test_ring_buffer.cpp\<close> (and, with other numbers, the demonstration
  \<^verbatim>\<open>demo_mpmc\<close>). Any number of producers push a range of values each, any number of consumers
  pop them and store them under an index taken from an atomic counter, all of them spinning. A step
  is one call of the queue, which is atomic by its mutex, one atomic operation on the counter, or
  one store.
\<close>

section \<open>The test\<close>

text \<open>Where a consumer stands: before the pop, with a value, with a value and an index, at the test for the end, gone.\<close>

datatype consumer_stage = Trying | Got int | Counted nat int | Checking | Left

text \<open>
  \<^term>\<open>sent\<close> has the loop variable of each producer. The number \<^verbatim>\<open>N\<close> of the values is taken to be a
  multiple of the number of producers, as in the test, and within the range of \<^verbatim>\<open>int\<close>.
  \<^term>\<open>cons_idx\<close> counts values that were popped, so it cannot wrap around.
\<close>

record mpmc_test =
  per_prod :: nat
  tested :: "int ring"
  sent :: "nat list"
  consumers :: "consumer_stage list"
  consumed :: "int list"
  cons_idx :: nat

definition total :: "mpmc_test \<Rightarrow> nat" where
  "total s = length (sent s) * per_prod s"

definition mpmc_test_init :: "nat \<Rightarrow> nat \<Rightarrow> nat \<Rightarrow> nat \<Rightarrow> mpmc_test" where
  "mpmc_test_init cap prods cons per =
     \<lparr>per_prod = per, tested = ring_init cap 0, sent = replicate prods 0,
      consumers = replicate cons Trying, consumed = replicate (prods * per) (-1), cons_idx = 0\<rparr>"

definition test_value :: "mpmc_test \<Rightarrow> nat \<Rightarrow> nat \<Rightarrow> int" where
  "test_value s p i = int (p * per_prod s + i)"

text \<open>One round of the spin loop of producer \<open>p\<close>.\<close>

definition produce :: "nat \<Rightarrow> mpmc_test \<Rightarrow> mpmc_test" where
  "produce p s =
     (let i = sent s ! p
      in if i < per_prod s then
           (case mpmc_enqueue (tested s) (test_value s p i) of
              (ok, q) \<Rightarrow> s\<lparr>tested := q, sent := (if ok then (sent s)[p := i + 1] else sent s)\<rparr>)
         else s)"

definition consume :: "nat \<Rightarrow> mpmc_test \<Rightarrow> mpmc_test" where
  "consume c s =
     (case consumers s ! c of
        Trying \<Rightarrow>
          (case mpmc_dequeue (tested s) of
             (Some v, q) \<Rightarrow> s\<lparr>tested := q, consumers := (consumers s)[c := Got v]\<rparr>
           | (None, q) \<Rightarrow> s\<lparr>tested := q, consumers := (consumers s)[c := Checking]\<rparr>)
      | Got v \<Rightarrow> s\<lparr>consumers := (consumers s)[c := Counted (cons_idx s) v], cons_idx := cons_idx s + 1\<rparr>
      | Counted k v \<Rightarrow>
          (let s = (if k < total s then s\<lparr>consumed := (consumed s)[k := v]\<rparr> else s)
           in s\<lparr>consumers := (consumers s)[c := if total s \<le> k + 1 then Left else Trying]\<rparr>)
      | Checking \<Rightarrow> s\<lparr>consumers := (consumers s)[c := if total s \<le> cons_idx s then Left else Trying]\<rparr>
      | Left \<Rightarrow> s)"

definition all_joined :: "mpmc_test \<Rightarrow> bool" where
  "all_joined s \<longleftrightarrow> (\<forall>i \<in> set (sent s). per_prod s \<le> i) \<and> (\<forall>c \<in> set (consumers s). c = Left)"

text \<open>The assertions after the threads were joined.\<close>

definition test_assertions :: "mpmc_test \<Rightarrow> bool" where
  "test_assertions s \<longleftrightarrow>
     (\<forall>v \<in> set (consumed s). 0 \<le> v) \<and> sum_list (consumed s) = sum_list (map int [0..<total s])"

section \<open>Interleaving\<close>

datatype test_thread = Producer nat | Consumer nat

fun test_move :: "test_thread \<Rightarrow> mpmc_test \<Rightarrow> mpmc_test" where
  "test_move (Producer p) s = (if p < length (sent s) then produce p s else s)"
| "test_move (Consumer c) s = (if c < length (consumers s) then consume c s else s)"

definition test_run :: "test_thread list \<Rightarrow> mpmc_test \<Rightarrow> mpmc_test" where
  "test_run ts s = fold test_move ts s"

inductive mpmc_test_reaches :: "nat \<Rightarrow> nat \<Rightarrow> nat \<Rightarrow> nat \<Rightarrow> mpmc_test \<Rightarrow> bool"
  for cap prods cons per where
  test_start: "mpmc_test_reaches cap prods cons per (mpmc_test_init cap prods cons per)"
| test_next: "mpmc_test_reaches cap prods cons per s \<Longrightarrow> mpmc_test_reaches cap prods cons per (test_move t s)"

lemma test_run_simps [simp]:
  "test_run [] s = s" "test_run (t # ts) s = test_run ts (test_move t s)"
  by (simp_all add: test_run_def)

lemma test_run_append: "test_run (ts @ us) s = test_run us (test_run ts s)"
  by (simp add: test_run_def)

lemma test_run_reaches:
  "mpmc_test_reaches cap prods cons per s \<Longrightarrow> mpmc_test_reaches cap prods cons per (test_run ts s)"
  by (induction ts arbitrary: s) (simp_all add: test_next)

section \<open>Single elements\<close>

lemma mpmc_enqueue_one:
  assumes "ring_ok q" "mpmc_enqueue q v = (ok, q')"
  shows "ok \<longleftrightarrow> length (contents q) < length (buffer q)"
    and "contents q' = (if ok then contents q @ [v] else contents q)"
    and "ring_ok q'" and "length (buffer q') = length (buffer q)"
proof -
  obtain n q1 where e: "mpmc_enqueue_bulk q [v] 1 = (n, q1)" by fastforce
  then have q': "q' = q1" "ok \<longleftrightarrow> n = 1" using assms(2) by (auto simp: mpmc_enqueue_def)
  have one: "unat (1::usize) \<le> length [v]" by simp
  note laws = mpmc_enqueue_bulk_correct [OF assms(1) one e]
  have n: "unat n = (if length (contents q) < length (buffer q) then 1 else 0)" using laws(1) by auto
  have "n = 1 \<longleftrightarrow> unat n = 1" by (metis unat_1 unsigned_word_eqI)
  then show ok: "ok \<longleftrightarrow> length (contents q) < length (buffer q)" using n q'(2) by auto
  show "contents q' = (if ok then contents q @ [v] else contents q)" using laws(2) n q' ok by auto
  show "ring_ok q'" "length (buffer q') = length (buffer q)" using laws(3,4) q' by auto
qed

lemma mpmc_dequeue_one:
  assumes "ring_ok q" "mpmc_dequeue q = (r, q')"
  shows "case r of None \<Rightarrow> contents q = [] \<and> contents q' = [] | Some v \<Rightarrow> contents q = v # contents q'"
    and "ring_ok q'" and "length (buffer q') = length (buffer q)"
proof -
  obtain out n q1 where d: "mpmc_dequeue_bulk q 1 = (out, n, q1)" by (metis prod_cases3)
  note laws = mpmc_dequeue_bulk_correct [OF assms(1) d]
  have q': "q' = q1" "r = (if n = 1 then Some (hd out) else None)"
    using assms(2) d by (auto simp: mpmc_dequeue_def)
  have "n = 1 \<longleftrightarrow> length out = 1" using laws(2) by (metis unat_1 unsigned_word_eqI)
  then show "case r of None \<Rightarrow> contents q = [] \<and> contents q' = [] | Some v \<Rightarrow> contents q = v # contents q'"
    using laws(1,3) q' by (cases "contents q") auto
  show "ring_ok q'" "length (buffer q') = length (buffer q)" using laws(4,5) q' by auto
qed

section \<open>Invariant\<close>

fun holding :: "consumer_stage \<Rightarrow> int list" where
  "holding (Got v) = [v]"
| "holding (Counted k v) = [v]"
| "holding _ = []"

fun claim :: "consumer_stage \<Rightarrow> nat list" where
  "claim (Counted k v) = [k]"
| "claim _ = []"

definition in_hand :: "mpmc_test \<Rightarrow> int list" where
  "in_hand s = concat (map holding (consumers s))"

definition claims :: "mpmc_test \<Rightarrow> nat list" where
  "claims s = concat (map claim (consumers s))"

definition sent_by :: "mpmc_test \<Rightarrow> nat \<Rightarrow> int list" where
  "sent_by s p = map (test_value s p) [0..<sent s ! p]"

definition all_sent :: "mpmc_test \<Rightarrow> int list" where
  "all_sent s = concat (map (sent_by s) [0..<length (sent s)])"

definition stored :: "mpmc_test \<Rightarrow> nat set" where
  "stored s = {..<cons_idx s} - set (claims s)"

text \<open>
  Every value that was sent is in the queue, with a consumer, or stored, once; the indexes that
  were taken and not stored at are distinct; a consumer has left only when all values are popped.
\<close>

definition test_ok :: "mpmc_test \<Rightarrow> bool" where
  "test_ok s \<longleftrightarrow> ring_ok (tested s) \<and> length (consumed s) = total s \<and> (\<forall>i \<in> set (sent s). i \<le> per_prod s) \<and>
     distinct (claims s) \<and> set (claims s) \<subseteq> {..<cons_idx s} \<and>
     (Left \<in> set (consumers s) \<longrightarrow> total s \<le> cons_idx s) \<and>
     mset (all_sent s) =
       mset (contents (tested s)) + mset (in_hand s) + image_mset (nth (consumed s)) (mset_set (stored s))"

lemma mset_concat_upt:
  assumes "p < n" "\<And>q. q \<noteq> p \<Longrightarrow> g q = f q"
  shows "mset (concat (map g [0..<n])) + mset (f p) = mset (concat (map f [0..<n])) + mset (g p)"
proof -
  have up: "[0..<n] = [0..<p] @ p # [Suc p..<n]" using assms(1) by (metis le_add1 less_imp_le plus_nat.add_0 upt_add_eq_append upt_conv_Cons le_add_diff_inverse)
  have "map g [0..<p] = map f [0..<p]" "map g [Suc p..<n] = map f [Suc p..<n]" using assms(2) by auto
  then show ?thesis
    unfolding up by (simp only: map_append list.map concat_append concat.simps mset_append ac_simps)
qed

lemma length_all_sent:
  assumes "\<forall>i \<in> set (sent s). i \<le> per_prod s"
  shows "length (all_sent s) \<le> total s"
    and "length (all_sent s) = total s \<longleftrightarrow> (\<forall>i \<in> set (sent s). per_prod s \<le> i)"
proof -
  have "length (all_sent s) = sum_list (sent s)"
    unfolding all_sent_def length_concat map_map
    by (rule arg_cong [of _ _ sum_list]) (auto simp: sent_by_def intro: nth_equalityI)
  moreover have "(\<forall>i \<in> set xs. i \<le> n) \<Longrightarrow>
      sum_list xs \<le> length xs * n \<and> (sum_list xs = length xs * n \<longleftrightarrow> (\<forall>i \<in> set xs. n \<le> i))" for xs and n :: nat
    by (induction xs) auto
  ultimately show "length (all_sent s) \<le> total s" "length (all_sent s) = total s \<longleftrightarrow> (\<forall>i \<in> set (sent s). per_prod s \<le> i)"
    using assms by (auto simp: total_def)
qed

lemma length_in_hand:
  "length (in_hand s) = length (claims s) + length (filter (\<lambda>c. \<exists>v. c = Got v) (consumers s))"
proof -
  have "length (concat (map holding cs)) = length (concat (map claim cs)) + length (filter (\<lambda>c. \<exists>v. c = Got v) cs)" for cs
  proof (induction cs)
    case (Cons c cs)
    then show ?case by (cases c) auto
  qed simp
  then show ?thesis by (simp add: in_hand_def claims_def)
qed

text \<open>The counter counts the values that are stored or about to be.\<close>

lemma test_ok_counts:
  assumes "test_ok s"
  shows "length (all_sent s) = length (contents (tested s)) +
      length (filter (\<lambda>c. \<exists>v. c = Got v) (consumers s)) + cons_idx s"
proof -
  have d: "distinct (claims s)" "set (claims s) \<subseteq> {..<cons_idx s}" using assms by (auto simp: test_ok_def)
  have "card (stored s) = cons_idx s - length (claims s)"
    using d by (simp add: stored_def card_Diff_subset distinct_card)
  moreover have "length (claims s) \<le> cons_idx s"
    using card_mono [OF _ d(2)] d(1) by (simp add: distinct_card)
  moreover have "mset (all_sent s) =
      mset (contents (tested s)) + mset (in_hand s) + image_mset (nth (consumed s)) (mset_set (stored s))"
    using assms by (simp add: test_ok_def)
  then have "length (all_sent s) = length (contents (tested s)) + length (in_hand s) + card (stored s)"
    by (metis size_image_mset size_mset size_mset_set size_union)
  ultimately show ?thesis by (simp add: length_in_hand)
qed

lemma test_ok_bounds:
  assumes "test_ok s"
  shows "cons_idx s \<le> total s" and "Got v \<in> set (consumers s) \<Longrightarrow> cons_idx s < total s"
proof -
  have le: "length (all_sent s) \<le> total s" using assms length_all_sent by (simp add: test_ok_def)
  then show "cons_idx s \<le> total s" using test_ok_counts [OF assms] by simp
  assume "Got v \<in> set (consumers s)"
  then have "filter (\<lambda>c. \<exists>v. c = Got v) (consumers s) \<noteq> []" by (auto simp: filter_empty_conv)
  then have "0 < length (filter (\<lambda>c. \<exists>v. c = Got v) (consumers s))" by blast
  then show "cons_idx s < total s" using le test_ok_counts [OF assms] by linarith
qed

lemma concat_replicate_Nil: "(\<And>x. x \<in> set xs \<Longrightarrow> f x = []) \<Longrightarrow> concat (map f xs) = []"
  by (induction xs) auto

lemma test_init_ok:
  assumes "cap < SIZE_MAX_P1" "valid_capacity (of_nat cap)"
  shows "test_ok (mpmc_test_init cap prods cons per)"
proof -
  define s where "s = mpmc_test_init cap prods cons per"
  have "in_hand s = []" "claims s = []" "all_sent s = []"
    by (auto simp: s_def mpmc_test_init_def in_hand_def claims_def all_sent_def sent_by_def intro!: concat_replicate_Nil)
  then show ?thesis
    using ring_init_ok [OF assms] unfolding s_def [symmetric]
    by (simp add: test_ok_def stored_def) (simp add: s_def mpmc_test_init_def ring_init_contents total_def)
qed

section \<open>Steps keep it\<close>

lemma consumers_update:
  assumes "c < length (consumers s)" "consumers s' = (consumers s)[c := st]"
  shows "mset (in_hand s') + mset (holding (consumers s ! c)) = mset (in_hand s) + mset (holding st)"
    and "mset (claims s') + mset (claim (consumers s ! c)) = mset (claims s) + mset (claim st)"
  using mset_concat_update [OF assms(1)] by (simp_all add: in_hand_def claims_def assms(2))

text \<open>A step of a consumer that takes no index and stores nothing.\<close>

lemma consumers_quiet:
  assumes "c < length (consumers s)" "consumers s' = (consumers s)[c := st]"
    and "holding st = holding (consumers s ! c)" "claim st = claim (consumers s ! c)"
  shows "mset (in_hand s') = mset (in_hand s)" and "mset (claims s') = mset (claims s)"
  using consumers_update [OF assms(1,2)] assms(3,4) by simp_all

lemma claims_cong: "mset (claims s') = mset (claims s) \<Longrightarrow> set (claims s') = set (claims s) \<and> distinct (claims s') = distinct (claims s)"
  by (metis mset_eq_imp_distinct_iff mset_eq_setD)

lemma produce_ok:
  assumes ok: "test_ok s" and p: "p < length (sent s)"
  shows "test_ok (produce p s)"
proof (cases "sent s ! p < per_prod s")
  case True
  obtain ok q where e: "mpmc_enqueue (tested s) (test_value s p (sent s ! p)) = (ok, q)" by fastforce
  have ring: "ring_ok (tested s)" using assms(1) by (simp add: test_ok_def)
  note one = mpmc_enqueue_one [OF ring e]
  define s' where "s' = s\<lparr>tested := q, sent := (if ok then (sent s)[p := sent s ! p + 1] else sent s)\<rparr>"
  have s': "produce p s = s'" using True e by (simp add: produce_def s'_def)
  have other: "sent_by s' r = sent_by s r" if "r \<noteq> p" for r
    using that by (simp add: s'_def sent_by_def test_value_def)
  have mine: "sent_by s' p = sent_by s p @ (if ok then [test_value s p (sent s ! p)] else [])"
    using p by (simp add: s'_def sent_by_def test_value_def)
  have "mset (concat (map (sent_by s') [0..<length (sent s)])) + mset (sent_by s p) =
      mset (concat (map (sent_by s) [0..<length (sent s)])) + mset (sent_by s' p)"
    using mset_concat_upt [OF p] other by blast
  moreover have "length (sent s') = length (sent s)" by (simp add: s'_def)
  ultimately have "mset (all_sent s') = mset (all_sent s) + mset (if ok then [test_value s p (sent s ! p)] else [])"
    unfolding all_sent_def mine by simp
  moreover have "mset (contents (tested s')) =
      mset (contents (tested s)) + mset (if ok then [test_value s p (sent s ! p)] else [])"
    using one(2) by (simp add: s'_def)
  moreover have "\<forall>i \<in> set (sent s'). i \<le> per_prod s'"
    using ok True by (auto simp: s'_def test_ok_def dest!: set_update_subset_insert [THEN subsetD])
  moreover have "in_hand s' = in_hand s" "claims s' = claims s" "stored s' = stored s" "total s' = total s"
    "ring_ok (tested s')" "consumed s' = consumed s" "cons_idx s' = cons_idx s" "consumers s' = consumers s"
    using one(3) by (simp_all add: s'_def in_hand_def claims_def stored_def total_def)
  ultimately show ?thesis using ok unfolding s' by (simp add: test_ok_def)
qed (use ok in \<open>simp add: produce_def\<close>)

lemma consume_ok:
  assumes ok: "test_ok s" and c: "c < length (consumers s)"
  shows "test_ok (consume c s)"
proof -
  have ring: "ring_ok (tested s)" and sub: "set (claims s) \<subseteq> {..<cons_idx s}" and dist: "distinct (claims s)"
    and len: "length (consumed s) = total s" and left: "Left \<in> set (consumers s) \<longrightarrow> total s \<le> cons_idx s"
    and sum: "mset (all_sent s) =
      mset (contents (tested s)) + mset (in_hand s) + image_mset (nth (consumed s)) (mset_set (stored s))"
    using ok by (auto simp: test_ok_def)
  have mem: "consumers s ! c \<in> set (consumers s)" using c by simp
  have stay: "Left \<in> set ((consumers s)[c := st]) \<Longrightarrow> st \<noteq> Left \<Longrightarrow> total s \<le> cons_idx s" for st
    using left by (auto dest!: set_update_subset_insert [THEN subsetD])
  show ?thesis
  proof (cases "consumers s ! c")
    case Trying
    obtain r q where d: "mpmc_dequeue (tested s) = (r, q)" by fastforce
    note one = mpmc_dequeue_one [OF ring d]
    define st where "st = (case r of Some v \<Rightarrow> Got v | None \<Rightarrow> Checking)"
    define s' where "s' = s\<lparr>tested := q, consumers := (consumers s)[c := st]\<rparr>"
    have s': "consume c s = s'" using Trying d by (simp add: consume_def s'_def st_def split: option.split)
    have cs: "consumers s' = (consumers s)[c := st]" by (simp add: s'_def)
    have "mset (in_hand s') = mset (in_hand s) + mset (holding st)" "mset (claims s') = mset (claims s)"
      using consumers_update [OF c cs] Trying by (simp_all add: st_def split: option.splits)
    moreover have "mset (contents (tested s)) = mset (contents (tested s')) + mset (holding st)"
      using one(1) by (auto simp: s'_def st_def split: option.splits)
    moreover have "st \<noteq> Left" by (simp add: st_def split: option.split)
    ultimately show ?thesis
      using ok one(2) stay [of st] claims_cong [of s' s] unfolding s'
      by (simp add: test_ok_def s'_def stored_def all_sent_def sent_by_def [abs_def] test_value_def [abs_def] total_def ac_simps)
  next
    case (Got v)
    define s' where "s' = s\<lparr>consumers := (consumers s)[c := Counted (cons_idx s) v], cons_idx := cons_idx s + 1\<rparr>"
    have s': "consume c s = s'" using Got by (simp add: consume_def s'_def)
    have cs: "consumers s' = (consumers s)[c := Counted (cons_idx s) v]" by (simp add: s'_def)
    have hand: "mset (in_hand s') = mset (in_hand s)" "mset (claims s') = add_mset (cons_idx s) (mset (claims s))"
      using consumers_update [OF c cs] Got by simp_all
    then have new: "set (claims s') = insert (cons_idx s) (set (claims s))" by (metis set_mset_add_mset_insert set_mset_mset)
    moreover have "mset (claims s') = mset (cons_idx s # claims s)" using hand(2) by simp
    then have "distinct (claims s') = distinct (cons_idx s # claims s)" by (rule mset_eq_imp_distinct_iff)
    ultimately have "distinct (claims s')" using dist sub by auto
    moreover have "cons_idx s' = Suc (cons_idx s)" by (simp add: s'_def)
    then have "stored s' = stored s" using sub unfolding stored_def new lessThan_Suc by fastforce
    ultimately show ?thesis
      using ok hand(1) new stay [of "Counted (cons_idx s) v"] unfolding s'
      by (auto simp: test_ok_def s'_def all_sent_def sent_by_def [abs_def] test_value_def [abs_def] total_def)
  next
    case (Counted k v)
    have k: "k \<in> set (claims s)" using Counted mem by (force simp: claims_def)
    then have small: "k < cons_idx s" "k < total s" using sub test_ok_bounds(1) [OF ok] by auto
    define st where "st = (if total s \<le> k + 1 then Left else Trying)"
    define s' where "s' = s\<lparr>consumed := (consumed s)[k := v], consumers := (consumers s)[c := st]\<rparr>"
    have s': "consume c s = s'" using Counted small by (simp add: consume_def s'_def st_def total_def Let_def)
    have cs: "consumers s' = (consumers s)[c := st]" by (simp add: s'_def)
    have hand: "mset (in_hand s) = add_mset v (mset (in_hand s'))" "mset (claims s) = add_mset k (mset (claims s'))"
      using consumers_update [OF c cs] Counted by (simp_all add: st_def split: if_splits)
    then have "mset (claims s) = mset (k # claims s')" by simp
    then have set: "set (claims s) = insert k (set (claims s'))" and d: "distinct (k # claims s')"
      using dist by (metis list.simps(15) mset_eq_setD, metis mset_eq_imp_distinct_iff)
    then have st': "stored s' = insert k (stored s)" and kn: "k \<notin> stored s"
      using small(1) k by (auto simp: stored_def s'_def)
    have fin: "finite (stored s)" by (simp add: stored_def)
    have "image_mset (nth (consumed s')) (mset_set (stored s)) = image_mset (nth (consumed s)) (mset_set (stored s))"
      by (rule image_mset_cong) (use kn fin in \<open>auto simp: s'_def intro!: nth_list_update_neq\<close>)
    then have "image_mset (nth (consumed s')) (mset_set (stored s')) =
        add_mset v (image_mset (nth (consumed s)) (mset_set (stored s)))"
      using st' kn fin small(2) len by (simp add: s'_def)
    moreover have "Left \<in> set (consumers s') \<longrightarrow> total s \<le> cons_idx s"
      using stay [of st] small(1) by (cases "total s \<le> k + 1") (auto simp: cs st_def)
    moreover have "total s' = total s" "all_sent s' = all_sent s" "tested s' = tested s" "sent s' = sent s"
      "per_prod s' = per_prod s" "cons_idx s' = cons_idx s" "length (consumed s') = length (consumed s)"
      by (simp_all add: s'_def total_def all_sent_def sent_by_def [abs_def] test_value_def [abs_def])
    moreover have "set (claims s') \<subseteq> {..<cons_idx s}" "distinct (claims s')" using sub set d by auto
    ultimately show ?thesis using ok hand(1) sum unfolding s' test_ok_def by simp
  next
    case Checking
    define st where "st = (if total s \<le> cons_idx s then Left else Trying)"
    define s' where "s' = s\<lparr>consumers := (consumers s)[c := st]\<rparr>"
    have s': "consume c s = s'" using Checking by (simp add: consume_def s'_def st_def)
    have cs: "consumers s' = (consumers s)[c := st]" by (simp add: s'_def)
    have hand: "mset (in_hand s') = mset (in_hand s)" "mset (claims s') = mset (claims s)"
      using consumers_quiet [OF c cs] Checking by (simp_all add: st_def)
    moreover have "Left \<in> set (consumers s') \<longrightarrow> total s \<le> cons_idx s"
      using stay [of st] by (cases "total s \<le> cons_idx s") (auto simp: cs st_def)
    ultimately show ?thesis
      using ok claims_cong [OF hand(2)] unfolding s'
      by (simp add: test_ok_def s'_def stored_def all_sent_def sent_by_def [abs_def] test_value_def [abs_def] total_def)
  next
    case Left
    then show ?thesis using ok by (simp add: consume_def)
  qed
qed

lemma test_move_ok: "test_ok s \<Longrightarrow> test_ok (test_move t s)"
  by (cases t) (simp_all add: produce_ok consume_ok)

lemma test_move_sizes [simp]:
  "per_prod (test_move t s) = per_prod s" "length (sent (test_move t s)) = length (sent s)"
  "length (consumers (test_move t s)) = length (consumers s)" "total (test_move t s) = total s"
  by (cases t; auto simp: produce_def consume_def total_def Let_def
      split: prod.split option.split consumer_stage.split)+

lemma test_reaches_ok:
  assumes "mpmc_test_reaches cap prods cons per s" "cap < SIZE_MAX_P1" "valid_capacity (of_nat cap)"
  shows "test_ok s \<and> length (consumers s) = cons \<and> total s = prods * per"
  using assms
proof (induction rule: mpmc_test_reaches.induct)
  case test_start
  then show ?case using test_init_ok by (simp add: mpmc_test_init_def total_def)
qed (simp add: test_move_ok)

section \<open>When all threads have ended\<close>

lemma concat_blocks: "concat (map (\<lambda>p. map (\<lambda>i. int (p * m + i)) [0..<m]) [0..<n]) = map int [0..<n * m]"
proof (induction n)
  case (Suc n)
  have "[0..<Suc n * m] = [0..<n * m] @ [n * m..<n * m + m]"
    using upt_add_eq_append [of 0 "n * m" m] by (simp add: add.commute)
  moreover have "[n * m..<n * m + m] = map (\<lambda>i. n * m + i) [0..<m]"
    using map_add_upt [of "n * m" m] by (simp add: add.commute)
  ultimately show ?case using Suc by (simp add: comp_def)
qed simp

lemma all_sent_complete:
  assumes "\<forall>i \<in> set (sent s). i = per_prod s"
  shows "all_sent s = map int [0..<total s]"
proof -
  have "map (sent_by s) [0..<length (sent s)] =
      map (\<lambda>p. map (\<lambda>i. int (p * per_prod s + i)) [0..<per_prod s]) [0..<length (sent s)]"
  proof (intro map_cong refl)
    fix p assume "p \<in> set [0..<length (sent s)]"
    then have "sent s ! p = per_prod s" using assms by simp
    then show "sent_by s p = map (\<lambda>i. int (p * per_prod s + i)) [0..<per_prod s]"
      by (simp add: sent_by_def test_value_def [abs_def])
  qed
  then show ?thesis using concat_blocks unfolding all_sent_def total_def by metis
qed

text \<open>When the consumers have left, everything was sent, popped and stored.\<close>

lemma consumers_gone:
  assumes ok: "test_ok s" and gone: "\<forall>c \<in> set (consumers s). c = Left" and some: "consumers s \<noteq> []"
  shows "all_joined s" and "mset (consumed s) = mset (map int [0..<total s])"
proof -
  have none: "in_hand s = []" "claims s = []" "filter (\<lambda>c. \<exists>v. c = Got v) (consumers s) = []"
    using gone by (auto simp: in_hand_def claims_def filter_empty_conv intro!: concat_replicate_Nil)
  have "Left \<in> set (consumers s)" using gone some by (metis hd_in_set)
  then have idx: "cons_idx s = total s" using ok test_ok_bounds(1) [OF ok] by (simp add: test_ok_def)
  have range: "\<forall>i \<in> set (sent s). i \<le> per_prod s" using ok by (simp add: test_ok_def)
  have "length (all_sent s) = length (contents (tested s)) + total s" using test_ok_counts [OF ok] none idx by simp
  then have full: "length (all_sent s) = total s" "contents (tested s) = []"
    using length_all_sent(1) [OF range] by auto
  then have each: "\<forall>i \<in> set (sent s). per_prod s \<le> i" using length_all_sent(2) [OF range] by simp
  then show "all_joined s" using gone by (simp add: all_joined_def)
  have "mset (all_sent s) = image_mset (nth (consumed s)) (mset_set (stored s))"
    using ok none full(2) by (simp add: test_ok_def)
  moreover have "stored s = {0..<length (consumed s)}"
    using ok idx none(2) by (auto simp: stored_def test_ok_def)
  then have "image_mset (nth (consumed s)) (mset_set (stored s)) = mset (map (nth (consumed s)) [0..<length (consumed s)])"
    by (simp add: mset_map)
  moreover have "\<forall>i \<in> set (sent s). i = per_prod s" using each range by (meson le_antisym)
  ultimately show "mset (consumed s) = mset (map int [0..<total s])"
    using all_sent_complete by (metis map_nth)
qed

lemma mset_asserts:
  assumes "mset (consumed s) = mset (map int [0..<total s])"
  shows "test_assertions s"
proof -
  have "set (consumed s) = set (map int [0..<total s])" using assms by (metis mset_eq_setD)
  moreover have "sum_list (consumed s) = sum_list (map int [0..<total s])"
    using assms by (metis sum_mset_sum_list)
  ultimately show ?thesis by (auto simp: test_assertions_def)
qed

text \<open>
  The concurrent test of the locked queue can only pass: for any numbers of producers,
  consumers and values, any capacity that the queue admits, and every interleaving, when all threads
  have been joined, the vector holds every value exactly once, so the assertions hold.
\<close>

theorem mpmc_test_passes:
  assumes "mpmc_test_reaches cap prods cons per s" "all_joined s"
    and "cap < SIZE_MAX_P1" "valid_capacity (of_nat cap)" "0 < cons"
  shows "mset (consumed s) = mset (map int [0..<prods * per]) \<and> test_assertions s"
proof -
  note ok = test_reaches_ok [OF assms(1,3,4)]
  then have "consumers s \<noteq> []" using assms(5) by auto
  then have "mset (consumed s) = mset (map int [0..<total s])"
    using consumers_gone(2) [of s] ok assms(2) by (simp add: all_joined_def)
  then show ?thesis using mset_asserts ok by simp
qed

section \<open>The test can always be finished\<close>

fun consumer_weight :: "consumer_stage \<Rightarrow> nat" where
  "consumer_weight (Got v) = 4"
| "consumer_weight (Counted k v) = 3"
| "consumer_weight Checking = 3"
| "consumer_weight Trying = 2"
| "consumer_weight Left = 0"

definition test_weight :: "mpmc_test \<Rightarrow> nat" where
  "test_weight s = 4 * (total s - length (all_sent s)) + 3 * length (contents (tested s)) +
     sum_list (map consumer_weight (consumers s))"

lemma length_all_sent_update:
  assumes "p < length (sent s)" "per_prod s' = per_prod s" "sent s' = (sent s)[p := Suc (sent s ! p)]"
  shows "length (all_sent s') = Suc (length (all_sent s))"
proof -
  have len: "length (all_sent t) = sum_list (map (\<lambda>i. i) (sent t))" for t
    unfolding all_sent_def length_concat map_map
    by (rule arg_cong [of _ _ sum_list]) (auto simp: sent_by_def intro: nth_equalityI)
  show ?thesis using sum_list_map_update [OF assms(1), of "\<lambda>i. i" "Suc (sent s ! p)"] by (simp add: len assms(3))
qed

lemma all_sent_consume:
  "all_sent (consume c s) = all_sent s"
  by (auto simp: consume_def all_sent_def sent_by_def [abs_def] test_value_def [abs_def] Let_def
      split: prod.split option.split consumer_stage.split)

lemma consumer_step_weight:
  assumes "c < length (consumers s)" "consumers s' = (consumers s)[c := st]" "tested s' = tested s"
    "all_sent s' = all_sent s" "total s' = total s"
  shows "test_weight s' + consumer_weight (consumers s ! c) = test_weight s + consumer_weight st"
  using sum_list_map_update [OF assms(1), of consumer_weight st] by (simp add: test_weight_def assms)

lemma consumer_lowers_weight:
  assumes ok: "test_ok s" and c: "c < length (consumers s)"
    and st: "consumers s ! c \<notin> {Trying, Left} \<or> (consumers s ! c = Trying \<and> contents (tested s) \<noteq> [])"
  shows "test_weight (consume c s) < test_weight s"
proof (cases "consumers s ! c")
  case Trying
  then obtain v vs where cont: "contents (tested s) = v # vs" using st by (cases "contents (tested s)") auto
  obtain r q where d: "mpmc_dequeue (tested s) = (r, q)" by fastforce
  have "ring_ok (tested s)" using ok by (simp add: test_ok_def)
  from mpmc_dequeue_one(1) [OF this d] cont have r: "r = Some v" "contents q = vs" by (auto split: option.splits)
  define s' where "s' = s\<lparr>tested := q, consumers := (consumers s)[c := Got v]\<rparr>"
  have s': "consume c s = s'" using Trying d r by (simp add: consume_def s'_def)
  have "all_sent s' = all_sent s" using all_sent_consume [of c s] s' by simp
  moreover have "sum_list (map consumer_weight (consumers s')) + 2 = sum_list (map consumer_weight (consumers s)) + 4"
    using sum_list_map_update [OF c, of consumer_weight "Got v"] Trying by (simp add: s'_def)
  moreover have "total s' = total s" "contents (tested s') = vs" using r by (simp_all add: s'_def total_def)
  ultimately show ?thesis unfolding s' by (simp add: test_weight_def cont)
next
  case (Got v)
  have "test_weight (consume c s) + 4 = test_weight s + 3"
    using consumer_step_weight [OF c, of "consume c s" "Counted (cons_idx s) v"] Got all_sent_consume [of c s]
    by (simp add: consume_def total_def)
  then show ?thesis by simp
next
  case (Counted k v)
  define st' where "st' = (if total s \<le> k + 1 then Left else Trying)"
  have "test_weight (consume c s) + consumer_weight (consumers s ! c) = test_weight s + consumer_weight st'"
  proof (rule consumer_step_weight [OF c _ _ all_sent_consume])
    show "consumers (consume c s) = (consumers s)[c := st']" "tested (consume c s) = tested s" "total (consume c s) = total s"
      using Counted by (simp_all add: consume_def st'_def total_def Let_def)
  qed
  then show ?thesis using Counted by (simp add: st'_def split: if_splits)
next
  case Checking
  define st' where "st' = (if total s \<le> cons_idx s then Left else Trying)"
  have "test_weight (consume c s) + 3 = test_weight s + consumer_weight st'"
    using consumer_step_weight [OF c, of "consume c s" st'] Checking all_sent_consume [of c s]
    by (simp add: consume_def total_def st'_def)
  then show ?thesis by (simp add: st'_def split: if_splits)
next
  case Left
  then show ?thesis using st by simp
qed

lemma producer_lowers_weight:
  assumes ok: "test_ok s" and p: "p < length (sent s)" "sent s ! p < per_prod s" and room: "contents (tested s) = []"
  shows "test_weight (produce p s) < test_weight s"
proof -
  obtain b q where e: "mpmc_enqueue (tested s) (test_value s p (sent s ! p)) = (b, q)" by fastforce
  have ring: "ring_ok (tested s)" using ok by (simp add: test_ok_def)
  note one = mpmc_enqueue_one [OF ring e]
  have "0 < Capacity (tested s)" using ring_okD(1) [OF ring] by (simp add: valid_capacity_def)
  then have "0 < length (buffer (tested s))" using ring_okD(2) [OF ring] by (metis unat_gt_0 word_gt_0)
  then have b: "b" using one(1) room by simp
  define s' where "s' = s\<lparr>tested := q, sent := (sent s)[p := Suc (sent s ! p)]\<rparr>"
  have s': "produce p s = s'" using p e b by (simp add: produce_def s'_def)
  have "test_ok s'" using produce_ok [OF ok p(1)] s' by simp
  then have "length (all_sent s') \<le> total s'" using length_all_sent(1) by (simp add: test_ok_def)
  moreover have "length (all_sent s') = Suc (length (all_sent s))"
    by (rule length_all_sent_update [OF p(1)]) (simp_all add: s'_def)
  moreover have "total s' = total s" "consumers s' = consumers s" "length (contents (tested s')) = 1"
    using one(2) b room by (simp_all add: s'_def total_def)
  ultimately show ?thesis unfolding s' test_weight_def using room by simp
qed

lemma mpmc_progress:
  assumes ok: "test_ok s" and some: "consumers s \<noteq> []" and busy: "\<not> all_joined s"
  shows "\<exists>ts. test_weight (test_run ts s) < test_weight s"
proof (cases "\<exists>c < length (consumers s). consumers s ! c \<notin> {Trying, Left} \<or>
    (consumers s ! c = Trying \<and> contents (tested s) \<noteq> [])")
  case True
  then obtain c where "c < length (consumers s)" "test_weight (consume c s) < test_weight s"
    using consumer_lowers_weight [OF ok] by blast
  then show ?thesis by (intro exI [of _ "[Consumer c]"]) simp
next
  case False
  have "\<not> (\<forall>c \<in> set (consumers s). c = Left)" using consumers_gone(1) [OF ok _ some] busy by blast
  then obtain c where c: "c < length (consumers s)" "consumers s ! c \<noteq> Left" by (metis in_set_conv_nth)
  then have trying: "consumers s ! c = Trying" and empty: "contents (tested s) = []" using False by auto
  have no_got: "filter (\<lambda>c. \<exists>v. c = Got v) (consumers s) = []"
    using False by (fastforce simp: filter_empty_conv in_set_conv_nth)
  have range: "\<forall>i \<in> set (sent s). i \<le> per_prod s" using ok by (simp add: test_ok_def)
  show ?thesis
  proof (cases "length (all_sent s) = total s")
    case False
    then obtain p where "p < length (sent s)" "sent s ! p < per_prod s"
      using length_all_sent(2) [OF range] by (metis in_set_conv_nth not_le)
    then show ?thesis using producer_lowers_weight [OF ok _ _ empty] by (intro exI [of _ "[Producer p]"]) simp
  next
    case True
    then have idx: "cons_idx s = total s" using test_ok_counts [OF ok] empty no_got by simp
    obtain r q where d: "mpmc_dequeue (tested s) = (r, q)" by fastforce
    have "ring_ok (tested s)" using ok by (simp add: test_ok_def)
    from mpmc_dequeue_one(1) [OF this d] empty have r: "r = None" "contents q = []" by (auto split: option.splits)
    define s1 where "s1 = s\<lparr>tested := q, consumers := (consumers s)[c := Checking]\<rparr>"
    have s1: "consume c s = s1" using trying d r by (simp add: consume_def s1_def)
    define s2 where "s2 = s1\<lparr>consumers := (consumers s)[c := Left]\<rparr>"
    have s2: "consume c s1 = s2" using c(1) idx by (simp add: consume_def s1_def s2_def total_def)
    have "all_sent s2 = all_sent s" using all_sent_consume [of c s] all_sent_consume [of c s1] s1 s2 by simp
    moreover have "sum_list (map consumer_weight (consumers s2)) + 2 = sum_list (map consumer_weight (consumers s))"
      using sum_list_map_update [OF c(1), of consumer_weight Left] trying by (simp add: s2_def)
    moreover have "total s2 = total s" "contents (tested s2) = []" using r by (simp_all add: s2_def s1_def total_def)
    ultimately have "test_weight s2 < test_weight s" by (simp add: test_weight_def empty)
    moreover have "test_run [Consumer c, Consumer c] s = s2"
      using c(1) s1 s2 by (simp add: s1_def [symmetric]) (simp add: s1_def)
    ultimately show ?thesis by metis
  qed
qed

lemma test_run_ok: "test_ok s \<Longrightarrow> test_ok (test_run ts s) \<and> length (consumers (test_run ts s)) = length (consumers s)"
  by (induction ts arbitrary: s) (simp_all add: test_move_ok)

lemma test_finishes:
  "test_ok s \<Longrightarrow> consumers s \<noteq> [] \<Longrightarrow> \<exists>ts. all_joined (test_run ts s)"
proof (induction "test_weight s" arbitrary: s rule: less_induct)
  case less
  show ?case
  proof (cases "all_joined s")
    case True
    then show ?thesis by (intro exI [of _ "[]"]) simp
  next
    case False
    obtain ts where ts: "test_weight (test_run ts s) < test_weight s"
      using mpmc_progress [OF less.prems False] by blast
    have "test_ok (test_run ts s)" "consumers (test_run ts s) \<noteq> []"
      using test_run_ok [OF less.prems(1), of ts] less.prems(2) by auto
    from less.hyps [OF ts this] obtain us where "all_joined (test_run us (test_run ts s))" by blast
    then show ?thesis by (intro exI [of _ "ts @ us"]) (simp add: test_run_append)
  qed
qed

text \<open>
  The test never gets stuck: whatever the threads have done so far, they can be scheduled so that
  all of them end, even when there are more consumers than values and none is left to pop.
\<close>

theorem mpmc_test_can_finish:
  assumes "mpmc_test_reaches cap prods cons per s"
    and "cap < SIZE_MAX_P1" "valid_capacity (of_nat cap)" "0 < cons"
  shows "\<exists>ts. all_joined (test_run ts s) \<and> test_assertions (test_run ts s)"
proof -
  note ok = test_reaches_ok [OF assms(1-3)]
  then have some: "consumers s \<noteq> []" using assms(4) by auto
  then obtain ts where ts: "all_joined (test_run ts s)" using test_finishes ok by blast
  have run: "test_ok (test_run ts s)" "consumers (test_run ts s) \<noteq> []" using test_run_ok [of s ts] ok some by (simp, metis length_0_conv)
  have "\<forall>c \<in> set (consumers (test_run ts s)). c = Left" using ts by (simp add: all_joined_def)
  from consumers_gone(2) [OF run(1) this run(2)] mset_asserts ts show ?thesis by blast
qed

section \<open>A small test\<close>

definition small_schedule :: "test_thread list" where
  "small_schedule = [Producer 0, Producer 1, Consumer 0, Consumer 1, Consumer 1, Producer 1, Consumer 0,
     Consumer 0, Consumer 1, Producer 0, Consumer 1, Consumer 0]"

definition small_test :: mpmc_test where
  "small_test = test_run small_schedule (mpmc_test_init 2 2 2 2)"

definition rest_schedule :: "test_thread list" where
  "rest_schedule = [Consumer 0, Consumer 1, Consumer 0, Consumer 1, Consumer 0, Consumer 0]"

lemma small_test_reached: "mpmc_test_reaches 2 2 2 2 small_test"
  unfolding small_test_def by (rule test_run_reaches [OF test_start])

lemma two_valid: "valid_capacity (of_nat 2)" "(2::nat) < SIZE_MAX_P1"
  by (code_simp, simp)

lemma small_test_joined: "all_joined (test_run rest_schedule small_test)"
  by code_simp

theorem mpmc_test_passes_witness:
  "mset (consumed (test_run rest_schedule small_test)) = mset (map int [0..<2 * 2]) \<and>
     test_assertions (test_run rest_schedule small_test)"
  by (rule mpmc_test_passes [OF test_run_reaches [OF small_test_reached] small_test_joined two_valid(2,1)]) simp

theorem mpmc_test_can_finish_witness:
  "\<exists>ts. all_joined (test_run ts small_test) \<and> test_assertions (test_run ts small_test)"
  by (rule mpmc_test_can_finish [OF small_test_reached two_valid(2,1)]) simp

end
