(* ===== verification/Ring_Demo.thy ===== *)
theory Ring_Demo
  imports Queue_Clients
begin

text \<open>
  The test program of the queues and the part of \<^verbatim>\<open>ring_buffer/src/main.cpp\<close> that is about the locked
  queue. Its threads run the loops of the concurrent test, with a smaller queue, and only the sum of
  what was consumed is compared in the end. (The part about the lock-free queue is in
  \<^theory_text>\<open>Spsc_Tests\<close>.)
\<close>

section \<open>The two programs of the locked queue\<close>

definition test_mpmc_4p4c :: mpmc_test where
  "test_mpmc_4p4c = mpmc_test_init 65536 4 4 (1000000 div 4)"

definition demo_mpmc :: mpmc_test where
  "demo_mpmc = mpmc_test_init 4096 4 4 (1000000 div 4)"

inductive run_from :: "mpmc_test \<Rightarrow> mpmc_test \<Rightarrow> bool" for s where
  run_starts: "run_from s s"
| run_moves: "run_from s u \<Longrightarrow> run_from s (test_move t u)"

text \<open>The sum that is printed as \<^verbatim>\<open>PASS\<close> when it is the expected one.\<close>

definition sums_agree :: "mpmc_test \<Rightarrow> bool" where
  "sums_agree s \<longleftrightarrow> sum_list (consumed s) = sum_list (map int [0..<1000000])"

lemma run_from_reaches:
  "run_from (mpmc_test_init cap prods cons per) s \<Longrightarrow> mpmc_test_reaches cap prods cons per s"
  by (induction rule: run_from.induct) (auto intro: test_start test_next)

lemma locked_run_complete:
  assumes "run_from (mpmc_test_init cap 4 4 (1000000 div 4)) s" "all_joined s"
    and "cap < SIZE_MAX_P1" "valid_capacity (of_nat cap)"
  shows "test_assertions s" "sums_agree s"
proof -
  have r: "mpmc_test_reaches cap 4 4 (1000000 div 4) s" using run_from_reaches assms(1) .
  note ok = test_reaches_ok [OF this assms(3,4)]
  have all: "mset (consumed s) = mset (map int [0..<total s])"
    using consumers_gone(2) [of s] ok assms(2) by (fastforce simp: all_joined_def)
  then show "test_assertions s" by (rule mset_asserts)
  have "total s = 1000000" using ok by simp
  then show "sums_agree s" using all by (metis sum_mset_sum_list sums_agree_def)
qed

text \<open>Both say so in the end, and both can always get to their end.\<close>

lemma caps_ok:
  "(65536::nat) < SIZE_MAX_P1" "valid_capacity (of_nat 65536)" "(4096::nat) < SIZE_MAX_P1" "valid_capacity (of_nat 4096)"
  by (simp_all add: valid_capacity_def)

lemma test_mpmc_4p4c_passes: "run_from test_mpmc_4p4c s \<Longrightarrow> all_joined s \<Longrightarrow> test_assertions s"
  unfolding test_mpmc_4p4c_def by (rule locked_run_complete(1) [OF _ _ caps_ok(1,2)])

lemma demo_mpmc_says_pass: "run_from demo_mpmc s \<Longrightarrow> all_joined s \<Longrightarrow> sums_agree s"
  unfolding demo_mpmc_def by (rule locked_run_complete(2) [OF _ _ caps_ok(3,4)])

lemma locked_runs_can_end:
  "run_from test_mpmc_4p4c s \<Longrightarrow> \<exists>ts. all_joined (test_run ts s)"
  "run_from demo_mpmc s \<Longrightarrow> \<exists>ts. all_joined (test_run ts s)"
  unfolding test_mpmc_4p4c_def demo_mpmc_def
  using mpmc_test_can_finish [OF run_from_reaches caps_ok(1,2)] mpmc_test_can_finish [OF run_from_reaches caps_ok(3,4)]
  by (meson zero_less_numeral)+

end
