(* ===== verification/Stream_Interface.thy ===== *)
theory Stream_Interface
  imports Prelude
begin

text \<open>
  What the connection, the HTTP response writer and the HTTP server use of a buffer: appending at
  the end, removing from the front, looking at what is in between. \<open>stream b\<close> is the byte
  sequence the buffer stands for and \<open>top b\<close> how far it reaches into memory, which bounds what
  can still be appended without leaving the address space.
\<close>

locale byte_stream =
  fixes app :: "'b \<Rightarrow> string \<Rightarrow> 'b"
    and ret :: "'b \<Rightarrow> nat \<Rightarrow> 'b"
    and stream :: "'b \<Rightarrow> string"
    and top :: "'b \<Rightarrow> nat"
    and room :: nat
    and invar :: "'b \<Rightarrow> bool"
  assumes app_invar: "invar b \<Longrightarrow> top b + length s < room \<Longrightarrow> invar (app b s)"
    and app_stream: "invar b \<Longrightarrow> top b + length s < room \<Longrightarrow> stream (app b s) = stream b @ s"
    and app_top: "invar b \<Longrightarrow> top b + length s < room \<Longrightarrow> top (app b s) \<le> top b + length s"
    and ret_invar: "invar b \<Longrightarrow> invar (ret b n)"
    and ret_stream: "invar b \<Longrightarrow> stream (ret b n) = drop n (stream b)"
    and ret_top: "invar b \<Longrightarrow> top (ret b n) \<le> top b"
begin

lemmas stream_laws = app_invar app_stream ret_invar ret_stream

text \<open>A sequence of appends is one append of the concatenation.\<close>

lemma app_all:
  "invar b \<Longrightarrow> top b + length (concat ss) < room \<Longrightarrow>
     invar (foldl app b ss) \<and> stream (foldl app b ss) = stream b @ concat ss \<and>
     top (foldl app b ss) \<le> top b + length (concat ss)"
proof (induction ss arbitrary: b)
  case (Cons s ss)
  have s: "top b + length s < room" using Cons.prems(2) by simp
  have "top (app b s) + length (concat ss) < room"
    using app_top [OF Cons.prems(1) s] Cons.prems(2) by simp
  from Cons.IH [OF app_invar [OF Cons.prems(1) s] this] app_stream [OF Cons.prems(1) s]
    app_top [OF Cons.prems(1) s]
  show ?case by simp
qed simp

text \<open>Draining the front in several portions takes the bytes in order.\<close>

lemma ret_all:
  "invar b \<Longrightarrow> invar (foldl ret b ns) \<and> stream (foldl ret b ns) = drop (sum_list ns) (stream b)"
proof (induction ns arbitrary: b)
  case (Cons n ns)
  from Cons.IH [OF ret_invar [OF Cons.prems, of n]] ret_stream [OF Cons.prems, of n]
  show ?case by (simp add: add.commute)
qed simp

lemma ret_app:
  assumes "invar b" "top b + length s < room" "n \<le> length (stream b)"
  shows "stream (ret (app b s) n) = stream (ret b n) @ s"
  using assms by (simp add: ret_stream app_invar app_stream)

end

end
