(* ===== verification/Byte_Buffer.thy ===== *)
theory Byte_Buffer
  imports Prelude Stream_Interface
begin

text \<open>
  \<^verbatim>\<open>reactor_net/include/Buffer.h\<close> and \<^verbatim>\<open>src/Buffer.cpp\<close>: the byte buffer of a connection,
  one contiguous vector with a prependable, a readable and a writable part. Offsets and sizes are
  naturals; the two sums of the source that can leave the range of \<^verbatim>\<open>size_t\<close> (both in
  \<^verbatim>\<open>makeSpace\<close>) are written with their wrap-around. The results of the system calls
  \<^verbatim>\<open>readv\<close> and \<^verbatim>\<open>write\<close> are arguments: an error number, or the bytes read (the count written).
\<close>

section \<open>The buffer and its operations\<close>

record byte_buffer =
  storage :: string
  readIndex :: nat
  writeIndex :: nat

definition kCheapPrepend :: nat where
  "kCheapPrepend = 8"

definition kInitialSize :: nat where
  "kInitialSize = 1024"

definition Buffer :: "nat \<Rightarrow> byte_buffer" where
  "Buffer initialSize =
     \<lparr>storage = replicate (kCheapPrepend + initialSize) (CHR 0x00),
      readIndex = kCheapPrepend, writeIndex = kCheapPrepend\<rparr>"

definition readableBytes :: "byte_buffer \<Rightarrow> nat" where
  "readableBytes b = writeIndex b - readIndex b"

definition writableBytes :: "byte_buffer \<Rightarrow> nat" where
  "writableBytes b = length (storage b) - writeIndex b"

definition prependableBytes :: "byte_buffer \<Rightarrow> nat" where
  "prependableBytes b = readIndex b"

text \<open>The bytes from \<^verbatim>\<open>peek()\<close> up to \<^verbatim>\<open>peek() + readableBytes()\<close>.\<close>

definition readable :: "byte_buffer \<Rightarrow> string" where
  "readable b = drop (readIndex b) (take (writeIndex b) (storage b))"

definition retrieveAll :: "byte_buffer \<Rightarrow> byte_buffer" where
  "retrieveAll b = b\<lparr>readIndex := kCheapPrepend, writeIndex := kCheapPrepend\<rparr>"

definition retrieve :: "byte_buffer \<Rightarrow> nat \<Rightarrow> byte_buffer" where
  "retrieve b len =
     (if len < readableBytes b then b\<lparr>readIndex := readIndex b + len\<rparr> else retrieveAll b)"

definition retrieveAsString :: "byte_buffer \<Rightarrow> nat \<Rightarrow> string \<times> byte_buffer" where
  "retrieveAsString b len =
     (let actualLen = min len (readableBytes b)
      in (take actualLen (readable b), retrieve b actualLen))"

definition retrieveAllAsString :: "byte_buffer \<Rightarrow> string \<times> byte_buffer" where
  "retrieveAllAsString b = retrieveAsString b (readableBytes b)"

definition makeSpace :: "byte_buffer \<Rightarrow> nat \<Rightarrow> byte_buffer" where
  "makeSpace b len =
     (if writableBytes b + prependableBytes b < (len + kCheapPrepend) mod SIZE_MAX_P1
      then b\<lparr>storage := vec_resize (CHR 0x00) (storage b) ((writeIndex b + len) mod SIZE_MAX_P1)\<rparr>
      else b\<lparr>storage := copy_into (storage b) kCheapPrepend (readable b),
             readIndex := kCheapPrepend,
             writeIndex := kCheapPrepend + readableBytes b\<rparr>)"

definition ensureWritableBytes :: "byte_buffer \<Rightarrow> nat \<Rightarrow> byte_buffer" where
  "ensureWritableBytes b len = (if writableBytes b < len then makeSpace b len else b)"

definition append_bytes :: "byte_buffer \<Rightarrow> string \<Rightarrow> byte_buffer" where
  "append_bytes b bytes =
     (let b = ensureWritableBytes b (length bytes)
      in b\<lparr>storage := copy_into (storage b) (writeIndex b) bytes,
           writeIndex := writeIndex b + length bytes\<rparr>)"

definition findCRLF :: "byte_buffer \<Rightarrow> nat option" where
  "findCRLF b = search [CHR 0x0D, CHR 0x0A] (readable b)"

section \<open>System calls\<close>

definition extrabuf_size :: nat where
  "extrabuf_size = 65536"

text \<open>How much one \<^verbatim>\<open>readv\<close> may return: the second vector is used only when the first is short.\<close>

definition readv_room :: "byte_buffer \<Rightarrow> nat" where
  "readv_room b =
     (if writableBytes b < extrabuf_size then writableBytes b + extrabuf_size else writableBytes b)"

type_synonym errno = int

definition readFd :: "byte_buffer \<Rightarrow> errno + string \<Rightarrow> int \<times> errno option \<times> byte_buffer" where
  "readFd b res =
     (case res of
        Inl e \<Rightarrow> (-1, Some e, b)
      | Inr bytes \<Rightarrow>
          let n = length bytes; writable = writableBytes b
          in if n \<le> writable
             then (int n, None, b\<lparr>storage := copy_into (storage b) (writeIndex b) bytes,
                                  writeIndex := writeIndex b + n\<rparr>)
             else (int n, None,
                   append_bytes (b\<lparr>storage := copy_into (storage b) (writeIndex b) (take writable bytes),
                                   writeIndex := length (storage b)\<rparr>) (drop writable bytes)))"

text \<open>\<^verbatim>\<open>writeFd\<close> hands the readable bytes to \<^verbatim>\<open>write\<close>, which takes the first \<open>n\<close> of them.\<close>

definition writeFd :: "byte_buffer \<Rightarrow> errno + nat \<Rightarrow> int \<times> errno option \<times> byte_buffer" where
  "writeFd b res =
     (case res of
        Inl e \<Rightarrow> (-1, Some e, b)
      | Inr n \<Rightarrow> (int n, None, retrieve b n))"

section \<open>Well-formed buffers\<close>

definition buf_ok :: "byte_buffer \<Rightarrow> bool" where
  "buf_ok b \<longleftrightarrow> kCheapPrepend \<le> readIndex b \<and> readIndex b \<le> writeIndex b \<and>
     writeIndex b \<le> length (storage b)"

text \<open>Room in the address space for \<open>n\<close> more bytes, so that the sums of the source are exact.\<close>

definition fits :: "byte_buffer \<Rightarrow> nat \<Rightarrow> bool" where
  "fits b n \<longleftrightarrow> writeIndex b + n + kCheapPrepend < SIZE_MAX_P1"

lemma length_readable [buf_simps]: "buf_ok b \<Longrightarrow> length (readable b) = readableBytes b"
  by (simp add: readable_def readableBytes_def buf_ok_def)

lemma Buffer_ok: "buf_ok (Buffer n)"
  by (simp add: buf_ok_def Buffer_def)

lemma Buffer_readable: "readable (Buffer n) = []"
  by (simp add: readable_def Buffer_def)

lemma retrieve_ok [buf_simps]: "buf_ok b \<Longrightarrow> buf_ok (retrieve b n)"
  by (auto simp: buf_ok_def retrieve_def retrieveAll_def readableBytes_def)

lemma retrieve_readable [buf_simps]: "buf_ok b \<Longrightarrow> readable (retrieve b n) = drop n (readable b)"
  by (auto simp: buf_ok_def retrieve_def retrieveAll_def readableBytes_def readable_def add.commute)

lemma retrieve_writeIndex: "buf_ok b \<Longrightarrow> writeIndex (retrieve b n) \<le> writeIndex b"
  by (auto simp: buf_ok_def retrieve_def retrieveAll_def)

lemma makeSpace_ok:
  assumes "buf_ok b" "fits b n" "writableBytes b < n"
  shows "buf_ok (makeSpace b n)" and "readable (makeSpace b n) = readable b"
    and "n \<le> writableBytes (makeSpace b n)" and "writeIndex (makeSpace b n) \<le> writeIndex b"
proof -
  note b = assms(1) [unfolded buf_ok_def]
  have small: "(n + kCheapPrepend) mod SIZE_MAX_P1 = n + kCheapPrepend"
    "(writeIndex b + n) mod SIZE_MAX_P1 = writeIndex b + n"
    using assms(2) by (simp_all add: fits_def)
  have "buf_ok (makeSpace b n) \<and> readable (makeSpace b n) = readable b \<and>
    n \<le> writableBytes (makeSpace b n) \<and> writeIndex (makeSpace b n) \<le> writeIndex b"
  proof (cases "writableBytes b + prependableBytes b < n + kCheapPrepend")
    case True
    with b assms(3) show ?thesis
      by (simp add: makeSpace_def small buf_ok_def readable_def writableBytes_def)
  next
    case False
    have "drop kCheapPrepend (take (kCheapPrepend + length (readable b))
        (copy_into (storage b) kCheapPrepend (readable b))) = readable b"
      using b length_readable [OF assms(1)]
      by (subst slice_copy_into) (auto simp: readableBytes_def)
    with False b assms(3) length_readable [OF assms(1)] show ?thesis
      by (auto simp: makeSpace_def small buf_ok_def readable_def [of "_\<lparr>writeIndex := _\<rparr>"] writableBytes_def
          readableBytes_def prependableBytes_def)
  qed
  then show "buf_ok (makeSpace b n)" "readable (makeSpace b n) = readable b"
    "n \<le> writableBytes (makeSpace b n)" "writeIndex (makeSpace b n) \<le> writeIndex b"
    by blast+
qed

lemma ensureWritableBytes_ok:
  assumes "buf_ok b" "fits b n"
  shows "buf_ok (ensureWritableBytes b n)" and "readable (ensureWritableBytes b n) = readable b"
    and "n \<le> writableBytes (ensureWritableBytes b n)"
    and "writeIndex (ensureWritableBytes b n) \<le> writeIndex b"
  using makeSpace_ok [OF assms] assms(1) by (auto simp: ensureWritableBytes_def)

text \<open>Bytes written at \<open>writeIndex\<close> within the vector become readable.\<close>

lemma commit_bytes:
  assumes "buf_ok b" "length bytes \<le> writableBytes b"
  defines "b' \<equiv> b\<lparr>storage := copy_into (storage b) (writeIndex b) bytes,
      writeIndex := writeIndex b + length bytes\<rparr>"
  shows "buf_ok b'" and "readable b' = readable b @ bytes"
proof -
  have "writeIndex b + length bytes \<le> length (storage b)"
    using assms(1,2) by (auto simp: buf_ok_def writableBytes_def)
  with assms(1) show "buf_ok b'" "readable b' = readable b @ bytes"
    by (auto simp: b'_def buf_ok_def readable_def slice_copy_into)
qed

lemma append_bytes_ok:
  assumes "buf_ok b" "fits b (length bytes)"
  shows "buf_ok (append_bytes b bytes)" and "readable (append_bytes b bytes) = readable b @ bytes"
    and "writeIndex (append_bytes b bytes) \<le> writeIndex b + length bytes"
  using ensureWritableBytes_ok [OF assms] commit_bytes
  by (auto simp: append_bytes_def Let_def)

lemma readFd_ok:
  assumes "buf_ok b" "fits b (length bytes)" "length bytes \<le> readv_room b"
    "readFd b (Inr bytes) = (n, e, b')"
  shows "n = int (length bytes)" and "e = None" and "buf_ok b'" and "readable b' = readable b @ bytes"
proof -
  let ?w = "writableBytes b"
  have ok: "n = int (length bytes) \<and> e = None \<and> buf_ok b' \<and> readable b' = readable b @ bytes"
  proof (cases "length bytes \<le> ?w")
    case True
    then show ?thesis
      using commit_bytes [OF assms(1) True] assms(4) by (auto simp: readFd_def Let_def)
  next
    case False
    let ?b = "b\<lparr>storage := copy_into (storage b) (writeIndex b) (take ?w bytes),
      writeIndex := writeIndex b + length (take ?w bytes)\<rparr>"
    have len: "length (take ?w bytes) = ?w" and end_at: "writeIndex b + ?w = length (storage b)"
      using False assms(1) by (auto simp: writableBytes_def buf_ok_def)
    have b: "buf_ok ?b" "readable ?b = readable b @ take ?w bytes"
      using commit_bytes [OF assms(1), of "take ?w bytes"] len by auto
    have "fits ?b (length (drop ?w bytes))"
      using assms(2) False len by (auto simp: fits_def)
    from append_bytes_ok [OF b(1) this] b False assms(4) len end_at show ?thesis
      by (auto simp: readFd_def Let_def)
  qed
  then show "n = int (length bytes)" "e = None" "buf_ok b'" "readable b' = readable b @ bytes"
    by blast+
qed

section \<open>The buffer is a byte stream\<close>

lemma fits_iff: "fits b n \<longleftrightarrow> writeIndex b + n < SIZE_MAX_P1 - kCheapPrepend"
  by (auto simp: fits_def kCheapPrepend_def)

interpretation buf: byte_stream append_bytes retrieve readable writeIndex
  "SIZE_MAX_P1 - kCheapPrepend" buf_ok
  by unfold_locales
    (simp_all add: append_bytes_ok retrieve_ok retrieve_readable retrieve_writeIndex fits_iff [symmetric])

section \<open>What the connection may rely on\<close>

text \<open>
  Appending adds the bytes at the end of what is readable, whether the vector has room, has to
  be compacted or has to grow, and leaves a well-formed buffer; all bytes land inside the vector.
\<close>

theorem append_keeps_stream:
  assumes "buf_ok b" "fits b (length bytes)"
  shows "buf_ok (append_bytes b bytes) \<and> readable (append_bytes b bytes) = readable b @ bytes \<and>
    writeIndex (ensureWritableBytes b (length bytes)) + length bytes
      \<le> length (storage (ensureWritableBytes b (length bytes)))"
  using append_bytes_ok [OF assms] ensureWritableBytes_ok(1,3) [OF assms]
  by (auto simp: writableBytes_def buf_ok_def)

text \<open>A buffer that must compact: four bytes were read from the front of a full small vector.\<close>

definition worn_buffer :: byte_buffer where
  "worn_buffer = retrieve (append_bytes (Buffer 6) ''abcdef'') 5"

lemma worn_buffer_eq:
  "worn_buffer = \<lparr>storage = replicate 8 (CHR 0x00) @ ''abcdef'', readIndex = 13, writeIndex = 14\<rparr>"
  by code_simp

lemma worn_buffer_ok: "buf_ok worn_buffer" "n \<le> 5 \<Longrightarrow> fits worn_buffer n"
  by (simp_all add: worn_buffer_eq buf_ok_def fits_def kCheapPrepend_def)

theorem append_keeps_stream_witness:
  "buf_ok (append_bytes worn_buffer ''ghijk'') \<and>
    readable (append_bytes worn_buffer ''ghijk'') = readable worn_buffer @ ''ghijk'' \<and>
    writeIndex (ensureWritableBytes worn_buffer (length ''ghijk'')) + length ''ghijk''
      \<le> length (storage (ensureWritableBytes worn_buffer (length ''ghijk'')))"
  by (rule append_keeps_stream) (simp_all add: worn_buffer_ok)

text \<open>
  A read delivers all bytes the kernel returned, in order, after those already buffered,
  even when they overflow from the vector into the stack buffer.
\<close>

theorem readFd_delivers:
  assumes "buf_ok b" "fits b (length bytes)" "length bytes \<le> readv_room b"
  shows "\<exists>b'. readFd b (Inr bytes) = (int (length bytes), None, b') \<and> buf_ok b' \<and>
    readable b' = readable b @ bytes"
proof -
  obtain n e b' where r: "readFd b (Inr bytes) = (n, e, b')" by (metis prod_cases3)
  from readFd_ok [OF assms r] r show ?thesis by blast
qed

theorem readFd_delivers_witness:
  "\<exists>b'. readFd worn_buffer (Inr ''hello'') = (int (length ''hello''), None, b') \<and> buf_ok b' \<and>
    readable b' = readable worn_buffer @ ''hello''"
  by (rule readFd_delivers)
    (simp_all add: worn_buffer_ok, simp add: worn_buffer_eq readv_room_def writableBytes_def extrabuf_size_def)

text \<open>
  What a write hands to the socket and what stays in the buffer are together exactly what was
  readable before: no byte of the output is lost, repeated or reordered by a partial write.
\<close>

theorem writeFd_conserves:
  assumes "buf_ok b" "n \<le> readableBytes b"
  shows "\<exists>b'. writeFd b (Inr n) = (int n, None, b') \<and> buf_ok b' \<and>
    take n (readable b) @ readable b' = readable b"
  using assms by (simp add: writeFd_def buf_simps)

theorem writeFd_conserves_witness:
  "\<exists>b'. writeFd (append_bytes worn_buffer ''ghijk'') (Inr 3) = (int 3, None, b') \<and> buf_ok b' \<and>
    take 3 (readable (append_bytes worn_buffer ''ghijk'')) @ readable b' =
      readable (append_bytes worn_buffer ''ghijk'')"
proof (rule writeFd_conserves)
  show ok: "buf_ok (append_bytes worn_buffer ''ghijk'')"
    by (rule append_bytes_ok(1)) (simp_all add: worn_buffer_ok)
  have "readable (append_bytes worn_buffer ''ghijk'') = readable worn_buffer @ ''ghijk''"
    by (rule append_bytes_ok(2)) (simp_all add: worn_buffer_ok)
  then show "3 \<le> readableBytes (append_bytes worn_buffer ''ghijk'')"
    by (simp add: length_readable [OF ok, symmetric])
qed

text \<open>Retrieving as a string splits the readable bytes in two.\<close>

lemma retrieveAsString_splits:
  "buf_ok b \<Longrightarrow> retrieveAsString b len = (s, b') \<Longrightarrow>
     buf_ok b' \<and> s @ readable b' = readable b \<and> length s = min len (readableBytes b)"
  by (auto simp: retrieveAsString_def Let_def buf_simps)

lemma retrieveAllAsString_all:
  "buf_ok b \<Longrightarrow> retrieveAllAsString b = (s, b') \<Longrightarrow> buf_ok b' \<and> s = readable b \<and> readable b' = []"
  by (auto simp: retrieveAllAsString_def retrieveAsString_def Let_def buf_simps length_readable)

text \<open>
  \<^verbatim>\<open>ensureWritableBytes\<close> promises room for \<open>len\<close> bytes; the promise fails only where the sum in
  \<^verbatim>\<open>makeSpace\<close> wraps around: a fresh buffer asked for the largest sizes stays as it is.
\<close>

lemma ensureWritableBytes_wraps:
  "writableBytes (ensureWritableBytes (Buffer 16) (SIZE_MAX_P1 - 8)) = 16"
  by (simp add: ensureWritableBytes_def makeSpace_def writableBytes_def prependableBytes_def
      readableBytes_def Buffer_def kCheapPrepend_def readable_def copy_into_def)

end
