(* ===== verification/Std_Map.thy ===== *)
theory Std_Map
  imports Prelude "HOL-Library.Char_ord" "HOL-Library.List_Lexorder"
begin

text \<open>
  The part of \<^verbatim>\<open>std::map\<close> the sources use (\<^verbatim>\<open>operator[]\<close> for assignment, \<^verbatim>\<open>find\<close>,
  \<^verbatim>\<open>erase\<close> by key, iteration in key order), as key-sorted association lists; keys of type
  \<^verbatim>\<open>std::string\<close> are ordered byte by byte. The locale is what its users rely on.
\<close>

fun map_put :: "'k::linorder \<Rightarrow> 'v \<Rightarrow> ('k \<times> 'v) list \<Rightarrow> ('k \<times> 'v) list" where
  "map_put k v [] = [(k, v)]"
| "map_put k v ((k', v') # m) =
     (if k < k' then (k, v) # (k', v') # m
      else if k = k' then (k, v) # m
      else (k', v') # map_put k v m)"

fun map_find :: "('k::linorder \<times> 'v) list \<Rightarrow> 'k \<Rightarrow> 'v option" where
  "map_find [] k = None"
| "map_find ((k', v) # m) k = (if k = k' then Some v else map_find m k)"

fun map_erase :: "'k::linorder \<Rightarrow> ('k \<times> 'v) list \<Rightarrow> ('k \<times> 'v) list" where
  "map_erase k [] = []"
| "map_erase k ((k', v) # m) = (if k = k' then m else (k', v) # map_erase k m)"

definition map_ok :: "('k::linorder \<times> 'v) list \<Rightarrow> bool" where
  "map_ok m \<longleftrightarrow> sorted_wrt (<) (map fst m)"

locale ordered_map =
  fixes put :: "'k::linorder \<Rightarrow> 'v \<Rightarrow> 'm \<Rightarrow> 'm"
    and find :: "'m \<Rightarrow> 'k \<Rightarrow> 'v option"
    and erase :: "'k \<Rightarrow> 'm \<Rightarrow> 'm"
    and entries :: "'m \<Rightarrow> ('k \<times> 'v) list"
    and invar :: "'m \<Rightarrow> bool"
  assumes find_put: "invar m \<Longrightarrow> find (put k v m) = (find m)(k \<mapsto> v)"
    and find_erase: "invar m \<Longrightarrow> find (erase k m) = (find m)(k := None)"
    and find_entries: "invar m \<Longrightarrow> find m k = Some v \<longleftrightarrow> (k, v) \<in> set (entries m)"
    and keys_sorted: "invar m \<Longrightarrow> sorted_wrt (<) (map fst (entries m))"
    and put_invar: "invar m \<Longrightarrow> invar (put k v m)"
    and erase_invar: "invar m \<Longrightarrow> invar (erase k m)"
begin

lemma keys_distinct: "invar m \<Longrightarrow> distinct (map fst (entries m))"
  using keys_sorted by (simp add: strict_sorted_iff)

lemma put_put_same: "invar m \<Longrightarrow> find (put k v' (put k v m)) = find (put k v' m)"
  by (simp add: find_put put_invar)

lemma erase_put_new: "invar m \<Longrightarrow> find m k = None \<Longrightarrow> find (erase k (put k v m)) = find m"
  by (auto simp: find_put find_erase put_invar)

lemma find_put_all:
  "invar m \<Longrightarrow> invar (foldl (\<lambda>m (k, v). put k v m) m kvs) \<and>
     find (foldl (\<lambda>m (k, v). put k v m) m kvs) = find m ++ map_of (rev kvs)"
proof (induction kvs arbitrary: m)
  case (Cons kv kvs)
  obtain k v where kv: "kv = (k, v)" by fastforce
  from Cons.IH [OF put_invar [OF Cons.prems, of k v]] find_put [OF Cons.prems] kv
  show ?case by (auto simp: fun_eq_iff map_add_def split: option.splits)
qed simp

end

lemma map_find_None: "k \<notin> fst ` set m \<Longrightarrow> map_find m k = None"
  by (induction m k rule: map_find.induct) auto

lemma set_map_put_keys: "fst ` set (map_put k v m) = insert k (fst ` set m)"
  by (induction k v m rule: map_put.induct) auto

lemma map_put_ok: "map_ok m \<Longrightarrow> map_ok (map_put k v m)"
proof (induction k v m rule: map_put.induct)
  case (2 k v k' v' m)
  then show ?case
    by (auto simp: map_ok_def set_map_put_keys dest: less_trans)
qed (simp add: map_ok_def)

lemma map_find_put: "map_ok m \<Longrightarrow> map_find (map_put k v m) = (map_find m)(k \<mapsto> v)"
  by (induction k v m rule: map_put.induct) (auto simp: map_ok_def fun_eq_iff)

lemma set_map_erase_keys: "fst ` set (map_erase k m) \<subseteq> fst ` set m"
  by (induction k m rule: map_erase.induct) auto

lemma map_erase_ok: "map_ok m \<Longrightarrow> map_ok (map_erase k m)"
  by (induction k m rule: map_erase.induct)
    (use set_map_erase_keys in \<open>fastforce simp: map_ok_def\<close>)+

lemma map_find_erase: "map_ok m \<Longrightarrow> map_find (map_erase k m) = (map_find m)(k := None)"
proof (induction k m rule: map_erase.induct)
  case (2 k k' v m)
  then have "k' \<notin> fst ` set m" by (auto simp: map_ok_def)
  with 2 show ?case by (auto simp: map_ok_def fun_eq_iff map_find_None)
qed (simp add: map_ok_def fun_eq_iff)

lemma map_find_set: "map_ok m \<Longrightarrow> map_find m k = Some v \<longleftrightarrow> (k, v) \<in> set m"
  by (induction m k rule: map_find.induct) (auto simp: map_ok_def)

interpretation omap: ordered_map map_put map_find map_erase "\<lambda>m. m" map_ok
  by unfold_locales
    (simp_all add: map_find_put map_find_erase map_find_set map_put_ok map_erase_ok, simp add: map_ok_def)

end
