(* ===== verification/Std_Heap.thy ===== *)
theory Std_Heap
  imports Prelude "HOL-Library.Multiset"
begin

text \<open>
  The heap algorithms of the C++ library that the timer queue and the thread pool use
  (\<^verbatim>\<open>push_heap\<close>, \<^verbatim>\<open>pop_heap\<close>, \<^verbatim>\<open>make_heap\<close>), on lists as vectors and for an order given by an
  integer key, smallest first. The standard fixes what the algorithms achieve and not the
  arrangement; the locale states what is fixed, and the definitions are the usual sifting.
\<close>

section \<open>Definitions\<close>

definition parent :: "nat \<Rightarrow> nat" where
  "parent i = (i - 1) div 2"

definition swap :: "'a list \<Rightarrow> nat \<Rightarrow> nat \<Rightarrow> 'a list" where
  "swap xs i j = xs[i := xs ! j, j := xs ! i]"

function sift_up :: "('a \<Rightarrow> int) \<Rightarrow> nat \<Rightarrow> 'a list \<Rightarrow> 'a list" where
  "sift_up k i xs =
     (if 0 < i \<and> k (xs ! i) < k (xs ! parent i) then sift_up k (parent i) (swap xs i (parent i)) else xs)"
  by pat_completeness auto
termination by (relation "measure (\<lambda>(k, i, xs). i)") (auto simp: parent_def)

text \<open>The child with the smaller key, if there is one.\<close>

definition small_child :: "('a \<Rightarrow> int) \<Rightarrow> nat \<Rightarrow> 'a list \<Rightarrow> nat" where
  "small_child k i xs =
     (if 2 * i + 2 < length xs \<and> k (xs ! (2 * i + 2)) < k (xs ! (2 * i + 1)) then 2 * i + 2 else 2 * i + 1)"

lemma small_child_bounds: "i < small_child k i xs"
  by (simp add: small_child_def)

lemma length_swap [simp]: "length (swap xs i j) = length xs"
  by (simp add: swap_def)

function sift_down :: "('a \<Rightarrow> int) \<Rightarrow> nat \<Rightarrow> 'a list \<Rightarrow> 'a list" where
  "sift_down k i xs =
     (let c = small_child k i xs
      in if 2 * i + 1 < length xs \<and> k (xs ! c) < k (xs ! i) then sift_down k c (swap xs i c) else xs)"
  by pat_completeness auto
termination
  by (relation "measure (\<lambda>(k, i, xs). length xs - i)") (auto simp: small_child_def)

declare sift_up.simps [simp del] sift_down.simps [simp del]

definition push_heap :: "('a \<Rightarrow> int) \<Rightarrow> 'a list \<Rightarrow> 'a list" where
  "push_heap k xs = sift_up k (length xs - 1) xs"

text \<open>The front goes to the back, the rest is made a heap again.\<close>

definition pop_heap :: "('a \<Rightarrow> int) \<Rightarrow> 'a list \<Rightarrow> 'a list" where
  "pop_heap k xs =
     (case xs of
        [] \<Rightarrow> []
      | [x] \<Rightarrow> [x]
      | x # ys \<Rightarrow> sift_down k 0 (last ys # butlast ys) @ [x])"

fun push_all :: "('a \<Rightarrow> int) \<Rightarrow> 'a list \<Rightarrow> 'a list \<Rightarrow> 'a list" where
  "push_all k hs [] = hs"
| "push_all k hs (x # xs) = push_all k (push_heap k (hs @ [x])) xs"

definition make_heap :: "('a \<Rightarrow> int) \<Rightarrow> 'a list \<Rightarrow> 'a list" where
  "make_heap k xs = push_all k [] xs"

definition is_heap :: "('a \<Rightarrow> int) \<Rightarrow> 'a list \<Rightarrow> bool" where
  "is_heap k xs \<longleftrightarrow> (\<forall>i. 0 < i \<longrightarrow> i < length xs \<longrightarrow> k (xs ! parent i) \<le> k (xs ! i))"

section \<open>The interface\<close>

locale std_heap =
  fixes push pop make :: "('a \<Rightarrow> int) \<Rightarrow> 'a list \<Rightarrow> 'a list"
    and heap :: "('a \<Rightarrow> int) \<Rightarrow> 'a list \<Rightarrow> bool"
  assumes push_heaped: "heap k xs \<Longrightarrow> heap k (push k (xs @ [x]))"
    and push_mset: "mset (push k xs) = mset xs"
    and pop_heaped: "heap k xs \<Longrightarrow> heap k (butlast (pop k xs))"
    and pop_last: "xs \<noteq> [] \<Longrightarrow> last (pop k xs) = hd xs"
    and pop_mset: "mset (pop k xs) = mset xs"
    and make_heaped: "heap k (make k xs)"
    and make_mset: "mset (make k xs) = mset xs"
    and heap_front: "heap k xs \<Longrightarrow> x \<in> set xs \<Longrightarrow> k (hd xs) \<le> k x"
    and heap_cong: "heap k xs \<Longrightarrow> (\<And>x. x \<in> set xs \<Longrightarrow> k' x = k x) \<Longrightarrow> heap k' xs"
    and heap_Nil: "heap k []"
begin

lemma push_set: "set (push k xs) = set xs"
  by (metis push_mset set_mset_mset)

lemma make_set: "set (make k xs) = set xs"
  by (metis make_mset set_mset_mset)

lemma pop_nonempty: "xs \<noteq> [] \<Longrightarrow> pop k xs \<noteq> []"
  by (metis mset.simps(1) mset_zero_iff pop_mset)

text \<open>One pop takes the front, which is minimal, and leaves a heap of the rest.\<close>

lemma pop_front:
  assumes "heap k xs" "xs \<noteq> []"
  shows "heap k (butlast (pop k xs)) \<and> mset xs = add_mset (hd xs) (mset (butlast (pop k xs))) \<and>
    (\<forall>y \<in> set (butlast (pop k xs)). k (hd xs) \<le> k y)"
proof -
  have "mset xs = mset (butlast (pop k xs) @ [last (pop k xs)])"
    using pop_nonempty [OF assms(2)] by (simp add: pop_mset)
  then have m: "mset xs = add_mset (hd xs) (mset (butlast (pop k xs)))"
    by (simp add: pop_last [OF assms(2)])
  then have "set (butlast (pop k xs)) \<subseteq> set xs" by (metis set_mset_mset set_mset_add_mset_insert subset_insertI)
  then show ?thesis using m assms(1) by (auto simp: pop_heaped heap_front)
qed

lemma pop_shorter: "heap k xs \<Longrightarrow> xs \<noteq> [] \<Longrightarrow> length (butlast (pop k xs)) < length xs"
  by (metis length_butlast diff_less length_greater_0_conv less_one pop_mset size_mset)

lemma pop_distinct:
  assumes "heap k xs" "xs \<noteq> []" "distinct xs"
  shows "distinct (butlast (pop k xs))" and "hd xs \<notin> set (butlast (pop k xs))"
    and "set xs = insert (hd xs) (set (butlast (pop k xs)))"
proof -
  have m: "mset (hd xs # butlast (pop k xs)) = mset xs" using pop_front [OF assms(1,2)] by simp
  have "distinct (hd xs # butlast (pop k xs))"
    using assms(3) m by (metis mset_eq_imp_distinct_iff)
  then show "distinct (butlast (pop k xs))" "hd xs \<notin> set (butlast (pop k xs))" by simp_all
  show "set xs = insert (hd xs) (set (butlast (pop k xs)))" using m by (metis list.simps(15) mset_eq_setD)
qed

end

section \<open>The sifting\<close>

lemma nth_swap:
  "i < length xs \<Longrightarrow> j < length xs \<Longrightarrow>
     swap xs i j ! m = (if m = j then xs ! i else if m = i then xs ! j else xs ! m)"
  by (auto simp: swap_def nth_list_update)

lemma mset_swap_heap: "i < length xs \<Longrightarrow> j < length xs \<Longrightarrow> mset (swap xs i j) = mset xs"
  unfolding swap_def by (rule mset_swap)

lemma parent_less: "0 < i \<Longrightarrow> parent i < i"
  by (auto simp: parent_def)

lemma parent_children: "0 < j \<Longrightarrow> parent j = i \<longleftrightarrow> j = 2 * i + 1 \<or> j = 2 * i + 2"
  unfolding parent_def by presburger

definition heap_but :: "('a \<Rightarrow> int) \<Rightarrow> (nat \<Rightarrow> bool) \<Rightarrow> nat \<Rightarrow> 'a list \<Rightarrow> bool" where
  "heap_but k except i xs \<longleftrightarrow>
     (\<forall>j. 0 < j \<longrightarrow> j < length xs \<longrightarrow> \<not> except j \<longrightarrow> k (xs ! parent j) \<le> k (xs ! j)) \<and>
     (\<forall>j. 0 < j \<longrightarrow> j < length xs \<longrightarrow> parent j = i \<longrightarrow> 0 < i \<longrightarrow> k (xs ! parent i) \<le> k (xs ! j))"

lemma sift_up_heap:
  "i < length xs \<Longrightarrow> heap_but k (\<lambda>j. j = i) i xs \<Longrightarrow> is_heap k (sift_up k i xs)"
proof (induction k i xs rule: sift_up.induct)
  case (1 k i xs)
  show ?case
  proof (cases "0 < i \<and> k (xs ! i) < k (xs ! parent i)")
    case False
    then have "is_heap k xs" using 1(3) unfolding is_heap_def heap_but_def by (metis linorder_not_less)
    moreover have "sift_up k i xs = xs" using False by (subst sift_up.simps) (rule if_not_P)
    ultimately show ?thesis by simp
  next
    case True
    define p where "p = parent i"
    have p: "p < i" "p < length xs" using True 1(2) parent_less [of i] by (auto simp: p_def)
    have pi: "parent i = p" and less: "k (xs ! i) < k (xs ! p)" using True by (simp_all add: p_def)
    note at = nth_swap [OF 1(2) p(2)]
    have edge: "k (xs ! parent j) \<le> k (xs ! j)" if "0 < j" "j < length xs" "j \<noteq> i" for j
      using 1(3) that by (auto simp: heap_but_def)
    have below: "k (xs ! p) \<le> k (xs ! j)" if "0 < j" "j < length xs" "parent j = i" for j
      using 1(3) that True by (auto simp: heap_but_def p_def)
    have "heap_but k (\<lambda>j. j = p) p (swap xs i p)"
      unfolding heap_but_def
    proof (intro conjI allI impI)
      fix j assume j: "0 < j" "j < length (swap xs i p)" "\<not> j = p"
      show "k (swap xs i p ! parent j) \<le> k (swap xs i p ! j)"
        using j edge [of j] below [of j] less parent_less [of j] p(1) pi by (auto simp: at)
    next
      fix j assume j: "0 < j" "j < length (swap xs i p)" "parent j = p" "0 < p"
      have "k (xs ! parent p) \<le> k (xs ! p)" using edge [of p] j(4) p by simp
      then show "k (swap xs i p ! parent p) \<le> k (swap xs i p ! j)"
        using j edge [of j] p parent_less [of p] by (auto simp: at)
    qed
    then have "is_heap k (sift_up k p (swap xs i p))" using 1(1) True p by (simp add: p_def)
    then show ?thesis using True by (subst sift_up.simps) (simp add: p_def)
  qed
qed

lemma mset_sift_up: "i < length xs \<Longrightarrow> mset (sift_up k i xs) = mset xs"
proof (induction k i xs rule: sift_up.induct)
  case (1 k i xs)
  have "parent i < length xs" if "0 < i" using parent_less [OF that] 1(2) by simp
  then show ?case using 1 by (subst sift_up.simps) (auto simp: mset_swap_heap)
qed

lemma sift_down_heap: "heap_but k (\<lambda>j. parent j = i) i xs \<Longrightarrow> is_heap k (sift_down k i xs)"
proof (induction k i xs rule: sift_down.induct)
  case (1 k i xs)
  define c where "c = small_child k i xs"
  have least: "k (xs ! c) \<le> k (xs ! j)" if "0 < j" "j < length xs" "parent j = i" for j
    using that parent_children [of j i] by (auto simp: c_def small_child_def)
  show ?case
  proof (cases "2 * i + 1 < length xs \<and> k (xs ! c) < k (xs ! i)")
    case False
    have "k (xs ! parent j) \<le> k (xs ! j)" if j: "0 < j" "j < length xs" for j
    proof (cases "parent j = i")
      case True
      then have "2 * i + 1 < length xs" using j parent_children [of j i] by auto
      then show ?thesis using False least [OF j True] True by auto
    qed (use 1(2) j in \<open>auto simp: heap_but_def\<close>)
    then have "is_heap k xs" by (simp add: is_heap_def)
    moreover have "sift_down k i xs = xs"
      using False unfolding c_def by (subst sift_down.simps) (simp only: Let_def if_False)
    ultimately show ?thesis by simp
  next
    case True
    have c: "i < c" "c < length xs" "parent c = i" "i < length xs"
      using True by (auto simp: c_def small_child_def parent_def)
    note at = nth_swap [OF c(4,2)]
    have edge: "k (xs ! parent j) \<le> k (xs ! j)" if "0 < j" "j < length xs" "parent j \<noteq> i" for j
      using 1(2) that by (auto simp: heap_but_def)
    have above: "k (xs ! parent i) \<le> k (xs ! j)" if "0 < j" "j < length xs" "parent j = i" "0 < i" for j
      using 1(2) that by (auto simp: heap_but_def)
    have "heap_but k (\<lambda>j. parent j = c) c (swap xs i c)"
      unfolding heap_but_def
    proof (intro conjI allI impI)
      fix j assume j: "0 < j" "j < length (swap xs i c)" "\<not> parent j = c"
      show "k (swap xs i c ! parent j) \<le> k (swap xs i c ! j)"
      proof (cases "parent j = i")
        case True': True
        then show ?thesis using j least [of j] True c parent_less [of j] by (auto simp: at)
      next
        case False
        then show ?thesis using j edge [of j] above [of c] c by (auto simp: at)
      qed
    next
      fix j assume j: "0 < j" "j < length (swap xs i c)" "parent j = c" "0 < c"
      have "c < j" using parent_less [OF j(1)] j(3) by simp
      then show "k (swap xs i c ! parent c) \<le> k (swap xs i c ! j)"
        using j edge [of j] c by (auto simp: at)
    qed
    then have "is_heap k (sift_down k c (swap xs i c))" using 1(1) True by (simp add: c_def)
    then show ?thesis using True by (subst sift_down.simps) (simp add: c_def Let_def)
  qed
qed

lemma mset_sift_down: "mset (sift_down k i xs) = mset xs"
proof (induction k i xs rule: sift_down.induct)
  case (1 k i xs)
  have "mset (swap xs i (small_child k i xs)) = mset xs" if "2 * i + 1 < length xs"
    using that by (intro mset_swap_heap) (auto simp: small_child_def)
  then show ?case using 1 by (subst sift_down.simps) (auto simp: Let_def)
qed

section \<open>The interface holds\<close>

lemma is_heap_push:
  assumes "is_heap k xs"
  shows "is_heap k (push_heap k (xs @ [x]))"
proof -
  have "heap_but k (\<lambda>j. j = length xs) (length xs) (xs @ [x])"
    unfolding heap_but_def
  proof (intro conjI allI impI)
    fix j assume j: "0 < j" "j < length (xs @ [x])" "\<not> j = length xs"
    then have "j < length xs" "parent j < length xs" using parent_less [OF j(1)] by auto
    then show "k ((xs @ [x]) ! parent j) \<le> k ((xs @ [x]) ! j)"
      using assms j(1) by (simp add: nth_append is_heap_def)
  next
    fix j assume j: "0 < j" "j < length (xs @ [x])" "parent j = length xs" "0 < length xs"
    then show "k ((xs @ [x]) ! parent (length xs)) \<le> k ((xs @ [x]) ! j)" using parent_less [OF j(1)] by simp
  qed
  then show ?thesis using sift_up_heap [of "length xs" "xs @ [x]" k] by (simp add: push_heap_def)
qed

lemma mset_push_heap: "mset (push_heap k xs) = mset xs"
proof (cases xs)
  case Nil
  then show ?thesis by (simp add: push_heap_def sift_up.simps)
qed (simp add: push_heap_def mset_sift_up)

lemma is_heap_pop:
  assumes "is_heap k xs"
  shows "is_heap k (butlast (pop_heap k xs))"
proof -
  consider "xs = []" | x where "xs = [x]" | x ys where "xs = x # ys" "ys \<noteq> []" by (cases xs; cases "tl xs") auto
  then show ?thesis
  proof cases
    case (3 x ys)
    define zs where "zs = last ys # butlast ys"
    have zs: "length zs = length ys" "\<And>j. 0 < j \<Longrightarrow> j < length ys \<Longrightarrow> zs ! j = xs ! j"
      using 3 by (auto simp: zs_def nth_Cons' nth_butlast)
    have "heap_but k (\<lambda>j. parent j = 0) 0 zs"
      unfolding heap_but_def
    proof (intro conjI allI impI)
      fix j assume j: "0 < j" "j < length zs" "\<not> parent j = 0"
      then have p: "0 < parent j" "parent j < length ys" "j < length ys" using zs(1) parent_less [of j] by auto
      have "k (xs ! parent j) \<le> k (xs ! j)" using assms j(1) p(3) 3(1) by (simp only: is_heap_def) simp
      then show "k (zs ! parent j) \<le> k (zs ! j)" using zs(2) j(1) p by simp
    qed simp
    then have "is_heap k (sift_down k 0 zs)" by (rule sift_down_heap)
    moreover have "pop_heap k xs = sift_down k 0 zs @ [x]"
      using 3 by (auto simp: pop_heap_def zs_def split: list.split)
    ultimately show ?thesis by simp
  qed (auto simp: pop_heap_def is_heap_def)
qed

lemma pop_heap_last: "xs \<noteq> [] \<Longrightarrow> last (pop_heap k xs) = hd xs"
  by (auto simp: pop_heap_def split: list.split)

lemma mset_pop_heap: "mset (pop_heap k xs) = mset xs"
proof (cases xs)
  case (Cons x ys)
  show ?thesis
  proof (cases "ys = []")
    case False
    then have "mset ys = mset (butlast ys @ [last ys])" by simp
    then have "mset (last ys # butlast ys) = mset ys" by (simp only: mset_append mset.simps) simp
    then show ?thesis using Cons False by (auto simp: pop_heap_def mset_sift_down split: list.split)
  qed (simp add: Cons pop_heap_def)
qed (simp add: pop_heap_def)

lemma push_all_heap:
  "is_heap k hs \<Longrightarrow> is_heap k (push_all k hs xs) \<and> mset (push_all k hs xs) = mset hs + mset xs"
  by (induction k hs xs rule: push_all.induct) (auto simp: is_heap_push mset_push_heap)

lemma is_heap_Nil: "is_heap k []"
  by (simp add: is_heap_def)

lemma is_heap_front:
  assumes "is_heap k xs" "x \<in> set xs"
  shows "k (hd xs) \<le> k x"
proof -
  have "k (xs ! 0) \<le> k (xs ! i)" if "i < length xs" for i
    using that
  proof (induction i rule: less_induct)
    case (less i)
    show ?case
    proof (cases "i = 0")
      case False
      then have "k (xs ! 0) \<le> k (xs ! parent i)" using less parent_less [of i] by simp
      also have "\<dots> \<le> k (xs ! i)" using assms(1) less.prems False by (simp add: is_heap_def)
      finally show ?thesis .
    qed simp
  qed
  then show ?thesis using assms(2) by (metis hd_conv_nth in_set_conv_nth length_pos_if_in_set less_numeral_extra(3) list.size(3))
qed

lemma is_heap_cong:
  assumes "is_heap k xs" "\<And>x. x \<in> set xs \<Longrightarrow> k' x = k x"
  shows "is_heap k' xs"
  unfolding is_heap_def
proof (intro allI impI)
  fix i assume i: "0 < i" "i < length xs"
  then have "parent i < length xs" using parent_less [of i] by simp
  then show "k' (xs ! parent i) \<le> k' (xs ! i)" using assms i by (simp add: is_heap_def)
qed

interpretation vec: std_heap push_heap pop_heap make_heap is_heap
proof (unfold_locales, goal_cases)
  case 1 then show ?case by (rule is_heap_push)
next
  case 2 show ?case by (rule mset_push_heap)
next
  case 3 then show ?case by (rule is_heap_pop)
next
  case 4 then show ?case by (rule pop_heap_last)
next
  case 5 show ?case by (rule mset_pop_heap)
next
  case (6 k xs) show ?case using push_all_heap [OF is_heap_Nil, of k xs] by (simp add: make_heap_def)
next
  case (7 k xs) show ?case using push_all_heap [OF is_heap_Nil, of k xs] by (simp add: make_heap_def)
next
  case 8 then show ?case by (rule is_heap_front)
next
  case 9 then show ?case by (rule is_heap_cong)
next
  case 10 show ?case by (rule is_heap_Nil)
qed

end
