(* ===== verification/Http_Request.thy ===== *)
theory Http_Request
  imports Std_Map
begin

text \<open>
  \<^verbatim>\<open>reactor_net/include/HttpRequest.h\<close> and \<^verbatim>\<open>src/HttpRequest.cpp\<close>: the HTTP 1.0 request
  parser. It runs over the bytes of the input buffer from their start each time it is called and
  answers true once a whole request is there. \<^verbatim>\<open>std::stoi\<close> throws where no number can be read;
  nothing in the parser or its callers catches it, so a thrown exception is an outcome of its own.
\<close>

section \<open>The library functions the parser uses\<close>

datatype cxx_exn = Invalid_argument | Out_of_range

definition crlf :: string where
  "crlf = [CHR 0x0D, CHR 0x0A]"

text \<open>\<^verbatim>\<open>std::isspace\<close> in the classic locale, which stops \<^verbatim>\<open>operator>>\<close> and is skipped by \<^verbatim>\<open>stoi\<close>.\<close>

definition is_space :: "char \<Rightarrow> bool" where
  "is_space c \<longleftrightarrow> c \<in> {CHR '' '', CHR 0x09, CHR 0x0A, CHR 0x0B, CHR 0x0C, CHR 0x0D}"

text \<open>One \<^verbatim>\<open>iss >> word\<close>: the word and the rest of the stream, or failure at its end.\<close>

definition next_word :: "string \<Rightarrow> (string \<times> string) option" where
  "next_word s =
     (let s = dropWhile is_space s; w = takeWhile (\<lambda>c. \<not> is_space c) s
      in if w = [] then None else Some (w, drop (length w) s))"

definition digit_of :: "char \<Rightarrow> int option" where
  "digit_of c = (if CHR ''0'' \<le> c \<and> c \<le> CHR ''9'' then Some (of_char c - 48) else None)"

fun digits_value :: "int \<Rightarrow> string \<Rightarrow> int" where
  "digits_value acc [] = acc"
| "digits_value acc (c # cs) =
     (case digit_of c of None \<Rightarrow> acc | Some d \<Rightarrow> digits_value (10 * acc + d) cs)"

text \<open>\<^verbatim>\<open>std::stoi\<close> in base 10: leading space, one sign, digits; what follows them is ignored.\<close>

definition stoi :: "string \<Rightarrow> cxx_exn + int" where
  "stoi s =
     (let s = dropWhile is_space s;
          neg = (s \<noteq> [] \<and> hd s = CHR ''-'');
          ds = (if s \<noteq> [] \<and> hd s \<in> {CHR ''-'', CHR ''+''} then tl s else s)
      in if ds = [] \<or> digit_of (hd ds) = None then Inl Invalid_argument
         else let v = digits_value 0 ds; v = (if neg then - v else v)
              in if v < - (2 ^ 31) \<or> 2 ^ 31 \<le> v then Inl Out_of_range else Inr v)"

section \<open>The request\<close>

datatype http_method = kInvalid | kGet

record http_request =
  req_method :: http_method
  req_path :: string
  req_query :: string
  req_headers :: "(string \<times> string) list"
  majorVersion :: int
  minorVersion :: int

definition HttpRequest :: http_request where
  "HttpRequest = \<lparr>req_method = kInvalid, req_path = [], req_query = [], req_headers = [],
     majorVersion = 1, minorVersion = 0\<rparr>"

section \<open>urlDecode\<close>

definition hexToInt :: "char \<Rightarrow> int" where
  "hexToInt c =
     (if CHR ''0'' \<le> c \<and> c \<le> CHR ''9'' then of_char c - 48
      else if CHR ''a'' \<le> c \<and> c \<le> CHR ''f'' then of_char c - 97 + 10
      else if CHR ''A'' \<le> c \<and> c \<le> CHR ''F'' then of_char c - 65 + 10
      else -1)"

function urlDecode :: "string \<Rightarrow> string" where
  "urlDecode [] = []"
| "urlDecode (c # cs) =
     (if c = CHR ''%'' \<and> 2 \<le> length cs then
        let h = hexToInt (cs ! 0); l = hexToInt (cs ! 1)
        in if h \<ge> 0 \<and> l \<ge> 0 then char_of (push_bit 4 h OR l) # urlDecode (drop 2 cs)
           else CHR ''%'' # urlDecode cs
      else if c = CHR ''+'' then CHR '' '' # urlDecode cs
      else c # urlDecode cs)"
  by pat_completeness auto
termination
  by (relation "measure length") auto

section \<open>Request line, headers, request\<close>

definition set_version :: "http_request \<Rightarrow> string \<Rightarrow> (cxx_exn + bool) \<times> http_request" where
  "set_version r version =
     (if 5 \<le> length version \<and> take 5 version = ''HTTP/'' then
        let verStr = drop 5 version
        in (case search ''.'' verStr of
              None \<Rightarrow> (Inr True, r)
            | Some dotPos \<Rightarrow>
                (case stoi (take dotPos verStr) of
                   Inl e \<Rightarrow> (Inl e, r)
                 | Inr major \<Rightarrow>
                     let r = r\<lparr>majorVersion := major\<rparr>
                     in (case stoi (drop (dotPos + 1) verStr) of
                           Inl e \<Rightarrow> (Inl e, r)
                         | Inr minor \<Rightarrow> (Inr True, r\<lparr>minorVersion := minor\<rparr>))))
      else (Inr True, r))"

definition set_target :: "http_request \<Rightarrow> string \<Rightarrow> http_request" where
  "set_target r path =
     (case search ''?'' path of
        Some queryPos \<Rightarrow> r\<lparr>req_query := drop (queryPos + 1) path, req_path := take queryPos path\<rparr>
      | None \<Rightarrow> r\<lparr>req_path := path\<rparr>)"

definition parseRequestLine :: "http_request \<Rightarrow> string \<Rightarrow> (cxx_exn + bool) \<times> http_request" where
  "parseRequestLine r requestLine =
     (case next_word requestLine of None \<Rightarrow> (Inr False, r) | Some (method, s1) \<Rightarrow>
      case next_word s1 of None \<Rightarrow> (Inr False, r) | Some (path, s2) \<Rightarrow>
      case next_word s2 of None \<Rightarrow> (Inr False, r) | Some (version, _) \<Rightarrow>
        if method \<noteq> ''GET'' then (Inr False, r\<lparr>req_method := kInvalid\<rparr>)
        else
          let r = set_target (r\<lparr>req_method := kGet\<rparr>) path;
              r = r\<lparr>req_path := urlDecode (req_path r)\<rparr>
          in if occurs ''..'' (req_path r) then (Inr False, r)
             else set_version
                    (if req_path r = ''/'' then r\<lparr>req_path := ''/index.html''\<rparr> else r) version)"

definition is_blank :: "char \<Rightarrow> bool" where
  "is_blank c \<longleftrightarrow> c = CHR '' '' \<or> c = CHR 0x09"

text \<open>The two \<^verbatim>\<open>erase\<close> calls on each side of a header; both also empty an all-blank string.\<close>

definition trim_blanks :: "string \<Rightarrow> string" where
  "trim_blanks s = rev (dropWhile is_blank (rev (dropWhile is_blank s)))"

definition add_header_line :: "http_request \<Rightarrow> string \<Rightarrow> http_request" where
  "add_header_line r line =
     (case search '':'' line of
        None \<Rightarrow> r
      | Some colonPos \<Rightarrow>
          r\<lparr>req_headers := map_put (trim_blanks (take colonPos line))
             (trim_blanks (drop (colonPos + 1) line)) (req_headers r)\<rparr>)"

function parseHeaders :: "http_request \<Rightarrow> string \<Rightarrow> bool \<times> http_request" where
  "parseHeaders r s =
     (if s = [] then (False, r)
      else case search crlf s of
             None \<Rightarrow> (False, r)
           | Some k \<Rightarrow>
               if k = 0 then (True, r)
               else parseHeaders (add_header_line r (take k s)) (drop (k + 2) s))"
  by pat_completeness auto
termination
  by (relation "measure (\<lambda>(r, s). length s)") auto

declare parseHeaders.simps [simp del]

definition parseRequest :: "http_request \<Rightarrow> string \<Rightarrow> (cxx_exn + bool) \<times> http_request" where
  "parseRequest r s =
     (case search crlf s of
        None \<Rightarrow> (Inr False, r)
      | Some k \<Rightarrow>
          (case parseRequestLine r (take k s) of
             (Inr True, r1) \<Rightarrow> (case parseHeaders r1 (drop (k + 2) s) of (b, r2) \<Rightarrow> (Inr b, r2))
           | (out, r1) \<Rightarrow> (out, r1)))"

definition getHeader :: "http_request \<Rightarrow> string \<Rightarrow> string" where
  "getHeader r field = (case map_find (req_headers r) field of Some v \<Rightarrow> v | None \<Rightarrow> [])"

section \<open>The path of an accepted request\<close>

lemma set_version_frame:
  "set_version r v = (out, r') \<Longrightarrow> req_path r' = req_path r \<and> req_method r' = req_method r"
  by (auto simp: set_version_def Let_def split: if_splits option.splits sum.splits)

lemma add_header_line_frame [simp]:
  "req_path (add_header_line r line) = req_path r"
  "req_method (add_header_line r line) = req_method r"
  by (simp_all add: add_header_line_def split: option.splits)

lemma set_target_method [simp]: "req_method (set_target r path) = req_method r"
  by (simp add: set_target_def split: option.splits)

text \<open>The three exits of one round of the header loop.\<close>

lemma crlf_length [simp]: "length crlf = 2"
  by (simp add: crlf_def)

lemma search_crlf_nonempty: "search crlf s = Some k \<Longrightarrow> s \<noteq> []"
  using search_SomeD [of crlf s k] by auto

lemma parseHeaders_open: "search crlf s = None \<Longrightarrow> parseHeaders r s = (False, r)"
  by (subst parseHeaders.simps) simp

lemma parseHeaders_end: "search crlf s = Some 0 \<Longrightarrow> parseHeaders r s = (True, r)"
  by (subst parseHeaders.simps) (simp add: search_crlf_nonempty)

lemma parseHeaders_line:
  "search crlf s = Some k \<Longrightarrow> k \<noteq> 0 \<Longrightarrow>
     parseHeaders r s = parseHeaders (add_header_line r (take k s)) (drop (k + 2) s)"
  by (subst parseHeaders.simps) (simp add: search_crlf_nonempty)

lemmas parseHeaders_round = parseHeaders_open parseHeaders_end parseHeaders_line

lemma header_induct [case_names Open End Line]:
  assumes "\<And>r s. search crlf s = None \<Longrightarrow> P r s"
    and "\<And>r s. search crlf s = Some 0 \<Longrightarrow> P r s"
    and "\<And>r s k. search crlf s = Some k \<Longrightarrow> k \<noteq> 0 \<Longrightarrow>
      P (add_header_line r (take k s)) (drop (k + 2) s) \<Longrightarrow> P r s"
  shows "P r s"
proof (induction r s rule: parseHeaders.induct)
  case (1 r s)
  show ?case
  proof (cases "search crlf s")
    case (Some k)
    then show ?thesis
      using "1.IH" [OF search_crlf_nonempty [OF Some] Some] assms(2,3) by (cases "k = 0") auto
  qed (rule assms(1))
qed

lemma parseHeaders_frame:
  "parseHeaders r s = (b, r') \<Longrightarrow> req_path r' = req_path r \<and> req_method r' = req_method r"
  by (induction r s rule: header_induct) (auto simp: parseHeaders_round)

lemma index_html_safe: "\<not> occurs ''..'' ''/index.html''"
  by code_simp

lemma parseRequestLine_safe:
  assumes "parseRequestLine r line = (Inr True, r')"
  shows "req_method r' = kGet \<and> \<not> occurs ''..'' (req_path r')"
  using assms index_html_safe
  by (auto simp: parseRequestLine_def Let_def dest!: set_version_frame split: option.splits if_splits)

lemma parseRequest_True:
  assumes "parseRequest r s = (Inr True, r')"
  obtains k r1 where "search crlf s = Some k" "parseRequestLine r (take k s) = (Inr True, r1)"
    "parseHeaders r1 (drop (k + 2) s) = (True, r')"
  using assms that
  by (auto simp: parseRequest_def split: option.splits prod.splits sum.splits bool.splits)

text \<open>
  C4: A request the parser accepts is a GET and its decoded path, the one the server appends to
  its document root, has no \<^verbatim>\<open>..\<close> in it, however the dots were encoded in the request.
\<close>

theorem accepted_path_stays_below_root:
  assumes "parseRequest r s = (Inr True, r')"
  shows "req_method r' = kGet \<and> \<not> occurs ''..'' (req_path r')"
  using assms
proof (rule parseRequest_True)
  fix k r1
  assume "parseRequestLine r (take k s) = (Inr True, r1)"
    "parseHeaders r1 (drop (k + 2) s) = (True, r')"
  then show ?thesis using parseRequestLine_safe parseHeaders_frame by metis
qed

definition sample_request :: string where
  "sample_request = ''GET /a%2Fb?x=1 HTTP/1.1'' @ crlf @ ''Host: h'' @ crlf @ crlf"

definition sample_parsed :: http_request where
  "sample_parsed = \<lparr>req_method = kGet, req_path = ''/a/b'', req_query = ''x=1'',
     req_headers = [(''Host'', ''h'')], majorVersion = 1, minorVersion = 1\<rparr>"

lemma parse_sample: "parseRequest HttpRequest sample_request = (Inr True, sample_parsed)"
  by code_simp

theorem accepted_path_stays_below_root_witness:
  "req_method sample_parsed = kGet \<and> \<not> occurs ''..'' (req_path sample_parsed)"
  by (rule accepted_path_stays_below_root [OF parse_sample])

section \<open>The parser and a growing input\<close>

lemma search_crlf_more:
  assumes "search crlf s = Some k"
  shows "search crlf (s @ t) = Some k" and "take k (s @ t) = take k s"
    and "drop (k + 2) (s @ t) = drop (k + 2) s @ t"
  using search_append [OF assms] search_SomeD [OF assms] by simp_all

lemma parseHeaders_more: "parseHeaders r s = (True, r') \<Longrightarrow> parseHeaders r (s @ t) = (True, r')"
proof (induction r s rule: header_induct)
  case (Open r s)
  then show ?case by (simp add: parseHeaders_round)
next
  case (End r s)
  then show ?case using search_crlf_more(1) [OF End.hyps, of t] by (simp add: parseHeaders_round)
next
  case (Line r s k)
  note more = search_crlf_more [OF Line.hyps(1), of t]
  from Line.IH Line.prems Line.hyps have "parseHeaders (add_header_line r (take k s)) (drop (k + 2) s @ t) = (True, r')"
    by (simp add: parseHeaders_line)
  then show ?case by (simp only: parseHeaders_line [OF more(1) Line.hyps(2)] more(2,3))
qed

text \<open>
  C31: The verdict on a complete request does not depend on what follows it in the stream: more
  bytes after an accepted request leave the same parsed request.
\<close>

theorem parse_stable_under_more_input:
  assumes "parseRequest r s = (Inr True, r')"
  shows "parseRequest r (s @ t) = (Inr True, r')"
  using assms
proof (rule parseRequest_True)
  fix k r1
  assume "search crlf s = Some k" "parseRequestLine r (take k s) = (Inr True, r1)"
    "parseHeaders r1 (drop (k + 2) s) = (True, r')"
  note hyps = this
  note more = search_crlf_more [OF hyps(1), of t]
  show ?thesis
    unfolding parseRequest_def more(1) option.case more(2,3) hyps(2)
    by (simp del: drop_append add: parseHeaders_more [OF hyps(3)] del: add_2_eq_Suc')
qed

theorem parse_stable_under_more_input_witness:
  "parseRequest HttpRequest (sample_request @ ''GET /'') = (Inr True, sample_parsed)"
  by (rule parse_stable_under_more_input [OF parse_sample])

text \<open>A request line the parser does not accept decides the outcome for every continuation.\<close>

lemma parse_bad_line_more:
  assumes "search crlf s = Some k" "parseRequestLine r (take k s) = (out, r1)" "out \<noteq> Inr True"
  shows "parseRequest r (s @ t) = (out, r1)"
  unfolding parseRequest_def search_crlf_more(1) [OF assms(1)] option.case
    search_crlf_more(2) [OF assms(1)] assms(2)
  using assms(3) by (auto split: sum.splits bool.splits)

section \<open>urlDecode\<close>

text \<open>
  The encoding a client uses for a path: unreserved characters as they are, every other byte as
  \<^verbatim>\<open>%XX\<close> with upper-case digits.
\<close>

definition hex_char :: "nat \<Rightarrow> char" where
  "hex_char n = (if n < 10 then char_of (48 + n) else char_of (55 + n))"

definition unreserved :: "char \<Rightarrow> bool" where
  "unreserved c \<longleftrightarrow> c \<in> set ''0123456789-._~/'' \<or>
     (let k = of_char c :: nat in k \<in> {97..122} \<union> {65..90})"

definition encode_byte :: "char \<Rightarrow> string" where
  "encode_byte c =
     (if unreserved c then [c]
      else [CHR ''%'', hex_char (of_char c div 16), hex_char (of_char c mod 16)])"

definition urlEncode :: "string \<Rightarrow> string" where
  "urlEncode s = concat (map encode_byte s)"

lemma hex_char_digits: "n < 16 \<Longrightarrow> hexToInt (hex_char n) = int n"
proof -
  have "\<forall>n \<in> set [0..<16]. hexToInt (hex_char n) = int n" by code_simp
  then show "n < 16 \<Longrightarrow> hexToInt (hex_char n) = int n" by simp
qed

lemma nibbles: "h < 16 \<Longrightarrow> l < 16 \<Longrightarrow> push_bit 4 (int h) OR int l = int (16 * h + l)"
proof -
  have "\<forall>h \<in> set [0..<16]. \<forall>l \<in> set [0..<16]. push_bit 4 (int h) OR int l = int (16 * h + l)"
    by code_simp
  then show "h < 16 \<Longrightarrow> l < 16 \<Longrightarrow> push_bit 4 (int h) OR int l = int (16 * h + l)" by simp
qed

lemma urlDecode_plain: "c \<noteq> CHR ''%'' \<Longrightarrow> c \<noteq> CHR ''+'' \<Longrightarrow> urlDecode (c # cs) = c # urlDecode cs"
  by simp

lemma urlDecode_escape:
  assumes "h < 16" "l < 16"
  shows "urlDecode (CHR ''%'' # hex_char h # hex_char l # cs) = char_of (16 * h + l) # urlDecode cs"
proof -
  have "char_of (push_bit 4 (int h) OR int l) = (char_of (16 * h + l) :: char)"
    by (simp only: nibbles [OF assms] char_of_nat)
  then show ?thesis using assms by (simp add: hex_char_digits)
qed

lemma urlDecode_encode_byte: "urlDecode (encode_byte c @ cs) = c # urlDecode cs"
proof (cases "unreserved c")
  case True
  then have "c \<noteq> CHR ''%''" "c \<noteq> CHR ''+''" by (auto simp: unreserved_def)
  then show ?thesis using True by (simp add: encode_byte_def del: urlDecode.simps add: urlDecode_plain)
next
  case False
  have "of_char c div 16 < (16::nat)" using nat_of_char_less_256 [of c] by linarith
  then show ?thesis
    using False urlDecode_escape [of "of_char c div 16" "of_char c mod 16" cs]
    by (simp add: encode_byte_def del: urlDecode.simps)
qed

text \<open>
  C32: Percent-encoding survives the round trip: decoding what a client encoded gives back every
  byte of the path, and a path that needs no encoding is left alone.
\<close>

theorem urlDecode_urlEncode: "urlDecode (urlEncode s) = s"
proof (induction s)
  case (Cons c s)
  then show ?case
    using urlDecode_encode_byte [of c "concat (map encode_byte s)"] by (simp add: urlEncode_def)
qed (simp add: urlEncode_def)

lemma urlDecode_id: "(\<forall>c \<in> set s. c \<noteq> CHR ''%'' \<and> c \<noteq> CHR ''+'') \<Longrightarrow> urlDecode s = s"
  by (induction s) simp_all

section \<open>The version number\<close>

text \<open>
  A version whose number cannot be read is not rejected but throws out of the parser: a
  single request line of this kind ends in an exception, whatever bytes follow it.
\<close>

theorem bad_version_throws:
  "fst (parseRequest HttpRequest (''GET / HTTP/x.1'' @ crlf @ rest)) = Inl Invalid_argument"
proof -
  have "search crlf (''GET / HTTP/x.1'' @ crlf) = Some 14"
    "take 14 (''GET / HTTP/x.1'' @ crlf) = ''GET / HTTP/x.1''"
    "fst (parseRequestLine HttpRequest ''GET / HTTP/x.1'') = Inl Invalid_argument"
    by code_simp+
  then show ?thesis
    using parse_bad_line_more [of "''GET / HTTP/x.1'' @ crlf" 14 HttpRequest "Inl Invalid_argument" _ rest]
    by (metis append.assoc prod.collapse sum.distinct(1) fst_conv)
qed

section \<open>What an accepted request consumes\<close>

definition blank_line :: string where
  "blank_line = crlf @ crlf"

lemma blank_line_at:
  assumes "take (length blank_line) xs = blank_line"
  shows "take 2 xs = crlf" and "take 2 (drop 2 xs) = crlf"
proof -
  have "take 2 (take 4 xs) = crlf" "take 2 (drop 2 (take 4 xs)) = crlf"
    using assms by (simp_all add: blank_line_def crlf_def numeral_eq_Suc)
  then show "take 2 xs = crlf" "take 2 (drop 2 xs) = crlf" by (simp_all add: drop_take)
qed

lemma crlf_at: "take 2 (drop j s) = crlf \<Longrightarrow> s ! j = CHR 0x0D"
proof -
  assume at: "take 2 (drop j s) = crlf"
  then have "length (take 2 (drop j s)) = 2" by simp
  then have "s ! j = take 2 (drop j s) ! 0" by simp
  with at show ?thesis by (simp add: crlf_def)
qed

lemma search_no_crlf: "search crlf s = Some k \<Longrightarrow> j < k \<Longrightarrow> take 2 (drop j s) \<noteq> crlf"
  using search_first [of crlf s k j] by simp

lemma drop_at_crlf: "search crlf s = Some k \<Longrightarrow> drop k s = crlf @ drop (k + 2) s"
  using search_SomeD [of crlf s k] append_take_drop_id [of 2 "drop k s"]
  by (simp add: add.commute)

text \<open>The header loop ends at the first blank line, and needs nothing after it.\<close>

lemma parseHeaders_blank:
  "parseHeaders r s = (True, r') \<Longrightarrow>
     \<exists>i. search blank_line (crlf @ s) = Some i \<and> i + 2 \<le> length s \<and>
       parseHeaders r (take (i + 2) s) = (True, r')"
proof (induction r s rule: header_induct)
  case (Open r s)
  then show ?case by (simp add: parseHeaders_round)
next
  case (End r s)
  then obtain u where s: "s = crlf @ u" using search_Some_split [OF End.hyps] by auto
  have "search blank_line (crlf @ s) = Some 0" by (simp add: s blank_line_def crlf_def)
  moreover have "search crlf crlf = Some 0" by code_simp
  ultimately show ?case using End.prems End.hyps by (simp add: s parseHeaders_end)
next
  case (Line r s k)
  let ?s = "drop (k + 2) s" and ?r = "add_header_line r (take k s)"
  from Line.IH Line.prems Line.hyps obtain i where i: "search blank_line (crlf @ ?s) = Some i"
      "i + 2 \<le> length ?s" "parseHeaders ?r (take (i + 2) ?s) = (True, r')"
    by (auto simp: parseHeaders_line)
  have "take (length blank_line) (drop j (crlf @ s)) \<noteq> blank_line" if lt: "j < k + 2" for j
  proof
    assume at: "take (length blank_line) (drop j (crlf @ s)) = blank_line"
    consider "j = 0" | "j = 1" | j' where "j = j' + 2" "j' < k"
      using lt by (cases j; cases "j - 1") auto
    then show False
    proof cases
      case 1
      then show False
        using blank_line_at(2) [OF at] search_no_crlf [OF Line.hyps(1), of 0] Line.hyps(2) by simp
    next
      case 2
      then show False using blank_line_at(1) [OF at] by (cases s) (auto simp: crlf_def)
    next
      case 3
      then show False using blank_line_at(1) [OF at] search_no_crlf [OF Line.hyps(1)] by simp
    qed
  qed
  then have "search blank_line (crlf @ s) =
      map_option (\<lambda>i. i + (k + 2)) (search blank_line (drop (k + 2) (crlf @ s)))"
    using search_SomeD [OF Line.hyps(1)] by (intro search_skip) auto
  also have "drop (k + 2) (crlf @ s) = crlf @ ?s"
    using drop_at_crlf [OF Line.hyps(1)] by simp
  finally have "search blank_line (crlf @ s) = Some (i + (k + 2))" by (simp only: i(1) option.map)
  moreover have "i + (k + 2) + 2 \<le> length s" using i(2) by simp
  moreover have "parseHeaders r (take (i + (k + 2) + 2) s) = (True, r')"
  proof -
    let ?t = "take (i + (k + 2) + 2) s"
    have k: "search crlf ?t = Some k" by (rule search_take [OF Line.hyps(1)]) simp
    have "take k ?t = take k s" "drop (k + 2) ?t = take (i + 2) ?s"
      by (simp_all add: drop_take min_def)
    then show ?thesis using i(3) by (simp only: parseHeaders_line [OF k Line.hyps(2)])
  qed
  ultimately show ?case by blast
qed

text \<open>
  An accepted request ends at the first blank line: the server's search for it succeeds, so
  it consumes exactly the request, and the request parses the same without the bytes after it.
\<close>

theorem accepted_request_ends_at_blank_line:
  assumes "parseRequest r s = (Inr True, r')"
  shows "\<exists>i. search blank_line s = Some i \<and> i + 4 \<le> length s \<and>
    parseRequest r (take (i + 4) s) = (Inr True, r')"
  using assms
proof (rule parseRequest_True)
  fix k r1
  assume k: "search crlf s = Some k" and line: "parseRequestLine r (take k s) = (Inr True, r1)"
    and hs: "parseHeaders r1 (drop (k + 2) s) = (True, r')"
  let ?s = "drop (k + 2) s"
  obtain i where i: "search blank_line (crlf @ ?s) = Some i" "i + 2 \<le> length ?s"
      "parseHeaders r1 (take (i + 2) ?s) = (True, r')"
    using parseHeaders_blank [OF hs] by blast
  have "take (length blank_line) (drop j s) \<noteq> blank_line" if "j < k" for j
    using blank_line_at(1) search_no_crlf [OF k that] by blast
  then have "search blank_line s = map_option (\<lambda>i. i + k) (search blank_line (drop k s))"
    using search_SomeD [OF k] by (intro search_skip) auto
  also have "drop k s = crlf @ ?s"
    by (rule drop_at_crlf [OF k])
  finally have b: "search blank_line s = Some (i + k)" by (simp only: i(1) option.map)
  let ?t = "take (i + k + 4) s"
  have kt: "search crlf ?t = Some k" by (rule search_take [OF k]) simp
  have "take k ?t = take k s" "drop (k + 2) ?t = take (i + 2) ?s"
    by (simp_all add: drop_take min_def)
  then have "parseRequest r ?t = (Inr True, r')"
    by (simp only: parseRequest_def kt option.case line i(3) prod.case sum.case bool.case)
  moreover have "i + k + 4 \<le> length s" using i(2) by simp
  ultimately show ?thesis using b by blast
qed

theorem accepted_request_ends_at_blank_line_witness:
  "\<exists>i. search blank_line (sample_request @ ''GET /'') = Some i \<and>
    i + 4 \<le> length (sample_request @ ''GET /'') \<and>
    parseRequest HttpRequest (take (i + 4) (sample_request @ ''GET /'')) = (Inr True, sample_parsed)"
proof (rule accepted_request_ends_at_blank_line)
  show "parseRequest HttpRequest (sample_request @ ''GET /'') = (Inr True, sample_parsed)"
    by code_simp
qed

end
