(* ===== verification/Http_Response.thy ===== *)
theory Http_Response
  imports Byte_Buffer Http_Request Std_Format
begin

text \<open>
  \<^verbatim>\<open>reactor_net/include/HttpResponse.h\<close> and \<^verbatim>\<open>src/HttpResponse.cpp\<close>: the response builder
  and its serialisation into a \<^verbatim>\<open>Buffer\<close>. Every line but the fixed ones goes through a stack
  buffer of 256 bytes, which truncates what does not fit.
\<close>

datatype http_status = k200Ok | k400BadRequest | k404NotFound | k500InternalServerError

fun status_code :: "http_status \<Rightarrow> nat" where
  "status_code k200Ok = 200"
| "status_code k400BadRequest = 400"
| "status_code k404NotFound = 404"
| "status_code k500InternalServerError = 500"

fun statusMessageForCode :: "http_status \<Rightarrow> string" where
  "statusMessageForCode k200Ok = ''OK''"
| "statusMessageForCode k400BadRequest = ''Bad Request''"
| "statusMessageForCode k404NotFound = ''Not Found''"
| "statusMessageForCode k500InternalServerError = ''Internal Server Error''"

record http_response =
  statusCode :: http_status
  statusMessage :: string
  resp_headers :: "(string \<times> string) list"
  resp_body :: string
  closeConnection :: bool

definition HttpResponse :: "bool \<Rightarrow> http_response" where
  "HttpResponse close = \<lparr>statusCode = k200Ok, statusMessage = [], resp_headers = [],
     resp_body = [], closeConnection = close\<rparr>"

definition addHeader :: "string \<Rightarrow> string \<Rightarrow> http_response \<Rightarrow> http_response" where
  "addHeader key value r = r\<lparr>resp_headers := map_put key value (resp_headers r)\<rparr>"

definition setContentType :: "string \<Rightarrow> http_response \<Rightarrow> http_response" where
  "setContentType contentType = addHeader ''Content-Type'' contentType"

section \<open>appendToBuffer\<close>

definition response_buf :: nat where
  "response_buf = 256"

definition response_message :: "http_response \<Rightarrow> string" where
  "response_message r =
     (if statusMessage r = [] then statusMessageForCode (statusCode r) else statusMessage r)"

definition status_line :: "http_response \<Rightarrow> string" where
  "status_line r =
     ''HTTP/1.0 '' @ dec (status_code (statusCode r)) @ '' '' @ c_str (response_message r) @ crlf"

definition length_line :: "http_response \<Rightarrow> string" where
  "length_line r = ''Content-Length: '' @ dec (length (resp_body r)) @ crlf"

definition header_line :: "string \<times> string \<Rightarrow> string" where
  "header_line h = c_str (fst h) @ '': '' @ c_str (snd h) @ crlf"

text \<open>The strings handed to \<^verbatim>\<open>output->append\<close>, in order.\<close>

definition response_chunks :: "http_response \<Rightarrow> string list" where
  "response_chunks r =
     [snprintf response_buf (status_line r)] @
     (if closeConnection r then [''Connection: close'' @ crlf] else []) @
     [snprintf response_buf (length_line r)] @
     map (\<lambda>h. snprintf response_buf (header_line h)) (resp_headers r) @
     [crlf, resp_body r]"

definition appendToBuffer :: "http_response \<Rightarrow> byte_buffer \<Rightarrow> byte_buffer" where
  "appendToBuffer r output = foldl append_bytes output (response_chunks r)"

definition response_bytes :: "http_response \<Rightarrow> string" where
  "response_bytes r = concat (response_chunks r)"

lemma appendToBuffer_bytes:
  assumes "buf_ok b" "fits b (length (response_bytes r))"
  shows "buf_ok (appendToBuffer r b)" and "readable (appendToBuffer r b) = readable b @ response_bytes r"
  using buf.app_all [OF assms(1), of "response_chunks r"] assms(2)
  by (simp_all add: appendToBuffer_def response_bytes_def fits_iff)

section \<open>What a client reads\<close>

text \<open>Header lines that are not empty and have no carriage return, each ended by CRLF.\<close>

definition plain_line :: "string \<Rightarrow> bool" where
  "plain_line l \<longleftrightarrow> l \<noteq> [] \<and> CHR 0x0D \<notin> set l"

lemma search_blank_line_skip:
  assumes "plain_line l"
  shows "search blank_line (crlf @ l @ crlf @ t) =
    map_option (\<lambda>i. i + (length l + 2)) (search blank_line (crlf @ t))"
proof -
  let ?xs = "crlf @ l @ crlf @ t"
  have cr: "?xs ! j \<noteq> CHR 0x0D" if "0 < j" "j < length l + 2" for j
  proof -
    have "?xs ! j = CHR 0x0A \<or> ?xs ! j \<in> set l"
      using that by (cases "j = 1") (auto simp: crlf_def nth_append nth_Cons')
    with assms show ?thesis by (auto simp: plain_line_def)
  qed
  have "take (length blank_line) (drop j ?xs) \<noteq> blank_line" if "j < length l + 2" for j
  proof
    assume at: "take (length blank_line) (drop j ?xs) = blank_line"
    have "take 2 (drop j ?xs) = crlf" "take 2 (drop (j + 2) ?xs) = crlf"
      using blank_line_at [OF at] by (simp_all only: drop_drop add.commute)
    then have "?xs ! j = CHR 0x0D" "?xs ! (j + 2) = CHR 0x0D" by (simp_all only: crlf_at)
    with cr [of j] cr [of "j + 2"] that assms show False
      by (cases "j = 0") (auto simp: plain_line_def)
  qed
  then have "search blank_line ?xs =
      map_option (\<lambda>i. i + (length l + 2)) (search blank_line (drop (length l + 2) ?xs))"
    by (intro search_skip) auto
  then show ?thesis by simp
qed

lemma search_after_lines:
  "\<forall>l \<in> set ls. plain_line l \<Longrightarrow>
     search blank_line (crlf @ concat (map (\<lambda>l. l @ crlf) ls) @ crlf @ body) =
       Some (length (concat (map (\<lambda>l. l @ crlf) ls)))"
proof (induction ls)
  case Nil
  show ?case by (simp add: blank_line_def crlf_def)
next
  case (Cons l ls)
  then have l: "plain_line l" by simp
  show ?case
    using Cons search_blank_line_skip [OF l, of "concat (map (\<lambda>l. l @ crlf) ls) @ crlf @ body"]
    by simp
qed

lemma lines_shift:
  "concat (map (\<lambda>l. l @ crlf) (k # ks)) = k @ concat (map (\<lambda>l. crlf @ l) ks) @ crlf"
  by (induction ks arbitrary: k) auto

lemma search_head:
  assumes "plain_line l" "\<forall>l \<in> set ls. plain_line l"
  defines "head \<equiv> l @ concat (map (\<lambda>l. crlf @ l) ls)"
  shows "search blank_line (head @ blank_line @ body) = Some (length head)"
proof -
  let ?rest = "crlf @ concat (map (\<lambda>l. l @ crlf) ls) @ crlf @ body"
  have "take (length blank_line) (drop j (l @ ?rest)) \<noteq> blank_line" if "j < length l" for j
  proof
    assume "take (length blank_line) (drop j (l @ ?rest)) = blank_line"
    then have "(l @ ?rest) ! j = CHR 0x0D" using blank_line_at(1) crlf_at by blast
    with that have "CHR 0x0D \<in> set l" by (metis nth_append nth_mem)
    with assms(1) show False by (simp add: plain_line_def)
  qed
  then have "search blank_line (l @ ?rest) =
      map_option (\<lambda>i. i + length l) (search blank_line (drop (length l) (l @ ?rest)))"
    by (intro search_skip) auto
  moreover have "length (concat (map (\<lambda>l. l @ crlf) ls)) = length (concat (map (\<lambda>l. crlf @ l) ls))"
    by (induction ls) auto
  moreover have "head @ blank_line @ body = concat (map (\<lambda>l. l @ crlf) (l # ls)) @ crlf @ body"
    by (simp only: lines_shift head_def blank_line_def append_assoc)
  then have same: "head @ blank_line @ body = l @ ?rest" by simp
  ultimately have "search blank_line (l @ ?rest) = Some (length head)"
    using search_after_lines [OF assms(2), of body] by (simp add: head_def)
  then show ?thesis by (simp only: same)
qed

lemma line_in_concat:
  "l \<in> set ls \<Longrightarrow> \<exists>pre post. concat (map (\<lambda>l. l @ crlf) ls) = pre @ l @ crlf @ post"
  by (fastforce dest!: split_list)

definition head_lines :: "http_response \<Rightarrow> string list" where
  "head_lines r =
     [''HTTP/1.0 '' @ dec (status_code (statusCode r)) @ '' '' @ c_str (response_message r)] @
     (if closeConnection r then [''Connection: close''] else []) @
     [''Content-Length: '' @ dec (length (resp_body r))] @
     map (\<lambda>h. c_str (fst h) @ '': '' @ c_str (snd h)) (resp_headers r)"

text \<open>Lines that fit into the stack buffer, and no line break inside a message or a header.\<close>

definition clean_response :: "http_response \<Rightarrow> bool" where
  "clean_response r \<longleftrightarrow>
     (\<forall>l \<in> set (head_lines r). length l + 2 < response_buf) \<and>
     CHR 0x0D \<notin> set (statusMessage r) \<and>
     (\<forall>h \<in> set (resp_headers r). CHR 0x0D \<notin> set (fst h) \<and> CHR 0x0D \<notin> set (snd h))"

lemma dec_plain: "CHR 0x0D \<notin> set (dec n)"
proof
  assume "CHR 0x0D \<in> set (dec n)"
  then obtain d where d: "d < 10" "CHR 0x0D = digit_char d" using set_dec by blast
  from d(2) have "of_char (CHR 0x0D) = (of_char (digit_char d) :: nat)" by simp
  with d(1) show False by (simp add: digit_char_code)
qed

lemma message_plain: "clean_response r \<Longrightarrow> CHR 0x0D \<notin> set (c_str (response_message r))"
  using set_c_str [of "response_message r"]
  by (cases "statusCode r") (auto simp: response_message_def clean_response_def split: if_splits)

lemma header_plain:
  assumes "clean_response r" "h \<in> set (resp_headers r)"
  shows "plain_line (c_str (fst h) @ '': '' @ c_str (snd h))" and "length (header_line h) < response_buf"
proof -
  have "c_str (fst h) @ '': '' @ c_str (snd h) \<in> set (head_lines r)"
    using assms(2) by (simp add: head_lines_def)
  then have "length (c_str (fst h) @ '': '' @ c_str (snd h)) + 2 < response_buf"
    using assms(1) unfolding clean_response_def by blast
  then show "length (header_line h) < response_buf" by (simp add: header_line_def)
  have "CHR 0x0D \<notin> set (fst h)" "CHR 0x0D \<notin> set (snd h)"
    using assms unfolding clean_response_def by blast+
  then show "plain_line (c_str (fst h) @ '': '' @ c_str (snd h))"
    using set_c_str [of "fst h"] set_c_str [of "snd h"] by (auto simp: plain_line_def)
qed

lemma head_lines_plain:
  assumes "clean_response r"
  shows "\<forall>l \<in> set (head_lines r). plain_line l"
proof -
  have "plain_line (''HTTP/1.0 '' @ dec (status_code (statusCode r)) @ '' '' @ c_str (response_message r))"
    "plain_line ''Connection: close''" "plain_line (''Content-Length: '' @ dec (length (resp_body r)))"
    using message_plain [OF assms] dec_plain by (simp_all add: plain_line_def)
  with header_plain [OF assms] show ?thesis by (auto simp: head_lines_def simp del: append_Cons)
qed

lemma chunks_clean:
  assumes "clean_response r"
  shows "response_chunks r = map (\<lambda>l. l @ crlf) (head_lines r) @ [crlf, resp_body r]"
proof -
  have "snprintf response_buf (status_line r) = status_line r"
    "snprintf response_buf (length_line r) = length_line r"
    using assms
    by (auto simp: clean_response_def head_lines_def status_line_def length_line_def intro!: snprintf_id)
  moreover have "map (\<lambda>h. snprintf response_buf (header_line h)) (resp_headers r) = map header_line (resp_headers r)"
    using header_plain [OF assms] by (simp add: snprintf_id)
  ultimately show ?thesis
    by (simp add: response_chunks_def head_lines_def status_line_def length_line_def header_line_def)
qed

text \<open>
  C33: A response whose lines fit is read back as it was meant: serialisation adds it after what
  the buffer held, the first blank line a client finds ends the head, what follows it is exactly
  the body, and the head announces the length of the body.
\<close>

theorem response_reads_back:
  assumes "buf_ok b" "fits b (length (response_bytes r))" "clean_response r"
  shows "\<exists>head pre post. readable (appendToBuffer r b) = readable b @ head @ blank_line @ resp_body r \<and>
    search blank_line (head @ blank_line @ resp_body r) = Some (length head) \<and>
    head @ crlf = pre @ ''Content-Length: '' @ dec (length (resp_body r)) @ crlf @ post"
proof -
  obtain l ls where ls: "head_lines r = l # ls" by (simp add: head_lines_def)
  let ?head = "l @ concat (map (\<lambda>l. crlf @ l) ls)"
  have "response_bytes r = concat (map (\<lambda>l. l @ crlf) (l # ls)) @ crlf @ resp_body r"
    using chunks_clean [OF assms(3)] by (simp add: response_bytes_def ls)
  then have bytes: "response_bytes r = ?head @ blank_line @ resp_body r"
    by (simp only: lines_shift blank_line_def append_assoc)
  have "plain_line l" "\<forall>l \<in> set ls. plain_line l"
    using head_lines_plain [OF assms(3)] ls by auto
  then have "search blank_line (?head @ blank_line @ resp_body r) = Some (length ?head)"
    by (rule search_head)
  moreover have "?head @ crlf = concat (map (\<lambda>l. l @ crlf) (head_lines r))"
    by (simp only: ls lines_shift append_assoc)
  then have "\<exists>pre post. ?head @ crlf = pre @ ''Content-Length: '' @ dec (length (resp_body r)) @ crlf @ post"
    using line_in_concat [of "''Content-Length: '' @ dec (length (resp_body r))" "head_lines r"]
    by (simp only: append_assoc) (simp add: head_lines_def)
  ultimately show ?thesis using appendToBuffer_bytes(2) [OF assms(1,2)] bytes by auto
qed

definition sample_response :: http_response where
  "sample_response = (setContentType ''text/html'' (HttpResponse True))\<lparr>resp_body := ''hi''\<rparr>"

lemma sample_response_bytes:
  "response_bytes sample_response = ''HTTP/1.0 200 OK'' @ crlf @ ''Connection: close'' @ crlf @
     ''Content-Length: 2'' @ crlf @ ''Content-Type: text/html'' @ blank_line @ ''hi''"
  by code_simp

theorem response_reads_back_witness:
  "\<exists>head pre post. readable (appendToBuffer sample_response (Buffer 1024)) =
      readable (Buffer 1024) @ head @ blank_line @ resp_body sample_response \<and>
    search blank_line (head @ blank_line @ resp_body sample_response) = Some (length head) \<and>
    head @ crlf = pre @ ''Content-Length: '' @ dec (length (resp_body sample_response)) @ crlf @ post"
proof (rule response_reads_back)
  show "buf_ok (Buffer 1024)" by (rule Buffer_ok)
  show "fits (Buffer 1024) (length (response_bytes sample_response))"
    by (simp only: sample_response_bytes) (simp add: fits_def Buffer_def kCheapPrepend_def crlf_def blank_line_def)
  show "clean_response sample_response" by code_simp
qed

text \<open>
  A header that does not fit into the stack buffer loses its line break: with one custom
  header of 260 bytes and an empty body, the response has no blank line at all, so a client that
  looks for the end of the head never finds it.
\<close>

lemma long_header_loses_blank_line:
  "search blank_line (response_bytes (addHeader ''X'' (replicate 260 (CHR ''a'')) (HttpResponse True))) = None"
  by code_simp

end
