(* ===== verification/Http_Server.thy ===== *)
theory Http_Server
  imports Http_Response
begin

text \<open>
  The two message callbacks of \<^verbatim>\<open>reactor_net/src/main.cpp\<close>: the echo server's, and
  \<^verbatim>\<open>HttpServer::onMessage\<close>, which parses a request, reads a file below the document root and
  answers. A callback sees the input buffer and calls methods of the connection; the model returns
  these calls as actions. The file system is an argument: the content of a file that can be
  opened, \<open>None\<close> for one that cannot.
\<close>

datatype conn_action = Send string | Shutdown | ForceClose

type_synonym message_callback = "byte_buffer \<Rightarrow> cxx_exn + (conn_action list \<times> byte_buffer)"

definition echo_onMessage :: message_callback where
  "echo_onMessage buf = (let (msg, buf) = retrieveAllAsString buf in Inr ([Send msg], buf))"

section \<open>HttpServer\<close>

definition ends_with :: "string \<Rightarrow> string \<Rightarrow> bool" where
  "ends_with path suffix \<longleftrightarrow>
     length suffix \<le> length path \<and> drop (length path - length suffix) path = suffix"

definition getMimeType :: "string \<Rightarrow> string" where
  "getMimeType path =
     (if ends_with path ''.html'' then ''text/html''
      else if ends_with path ''.css'' then ''text/css''
      else if ends_with path ''.js'' then ''application/javascript''
      else if ends_with path ''.png'' then ''image/png''
      else if ends_with path ''.jpg'' then ''image/jpeg''
      else if ends_with path ''.svg'' then ''image/svg+xml''
      else if ends_with path ''.ico'' then ''image/x-icon''
      else if ends_with path ''.json'' then ''application/json''
      else if ends_with path ''.txt'' then ''text/plain''
      else ''application/octet-stream'')"

definition notFoundBody :: string where
  "notFoundBody = ''<html><head><title>404 Not Found</title></head>'' @
     ''<body><h1>404 Not Found</h1><p>'' @
     ''The requested URL was not found on this server.'' @
     ''</p></body></html>''"

definition consume_request :: "byte_buffer \<Rightarrow> byte_buffer" where
  "consume_request buf =
     (case search blank_line (readable buf) of
        Some headerEnd \<Rightarrow> retrieve buf (headerEnd + 4)
      | None \<Rightarrow> retrieveAll buf)"

definition answer :: "(string \<Rightarrow> string option) \<Rightarrow> string \<Rightarrow> string \<Rightarrow> http_response" where
  "answer fs docRoot path =
     (let response = HttpResponse True
      in case fs (docRoot @ path) of
           Some content \<Rightarrow>
             (setContentType (getMimeType path) (response\<lparr>statusCode := k200Ok\<rparr>))\<lparr>resp_body := content\<rparr>
         | None \<Rightarrow>
             (setContentType ''text/html'' (response\<lparr>statusCode := k404NotFound\<rparr>))\<lparr>resp_body := notFoundBody\<rparr>)"

definition onMessage :: "(string \<Rightarrow> string option) \<Rightarrow> string \<Rightarrow> message_callback" where
  "onMessage fs docRoot buf =
     (case parseRequest HttpRequest (readable buf) of
        (Inl e, _) \<Rightarrow> Inl e
      | (Inr False, _) \<Rightarrow> Inr ([], buf)
      | (Inr True, req) \<Rightarrow>
          let buf = consume_request buf;
              responseBuf = appendToBuffer (answer fs docRoot (req_path req)) (Buffer kInitialSize)
          in Inr ([Send (fst (retrieveAllAsString responseBuf)), Shutdown], buf))"

section \<open>One complete request\<close>

text \<open>
  C29: A complete request is answered once and the connection is then shut down; the answer is
  the serialised 200 response with the content of the requested file below the document root, or
  the 404 response; exactly the request is taken from the input, what follows it stays there.
\<close>

theorem complete_request_answered:
  assumes "buf_ok buf" "parseRequest HttpRequest (readable buf) = (Inr True, req)"
    "length (response_bytes (answer fs docRoot (req_path req))) < SIZE_MAX_P1 - 16"
  shows "\<exists>i buf'. onMessage fs docRoot buf =
      Inr ([Send (response_bytes (answer fs docRoot (req_path req))), Shutdown], buf') \<and>
    search blank_line (readable buf) = Some i \<and> buf_ok buf' \<and>
    readable buf' = drop (i + 4) (readable buf)"
proof -
  let ?r = "answer fs docRoot (req_path req)"
  obtain i where i: "search blank_line (readable buf) = Some i"
    using accepted_request_ends_at_blank_line [OF assms(2)] by blast
  have "fits (Buffer kInitialSize) (length (response_bytes ?r))"
    using assms(3) by (simp add: fits_def Buffer_def kCheapPrepend_def)
  note b = Buffer_ok [of kInitialSize] this
  have "fst (retrieveAllAsString (appendToBuffer ?r (Buffer kInitialSize))) = response_bytes ?r"
    using retrieveAllAsString_all [OF appendToBuffer_bytes(1) [OF b]] appendToBuffer_bytes(2) [OF b]
    by (metis Buffer_readable append_Nil prod.collapse)
  with assms(1,2) i show ?thesis
    by (simp add: onMessage_def consume_request_def Let_def buf_simps)
qed

definition sample_input :: byte_buffer where
  "sample_input = append_bytes (Buffer 128) (sample_request @ ''GET /'')"

definition sample_fs :: "string \<Rightarrow> string option" where
  "sample_fs path = (if path = ''www//a/b'' then Some ''hi'' else None)"

lemma sample_input_ok: "buf_ok sample_input" "readable sample_input = sample_request @ ''GET /''"
proof -
  have "fits (Buffer 128) (length (sample_request @ ''GET /''))"
    by (simp add: fits_def Buffer_def kCheapPrepend_def sample_request_def)
  from append_bytes_ok [OF Buffer_ok this] Buffer_readable
  show "buf_ok sample_input" "readable sample_input = sample_request @ ''GET /''"
    by (simp_all add: sample_input_def)
qed

theorem complete_request_answered_witness:
  "\<exists>i buf'. onMessage sample_fs ''www/'' sample_input =
      Inr ([Send (response_bytes (answer sample_fs ''www/'' (req_path sample_parsed))), Shutdown], buf') \<and>
    search blank_line (readable sample_input) = Some i \<and> buf_ok buf' \<and>
    readable buf' = drop (i + 4) (readable sample_input)"
proof (rule complete_request_answered [OF sample_input_ok(1)])
  have "parseRequest HttpRequest (sample_request @ ''GET /'') = (Inr True, sample_parsed)"
    by code_simp
  then show "parseRequest HttpRequest (readable sample_input) = (Inr True, sample_parsed)"
    by (simp only: sample_input_ok(2))
  have "length (response_bytes (answer sample_fs ''www/'' (req_path sample_parsed))) < 200"
    by code_simp
  then show "length (response_bytes (answer sample_fs ''www/'' (req_path sample_parsed)))
      < SIZE_MAX_P1 - 16" by simp
qed

section \<open>A request line that cannot be accepted\<close>

text \<open>
  The callback takes a refused request for an incomplete one: nothing is answered and nothing
  is consumed, now or after any further input, so the connection stays open and the buffer grows.
\<close>

lemma refused_request_never_answered:
  assumes "readable buf = s @ t" "search crlf s = Some k"
    "parseRequestLine HttpRequest (take k s) = (Inr False, r1)"
  shows "onMessage fs docRoot buf = Inr ([], buf)"
  using parse_bad_line_more [OF assms(2,3), of t] assms(1) by (simp add: onMessage_def)

lemma post_request_refused:
  "parseRequestLine HttpRequest ''POST /form HTTP/1.0'' = (Inr False, HttpRequest)"
  by code_simp

end
