(* ===== verification/Channel_Poller.thy ===== *)
theory Channel_Poller
  imports Prelude
begin

text \<open>
  The dispatcher of the reactor: \<^verbatim>\<open>Channel.h/.cpp\<close>, \<^verbatim>\<open>Poller.h\<close> and
  \<^verbatim>\<open>EPollPoller.h/.cpp\<close>. A channel keeps the events it is interested in and the place it has
  in the poller (-1 new, 0 removed from the epoll set, 1 in it); the poller maps descriptors to
  channels and talks to the kernel. Channels are named by a number, their address. The calls of
  \<^verbatim>\<open>epoll_ctl\<close> are recorded in the poller as requests; what the kernel makes of them is
  documented behaviour and stands in the last part, on the side of the specification. An
  assertion that fails is the value None.
\<close>

section \<open>Events\<close>

definition EPOLLIN :: u32 where "EPOLLIN = 0x001"
definition EPOLLPRI :: u32 where "EPOLLPRI = 0x002"
definition EPOLLOUT :: u32 where "EPOLLOUT = 0x004"
definition EPOLLERR :: u32 where "EPOLLERR = 0x008"
definition EPOLLHUP :: u32 where "EPOLLHUP = 0x010"
definition EPOLLRDHUP :: u32 where "EPOLLRDHUP = 0x2000"

definition kNoneEvent :: u32 where "kNoneEvent = 0"
definition kReadEvent :: u32 where "kReadEvent = EPOLLIN OR EPOLLPRI"
definition kWriteEvent :: u32 where "kWriteEvent = EPOLLOUT"

lemmas epoll_bits = EPOLLIN_def EPOLLPRI_def EPOLLOUT_def EPOLLERR_def EPOLLHUP_def EPOLLRDHUP_def
  kNoneEvent_def kReadEvent_def kWriteEvent_def

section \<open>Channels and the poller\<close>

record channel =
  chan_fd :: int
  events :: u32
  revents :: u32
  index :: int
  eventHandling :: bool
  addedToLoop :: bool
  tied :: bool

definition Channel :: "int \<Rightarrow> channel" where
  "Channel fd = \<lparr>chan_fd = fd, events = 0, revents = 0, index = -1, eventHandling = False,
     addedToLoop = False, tied = False\<rparr>"

definition isNoneEvent :: "channel \<Rightarrow> bool" where "isNoneEvent c \<longleftrightarrow> events c = kNoneEvent"
definition isReading :: "channel \<Rightarrow> bool" where "isReading c \<longleftrightarrow> events c AND kReadEvent \<noteq> 0"
definition isWriting :: "channel \<Rightarrow> bool" where "isWriting c \<longleftrightarrow> events c AND kWriteEvent \<noteq> 0"

datatype ctl_op = Ctl_Add | Ctl_Mod | Ctl_Del

text \<open>One call of \<^verbatim>\<open>epoll_ctl\<close>: the operation, the descriptor, the events and the pointer.\<close>

type_synonym ctl_request = "ctl_op \<times> int \<times> u32 \<times> nat"

record poller =
  channels :: "int \<rightharpoonup> nat"
  requests :: "ctl_request list"

definition empty_poller :: poller where
  "empty_poller = \<lparr>channels = Map.empty, requests = []\<rparr>"

definition poller_update :: "ctl_op \<Rightarrow> nat \<Rightarrow> channel \<Rightarrow> poller \<Rightarrow> poller" where
  "poller_update op p c po = po\<lparr>requests := requests po @ [(op, chan_fd c, events c, p)]\<rparr>"

definition updateChannel :: "nat \<Rightarrow> channel \<Rightarrow> poller \<Rightarrow> channel \<times> poller" where
  "updateChannel p c po =
     (if index c = -1 \<or> index c = 0 then
        let po = (if index c = -1 then po\<lparr>channels := (channels po)(chan_fd c \<mapsto> p)\<rparr> else po);
            c = c\<lparr>index := 1\<rparr>
        in (c, poller_update Ctl_Add p c po)
      else if isNoneEvent c then (c\<lparr>index := 0\<rparr>, poller_update Ctl_Del p c po)
      else (c, poller_update Ctl_Mod p c po))"

definition removeChannel :: "nat \<Rightarrow> channel \<Rightarrow> poller \<Rightarrow> channel \<times> poller" where
  "removeChannel p c po =
     (let po = po\<lparr>channels := (channels po)(chan_fd c := None)\<rparr>;
          po = (if index c = 1 then poller_update Ctl_Del p c po else po)
      in (c\<lparr>index := -1\<rparr>, po))"

definition hasChannel :: "nat \<Rightarrow> channel \<Rightarrow> poller \<Rightarrow> bool" where
  "hasChannel p c po \<longleftrightarrow> channels po (chan_fd c) = Some p"

text \<open>The operations of a channel: change the interest, then tell the poller.\<close>

definition chan_update :: "nat \<Rightarrow> channel \<Rightarrow> poller \<Rightarrow> channel \<times> poller" where
  "chan_update p c po = updateChannel p (c\<lparr>addedToLoop := True\<rparr>) po"

definition enableReading :: "nat \<Rightarrow> channel \<Rightarrow> poller \<Rightarrow> channel \<times> poller" where
  "enableReading p c po = chan_update p (c\<lparr>events := events c OR kReadEvent\<rparr>) po"

definition disableReading :: "nat \<Rightarrow> channel \<Rightarrow> poller \<Rightarrow> channel \<times> poller" where
  "disableReading p c po = chan_update p (c\<lparr>events := events c AND NOT kReadEvent\<rparr>) po"

definition enableWriting :: "nat \<Rightarrow> channel \<Rightarrow> poller \<Rightarrow> channel \<times> poller" where
  "enableWriting p c po = chan_update p (c\<lparr>events := events c OR kWriteEvent\<rparr>) po"

definition disableWriting :: "nat \<Rightarrow> channel \<Rightarrow> poller \<Rightarrow> channel \<times> poller" where
  "disableWriting p c po = chan_update p (c\<lparr>events := events c AND NOT kWriteEvent\<rparr>) po"

definition disableAll :: "nat \<Rightarrow> channel \<Rightarrow> poller \<Rightarrow> channel \<times> poller" where
  "disableAll p c po = chan_update p (c\<lparr>events := kNoneEvent\<rparr>) po"

definition chan_remove :: "nat \<Rightarrow> channel \<Rightarrow> poller \<Rightarrow> (channel \<times> poller) option" where
  "chan_remove p c po =
     (if isNoneEvent c then Some (removeChannel p (c\<lparr>addedToLoop := False\<rparr>) po) else None)"

definition tie_channel :: "channel \<Rightarrow> channel" where
  "tie_channel c = c\<lparr>tied := True\<rparr>"

text \<open>The destructor has only its assertions.\<close>

definition chan_destroy_ok :: "channel \<Rightarrow> bool" where
  "chan_destroy_ok c \<longleftrightarrow> \<not> eventHandling c \<and> \<not> addedToLoop c"

lemmas chan_ops = chan_update_def enableReading_def disableReading_def enableWriting_def
  disableWriting_def disableAll_def

section \<open>Dispatching\<close>

datatype callback = Close_Callback | Error_Callback | Read_Callback | Write_Callback

text \<open>The callbacks that the events of one report call for, in the order of the four tests.\<close>

definition due_callbacks :: "u32 \<Rightarrow> callback list" where
  "due_callbacks r =
     (if r AND EPOLLHUP \<noteq> 0 \<and> r AND EPOLLIN = 0 then [Close_Callback] else []) @
     (if r AND EPOLLERR \<noteq> 0 then [Error_Callback] else []) @
     (if r AND (EPOLLIN OR EPOLLPRI OR EPOLLRDHUP) \<noteq> 0 then [Read_Callback] else []) @
     (if r AND EPOLLOUT \<noteq> 0 then [Write_Callback] else [])"

fun run_callbacks :: "(callback \<Rightarrow> 's \<Rightarrow> 'e + 's) \<Rightarrow> callback list \<Rightarrow> 's \<Rightarrow> 'e + 's" where
  "run_callbacks f [] s = Inr s"
| "run_callbacks f (k # ks) s =
     (case f k s of Inl e \<Rightarrow> Inl e | Inr s' \<Rightarrow> run_callbacks f ks s')"

text \<open>
  \<^verbatim>\<open>handleEventWithGuard\<close> over any owner state \<^typ>\<open>'s\<close>; \<^term>\<open>handling\<close> sets the flag
  \<^verbatim>\<open>eventHandling_\<close> of the channel in it. An exception leaves the flag set.
\<close>

definition handleEventWithGuard ::
  "(bool \<Rightarrow> 's \<Rightarrow> 's) \<Rightarrow> (callback \<Rightarrow> 's \<Rightarrow> 'e + 's) \<Rightarrow> u32 \<Rightarrow> 's \<Rightarrow> 'e + 's" where
  "handleEventWithGuard handling f r s =
     (case run_callbacks f (due_callbacks r) (handling True s) of
        Inl e \<Rightarrow> Inl e
      | Inr s' \<Rightarrow> Inr (handling False s'))"

text \<open>A tied channel whose owner is gone reports nothing.\<close>

definition handleEvent ::
  "bool \<Rightarrow> bool \<Rightarrow> (bool \<Rightarrow> 's \<Rightarrow> 's) \<Rightarrow> (callback \<Rightarrow> 's \<Rightarrow> 'e + 's) \<Rightarrow> u32 \<Rightarrow> 's \<Rightarrow> 'e + 's" where
  "handleEvent is_tied owner_alive handling f r s =
     (if is_tied then if owner_alive then handleEventWithGuard handling f r s else Inr s
      else handleEventWithGuard handling f r s)"

section \<open>Polling\<close>

definition kInitEventListSize :: nat where "kInitEventListSize = 16"

text \<open>
  The objects of one loop: the channels by address, the poller and the size of its event buffer.
  One report of the kernel is a pair of the pointer it was given and the events that fired.
\<close>

record reactor =
  chans :: "nat \<rightharpoonup> channel"
  epoll :: poller
  event_slots :: nat

definition new_reactor :: reactor where
  "new_reactor = \<lparr>chans = Map.empty, epoll = empty_poller, event_slots = kInitEventListSize\<rparr>"

text \<open>
  \<^verbatim>\<open>fillActiveChannels\<close>: writing through the pointer of a channel that is gone is None.
\<close>

fun fillActiveChannels :: "(nat \<times> u32) list \<Rightarrow> reactor \<Rightarrow> (nat list \<times> reactor) option" where
  "fillActiveChannels [] r = Some ([], r)"
| "fillActiveChannels ((p, ev) # evs) r =
     (case chans r p of
        None \<Rightarrow> None
      | Some c \<Rightarrow>
          (case fillActiveChannels evs (r\<lparr>chans := (chans r)(p \<mapsto> c\<lparr>revents := ev\<rparr>)\<rparr>) of
             None \<Rightarrow> None
           | Some (active, r') \<Rightarrow> Some (p # active, r')))"

text \<open>\<^verbatim>\<open>poll\<close>: \<^term>\<open>None\<close> as the result of the wait is an error of \<^verbatim>\<open>epoll_wait\<close>.\<close>

definition poll :: "(nat \<times> u32) list option \<Rightarrow> reactor \<Rightarrow> (nat list \<times> reactor) option" where
  "poll reported r =
     (case reported of
        None \<Rightarrow> Some ([], r)
      | Some [] \<Rightarrow> Some ([], r)
      | Some evs \<Rightarrow>
          (case fillActiveChannels evs r of
             None \<Rightarrow> None
           | Some (active, r') \<Rightarrow>
               Some (active, if length evs = event_slots r' then r'\<lparr>event_slots := event_slots r' * 2\<rparr>
                             else r')))"

section \<open>Sequences of operations on the channels of a loop\<close>

datatype channel_op =
    New nat int
  | EnableReading nat
  | DisableReading nat
  | EnableWriting nat
  | DisableWriting nat
  | DisableAll nat
  | Remove nat
  | Delete nat

definition on_channel ::
  "nat \<Rightarrow> (nat \<Rightarrow> channel \<Rightarrow> poller \<Rightarrow> channel \<times> poller) \<Rightarrow> reactor \<Rightarrow> reactor option" where
  "on_channel p f r =
     (case chans r p of
        None \<Rightarrow> None
      | Some c \<Rightarrow> (let (c', po) = f p c (epoll r)
                   in Some (r\<lparr>chans := (chans r)(p \<mapsto> c'), epoll := po\<rparr>)))"

text \<open>
  A new channel gets an address where no object lives, and a descriptor that is open, so no other
  channel has it: the owners of channels close a descriptor only after the channel is destroyed.
\<close>

fun channel_step :: "channel_op \<Rightarrow> reactor \<Rightarrow> reactor option" where
  "channel_step (New p fd) r =
     (if chans r p = None then Some (r\<lparr>chans := (chans r)(p \<mapsto> Channel fd)\<rparr>) else None)"
| "channel_step (EnableReading p) r = on_channel p enableReading r"
| "channel_step (DisableReading p) r = on_channel p disableReading r"
| "channel_step (EnableWriting p) r = on_channel p enableWriting r"
| "channel_step (DisableWriting p) r = on_channel p disableWriting r"
| "channel_step (DisableAll p) r = on_channel p disableAll r"
| "channel_step (Remove p) r =
     (case chans r p of
        None \<Rightarrow> None
      | Some c \<Rightarrow>
          (case chan_remove p c (epoll r) of
             None \<Rightarrow> None
           | Some (c', po) \<Rightarrow> Some (r\<lparr>chans := (chans r)(p \<mapsto> c'), epoll := po\<rparr>)))"
| "channel_step (Delete p) r =
     (case chans r p of
        None \<Rightarrow> None
      | Some c \<Rightarrow> if chan_destroy_ok c then Some (r\<lparr>chans := (chans r)(p := None)\<rparr>) else None)"

definition fd_unused :: "int \<Rightarrow> reactor \<Rightarrow> bool" where
  "fd_unused fd r \<longleftrightarrow> (\<forall>p c. chans r p = Some c \<longrightarrow> chan_fd c \<noteq> fd)"

fun op_possible :: "channel_op \<Rightarrow> reactor \<Rightarrow> bool" where
  "op_possible (New p fd) r \<longleftrightarrow> fd_unused fd r"
| "op_possible _ r \<longleftrightarrow> True"

inductive channel_steps :: "channel_op list \<Rightarrow> reactor \<Rightarrow> reactor \<Rightarrow> bool" where
  channel_done: "channel_steps [] r r"
| channel_next: "op_possible op r \<Longrightarrow> channel_step op r = Some r' \<Longrightarrow> channel_steps ops r' r'' \<Longrightarrow>
    channel_steps (op # ops) r r''"

section \<open>What the kernel makes of the requests\<close>

text \<open>
  The documented behaviour of \<^verbatim>\<open>epoll_ctl(2)\<close>: the interest set maps descriptors to the events
  and the pointer of their registration; adding a descriptor that is in the set, or changing or
  deleting one that is not, is an error.
\<close>

type_synonym interest = "int \<rightharpoonup> u32 \<times> nat"

fun epoll_ctl :: "interest \<Rightarrow> ctl_request \<Rightarrow> interest option" where
  "epoll_ctl K (Ctl_Add, fd, ev, p) = (if K fd = None then Some (K(fd \<mapsto> (ev, p))) else None)"
| "epoll_ctl K (Ctl_Mod, fd, ev, p) = (if K fd = None then None else Some (K(fd \<mapsto> (ev, p))))"
| "epoll_ctl K (Ctl_Del, fd, ev, p) = (if K fd = None then None else Some (K(fd := None)))"

fun epoll_run :: "interest \<Rightarrow> ctl_request list \<Rightarrow> interest option" where
  "epoll_run K [] = Some K"
| "epoll_run K (q # qs) = (case epoll_ctl K q of None \<Rightarrow> None | Some K' \<Rightarrow> epoll_run K' qs)"

lemma epoll_run_append:
  "epoll_run K (qs @ qs') = (case epoll_run K qs of None \<Rightarrow> None | Some K' \<Rightarrow> epoll_run K' qs')"
  by (induction qs arbitrary: K) (auto split: option.splits)

text \<open>
  The loop and the kernel agree: the set holds exactly the channels at index 1, each under its
  descriptor with its own events and its own address.
\<close>

definition registered :: "reactor \<Rightarrow> int \<Rightarrow> u32 \<Rightarrow> nat \<Rightarrow> bool" where
  "registered r fd ev p \<longleftrightarrow>
     (\<exists>c. chans r p = Some c \<and> chan_fd c = fd \<and> events c = ev \<and> index c = 1)"

definition kernel_agrees :: "interest \<Rightarrow> reactor \<Rightarrow> bool" where
  "kernel_agrees K r \<longleftrightarrow> (\<forall>fd ev p. K fd = Some (ev, p) \<longleftrightarrow> registered r fd ev p)"

definition channel_ok :: "channel \<Rightarrow> bool" where
  "channel_ok c \<longleftrightarrow> index c \<in> {-1, 0, 1} \<and> (index c = 0 \<longrightarrow> isNoneEvent c) \<and>
     (\<not> addedToLoop c \<longrightarrow> index c = -1 \<and> isNoneEvent c)"

definition reactor_ok :: "reactor \<Rightarrow> bool" where
  "reactor_ok r \<longleftrightarrow>
     (\<forall>p c. chans r p = Some c \<longrightarrow> channel_ok c) \<and>
     (\<forall>p c p' c'. chans r p = Some c \<longrightarrow> chans r p' = Some c' \<longrightarrow> chan_fd c = chan_fd c' \<longrightarrow> p = p') \<and>
     (\<forall>fd p. channels (epoll r) fd = Some p \<longleftrightarrow>
        (\<exists>c. chans r p = Some c \<and> chan_fd c = fd \<and> index c \<noteq> -1))"

section \<open>The loop and the kernel stay in step\<close>

lemma kernel_lookup:
  assumes "reactor_ok r" "kernel_agrees K r" "chans r p = Some c"
  shows "K (chan_fd c) = (if index c = 1 then Some (events c, p) else None)"
proof (cases "K (chan_fd c)")
  case None
  have "index c \<noteq> 1"
  proof
    assume "index c = 1"
    then have "registered r (chan_fd c) (events c) p" using assms(3) by (simp add: registered_def)
    then have "K (chan_fd c) = Some (events c, p)" using assms(2) by (simp add: kernel_agrees_def)
    then show False using None by simp
  qed
  then show ?thesis using None by simp
next
  case (Some e)
  obtain ev q where e: "e = (ev, q)" by (cases e)
  then have "registered r (chan_fd c) ev q" using Some assms(2) by (simp add: kernel_agrees_def)
  then obtain d where d: "chans r q = Some d" "chan_fd d = chan_fd c" "events d = ev" "index d = 1"
    unfolding registered_def by blast
  then have "q = p" using assms(1,3) unfolding reactor_ok_def by metis
  then show ?thesis using d Some e assms(3) by simp
qed

lemma kernel_agrees_put:
  assumes "reactor_ok r" "kernel_agrees K r" "chans r p = Some c" "chan_fd c' = chan_fd c"
  shows "kernel_agrees (K(chan_fd c := (if index c' = 1 then Some (events c', p) else None)))
    (r\<lparr>chans := (chans r)(p \<mapsto> c'), epoll := po\<rparr>)" (is "kernel_agrees ?K ?r")
  unfolding kernel_agrees_def
proof (intro allI)
  fix fd ev q
  have here: "registered ?r fd ev p \<longleftrightarrow> fd = chan_fd c \<and> ev = events c' \<and> index c' = 1"
    using assms(4) by (auto simp: registered_def)
  have other: "registered ?r fd ev q \<longleftrightarrow> registered r fd ev q" if "q \<noteq> p"
    using that by (simp add: registered_def)
  have apart: "\<not> registered r (chan_fd c) ev q" if "q \<noteq> p"
    using that assms(1,3) unfolding registered_def reactor_ok_def by metis
  have mine: "\<not> registered r fd ev p" if "fd \<noteq> chan_fd c"
    using that assms(3) by (auto simp: registered_def)
  show "?K fd = Some (ev, q) \<longleftrightarrow> registered ?r fd ev q"
    using here other apart mine assms(2)
    by (cases "fd = chan_fd c"; cases "q = p") (auto simp: kernel_agrees_def)
qed

lemma reactor_ok_put:
  assumes ok: "reactor_ok r" and c: "chans r p = Some c" "chan_fd c' = chan_fd c" "channel_ok c'"
    and map: "channels po = (channels (epoll r))(chan_fd c := (if index c' = -1 then None else Some p))"
  shows "reactor_ok (r\<lparr>chans := (chans r)(p \<mapsto> c'), epoll := po\<rparr>)" (is "reactor_ok ?r")
proof -
  have uniq: "chan_fd d = chan_fd d' \<Longrightarrow> q = q'" if "chans r q = Some d" "chans r q' = Some d'" for q d q' d'
    using ok that unfolding reactor_ok_def by blast
  have place: "channels (epoll r) fd = Some q \<longleftrightarrow>
      (\<exists>d. chans r q = Some d \<and> chan_fd d = fd \<and> index d \<noteq> -1)" for fd q
    using ok unfolding reactor_ok_def by blast
  have "channels (epoll ?r) fd = Some q \<longleftrightarrow>
      (\<exists>d. chans ?r q = Some d \<and> chan_fd d = fd \<and> index d \<noteq> -1)" for fd q
  proof (cases "q = p")
    case True
    then show ?thesis using c place [of fd p] by (auto simp: map)
  next
    case False
    have "chan_fd d \<noteq> chan_fd c" if "chans r q = Some d" for d
      using that c(1) uniq False by blast
    then show ?thesis using False place [of fd q] by (auto simp: map)
  qed
  moreover have "channel_ok d" if "chans ?r q = Some d" for q d
    using that ok c(3) unfolding reactor_ok_def by (auto split: if_splits)
  moreover have "q = q'" if "chans ?r q = Some d" "chans ?r q' = Some d'" "chan_fd d = chan_fd d'" for q d q' d'
    using that c uniq by (auto split: if_splits)
  ultimately show ?thesis unfolding reactor_ok_def by blast
qed

text \<open>Whatever the new interest is, the request that tells the kernel of it succeeds.\<close>

lemma chan_update_agrees:
  assumes ok: "reactor_ok r" "kernel_agrees K r" and c: "chans r p = Some c"
    and u: "chan_update p (c\<lparr>events := e\<rparr>) (epoll r) = (c', po)"
  shows "\<exists>q K'. requests po = requests (epoll r) @ [q] \<and> epoll_ctl K q = Some K' \<and>
    kernel_agrees K' (r\<lparr>chans := (chans r)(p \<mapsto> c'), epoll := po\<rparr>) \<and>
    reactor_ok (r\<lparr>chans := (chans r)(p \<mapsto> c'), epoll := po\<rparr>)"
proof -
  have K: "K (chan_fd c) = (if index c = 1 then Some (events c, p) else None)"
    by (rule kernel_lookup [OF ok c])
  have idx: "index c \<in> {-1, 0, 1}" using ok(1) c unfolding reactor_ok_def channel_ok_def by blast
  have fd: "chan_fd c' = chan_fd c" and added: "addedToLoop c'" and ev: "events c' = e"
    and idx': "index c' = (if index c = 1 \<and> e = kNoneEvent then 0 else 1)"
    using u idx by (auto simp: chan_update_def updateChannel_def isNoneEvent_def Let_def split: if_splits)
  have place: "channels (epoll r) (chan_fd c) = Some p" if "index c \<noteq> -1"
    using ok(1) c that unfolding reactor_ok_def by blast
  have map: "channels po = (channels (epoll r))(chan_fd c := (if index c' = -1 then None else Some p))"
    using u idx idx' place
    by (auto simp: chan_update_def updateChannel_def poller_update_def Let_def isNoneEvent_def split: if_splits)
  have cok: "channel_ok c'" using added ev idx' by (auto simp: channel_ok_def isNoneEvent_def)
  define K' where "K' = K(chan_fd c := (if index c' = 1 then Some (events c', p) else None))"
  define q where "q = ((if index c = 1 then if e = kNoneEvent then Ctl_Del else Ctl_Mod else Ctl_Add), chan_fd c, e, p)"
  have "requests po = requests (epoll r) @ [q]"
    using u idx by (auto simp: q_def chan_update_def updateChannel_def poller_update_def Let_def isNoneEvent_def
        split: if_splits)
  moreover have "epoll_ctl K q = Some K'"
    using K idx' ev by (auto simp: q_def K'_def)
  ultimately show ?thesis
    using kernel_agrees_put [OF ok c fd, of po] reactor_ok_put [OF ok(1) c fd cok map] K'_def by blast
qed

lemma chan_op_forms:
  "\<exists>e. enableReading p c po = chan_update p (c\<lparr>events := e\<rparr>) po"
  "\<exists>e. disableReading p c po = chan_update p (c\<lparr>events := e\<rparr>) po"
  "\<exists>e. enableWriting p c po = chan_update p (c\<lparr>events := e\<rparr>) po"
  "\<exists>e. disableWriting p c po = chan_update p (c\<lparr>events := e\<rparr>) po"
  "\<exists>e. disableAll p c po = chan_update p (c\<lparr>events := e\<rparr>) po"
  unfolding enableReading_def disableReading_def enableWriting_def disableWriting_def disableAll_def
  by blast+

lemma on_channel_agrees:
  assumes "reactor_ok r" "kernel_agrees K r" "on_channel p f r = Some r'"
    and f: "\<And>c. \<exists>e. f p c (epoll r) = chan_update p (c\<lparr>events := e\<rparr>) (epoll r)"
  shows "\<exists>q K'. requests (epoll r') = requests (epoll r) @ [q] \<and> epoll_ctl K q = Some K' \<and>
    kernel_agrees K' r' \<and> reactor_ok r'"
proof -
  obtain c where c: "chans r p = Some c" using assms(3) by (auto simp: on_channel_def split: option.splits)
  obtain e where e: "f p c (epoll r) = chan_update p (c\<lparr>events := e\<rparr>) (epoll r)" using f by blast
  obtain c' po where u: "chan_update p (c\<lparr>events := e\<rparr>) (epoll r) = (c', po)" by (cases "chan_update p (c\<lparr>events := e\<rparr>) (epoll r)")
  have "r' = r\<lparr>chans := (chans r)(p \<mapsto> c'), epoll := po\<rparr>"
    using assms(3) c e u by (simp add: on_channel_def)
  then show ?thesis using chan_update_agrees [OF assms(1,2) c u] by simp
qed

lemma new_channel_agrees:
  assumes "reactor_ok r" "kernel_agrees K r" "chans r p = None" "fd_unused fd r"
  shows "kernel_agrees K (r\<lparr>chans := (chans r)(p \<mapsto> Channel fd)\<rparr>)" (is "kernel_agrees K ?r")
    and "reactor_ok (r\<lparr>chans := (chans r)(p \<mapsto> Channel fd)\<rparr>)"
proof -
  have "registered ?r fd' ev q \<longleftrightarrow> registered r fd' ev q" for fd' ev q
    using assms(3) by (auto simp: registered_def Channel_def)
  then show "kernel_agrees K ?r" using assms(2) by (simp add: kernel_agrees_def)
  have "channel_ok (Channel fd)" by (simp add: channel_ok_def Channel_def isNoneEvent_def kNoneEvent_def)
  moreover have "index (Channel fd) = -1" "chan_fd (Channel fd) = fd" by (simp_all add: Channel_def)
  ultimately show "reactor_ok ?r"
    using assms(1,3,4) unfolding reactor_ok_def fd_unused_def by (auto split: if_splits)
qed

lemma delete_channel_agrees:
  assumes "reactor_ok r" "kernel_agrees K r" "chans r p = Some c" "chan_destroy_ok c"
  shows "kernel_agrees K (r\<lparr>chans := (chans r)(p := None)\<rparr>)" (is "kernel_agrees K ?r")
    and "reactor_ok (r\<lparr>chans := (chans r)(p := None)\<rparr>)"
proof -
  have gone: "index c = -1"
    using assms(1,3,4) unfolding reactor_ok_def channel_ok_def chan_destroy_ok_def by blast
  then have "registered ?r fd' ev q \<longleftrightarrow> registered r fd' ev q" for fd' ev q
    using assms(3) by (auto simp: registered_def)
  then show "kernel_agrees K ?r" using assms(2) by (simp add: kernel_agrees_def)
  have "(\<exists>d. chans ?r q = Some d \<and> chan_fd d = fd \<and> index d \<noteq> -1) \<longleftrightarrow>
      (\<exists>d. chans r q = Some d \<and> chan_fd d = fd \<and> index d \<noteq> -1)" for q fd
    using assms(3) gone by auto
  then show "reactor_ok ?r" using assms(1) unfolding reactor_ok_def by auto
qed

lemma remove_channel_agrees:
  assumes ok: "reactor_ok r" "kernel_agrees K r" and c: "chans r p = Some c"
    and rem: "chan_remove p c (epoll r) = Some (c', po)"
  shows "\<exists>qs K'. requests po = requests (epoll r) @ qs \<and> epoll_run K qs = Some K' \<and>
    kernel_agrees K' (r\<lparr>chans := (chans r)(p \<mapsto> c'), epoll := po\<rparr>) \<and>
    reactor_ok (r\<lparr>chans := (chans r)(p \<mapsto> c'), epoll := po\<rparr>)"
proof -
  have K: "K (chan_fd c) = (if index c = 1 then Some (events c, p) else None)"
    by (rule kernel_lookup [OF ok c])
  have none: "isNoneEvent c" using rem by (auto simp: chan_remove_def split: if_splits)
  have c': "c' = c\<lparr>addedToLoop := False, index := -1\<rparr>"
    using rem none by (auto simp: chan_remove_def removeChannel_def Let_def)
  have fd: "chan_fd c' = chan_fd c" and cok: "channel_ok c'" and idx': "index c' = -1"
    using none by (auto simp: c' channel_ok_def isNoneEvent_def)
  define qs where "qs = (if index c = 1 then [(Ctl_Del, chan_fd c, events c, p)] else [])"
  have po: "requests po = requests (epoll r) @ qs"
      "channels po = (channels (epoll r))(chan_fd c := (if index c' = -1 then None else Some p))"
    using rem none by (auto simp: qs_def c' chan_remove_def removeChannel_def Let_def poller_update_def)
  have "epoll_run K qs = Some (K(chan_fd c := (if index c' = 1 then Some (events c', p) else None)))"
    using K by (auto simp: qs_def c')
  then show ?thesis
    using kernel_agrees_put [OF ok c fd, of po] reactor_ok_put [OF ok(1) c fd cok po(2)] po(1) by blast
qed

lemma channel_step_agrees:
  assumes "reactor_ok r" "kernel_agrees K r" "channel_step op r = Some r'"
    and "op_possible op r"
  shows "\<exists>qs K'. requests (epoll r') = requests (epoll r) @ qs \<and> epoll_run K qs = Some K' \<and>
    kernel_agrees K' r' \<and> reactor_ok r'"
proof -
  have one: ?thesis if on: "on_channel p f r = Some r'"
    "\<And>c. \<exists>e. f p c (epoll r) = chan_update p (c\<lparr>events := e\<rparr>) (epoll r)" for p f
  proof -
    obtain q K' where q: "requests (epoll r') = requests (epoll r) @ [q]" "epoll_ctl K q = Some K'"
      "kernel_agrees K' r'" "reactor_ok r'"
      using on_channel_agrees [OF assms(1,2) on] by blast
    have "epoll_run K [q] = Some K'" using q(2) by simp
    then show ?thesis using q by blast
  qed
  show ?thesis
  proof (cases op)
    case (New p fd)
    have none: "chans r p = None" using New assms(3) by (auto split: if_splits)
    then have "r' = r\<lparr>chans := (chans r)(p \<mapsto> Channel fd)\<rparr>" using New assms(3) by simp
    then show ?thesis
      using new_channel_agrees [OF assms(1,2) none]  assms(4) New by (intro exI [of _ "[]"]) simp
  next
    case (Remove p)
    then show ?thesis
      using assms(3) remove_channel_agrees [OF assms(1,2)] by (fastforce split: option.splits)
  next
    case (Delete p)
    then show ?thesis
      using assms(3) delete_channel_agrees [OF assms(1,2)]
      by (intro exI [of _ "[]"]) (auto split: option.splits if_splits)
  next
    case (EnableReading p)
    have "on_channel p enableReading r = Some r'" using assms(3) EnableReading by simp
    then show ?thesis using chan_op_forms(1) by (rule one)
  next
    case (DisableReading p)
    have "on_channel p disableReading r = Some r'" using assms(3) DisableReading by simp
    then show ?thesis using chan_op_forms(2) by (rule one)
  next
    case (EnableWriting p)
    have "on_channel p enableWriting r = Some r'" using assms(3) EnableWriting by simp
    then show ?thesis using chan_op_forms(3) by (rule one)
  next
    case (DisableWriting p)
    have "on_channel p disableWriting r = Some r'" using assms(3) DisableWriting by simp
    then show ?thesis using chan_op_forms(4) by (rule one)
  next
    case (DisableAll p)
    have "on_channel p disableAll r = Some r'" using assms(3) DisableAll by simp
    then show ?thesis using chan_op_forms(5) by (rule one)
  qed
qed

lemma channel_steps_agree:
  assumes "channel_steps ops r r'" "reactor_ok r" "kernel_agrees K r"
    and "epoll_run Map.empty (requests (epoll r)) = Some K"
  shows "\<exists>K'. epoll_run Map.empty (requests (epoll r')) = Some K' \<and> kernel_agrees K' r' \<and> reactor_ok r'"
  using assms
proof (induction arbitrary: K)
  case (channel_next op r r' ops r'')
  obtain qs K' where "requests (epoll r') = requests (epoll r) @ qs" "epoll_run K qs = Some K'"
      "kernel_agrees K' r'" "reactor_ok r'"
    using channel_step_agrees [OF channel_next.prems(1,2) channel_next.hyps(2,1)] by blast
  then show ?case using channel_next.IH channel_next.prems(3) by (simp add: epoll_run_append)
qed blast

lemma new_reactor_ok: "reactor_ok new_reactor" "kernel_agrees Map.empty new_reactor"
  by (auto simp: reactor_ok_def new_reactor_def empty_poller_def kernel_agrees_def registered_def)

text \<open>
  C34: Whatever a loop does with its channels (creating them, enabling, disabling and removing
  them, destroying them), every \<^verbatim>\<open>epoll_ctl\<close> request it issues succeeds in the kernel, and
  afterwards the kernel's interest set is exactly the set of channels that count themselves as
  added, with their own events and with a pointer to a channel that is alive.
\<close>

theorem epoll_set_follows_channels:
  assumes "channel_steps ops new_reactor r"
  shows "\<exists>K. epoll_run Map.empty (requests (epoll r)) = Some K \<and>
    (\<forall>fd ev p. K fd = Some (ev, p) \<longleftrightarrow>
       (\<exists>c. chans r p = Some c \<and> chan_fd c = fd \<and> events c = ev \<and> index c = 1))"
proof -
  have "epoll_run Map.empty (requests (epoll new_reactor)) = Some Map.empty"
    by (simp add: new_reactor_def empty_poller_def)
  from channel_steps_agree [OF assms new_reactor_ok this]
  show ?thesis by (auto simp: kernel_agrees_def registered_def)
qed

text \<open>A connection's life on its loop, the address reused by the next connection.\<close>

definition channel_story :: "channel_op list" where
  "channel_story = [New 1 7, EnableReading 1, EnableWriting 1, DisableWriting 1, DisableAll 1,
     Remove 1, Delete 1, New 1 7, EnableReading 1]"

fun story :: "channel_op list \<Rightarrow> reactor \<Rightarrow> reactor option" where
  "story [] r = Some r"
| "story (op # ops) r =
     (if op_possible op r then
        case channel_step op r of None \<Rightarrow> None | Some r' \<Rightarrow> story ops r'
      else None)"

lemma story_steps: "story ops r = Some r' \<Longrightarrow> channel_steps ops r r'"
  by (induction ops arbitrary: r)
    (auto intro: channel_steps.intros split: if_splits option.splits)

definition requests_of :: "reactor option \<Rightarrow> ctl_request list" where
  "requests_of r = (case r of None \<Rightarrow> [] | Some r \<Rightarrow> requests (epoll r))"

lemma channel_story_runs:
  "requests_of (story channel_story new_reactor) =
     [(Ctl_Add, 7, 3, 1), (Ctl_Mod, 7, 7, 1), (Ctl_Mod, 7, 3, 1), (Ctl_Del, 7, 0, 1), (Ctl_Add, 7, 3, 1)]"
  by (simp add: requests_of_def channel_story_def new_reactor_def empty_poller_def fd_unused_def
      on_channel_def chan_ops updateChannel_def chan_remove_def removeChannel_def isNoneEvent_def
      chan_destroy_ok_def Channel_def poller_update_def Let_def epoll_bits)

lemma requests_of_Some: "requests_of r = q # qs \<Longrightarrow> \<exists>r'. r = Some r' \<and> requests (epoll r') = q # qs"
  by (auto simp: requests_of_def split: option.splits)

lemma epoll_set_follows_channels_witness:
  "\<exists>r K. channel_steps channel_story new_reactor r \<and>
     epoll_run Map.empty (requests (epoll r)) = Some K \<and> K 7 = Some (3, 1)"
proof -
  obtain r where r: "story channel_story new_reactor = Some r"
    and q: "requests (epoll r) = [(Ctl_Add, 7, 3, 1), (Ctl_Mod, 7, 7, 1), (Ctl_Mod, 7, 3, 1),
      (Ctl_Del, 7, 0, 1), (Ctl_Add, 7, 3, 1)]"
    using requests_of_Some [OF channel_story_runs] by blast
  have "\<exists>K. epoll_run Map.empty (requests (epoll r)) = Some K"
    using epoll_set_follows_channels [OF story_steps [OF r]] by blast
  then show ?thesis using story_steps [OF r] q by auto
qed

text \<open>
  A channel that is disabled a second time, its registration gone already, is put back into the
  epoll set with no events; only the removal takes it out for good.
\<close>

lemma disableAll_again_registers:
  "requests_of (story [New 1 7, EnableReading 1, DisableAll 1, DisableAll 1] new_reactor) =
     [(Ctl_Add, 7, 3, 1), (Ctl_Del, 7, 0, 1), (Ctl_Add, 7, 0, 1)]"
  by (simp add: requests_of_def new_reactor_def empty_poller_def fd_unused_def
      on_channel_def chan_ops updateChannel_def isNoneEvent_def
      Channel_def poller_update_def Let_def epoll_bits)

section \<open>Reports\<close>

lemma fillActiveChannels_live:
  "(\<forall>(p, ev) \<in> set evs. chans r p \<noteq> None) \<Longrightarrow>
   \<exists>r'. fillActiveChannels evs r = Some (map fst evs, r') \<and> epoll r' = epoll r \<and>
     event_slots r' = event_slots r \<and> dom (chans r') = dom (chans r) \<and>
     (\<forall>p. p \<notin> fst ` set evs \<longrightarrow> chans r' p = chans r p) \<and>
     (distinct (map fst evs) \<longrightarrow>
        (\<forall>(p, ev) \<in> set evs. \<exists>c. chans r p = Some c \<and> chans r' p = Some (c\<lparr>revents := ev\<rparr>)))"
proof (induction evs arbitrary: r)
  case (Cons e evs)
  obtain p ev where e: "e = (p, ev)" by (cases e)
  obtain c where c: "chans r p = Some c" using Cons.prems e by auto
  define r1 where "r1 = r\<lparr>chans := (chans r)(p \<mapsto> c\<lparr>revents := ev\<rparr>)\<rparr>"
  have "\<forall>(q, ev) \<in> set evs. chans r1 q \<noteq> None" using Cons.prems by (auto simp: r1_def)
  from Cons.IH [OF this] obtain r' where r':
    "fillActiveChannels evs r1 = Some (map fst evs, r')" "epoll r' = epoll r1"
    "event_slots r' = event_slots r1" "dom (chans r') = dom (chans r1)"
    "\<forall>p. p \<notin> fst ` set evs \<longrightarrow> chans r' p = chans r1 p"
    "distinct (map fst evs) \<longrightarrow>
        (\<forall>(p, ev) \<in> set evs. \<exists>c. chans r1 p = Some c \<and> chans r' p = Some (c\<lparr>revents := ev\<rparr>))"
    by blast
  have keep: "chans r1 q = chans r q" if "q \<noteq> p" for q using that by (simp add: r1_def)
  have "\<exists>c. chans r q = Some c \<and> chans r' q = Some (c\<lparr>revents := ev'\<rparr>)"
    if "distinct (map fst (e # evs))" "(q, ev') \<in> set (e # evs)" for q ev'
  proof (cases "(q, ev') \<in> set evs")
    case True
    then have "q \<noteq> p" using that(1) e by force
    moreover have "\<exists>c. chans r1 q = Some c \<and> chans r' q = Some (c\<lparr>revents := ev'\<rparr>)"
      using True r'(6) that(1) by auto
    ultimately show ?thesis using keep by auto
  next
    case False
    then have "q = p" "ev' = ev" using that(2) e by auto
    moreover have "p \<notin> fst ` set evs" using that(1) e by simp
    ultimately show ?thesis using r'(5) c by (simp add: r1_def)
  qed
  moreover have "dom (chans r1) = dom (chans r)" using c by (auto simp: r1_def)
  moreover have "\<forall>q. q \<notin> fst ` set (e # evs) \<longrightarrow> chans r' q = chans r q"
    using r'(5) keep e by auto
  moreover have "fillActiveChannels (e # evs) r = Some (map fst (e # evs), r')"
    using r'(1) c e by (simp add: r1_def)
  moreover have "epoll r' = epoll r" "event_slots r' = event_slots r"
    using r'(2,3) by (simp_all add: r1_def)
  ultimately show ?case using r'(4) by blast
qed simp

text \<open>
  A wait that reports registered channels, each at most once, makes exactly those channels
  active, in the kernel's order, and leaves in each the events reported for it and nothing else
  changed; no report is written through the pointer of a destroyed channel. A full event buffer
  is doubled, so it always has at least the 16 slots it started with.
\<close>

theorem poll_delivers_reports:
  assumes "channel_steps ops new_reactor r"
    and "epoll_run Map.empty (requests (epoll r)) = Some K"
    and "\<forall>(p, ev) \<in> set evs. \<exists>fd e. K fd = Some (e, p)" "distinct (map fst evs)"
  shows "\<exists>r'. poll (Some evs) r = Some (map fst evs, r') \<and> epoll r' = epoll r \<and>
    (\<forall>(p, ev) \<in> set evs. \<exists>c. chans r p = Some c \<and> chans r' p = Some (c\<lparr>revents := ev\<rparr>)) \<and>
    (\<forall>p. p \<notin> fst ` set evs \<longrightarrow> chans r' p = chans r p) \<and>
    event_slots r' = (if evs \<noteq> [] \<and> length evs = event_slots r then 2 * event_slots r else event_slots r)"
proof -
  have "epoll_run Map.empty (requests (epoll new_reactor)) = Some Map.empty"
    by (simp add: new_reactor_def empty_poller_def)
  from channel_steps_agree [OF assms(1) new_reactor_ok this] assms(2)
  have "kernel_agrees K r" by auto
  then have "\<forall>(p, ev) \<in> set evs. chans r p \<noteq> None"
    using assms(3) by (fastforce simp: kernel_agrees_def registered_def)
  from fillActiveChannels_live [OF this] obtain r' where r':
    "fillActiveChannels evs r = Some (map fst evs, r')" "epoll r' = epoll r"
    "event_slots r' = event_slots r" "\<forall>p. p \<notin> fst ` set evs \<longrightarrow> chans r' p = chans r p"
    "\<forall>(p, ev) \<in> set evs. \<exists>c. chans r p = Some c \<and> chans r' p = Some (c\<lparr>revents := ev\<rparr>)"
    using assms(4) by blast
  show ?thesis
  proof (cases evs)
    case Nil
    then show ?thesis by (simp add: poll_def)
  next
    case (Cons e es)
    then show ?thesis using r' by (auto simp: poll_def)
  qed
qed

lemma poll_delivers_reports_witness:
  "\<exists>r r'. channel_steps channel_story new_reactor r \<and>
     poll (Some [(1, EPOLLIN)]) r = Some ([1], r') \<and> event_slots r' = event_slots r"
proof -
  obtain r where r: "story channel_story new_reactor = Some r"
    and q: "requests (epoll r) = [(Ctl_Add, 7, 3, 1), (Ctl_Mod, 7, 7, 1), (Ctl_Mod, 7, 3, 1),
      (Ctl_Del, 7, 0, 1), (Ctl_Add, 7, 3, 1)]"
    using requests_of_Some [OF channel_story_runs] by blast
  obtain K where K: "epoll_run Map.empty (requests (epoll r)) = Some K" "K 7 = Some (3, 1)"
    using q by auto
  have slots: "event_slots r = 16"
  proof -
    have "map_option event_slots (story channel_story new_reactor) = Some 16"
      by (simp add: channel_story_def new_reactor_def empty_poller_def fd_unused_def
          on_channel_def chan_ops updateChannel_def chan_remove_def removeChannel_def isNoneEvent_def
          chan_destroy_ok_def Channel_def poller_update_def Let_def epoll_bits kInitEventListSize_def)
    then show ?thesis using r by simp
  qed
  have "\<forall>(p, ev) \<in> set [(1, EPOLLIN)]. \<exists>fd e. K fd = Some (e, p)" using K(2) by auto
  from poll_delivers_reports [OF story_steps [OF r] K(1) this] show ?thesis
    using story_steps [OF r] slots by auto
qed

section \<open>Facts for the owners of channels\<close>

named_theorems chan_simps

lemma interest_bits [chan_simps]:
  "(e OR kWriteEvent) AND kWriteEvent = kWriteEvent"
  "(e OR kReadEvent) AND kWriteEvent = e AND kWriteEvent"
  "(e AND NOT kWriteEvent) AND kWriteEvent = 0"
  "kWriteEvent \<noteq> 0" "kNoneEvent AND kWriteEvent = 0" "kReadEvent AND kWriteEvent = 0"
proof -
  have rw: "kReadEvent AND kWriteEvent = 0" by (simp add: epoll_bits)
  show "(e OR kReadEvent) AND kWriteEvent = e AND kWriteEvent"
    by (metis bit.conj_disj_distrib2 bit.disj_zero_right rw)
  show "(e AND NOT kWriteEvent) AND kWriteEvent = 0"
    by (simp add: bit_eq_iff bit_simps)
  show "(e OR kWriteEvent) AND kWriteEvent = kWriteEvent"
    by (auto simp: bit_eq_iff bit_simps)
qed (simp_all add: epoll_bits)

lemma chan_update_fields [chan_simps]:
  "events (fst (chan_update p c po)) = events c"
  "chan_fd (fst (chan_update p c po)) = chan_fd c"
  "eventHandling (fst (chan_update p c po)) = eventHandling c"
  "tied (fst (chan_update p c po)) = tied c"
  "addedToLoop (fst (chan_update p c po))"
  by (simp_all add: chan_update_def updateChannel_def Let_def)

lemma due_callbacks_distinct: "distinct (due_callbacks r)"
  by (simp add: due_callbacks_def)

end
