(* ===== verification/Event_Loop.thy ===== *)
theory Event_Loop
  imports Channel_Poller
begin

text \<open>
  \<^verbatim>\<open>EventLoop.h/.cpp\<close> and \<^verbatim>\<open>EventLoopThread.h/.cpp\<close>: the loop of one thread with its queue of
  functors and the eventfd that wakes it. The loop's thread and the other threads interleave at
  the atomic actions of the source: the test of \<^verbatim>\<open>quit_\<close>, the wait, the read of the eventfd, the
  locked swap of the queue, and for the others the locked push (or the store to \<^verbatim>\<open>quit_\<close>) and,
  separately, the write to the eventfd. What a functor or a handler does to the loop itself is
  given by the argument \<open>body\<close>: the calls of \<^verbatim>\<open>queueInLoop\<close> and \<^verbatim>\<open>quit\<close> it makes in the loop's thread.
\<close>

section \<open>State\<close>

text \<open>
  Where the loop's thread is: before \<^verbatim>\<open>loop()\<close>, at the test of \<^verbatim>\<open>quit_\<close>, blocked in the wait,
  handling the active channels, about to swap the queue, running the swapped functors, or done.
\<close>

datatype phase = Idle | Testing | Polling | Handling | Swapping | Running | Finished

datatype 'f loop_call = Queue 'f | Quit

record 'f event_loop =
  looping :: bool
  quit :: bool
  callingPendingFunctors :: bool
  pendingFunctors :: "'f list"
  functors :: "'f list"
  phase :: phase
  wakeups :: u64
  in_flight :: nat
  iteration :: nat
  queued :: "'f list"
  executed :: "'f list"

text \<open>
  \<^term>\<open>wakeups\<close> is the counter of the eventfd, \<^term>\<open>in_flight\<close> the number of other threads that
  have changed the loop and not yet written to it. The last two fields are history: the functors
  in the order they were queued, and those that have been called.
\<close>

definition new_loop :: "'f event_loop" where
  "new_loop = \<lparr>looping = False, quit = False, callingPendingFunctors = False, pendingFunctors = [],
     functors = [], phase = Idle, wakeups = 0, in_flight = 0, iteration = 0, queued = [], executed = []\<rparr>"

text \<open>The counter of an eventfd stops one short of its maximum; a write beyond fails.\<close>

definition eventfd_max :: u64 where
  "eventfd_max = 0xFFFFFFFFFFFFFFFE"

definition wakeup :: "'f event_loop \<Rightarrow> 'f event_loop" where
  "wakeup l = l\<lparr>wakeups := (if wakeups l < eventfd_max then wakeups l + 1 else wakeups l)\<rparr>"

definition handleWakeup :: "'f event_loop \<Rightarrow> 'f event_loop" where
  "handleWakeup l = l\<lparr>wakeups := 0\<rparr>"

definition push_functor :: "'f \<Rightarrow> 'f event_loop \<Rightarrow> 'f event_loop" where
  "push_functor f l = l\<lparr>pendingFunctors := pendingFunctors l @ [f], queued := queued l @ [f]\<rparr>"

section \<open>The loop's own thread\<close>

fun do_call :: "'f loop_call \<Rightarrow> 'f event_loop \<Rightarrow> 'f event_loop" where
  "do_call (Queue f) l =
     (let l = push_functor f l in if callingPendingFunctors l then wakeup l else l)"
| "do_call Quit l = l\<lparr>quit := True\<rparr>"

definition loop_calls :: "'f loop_call list \<Rightarrow> 'f event_loop \<Rightarrow> 'f event_loop" where
  "loop_calls cs l = fold do_call cs l"

datatype 'f active = Wakeup_Channel | Other_Channel "'f loop_call list"

fun handle_active :: "'f active \<Rightarrow> 'f event_loop \<Rightarrow> 'f event_loop" where
  "handle_active Wakeup_Channel l = handleWakeup l"
| "handle_active (Other_Channel cs) l = loop_calls cs l"

definition start_loop :: "'f event_loop \<Rightarrow> 'f event_loop option" where
  "start_loop l = (if looping l then None else Some (l\<lparr>looping := True, quit := False, phase := Testing\<rparr>))"

definition test_quit :: "'f event_loop \<Rightarrow> 'f event_loop" where
  "test_quit l =
     (if quit l then l\<lparr>looping := False, phase := Finished\<rparr> else l\<lparr>phase := Polling\<rparr>)"

definition poll_return :: "'f event_loop \<Rightarrow> 'f event_loop" where
  "poll_return l = l\<lparr>iteration := iteration l + 1, phase := Handling\<rparr>"

definition handled_all :: "'f event_loop \<Rightarrow> 'f event_loop" where
  "handled_all l = l\<lparr>callingPendingFunctors := True, phase := Swapping\<rparr>"

definition swap_functors :: "'f event_loop \<Rightarrow> 'f event_loop" where
  "swap_functors l = l\<lparr>functors := pendingFunctors l, pendingFunctors := [], phase := Running\<rparr>"

text \<open>One turn of the loop over the swapped functors, or its end.\<close>

definition run_functor :: "('f \<Rightarrow> 'f loop_call list) \<Rightarrow> 'f event_loop \<Rightarrow> 'f event_loop" where
  "run_functor body l =
     (case functors l of
        [] \<Rightarrow> l\<lparr>callingPendingFunctors := False, phase := Testing\<rparr>
      | f # fs \<Rightarrow> loop_calls (body f) (l\<lparr>functors := fs, executed := executed l @ [f]\<rparr>))"

section \<open>Interleaving\<close>

text \<open>
  The wait returns only with something to report, an error or its timeout; while the counter of
  the eventfd is positive it is reported at once, since it is level-triggered. Handlers run in the
  order of the report.
\<close>

inductive loop_step :: "('f \<Rightarrow> 'f loop_call list) \<Rightarrow> 'f event_loop \<Rightarrow> 'f event_loop \<Rightarrow> bool" for body where
  start: "phase l = Idle \<Longrightarrow> start_loop l = Some l' \<Longrightarrow> loop_step body l l'"
| test: "phase l = Testing \<Longrightarrow> loop_step body l (test_quit l)"
| poll: "phase l = Polling \<Longrightarrow> loop_step body l (poll_return l)"
| handle: "phase l = Handling \<Longrightarrow> loop_step body l (handle_active a l)"
| handled: "phase l = Handling \<Longrightarrow> loop_step body l (handled_all l)"
| swap: "phase l = Swapping \<Longrightarrow> loop_step body l (swap_functors l)"
| run: "phase l = Running \<Longrightarrow> loop_step body l (run_functor body l)"

inductive other_step :: "'f event_loop \<Rightarrow> 'f event_loop \<Rightarrow> bool" where
  other_queue: "other_step l ((push_functor f l)\<lparr>in_flight := in_flight l + 1\<rparr>)"
| other_quit: "other_step l (l\<lparr>quit := True, in_flight := in_flight l + 1\<rparr>)"
| other_wakeup: "0 < in_flight l \<Longrightarrow> other_step l ((wakeup l)\<lparr>in_flight := in_flight l - 1\<rparr>)"

inductive loop_reaches :: "('f \<Rightarrow> 'f loop_call list) \<Rightarrow> 'f event_loop \<Rightarrow> 'f event_loop \<Rightarrow> bool" for body where
  loop_refl: "loop_reaches body l l"
| loop_own: "loop_reaches body l l' \<Longrightarrow> loop_step body l' l'' \<Longrightarrow> loop_reaches body l l''"
| loop_other: "loop_reaches body l l' \<Longrightarrow> other_step l' l'' \<Longrightarrow> loop_reaches body l l''"

inductive_cases loop_stepE: "loop_step body l l'"
inductive_cases other_stepE: "other_step l l'"

section \<open>Invariant\<close>

text \<open>Something will make the wait return, or the thread has still to come by the swap.\<close>

definition awake :: "'f event_loop \<Rightarrow> bool" where
  "awake l \<longleftrightarrow> 0 < wakeups l \<or> 0 < in_flight l"

definition loop_ok :: "'f event_loop \<Rightarrow> bool" where
  "loop_ok l \<longleftrightarrow>
     queued l = executed l @ functors l @ pendingFunctors l \<and>
     (phase l \<noteq> Running \<longrightarrow> functors l = []) \<and>
     (callingPendingFunctors l \<longleftrightarrow> phase l = Swapping \<or> phase l = Running) \<and>
     (looping l \<longleftrightarrow> phase l \<noteq> Idle \<and> phase l \<noteq> Finished) \<and>
     (pendingFunctors l \<noteq> [] \<longrightarrow> phase l \<notin> {Handling, Swapping} \<longrightarrow> awake l) \<and>
     (quit l \<longrightarrow> phase l = Polling \<longrightarrow> awake l)"

named_theorems loop_defs

lemmas [loop_defs] = wakeup_def handleWakeup_def push_functor_def start_loop_def test_quit_def
  poll_return_def handled_all_def swap_functors_def

lemma wakeup_positive: "0 < wakeups (wakeup l)"
proof (cases "wakeups l < eventfd_max")
  case True
  then have "unat (wakeups l) < 0xFFFFFFFFFFFFFFFE" by (simp add: eventfd_max_def word_less_nat_alt)
  then have "unat (wakeups l + 1) = unat (wakeups l) + 1" by (simp add: unat_word_ariths)
  then show ?thesis using True by (simp add: wakeup_def word_less_nat_alt)
next
  case False
  then have "eventfd_max \<le> wakeups l" by simp
  moreover have "0 < eventfd_max" by (simp add: eventfd_max_def)
  ultimately have "0 < wakeups l" by (rule less_le_trans [rotated])
  then show ?thesis using False by (simp add: wakeup_def)
qed

lemma wakeup_fields [simp]:
  "quit (wakeup l) = quit l" "looping (wakeup l) = looping l" "phase (wakeup l) = phase l"
  "callingPendingFunctors (wakeup l) = callingPendingFunctors l" "functors (wakeup l) = functors l"
  "pendingFunctors (wakeup l) = pendingFunctors l" "in_flight (wakeup l) = in_flight l"
  "queued (wakeup l) = queued l" "executed (wakeup l) = executed l" "iteration (wakeup l) = iteration l"
  by (simp_all add: wakeup_def)

lemma awake_wakeup: "awake (wakeup l)"
  by (simp add: awake_def wakeup_positive)

lemma do_call_ok:
  assumes "loop_ok l" "phase l \<in> {Handling, Running}"
  shows "loop_ok (do_call c l) \<and> phase (do_call c l) = phase l \<and>
    executed (do_call c l) = executed l \<and> functors (do_call c l) = functors l"
proof (cases c)
  case Quit
  then show ?thesis using assms by (auto simp: loop_ok_def awake_def)
next
  case (Queue f)
  define l1 where "l1 = push_functor f l"
  have l1: "phase l1 = phase l" "callingPendingFunctors l1 = callingPendingFunctors l"
    "looping l1 = looping l" "functors l1 = functors l" "executed l1 = executed l" "quit l1 = quit l"
    "queued l1 = queued l @ [f]" "pendingFunctors l1 = pendingFunctors l @ [f]"
    by (simp_all add: l1_def push_functor_def)
  show ?thesis
  proof (cases "callingPendingFunctors l")
    case True
    then have "do_call c l = wakeup l1" using Queue by (simp add: l1_def Let_def push_functor_def)
    then show ?thesis using assms l1 awake_wakeup [of l1] by (auto simp: loop_ok_def)
  next
    case False
    then have "phase l = Handling" using assms by (auto simp: loop_ok_def)
    moreover have "do_call c l = l1" using False Queue by (simp add: l1_def Let_def push_functor_def)
    ultimately show ?thesis using assms l1 by (auto simp: loop_ok_def)
  qed
qed

lemma loop_calls_ok:
  "loop_ok l \<Longrightarrow> phase l \<in> {Handling, Running} \<Longrightarrow>
     loop_ok (loop_calls cs l) \<and> phase (loop_calls cs l) = phase l \<and>
     executed (loop_calls cs l) = executed l \<and> functors (loop_calls cs l) = functors l"
  unfolding loop_calls_def
proof (induction cs arbitrary: l)
  case (Cons c cs)
  then show ?case using do_call_ok [OF Cons.prems, of c] Cons.IH [of "do_call c l"] by auto
qed simp

lemma loop_step_ok: "loop_step body l l' \<Longrightarrow> loop_ok l \<Longrightarrow> loop_ok l'"
proof (erule loop_stepE, goal_cases)
  case 1
  then show ?case by (auto simp: loop_ok_def start_loop_def awake_def split: if_splits)
next
  case 2
  then show ?case by (auto simp: loop_ok_def test_quit_def awake_def)
next
  case 3
  then show ?case by (auto simp: loop_ok_def poll_return_def)
next
  case (4 a)
  show ?case
  proof (cases a)
    case Wakeup_Channel
    then show ?thesis using 4 by (auto simp: loop_ok_def handleWakeup_def)
  next
    case (Other_Channel cs)
    then show ?thesis using 4 loop_calls_ok [of l cs] by simp
  qed
next
  case 5
  then show ?case by (auto simp: loop_ok_def handled_all_def)
next
  case 6
  then show ?case by (auto simp: loop_ok_def swap_functors_def awake_def)
next
  case 7
  show ?case
  proof (cases "functors l")
    case Nil
    then show ?thesis using 7 by (auto simp: loop_ok_def run_functor_def awake_def)
  next
    case (Cons f fs)
    define l1 where "l1 = l\<lparr>functors := fs, executed := executed l @ [f]\<rparr>"
    have "loop_ok l1" "phase l1 = Running" using 7 Cons by (auto simp: loop_ok_def l1_def awake_def)
    then show ?thesis using 7 Cons loop_calls_ok [of l1 "body f"] by (simp add: run_functor_def l1_def)
  qed
qed

lemma other_step_ok: "other_step l l' \<Longrightarrow> loop_ok l \<Longrightarrow> loop_ok l'"
proof (erule other_stepE, goal_cases)
  case (1 f)
  then show ?case by (auto simp: loop_ok_def push_functor_def awake_def)
next
  case 2
  then show ?case by (auto simp: loop_ok_def awake_def)
next
  case 3
  have "awake ((wakeup l)\<lparr>in_flight := in_flight l - 1\<rparr>)" using wakeup_positive [of l] by (simp add: awake_def)
  then show ?case using 3 by (auto simp: loop_ok_def)
qed

lemma new_loop_ok: "loop_ok new_loop"
  by (simp add: loop_ok_def new_loop_def)

lemma loop_reaches_ok: "loop_reaches body l l' \<Longrightarrow> loop_ok l \<Longrightarrow> loop_ok l'"
  by (induction rule: loop_reaches.induct) (auto intro: loop_step_ok other_step_ok)

lemma reaches_new_ok: "loop_reaches body new_loop l \<Longrightarrow> loop_ok l"
  using loop_reaches_ok new_loop_ok by blast

section \<open>Properties\<close>



inductive own_steps :: "('f \<Rightarrow> 'f loop_call list) \<Rightarrow> 'f event_loop \<Rightarrow> 'f event_loop \<Rightarrow> bool" for body where
  own_refl: "own_steps body l l"
| own_step: "loop_step body l l' \<Longrightarrow> own_steps body l' l'' \<Longrightarrow> own_steps body l l''"

lemma own_steps_one: "loop_step body l l' \<Longrightarrow> own_steps body l l'"
  by (meson own_steps.intros)

lemma own_steps_trans: "own_steps body l l' \<Longrightarrow> own_steps body l' l'' \<Longrightarrow> own_steps body l l''"
  by (induction rule: own_steps.induct) (auto intro: own_step)

lemma run_all_functors:
  assumes "loop_ok l" "phase l = Running"
  shows "\<exists>l'. own_steps body l l' \<and> phase l' = Testing \<and> executed l' = executed l @ functors l"
  using assms
proof (induction "functors l" arbitrary: l)
  case Nil
  then have "own_steps body l (run_functor body l)" by (intro own_steps_one loop_step.run)
  then show ?case using Nil by (intro exI [of _ "run_functor body l"]) (simp add: run_functor_def)
next
  case (Cons f fs)
  define l1 where "l1 = l\<lparr>functors := fs, executed := executed l @ [f]\<rparr>"
  have "loop_ok l1" "phase l1 = Running"
    using Cons.prems Cons.hyps(2) [symmetric] by (auto simp: loop_ok_def l1_def awake_def)
  from loop_calls_ok [OF this(1), of "body f"] this(2)
  have l2: "loop_ok (run_functor body l)" "phase (run_functor body l) = Running"
    "functors (run_functor body l) = fs" "executed (run_functor body l) = executed l @ [f]"
    using Cons.hyps(2) [symmetric] by (simp_all add: run_functor_def l1_def)
  from Cons.hyps(1) [OF l2(3) [symmetric] l2(1,2)] l2(3,4) obtain l' where
    "own_steps body (run_functor body l) l'" "phase l' = Testing" "executed l' = executed l @ f # fs"
    by auto
  moreover have "own_steps body l (run_functor body l)"
    using Cons.prems(2) by (intro own_steps_one loop_step.run)
  ultimately show ?case using own_steps_trans Cons.hyps(2) by metis
qed

text \<open>
  One round is enough: from the wait, the loop's thread alone gets back to the test of its
  quit flag with every functor that was queued before called, in order, and none of those that
  these functors queued in turn.
\<close>

theorem next_round_calls_all:
  assumes "loop_reaches body new_loop l" "phase l = Polling"
  shows "\<exists>l'. own_steps body l l' \<and> phase l' = Testing \<and> executed l' = executed l @ pendingFunctors l"
proof -
  define l1 where "l1 = poll_return l"
  define l2 where "l2 = handled_all l1"
  define l3 where "l3 = swap_functors l2"
  have "phase l1 = Handling" "phase l2 = Swapping" by (simp_all add: l1_def l2_def loop_defs)
  then have s: "loop_step body l l1" "loop_step body l1 l2" "loop_step body l2 l3"
    using assms(2) loop_step.poll loop_step.handled loop_step.swap unfolding l1_def l2_def l3_def by blast+
  have ok: "loop_ok l3" using s reaches_new_ok [OF assms(1)] loop_step_ok by blast
  have l3: "phase l3 = Running" "functors l3 = pendingFunctors l" "executed l3 = executed l"
    by (simp_all add: l3_def l2_def l1_def loop_defs)
  have "own_steps body l l3" using s by (blast intro: own_step own_refl)
  then show ?thesis using run_all_functors [OF ok l3(1)] own_steps_trans l3(2,3) by metis
qed

text \<open>Another thread queues a functor that queues a second one, while the loop waits.\<close>

definition demo_body :: "nat \<Rightarrow> nat loop_call list" where
  "demo_body f = (if f = 1 then [Queue 2] else [])"

definition waiting_loop :: "nat event_loop" where
  "waiting_loop = test_quit (the (start_loop new_loop))"

definition demo_loop :: "nat event_loop" where
  "demo_loop = (push_functor 1 waiting_loop)\<lparr>in_flight := in_flight waiting_loop + 1\<rparr>"

lemma waiting_loop_reached: "loop_reaches demo_body new_loop waiting_loop"
proof -
  have s: "start_loop new_loop = Some (the (start_loop new_loop))"
    by (simp add: start_loop_def new_loop_def)
  have "loop_step demo_body new_loop (the (start_loop new_loop))"
    by (rule loop_step.start [OF _ s]) (simp add: new_loop_def)
  moreover have "phase (the (start_loop new_loop)) = Testing" by (simp add: start_loop_def new_loop_def)
  ultimately show ?thesis
    unfolding waiting_loop_def using loop_step.test loop_reaches.intros by metis
qed

lemma demo_loop_reached:
  "loop_reaches demo_body new_loop demo_loop" "phase demo_loop = Polling" "pendingFunctors demo_loop = [1]"
  "executed demo_loop = []"
proof -
  show "loop_reaches demo_body new_loop demo_loop"
    unfolding demo_loop_def by (rule loop_other [OF waiting_loop_reached other_queue])
qed (simp_all add: demo_loop_def waiting_loop_def start_loop_def new_loop_def test_quit_def push_functor_def)



theorem next_round_calls_all_witness:
  "\<exists>l'. own_steps demo_body demo_loop l' \<and> phase l' = Testing \<and> executed l' = [1]"
  using next_round_calls_all [OF demo_loop_reached(1,2)] demo_loop_reached(3,4) by simp

section \<open>Behaviour to know about\<close>

text \<open>
  \<^verbatim>\<open>loop()\<close> clears the quit flag when it starts, so a \<^verbatim>\<open>quit()\<close> that comes before it is
  forgotten. \<^verbatim>\<open>EventLoopThread::startLoop\<close> returns as soon as the loop object exists; a destructor
  that runs before the thread enters \<^verbatim>\<open>loop()\<close> then waits for it forever.
\<close>

lemma early_quit_is_forgotten:
  "\<exists>l q. other_step new_loop q \<and> quit q \<and> loop_reaches demo_body q l \<and> phase l = Polling \<and>
     \<not> quit l \<and> in_flight l = 0"
proof -
  define q :: "nat event_loop" where "q = new_loop\<lparr>quit := True, in_flight := in_flight (new_loop :: nat event_loop) + 1\<rparr>"
  define q1 where "q1 = (wakeup q)\<lparr>in_flight := in_flight q - 1\<rparr>"
  define l1 where "l1 = q1\<lparr>looping := True, quit := False, phase := Testing\<rparr>"
  have q: "other_step new_loop q" unfolding q_def by (rule other_quit)
  have quit: "quit q" by (simp add: q_def)
  have "0 < in_flight q" by (simp add: q_def)
  then have "loop_reaches demo_body q q1" unfolding q1_def using loop_other [OF loop_refl other_wakeup] by metis
  moreover have "loop_step demo_body q1 l1"
    by (rule loop_step.start) (simp_all add: q1_def q_def l1_def start_loop_def new_loop_def)
  moreover have "loop_step demo_body l1 (test_quit l1)" by (rule loop_step.test) (simp add: l1_def)
  ultimately have "loop_reaches demo_body q (test_quit l1)" by (meson loop_own)
  moreover have "phase (test_quit l1) = Polling" "\<not> quit (test_quit l1)" "in_flight (test_quit l1) = 0"
    by (simp_all add: test_quit_def l1_def q1_def q_def new_loop_def)
  ultimately show ?thesis using q quit by blast
qed

section \<open>Destruction\<close>

datatype loop_error = Null_Poller | Channel_Assertion

text \<open>A call that a channel makes on the loop goes through the loop's pointer to its poller.\<close>

definition through_loop ::
  "(channel \<Rightarrow> poller \<Rightarrow> (channel \<times> poller) option) \<Rightarrow> channel \<times> poller option \<Rightarrow>
     loop_error + channel \<times> poller option" where
  "through_loop f cp =
     (case snd cp of
        None \<Rightarrow> Inl Null_Poller
      | Some po \<Rightarrow>
          (case f (fst cp) po of
             None \<Rightarrow> Inl Channel_Assertion
           | Some (c, po) \<Rightarrow> Inr (c, Some po)))"

definition unregister :: "nat \<Rightarrow> channel \<times> poller option \<Rightarrow> loop_error + channel \<times> poller option" where
  "unregister p cp =
     (case through_loop (\<lambda>c po. Some (disableAll p c po)) cp of
        Inl e \<Rightarrow> Inl e
      | Inr cp \<Rightarrow> through_loop (chan_remove p) cp)"

text \<open>
  \<^verbatim>\<open>~EventLoop\<close>: the body unregisters the wake-up channel and deletes the poller; the members
  are destroyed after it, the timer queue with its channel among them.
\<close>

definition destroy_loop ::
  "nat \<times> channel \<Rightarrow> nat \<times> channel \<Rightarrow> poller \<Rightarrow> loop_error + channel \<times> channel" where
  "destroy_loop w t po =
     (case unregister (fst w) (snd w, Some po) of
        Inl e \<Rightarrow> Inl e
      | Inr (wakeupChannel, _) \<Rightarrow>
          (case unregister (fst t) (snd t, None) of
             Inl e \<Rightarrow> Inl e
           | Inr (timerfdChannel, _) \<Rightarrow> Inr (wakeupChannel, timerfdChannel)))"

lemma disableAll_none: "isNoneEvent (fst (disableAll p c po))"
  by (simp add: disableAll_def isNoneEvent_def chan_update_fields)

text \<open>Destroying a loop always ends in a call through the deleted poller.\<close>

lemma destructor_uses_deleted_poller: "destroy_loop w t po = Inl Null_Poller"
proof -
  obtain c' po' where d: "disableAll (fst w) (snd w) po = (c', po')" by (cases "disableAll (fst w) (snd w) po")
  then have "isNoneEvent c'" using disableAll_none [of "fst w" "snd w" po] by simp
  then show ?thesis using d by (simp add: destroy_loop_def unregister_def through_loop_def chan_remove_def
        split: prod.split)
qed

end
