(* ===== verification/Loop_Threads.thy ===== *)
theory Loop_Threads
  imports Event_Loop
begin

text \<open>
  The rule of \<^verbatim>\<open>EventLoop.cpp\<close> that gives a loop to one thread: \<^verbatim>\<open>t_loopInThisThread\<close>, \<^verbatim>\<open>threadId_\<close>,
  \<^verbatim>\<open>isInLoopThread\<close> and the checks that abort the program, for any number of threads and loops that
  call each other through \<^verbatim>\<open>runInLoop\<close> and \<^verbatim>\<open>queueInLoop\<close>. The threads interleave between any two
  calls. How a sleeping loop is woken is the subject of \<^theory_text>\<open>Event_Loop\<close> and left out here, and
  so is what the poller does with a channel (\<^theory_text>\<open>Channel_Poller\<close>).
\<close>

section \<open>Calls and functors\<close>

text \<open>
  A functor is the list of the calls it makes. \<open>Channel_Op l o\<close> is \<^verbatim>\<open>updateChannel\<close>, \<^verbatim>\<open>removeChannel\<close>
  or \<^verbatim>\<open>hasChannel\<close> of loop \<open>l\<close> with a channel whose \<^verbatim>\<open>ownerLoop\<close> is \<open>o\<close>. The last four are the places
  in \<^verbatim>\<open>loop\<close> and \<^verbatim>\<open>doPendingFunctors\<close> at which the thread may be.
\<close>

datatype act = New_Loop nat | Run_In nat loop_functor | Queue_In nat loop_functor | Channel_Op nat nat | Assert_In nat
  | Quit_Loop nat | Enter_Loop nat | Loop_Test nat | Dispatch nat | Swap nat | Run_Swapped nat
and loop_functor = Functor (acts: "act list")

datatype abortion = Another_Loop_Exists | Not_In_Loop_Thread | Assertion_Failed

record loop_threads =
  t_loopInThisThread :: "nat \<Rightarrow> nat option"
  threadId :: "nat \<Rightarrow> nat option"
  looping_of :: "nat \<Rightarrow> bool"
  quit_of :: "nat \<Rightarrow> bool"
  pending_of :: "nat \<Rightarrow> loop_functor list"
  swapped_of :: "nat \<Rightarrow> loop_functor list"
  todo :: "nat \<Rightarrow> act list"
  abortion :: "abortion option"
  ran :: "(nat \<times> loop_functor \<times> nat) list"

text \<open>
  Threads and loops are numbers; \<open>threadId\<close> is \<^term>\<open>None\<close> for a loop that does not exist. \<open>todo\<close> is
  what a thread still has to do, and \<open>ran\<close> the history of the functors: loop, functor and thread.
\<close>

definition start_reactor :: "(nat \<Rightarrow> act list) \<Rightarrow> loop_threads" where
  "start_reactor programs = \<lparr>t_loopInThisThread = (\<lambda>_. None), threadId = (\<lambda>_. None), looping_of = (\<lambda>_. False),
     quit_of = (\<lambda>_. False), pending_of = (\<lambda>_. []), swapped_of = (\<lambda>_. []), todo = programs, abortion = None, ran = []\<rparr>"

definition isInLoopThread :: "nat \<Rightarrow> nat \<Rightarrow> loop_threads \<Rightarrow> bool" where
  "isInLoopThread me l r \<longleftrightarrow> threadId r l = Some me"

definition abort :: "abortion \<Rightarrow> loop_threads \<Rightarrow> loop_threads" where
  "abort a r = r\<lparr>abortion := Some a\<rparr>"

definition continue_with :: "nat \<Rightarrow> act list \<Rightarrow> loop_threads \<Rightarrow> loop_threads" where
  "continue_with me as r = r\<lparr>todo := (todo r)(me := as)\<rparr>"

definition assertInLoopThread :: "nat \<Rightarrow> nat \<Rightarrow> loop_threads \<Rightarrow> loop_threads" where
  "assertInLoopThread me l r = (if isInLoopThread me l r then r else abort Not_In_Loop_Thread r)"

definition enqueue_functor :: "nat \<Rightarrow> loop_functor \<Rightarrow> loop_threads \<Rightarrow> loop_threads" where
  "enqueue_functor l f r = r\<lparr>pending_of := (pending_of r)(l := pending_of r l @ [f])\<rparr>"

definition run_now :: "nat \<Rightarrow> nat \<Rightarrow> loop_functor \<Rightarrow> act list \<Rightarrow> loop_threads \<Rightarrow> loop_threads" where
  "run_now me l f as r = continue_with me (acts f @ as) (r\<lparr>ran := ran r @ [(l, f, me)]\<rparr>)"

text \<open>
  One call of thread \<open>me\<close>, with the calls \<open>as\<close> behind it. The constructor registers the wake-up
  channel after its check, in the thread that it has just made the loop's own.
\<close>

fun do_act :: "nat \<Rightarrow> act \<Rightarrow> act list \<Rightarrow> loop_threads \<Rightarrow> loop_threads" where
  "do_act me (New_Loop l) as r =
     (if t_loopInThisThread r me \<noteq> None then abort Another_Loop_Exists r
      else continue_with me (Channel_Op l l # as)
        (r\<lparr>threadId := (threadId r)(l \<mapsto> me), t_loopInThisThread := (t_loopInThisThread r)(me \<mapsto> l)\<rparr>))"
| "do_act me (Run_In l f) as r =
     (if isInLoopThread me l r then run_now me l f as r else continue_with me as (enqueue_functor l f r))"
| "do_act me (Queue_In l f) as r = continue_with me as (enqueue_functor l f r)"
| "do_act me (Channel_Op l owner) as r =
     (if owner \<noteq> l then abort Assertion_Failed r else continue_with me as (assertInLoopThread me l r))"
| "do_act me (Assert_In l) as r = continue_with me as (assertInLoopThread me l r)"
| "do_act me (Quit_Loop l) as r = continue_with me as (r\<lparr>quit_of := (quit_of r)(l := True)\<rparr>)"
| "do_act me (Enter_Loop l) as r =
     (if looping_of r l then abort Assertion_Failed r
      else continue_with me (Loop_Test l # as)
        ((assertInLoopThread me l r)\<lparr>looping_of := (looping_of r)(l := True), quit_of := (quit_of r)(l := False)\<rparr>))"
| "do_act me (Loop_Test l) as r =
     (if quit_of r l then continue_with me as (r\<lparr>looping_of := (looping_of r)(l := False)\<rparr>)
      else continue_with me (Dispatch l # as) r)"
| "do_act me (Dispatch l) as r = continue_with me (Swap l # as) r"
| "do_act me (Swap l) as r =
     continue_with me (Run_Swapped l # as)
       (r\<lparr>swapped_of := (swapped_of r)(l := pending_of r l), pending_of := (pending_of r)(l := [])\<rparr>)"
| "do_act me (Run_Swapped l) as r =
     (case swapped_of r l of
        [] \<Rightarrow> continue_with me (Loop_Test l # as) r
      | f # fs \<Rightarrow> run_now me l f (Run_Swapped l # as) (r\<lparr>swapped_of := (swapped_of r)(l := fs)\<rparr>))"

text \<open>The loop on which a call is made has to exist, or the pointer to it would be none.\<close>

fun loop_in :: "act \<Rightarrow> nat option" where
  "loop_in (New_Loop l) = None"
| "loop_in (Run_In l f) = Some l"
| "loop_in (Queue_In l f) = Some l"
| "loop_in (Channel_Op l owner) = Some l"
| "loop_in (Assert_In l) = Some l"
| "loop_in (Quit_Loop l) = Some l"
| "loop_in (Enter_Loop l) = Some l"
| "loop_in (Loop_Test l) = Some l"
| "loop_in (Dispatch l) = Some l"
| "loop_in (Swap l) = Some l"
| "loop_in (Run_Swapped l) = Some l"

definition exists_for :: "act \<Rightarrow> loop_threads \<Rightarrow> bool" where
  "exists_for a r \<longleftrightarrow> (case loop_in a of None \<Rightarrow> (case a of New_Loop l \<Rightarrow> threadId r l = None | _ \<Rightarrow> True)
     | Some l \<Rightarrow> threadId r l \<noteq> None)"

text \<open>\<open>handlers\<close>: what the channels of a loop may do when their events are dispatched.\<close>

inductive reactor_step :: "(nat \<Rightarrow> loop_functor set) \<Rightarrow> loop_threads \<Rightarrow> loop_threads \<Rightarrow> bool" for handlers where
  act_step: "abortion r = None \<Longrightarrow> todo r me = a # as \<Longrightarrow> exists_for a r \<Longrightarrow> reactor_step handlers r (do_act me a as r)"
| handler_step: "abortion r = None \<Longrightarrow> todo r me = Dispatch l # as \<Longrightarrow> h \<in> handlers l \<Longrightarrow> threadId r l \<noteq> None \<Longrightarrow>
    reactor_step handlers r (run_now me l h (Dispatch l # as) r)"

section \<open>A discipline of types\<close>

text \<open>
  A functor has the type of a loop if it touches channels of that loop only, asserts nothing about
  another one, gives other loops functors of their types, and does not make or enter a loop.
\<close>

fun functor_typed :: "nat \<Rightarrow> act list \<Rightarrow> bool" where
  "functor_typed k [] \<longleftrightarrow> True"
| "functor_typed k (Run_In l (Functor bs) # as) \<longleftrightarrow> functor_typed l bs \<and> functor_typed k as"
| "functor_typed k (Queue_In l (Functor bs) # as) \<longleftrightarrow> functor_typed l bs \<and> functor_typed k as"
| "functor_typed k (Channel_Op l owner # as) \<longleftrightarrow> l = k \<and> owner = k \<and> functor_typed k as"
| "functor_typed k (Assert_In l # as) \<longleftrightarrow> l = k \<and> functor_typed k as"
| "functor_typed k (Quit_Loop l # as) \<longleftrightarrow> functor_typed k as"
| "functor_typed k (a # as) \<longleftrightarrow> False"

text \<open>
  The program of a thread: before it makes a loop it has no loop (\<open>C\<close>), afterwards its own; \<open>b\<close> says
  that it is inside \<^verbatim>\<open>loop\<close>, where the next place in the loop comes before anything else of the
  program, and only functors come before that.
\<close>

fun program_typed :: "bool \<Rightarrow> nat option \<Rightarrow> act list \<Rightarrow> bool" where
  "program_typed b C [] \<longleftrightarrow> \<not> b"
| "program_typed b C (New_Loop l # as) \<longleftrightarrow> \<not> b \<and> C = None \<and> program_typed b (Some l) as"
| "program_typed b C (Run_In l f # as) \<longleftrightarrow> functor_typed l (acts f) \<and> program_typed b C as"
| "program_typed b C (Queue_In l f # as) \<longleftrightarrow> functor_typed l (acts f) \<and> program_typed b C as"
| "program_typed b C (Channel_Op l owner # as) \<longleftrightarrow> C = Some l \<and> owner = l \<and> program_typed b C as"
| "program_typed b C (Assert_In l # as) \<longleftrightarrow> C = Some l \<and> program_typed b C as"
| "program_typed b C (Quit_Loop l # as) \<longleftrightarrow> program_typed b C as"
| "program_typed b C (Enter_Loop l # as) \<longleftrightarrow> \<not> b \<and> C = Some l \<and> program_typed False C as"
| "program_typed b C (Loop_Test l # as) \<longleftrightarrow> b \<and> C = Some l \<and> program_typed False C as"
| "program_typed b C (Dispatch l # as) \<longleftrightarrow> b \<and> C = Some l \<and> program_typed False C as"
| "program_typed b C (Swap l # as) \<longleftrightarrow> b \<and> C = Some l \<and> program_typed False C as"
| "program_typed b C (Run_Swapped l # as) \<longleftrightarrow> b \<and> C = Some l \<and> program_typed False C as"

lemma functor_typed_nested [simp]:
  "functor_typed k (Run_In l f # as) \<longleftrightarrow> functor_typed l (acts f) \<and> functor_typed k as"
  "functor_typed k (Queue_In l f # as) \<longleftrightarrow> functor_typed l (acts f) \<and> functor_typed k as"
  by (cases f; simp)+

lemma typed_append: "functor_typed l as \<Longrightarrow> program_typed b (Some l) bs \<Longrightarrow> program_typed b (Some l) (as @ bs)"
proof (induction as)
  case (Cons a as)
  then show ?case by (cases a) auto
qed simp

definition inside :: "loop_threads \<Rightarrow> nat \<Rightarrow> bool" where
  "inside r me = (case t_loopInThisThread r me of None \<Rightarrow> False | Some l \<Rightarrow> looping_of r l)"

text \<open>
  Every thread has a well-typed rest of its program, every loop functors of its type, and a loop and
  its thread know each other.
\<close>

definition thread_typed :: "loop_threads \<Rightarrow> nat \<Rightarrow> bool" where
  "thread_typed r me \<longleftrightarrow> program_typed (inside r me) (t_loopInThisThread r me) (todo r me)"

definition loops_typed :: "loop_threads \<Rightarrow> bool" where
  "loops_typed r \<longleftrightarrow> (\<forall>l. \<forall>f \<in> set (pending_of r l) \<union> set (swapped_of r l). functor_typed l (acts f)) \<and>
     (\<forall>me l. t_loopInThisThread r me = Some l \<longleftrightarrow> threadId r l = Some me) \<and>
     (\<forall>(l, f, me) \<in> set (ran r). threadId r l = Some me) \<and>
     (\<forall>l. threadId r l = None \<longrightarrow> \<not> looping_of r l)"

definition reactor_typed :: "loop_threads \<Rightarrow> bool" where
  "reactor_typed r \<longleftrightarrow> (\<forall>me. thread_typed r me) \<and> loops_typed r"

definition handlers_typed :: "(nat \<Rightarrow> loop_functor set) \<Rightarrow> bool" where
  "handlers_typed handlers \<longleftrightarrow> (\<forall>l. \<forall>h \<in> handlers l. functor_typed l (acts h))"

lemma loopsD:
  assumes "loops_typed r"
  shows "t_loopInThisThread r me = Some l \<longleftrightarrow> threadId r l = Some me"
    "f \<in> set (pending_of r l) \<or> f \<in> set (swapped_of r l) \<Longrightarrow> functor_typed l (acts f)"
    "threadId r l = None \<Longrightarrow> \<not> looping_of r l"
  using assms by (auto simp: loops_typed_def)

text \<open>A step of thread \<open>me\<close> that changes nothing of what other threads look at.\<close>

lemma reactor_typed_me:
  assumes ok: "reactor_typed r" and lt: "loops_typed r'"
    and same: "t_loopInThisThread r' = t_loopInThisThread r" "\<And>y. y \<noteq> me \<Longrightarrow> todo r' y = todo r y"
      "\<And>l. threadId r l \<noteq> Some me \<Longrightarrow> looping_of r' l = looping_of r l"
    and mine: "program_typed (inside r' me) (t_loopInThisThread r' me) (todo r' me)"
  shows "reactor_typed r'"
proof -
  have "inside r' y = inside r y" if "y \<noteq> me" for y
  proof (cases "t_loopInThisThread r y")
    case (Some l)
    then have "threadId r l = Some y" using ok loopsD(1) by (simp add: reactor_typed_def)
    then show ?thesis using Some same(1) same(3) [of l] that by (simp add: inside_def)
  qed (simp add: inside_def same(1))
  then have "thread_typed r' y" if "y \<noteq> me" for y
    using that ok same by (simp add: reactor_typed_def thread_typed_def)
  then have "thread_typed r' y" for y using mine by (cases "y = me") (simp_all add: thread_typed_def)
  then show ?thesis using lt by (simp add: reactor_typed_def)
qed

lemma continue_simps [simp]:
  "t_loopInThisThread (continue_with me as r) = t_loopInThisThread r" "threadId (continue_with me as r) = threadId r"
  "looping_of (continue_with me as r) = looping_of r" "quit_of (continue_with me as r) = quit_of r"
  "pending_of (continue_with me as r) = pending_of r" "swapped_of (continue_with me as r) = swapped_of r"
  "ran (continue_with me as r) = ran r" "abortion (continue_with me as r) = abortion r"
  "todo (continue_with me as r) y = (if y = me then as else todo r y)" "inside (continue_with me as r) y = inside r y"
  "loops_typed (continue_with me as r) = loops_typed r"
  by (simp_all add: continue_with_def inside_def loops_typed_def split: option.split)

lemma queue_simps [simp]:
  "t_loopInThisThread (enqueue_functor l f r) = t_loopInThisThread r" "looping_of (enqueue_functor l f r) = looping_of r"
  "todo (enqueue_functor l f r) = todo r" "abortion (enqueue_functor l f r) = abortion r" "inside (enqueue_functor l f r) y = inside r y"
  by (simp_all add: enqueue_functor_def inside_def split: option.split)

lemma loops_typed_queue: "loops_typed r \<Longrightarrow> functor_typed l (acts f) \<Longrightarrow> loops_typed (enqueue_functor l f r)"
  by (auto simp: loops_typed_def enqueue_functor_def)

lemma run_now_typed:
  assumes ok: "reactor_typed r" and id: "threadId r l = Some me" and f: "functor_typed l (acts f)"
    and as: "program_typed (inside r me) (Some l) as"
  shows "reactor_typed (run_now me l f as r)"
proof (rule reactor_typed_me [OF ok])
  have lt: "loops_typed r" using ok by (simp add: reactor_typed_def)
  then have t: "t_loopInThisThread r me = Some l" using id loopsD(1) by blast
  have "loops_typed (r\<lparr>ran := ran r @ [(l, f, me)]\<rparr>)" using lt id by (auto simp: loops_typed_def)
  then show "loops_typed (run_now me l f as r)" by (simp add: run_now_def)
  have "inside (run_now me l f as r) me = inside r me" by (simp add: run_now_def) (simp add: inside_def split: option.split)
  then show "program_typed (inside (run_now me l f as r) me) (t_loopInThisThread (run_now me l f as r) me)
      (todo (run_now me l f as r) me)"
    using typed_append [OF f as] t by (simp add: run_now_def)
qed (simp_all add: run_now_def)

text \<open>Preservation, and the absence of an abort, for one call.\<close>

lemma inside_loop:
  "t_loopInThisThread r me = Some l \<Longrightarrow> inside r me = looping_of r l"
  by (simp add: inside_def)

lemma new_loop_typed:
  assumes ok: "reactor_typed r" and todo: "todo r me = New_Loop l # as" and ex: "threadId r l = None"
  shows "reactor_typed (do_act me (New_Loop l) as r) \<and> abortion (do_act me (New_Loop l) as r) = abortion r"
proof -
  define r0 where "r0 = r\<lparr>threadId := (threadId r)(l \<mapsto> me), t_loopInThisThread := (t_loopInThisThread r)(me \<mapsto> l)\<rparr>"
  define r1 where "r1 = continue_with me (Channel_Op l l # as) r0"
  have lt: "loops_typed r" and ty: "program_typed (inside r me) (t_loopInThisThread r me) (New_Loop l # as)"
    using ok todo unfolding reactor_typed_def thread_typed_def by metis+
  have none: "t_loopInThisThread r me = None" "\<not> looping_of r l" "program_typed False (Some l) as"
    using ty ex loopsD(3) [OF lt] by auto
  have act: "do_act me (New_Loop l) as r = r1" using none by (simp add: r1_def r0_def)
  have ids: "t_loopInThisThread r y = Some k \<longleftrightarrow> threadId r k = Some y" for y k by (rule loopsD(1) [OF lt])
  have "loops_typed r0"
    unfolding loops_typed_def
  proof (intro conjI allI)
    fix y k
    show "t_loopInThisThread r0 y = Some k \<longleftrightarrow> threadId r0 k = Some y"
      using none ex ids [of y k] ids [of me k] ids [of y l] by (auto simp: r0_def)
  next
    show "\<forall>(k, f, y) \<in> set (ran r0). threadId r0 k = Some y"
      using lt ex by (force simp: r0_def loops_typed_def)
  qed (use lt none in \<open>auto simp: r0_def loops_typed_def\<close>)
  then have "loops_typed r1" by (simp add: r1_def)
  moreover have "thread_typed r1 y" for y
  proof (cases "y = me")
    case True
    have "inside r0 me = False" using none(2) by (simp add: inside_def r0_def)
    then show ?thesis using True none by (simp add: thread_typed_def r1_def) (simp add: r0_def)
  next
    case False
    have "inside r0 y = inside r y" using False by (simp add: inside_def r0_def split: option.split)
    moreover have "thread_typed r y" using ok by (simp add: reactor_typed_def)
    ultimately show ?thesis using False by (simp add: thread_typed_def r1_def) (simp add: r0_def)
  qed
  moreover have "abortion r1 = abortion r" by (simp add: r1_def r0_def)
  ultimately show ?thesis unfolding act reactor_typed_def by blast
qed

lemma loop_act_typed:
  assumes ok: "reactor_typed r" and ty: "program_typed (inside r me) (Some l) (a # as)"
    and t: "t_loopInThisThread r me = Some l" and a: "a \<in> {Enter_Loop l, Loop_Test l, Dispatch l, Swap l, Run_Swapped l}"
  shows "reactor_typed (do_act me a as r) \<and> abortion (do_act me a as r) = abortion r"
proof -
  have lt: "loops_typed r" using ok by (simp add: reactor_typed_def)
  have id: "threadId r l = Some me" using t loopsD(1) [OF lt] by simp
  have ins: "inside r me = looping_of r l" by (rule inside_loop [OF t])
  note me = reactor_typed_me [OF ok, of _ me]
  consider "a = Enter_Loop l" | "a = Loop_Test l" | "a = Dispatch l" | "a = Swap l" | "a = Run_Swapped l" using a by blast
  then show ?thesis
  proof cases
    case 1
    define r1 where "r1 = r\<lparr>looping_of := (looping_of r)(l := True), quit_of := (quit_of r)(l := False)\<rparr>"
    have "loops_typed r1" using lt id by (auto simp: loops_typed_def r1_def)
    moreover have "inside r1 me" using t by (simp add: inside_def r1_def)
    ultimately have "reactor_typed (continue_with me (Loop_Test l # as) r1)"
      using ty 1 t id by (intro me) (auto simp: r1_def)
    then show ?thesis using 1 ty ins id by (simp add: assertInLoopThread_def isInLoopThread_def r1_def)
  next
    case 2
    define r1 where "r1 = r\<lparr>looping_of := (looping_of r)(l := False)\<rparr>"
    have "loops_typed r1" using lt by (auto simp: loops_typed_def r1_def)
    moreover have "\<not> inside r1 me" using t by (simp add: inside_def r1_def)
    ultimately have "reactor_typed (continue_with me as r1)"
      using ty 2 t id by (intro me) (auto simp: r1_def)
    moreover have "reactor_typed (continue_with me (Dispatch l # as) r)"
      using ty 2 t lt by (intro me) auto
    ultimately show ?thesis using 2 by (simp add: r1_def)
  next
    case 3
    then show ?thesis using ty t lt by (intro conjI me) auto
  next
    case 4
    define r1 where "r1 = r\<lparr>swapped_of := (swapped_of r)(l := pending_of r l), pending_of := (pending_of r)(l := [])\<rparr>"
    have "loops_typed r1" using lt by (auto simp: loops_typed_def r1_def)
    moreover have "inside r1 me = inside r me" using t by (simp add: inside_def r1_def)
    ultimately have "reactor_typed (continue_with me (Run_Swapped l # as) r1)"
      using ty 4 t by (intro me) (auto simp: r1_def)
    then show ?thesis using 4 by (simp add: r1_def)
  next
    case 5
    show ?thesis
    proof (cases "swapped_of r l")
      case Nil
      then show ?thesis using 5 ty t lt by (auto intro!: me)
    next
      case (Cons f fs)
      define r1 where "r1 = r\<lparr>swapped_of := (swapped_of r)(l := fs)\<rparr>"
      have f: "functor_typed l (acts f)" using loopsD(2) [OF lt, of f l] Cons by simp
      have "loops_typed r1" using lt Cons by (auto simp: loops_typed_def r1_def)
      moreover have i1: "inside r1 me = inside r me" using t by (simp add: inside_def r1_def)
      moreover have "program_typed (inside r me) (Some l) (todo r me)"
        using ok t unfolding reactor_typed_def thread_typed_def by metis
      ultimately have "reactor_typed r1" using t by (intro me) (auto simp: r1_def)
      then have "reactor_typed (run_now me l f (Run_Swapped l # as) r1)"
        by (rule run_now_typed) (use id f ty 5 i1 in \<open>auto simp: r1_def\<close>)
      then show ?thesis using 5 Cons by (simp add: r1_def run_now_def)
    qed
  qed
qed

lemma do_act_typed:
  assumes ok: "reactor_typed r" and todo: "todo r me = a # as" and ex: "exists_for a r"
  shows "reactor_typed (do_act me a as r) \<and> abortion (do_act me a as r) = abortion r"
proof -
  have lt: "loops_typed r" and ty: "program_typed (inside r me) (t_loopInThisThread r me) (a # as)"
    using ok todo unfolding reactor_typed_def thread_typed_def by metis+
  have id: "t_loopInThisThread r me = Some l \<longleftrightarrow> threadId r l = Some me" for l by (rule loopsD(1) [OF lt])
  note me = reactor_typed_me [OF ok, of _ me]
  show ?thesis
  proof (cases a)
    case (New_Loop l)
    then show ?thesis using new_loop_typed [OF ok] todo ex by (simp add: exists_for_def)
  next
    case (Run_In l f)
    show ?thesis
    proof (cases "threadId r l = Some me")
      case True
      then have "t_loopInThisThread r me = Some l" using id by simp
      then show ?thesis using True Run_In ty run_now_typed [OF ok True, of f as]
        by (simp add: isInLoopThread_def run_now_def)
    next
      case False
      have "reactor_typed (continue_with me as (enqueue_functor l f r))"
        using ty Run_In loops_typed_queue [OF lt] by (intro me) auto
      then show ?thesis using Run_In False by (simp add: isInLoopThread_def)
    qed
  next
    case (Queue_In l f)
    have "reactor_typed (continue_with me as (enqueue_functor l f r))"
      using ty Queue_In loops_typed_queue [OF lt] by (intro me) auto
    then show ?thesis using Queue_In by simp
  next
    case (Channel_Op l owner)
    then have t: "t_loopInThisThread r me = Some l" and as: "program_typed (inside r me) (Some l) as" using ty by auto
    have "reactor_typed (continue_with me as r)" using t as lt by (intro me) auto
    moreover have "threadId r l = Some me" using t id by blast
    ultimately show ?thesis using Channel_Op ty by (simp add: assertInLoopThread_def isInLoopThread_def)
  next
    case (Assert_In l)
    then have t: "t_loopInThisThread r me = Some l" and as: "program_typed (inside r me) (Some l) as" using ty by auto
    have "reactor_typed (continue_with me as r)" using t as lt by (intro me) auto
    moreover have "threadId r l = Some me" using t id by blast
    ultimately show ?thesis using Assert_In ty by (simp add: assertInLoopThread_def isInLoopThread_def)
  next
    case (Quit_Loop l)
    define r1 where "r1 = r\<lparr>quit_of := (quit_of r)(l := True)\<rparr>"
    have "inside r1 me = inside r me" by (simp add: r1_def inside_def split: option.split)
    moreover have "loops_typed r1" using lt by (simp add: loops_typed_def r1_def)
    ultimately have "reactor_typed (continue_with me as r1)" using ty Quit_Loop by (intro me) (auto simp: r1_def)
    then show ?thesis using Quit_Loop by (simp add: r1_def)
  next
    case (Enter_Loop l)
    then have t: "t_loopInThisThread r me = Some l" using ty by simp
    show ?thesis by (rule loop_act_typed [OF ok _ t]) (use ty t Enter_Loop in \<open>simp_all del: do_act.simps\<close>)
  next
    case (Loop_Test l)
    then have t: "t_loopInThisThread r me = Some l" using ty by simp
    show ?thesis by (rule loop_act_typed [OF ok _ t]) (use ty t Loop_Test in \<open>simp_all del: do_act.simps\<close>)
  next
    case (Dispatch l)
    then have t: "t_loopInThisThread r me = Some l" using ty by simp
    show ?thesis by (rule loop_act_typed [OF ok _ t]) (use ty t Dispatch in \<open>simp_all del: do_act.simps\<close>)
  next
    case (Swap l)
    then have t: "t_loopInThisThread r me = Some l" using ty by simp
    show ?thesis by (rule loop_act_typed [OF ok _ t]) (use ty t Swap in \<open>simp_all del: do_act.simps\<close>)
  next
    case (Run_Swapped l)
    then have t: "t_loopInThisThread r me = Some l" using ty by simp
    show ?thesis by (rule loop_act_typed [OF ok _ t]) (use ty t Run_Swapped in \<open>simp_all del: do_act.simps\<close>)
  qed
qed

section \<open>Property\<close>

inductive reactor_reaches :: "(nat \<Rightarrow> loop_functor set) \<Rightarrow> (nat \<Rightarrow> act list) \<Rightarrow> loop_threads \<Rightarrow> bool" for handlers programs where
  reactor_start: "reactor_reaches handlers programs (start_reactor programs)"
| reactor_next: "reactor_reaches handlers programs r \<Longrightarrow> reactor_step handlers r r' \<Longrightarrow> reactor_reaches handlers programs r'"

lemma start_typed: "(\<And>me. program_typed False None (programs me)) \<Longrightarrow> reactor_typed (start_reactor programs)"
  by (simp add: reactor_typed_def loops_typed_def thread_typed_def inside_def start_reactor_def)

lemma reactor_step_typed:
  assumes "reactor_typed r" "abortion r = None" "handlers_typed handlers" "reactor_step handlers r r'"
  shows "reactor_typed r' \<and> abortion r' = None"
  using assms(4)
proof cases
  case (act_step me a as)
  then show ?thesis using do_act_typed [OF assms(1) act_step(3,4)] by simp
next
  case (handler_step me l as h)
  have ty: "program_typed (inside r me) (t_loopInThisThread r me) (Dispatch l # as)"
    using assms(1) handler_step(3) unfolding reactor_typed_def thread_typed_def by metis
  then have t: "t_loopInThisThread r me = Some l" by simp
  then have "threadId r l = Some me" using assms(1) loopsD(1) by (simp add: reactor_typed_def)
  moreover have "functor_typed l (acts h)" using assms(3) handler_step by (simp add: handlers_typed_def)
  ultimately have "reactor_typed (run_now me l h (Dispatch l # as) r)"
    using run_now_typed [OF assms(1)] ty t by simp
  then show ?thesis using handler_step assms(2) by (simp add: run_now_def)
qed

lemma reactor_reaches_typed:
  assumes "reactor_reaches handlers programs r" "\<And>me. program_typed False None (programs me)" "handlers_typed handlers"
  shows "reactor_typed r \<and> abortion r = None"
  using assms(1)
proof (induction rule: reactor_reaches.induct)
  case reactor_start
  then show ?case using start_typed [of programs] assms(2) by (simp add: start_reactor_def)
next
  case (reactor_next r r')
  then show ?case using reactor_step_typed assms(3) by blast
qed

text \<open>
  C5: Well-typed programs respect the loops' threads. If every functor that is given to a loop, and
  every handler of its channels, touches channels of that loop only, then for any number of threads
  and loops and any interleaving the program is never aborted: no check for the right thread fails, no
  loop is entered twice, no thread gets a second loop. Every functor ran in the thread of its loop, and
  whatever is queued or left of a thread's program is well typed again.\<close>

theorem well_typed_reactor_never_aborts:
  assumes "reactor_reaches handlers programs r" "\<And>me. program_typed False None (programs me)" "handlers_typed handlers"
  shows "abortion r = None \<and> (\<forall>(l, f, me) \<in> set (ran r). isInLoopThread me l r) \<and>
    (\<forall>l. \<forall>f \<in> set (pending_of r l) \<union> set (swapped_of r l). functor_typed l (acts f)) \<and>
    (\<forall>me. program_typed (inside r me) (t_loopInThisThread r me) (todo r me))"
  using reactor_reaches_typed [OF assms]
  by (auto simp: reactor_typed_def thread_typed_def loops_typed_def isInLoopThread_def)

section \<open>Runs\<close>

text \<open>A thread with a loop, and another that gives it a functor, which touches a channel and quits.\<close>

definition example_functor :: loop_functor where
  "example_functor = Functor [Channel_Op 7 7, Quit_Loop 7]"

definition example_programs :: "nat \<Rightarrow> act list" where
  "example_programs me = (if me = 0 then [New_Loop 7, Enter_Loop 7] else if me = 1 then [Run_In 7 example_functor] else [])"

text \<open>A schedule is the list of the threads that move; a thread without anything to do is skipped.\<close>

definition act_of :: "nat \<Rightarrow> loop_threads \<Rightarrow> loop_threads" where
  "act_of me r =
     (case todo r me of [] \<Rightarrow> r | a # as \<Rightarrow> if abortion r = None \<and> exists_for a r then do_act me a as r else r)"

definition run_threads :: "nat list \<Rightarrow> loop_threads \<Rightarrow> loop_threads" where
  "run_threads ms r = fold act_of ms r"

lemma act_of_reaches: "reactor_reaches hs ps r \<Longrightarrow> reactor_reaches hs ps (act_of me r)"
  by (auto simp: act_of_def split: list.split simp del: do_act.simps intro: reactor_next reactor_step.act_step)

lemma run_threads_reaches: "reactor_reaches hs ps r \<Longrightarrow> reactor_reaches hs ps (run_threads ms r)"
  unfolding run_threads_def by (induction ms arbitrary: r) (simp_all add: act_of_reaches)

definition example_reactor :: loop_threads where
  "example_reactor = run_threads [0, 0, 0, 1, 0, 0, 0, 0, 0, 0, 0, 0] (start_reactor example_programs)"

theorem well_typed_reactor_never_aborts_witness:
  "abortion example_reactor = None \<and> ran example_reactor = [(7, example_functor, 0)] \<and> isInLoopThread 0 7 example_reactor"
proof -
  have r: "reactor_reaches (\<lambda>_. {}) example_programs example_reactor"
    unfolding example_reactor_def by (intro run_threads_reaches reactor_start)
  have ran: "ran example_reactor = [(7, example_functor, 0)]" by code_simp
  have "program_typed False None (example_programs me)" for me by (simp add: example_programs_def example_functor_def)
  from well_typed_reactor_never_aborts [OF r this] ran show ?thesis by (simp add: handlers_typed_def)
qed

section \<open>Observations\<close>

text \<open>What the types rule out does abort: a second loop in a thread, and a channel touched by another thread.\<close>

lemma second_loop_aborts:
  "abortion (run_threads [0, 0, 0] (start_reactor (\<lambda>me. [New_Loop 1, New_Loop 2]))) = Some Another_Loop_Exists"
  by code_simp

lemma other_thread_aborts:
  "abortion (run_threads [0, 1] (start_reactor (\<lambda>me. if me = 0 then [New_Loop 1] else [Channel_Op 1 1]))) =
    Some Not_In_Loop_Thread"
  by code_simp

lemma nested_loop_aborts:
  "abortion (run_threads [0, 0, 0, 0, 0, 0, 0, 0, 0, 0] (start_reactor (\<lambda>me. if me = 0
     then [New_Loop 1, Queue_In 1 (Functor [Enter_Loop 1]), Enter_Loop 1] else []))) = Some Assertion_Failed"
  by code_simp

end
