(* ===== verification/Tcp_Connection.thy ===== *)
theory Tcp_Connection
  imports Channel_Poller Http_Server
begin

text \<open>
  \<^verbatim>\<open>TcpConnection.h/.cpp\<close>: one connection on its loop. The model has every handler of the
  channel and every method; the ones that the loop runs later are tasks in the order of
  \<^verbatim>\<open>pendingFunctors_\<close>. What the connection does to the outside (bytes written to the socket,
  the write side shut down, the callbacks of user and server called) is recorded in a trace, with
  the bytes accepted for sending. Results of system calls are inputs. A failed assertion and an
  exception that leaves the message callback end the process; they are errors of the model.
\<close>

section \<open>State\<close>

datatype conn_state = KConnecting | KConnected | KDisconnecting | KDisconnected

datatype conn_error = Assertion_Failed | Uncaught cxx_exn

datatype task =
    Established_Task
  | Destroyed_Task
  | Send_Task string
  | Shutdown_Task
  | Force_Close_Task

datatype conn_event =
    Accepted string
  | Wrote string
  | Shut_Write
  | Up
  | Down
  | Write_Complete
  | Closed

record conn =
  conn_state :: conn_state
  self :: nat
  conn_channel :: channel
  conn_poller :: poller
  inputBuffer :: byte_buffer
  outputBuffer :: byte_buffer
  tasks :: "task list"
  removal_due :: bool
  trace :: "conn_event list"

text \<open>
  The callbacks of the user of the library: the calls they make on the connection, in order. The
  close callback is the server's; it is told with the event \<^term>\<open>Closed\<close> and owes the connection
  one \<^term>\<open>Destroyed_Task\<close> then, which is \<^term>\<open>removal_due\<close>.
\<close>

record user_callbacks =
  on_connection :: "bool \<Rightarrow> conn_action list"
  on_message :: message_callback
  on_write_complete :: "conn_action list"

definition new_connection :: "nat \<Rightarrow> int \<Rightarrow> poller \<Rightarrow> conn" where
  "new_connection p fd po =
     \<lparr>conn_state = KConnecting, self = p, conn_channel = Channel fd, conn_poller = po,
      inputBuffer = Buffer kInitialSize, outputBuffer = Buffer kInitialSize,
      tasks = [Established_Task], removal_due = False, trace = []\<rparr>"

definition emit :: "conn_event \<Rightarrow> conn \<Rightarrow> conn" where
  "emit e c = c\<lparr>trace := trace c @ [e]\<rparr>"

definition queueInLoop :: "task \<Rightarrow> conn \<Rightarrow> conn" where
  "queueInLoop t c = c\<lparr>tasks := tasks c @ [t]\<rparr>"

definition with_channel ::
  "(nat \<Rightarrow> channel \<Rightarrow> poller \<Rightarrow> channel \<times> poller) \<Rightarrow> conn \<Rightarrow> conn" where
  "with_channel f c =
     (let (ch, po) = f (self c) (conn_channel c) (conn_poller c)
      in c\<lparr>conn_channel := ch, conn_poller := po\<rparr>)"

definition writing :: "conn \<Rightarrow> bool" where
  "writing c \<longleftrightarrow> isWriting (conn_channel c)"

section \<open>Sending and closing\<close>

definition sendInLoop :: "string \<Rightarrow> conn \<Rightarrow> conn" where
  "sendInLoop msg c =
     (if conn_state c = KDisconnected then c
      else
        let c = emit (Accepted msg) (c\<lparr>outputBuffer := append_bytes (outputBuffer c) msg\<rparr>)
        in if writing c then c else with_channel enableWriting c)"

definition shutdownInLoop :: "conn \<Rightarrow> conn" where
  "shutdownInLoop c = (if writing c then c else emit Shut_Write c)"

text \<open>
  The public methods, called in the loop's thread (the first argument) or in another thread:
  \<^verbatim>\<open>send\<close> and \<^verbatim>\<open>shutdown\<close> act at once or are queued, \<^verbatim>\<open>forceClose\<close> is always queued.
\<close>

fun call :: "bool \<Rightarrow> conn_action \<Rightarrow> conn \<Rightarrow> conn" where
  "call in_loop (Send msg) c =
     (if conn_state c = KConnected then
        if in_loop then sendInLoop msg c else queueInLoop (Send_Task msg) c
      else c)"
| "call in_loop Shutdown c =
     (if conn_state c = KConnected then
        let c = c\<lparr>conn_state := KDisconnecting\<rparr>
        in if in_loop then shutdownInLoop c else queueInLoop Shutdown_Task c
      else c)"
| "call in_loop ForceClose c =
     (if conn_state c = KConnected \<or> conn_state c = KDisconnecting then
        queueInLoop Force_Close_Task (c\<lparr>conn_state := KDisconnecting\<rparr>)
      else c)"

definition calls :: "conn_action list \<Rightarrow> conn \<Rightarrow> conn" where
  "calls as c = fold (call True) as c"

section \<open>Handlers\<close>

definition handleClose :: "user_callbacks \<Rightarrow> conn \<Rightarrow> conn_error + conn" where
  "handleClose u c =
     (if conn_state c = KConnected \<or> conn_state c = KDisconnecting then
        let c = with_channel disableAll (c\<lparr>conn_state := KDisconnected\<rparr>);
            c = calls (on_connection u False) (emit Down c)
        in Inr (emit Closed (c\<lparr>removal_due := True\<rparr>))
      else Inl Assertion_Failed)"

definition handleRead :: "user_callbacks \<Rightarrow> errno + string \<Rightarrow> conn \<Rightarrow> conn_error + conn" where
  "handleRead u res c =
     (let (n, savedErrno, buf) = readFd (inputBuffer c) res;
          c = c\<lparr>inputBuffer := buf\<rparr>
      in if 0 < n then
           (case on_message u (inputBuffer c) of
              Inl e \<Rightarrow> Inl (Uncaught e)
            | Inr (as, buf) \<Rightarrow> Inr (calls as (c\<lparr>inputBuffer := buf\<rparr>)))
         else if n = 0 then
           if 0 < readableBytes (outputBuffer c) then Inr (c\<lparr>conn_state := KDisconnecting\<rparr>)
           else handleClose u c
         else Inr c)"

definition handleWrite :: "user_callbacks \<Rightarrow> errno + nat \<Rightarrow> conn \<Rightarrow> conn_error + conn" where
  "handleWrite u res c =
     (if writing c then
        let sent = (case res of Inl _ \<Rightarrow> [] | Inr k \<Rightarrow> take k (readable (outputBuffer c)));
            (n, savedErrno, buf) = writeFd (outputBuffer c) res;
            c = emit (Wrote sent) (c\<lparr>outputBuffer := buf\<rparr>)
        in if 0 < n then
             if readableBytes (outputBuffer c) = 0 then
               let c = with_channel disableWriting c;
                   c = calls (on_write_complete u) (emit Write_Complete c)
               in Inr (if conn_state c = KDisconnecting then shutdownInLoop c else c)
             else Inr c
           else Inr c
      else Inr c)"

text \<open>\<^verbatim>\<open>handleError\<close> reads the pending error of the socket and prints it.\<close>

definition handleError :: "conn \<Rightarrow> conn" where
  "handleError c = c"

definition forceCloseInLoop :: "user_callbacks \<Rightarrow> conn \<Rightarrow> conn_error + conn" where
  "forceCloseInLoop u c =
     (if conn_state c = KConnected \<or> conn_state c = KDisconnecting then handleClose u c else Inr c)"

definition connectEstablished :: "user_callbacks \<Rightarrow> conn \<Rightarrow> conn_error + conn" where
  "connectEstablished u c =
     (if conn_state c = KConnecting then
        let c = c\<lparr>conn_state := KConnected, conn_channel := tie_channel (conn_channel c)\<rparr>;
            c = with_channel enableReading c
        in Inr (calls (on_connection u True) (emit Up c))
      else Inl Assertion_Failed)"

definition connectDestroyed :: "user_callbacks \<Rightarrow> conn \<Rightarrow> conn_error + conn" where
  "connectDestroyed u c =
     (let c = (if conn_state c = KConnected then
                 calls (on_connection u False)
                   (emit Down (with_channel disableAll (c\<lparr>conn_state := KDisconnected\<rparr>)))
               else c)
      in case chan_remove (self c) (conn_channel c) (conn_poller c) of
           None \<Rightarrow> Inl Assertion_Failed
         | Some (ch, po) \<Rightarrow> Inr (c\<lparr>conn_channel := ch, conn_poller := po\<rparr>))"

text \<open>The destructor asserts that the connection was closed.\<close>

definition connection_destroy_ok :: "conn \<Rightarrow> bool" where
  "connection_destroy_ok c \<longleftrightarrow> conn_state c = KDisconnected \<and> chan_destroy_ok (conn_channel c)"

section \<open>Inputs of a connection\<close>

text \<open>The callbacks that the constructor binds to the channel, with the results of their calls.\<close>

definition bound_callback ::
  "user_callbacks \<Rightarrow> errno + string \<Rightarrow> errno + nat \<Rightarrow> callback \<Rightarrow> conn \<Rightarrow> conn_error + conn" where
  "bound_callback u rd wr k c =
     (case k of
        Close_Callback \<Rightarrow> handleClose u c
      | Error_Callback \<Rightarrow> Inr (handleError c)
      | Read_Callback \<Rightarrow> handleRead u rd c
      | Write_Callback \<Rightarrow> handleWrite u wr c)"

definition set_handling :: "bool \<Rightarrow> conn \<Rightarrow> conn" where
  "set_handling h c = c\<lparr>conn_channel := (conn_channel c)\<lparr>eventHandling := h\<rparr>\<rparr>"

fun run_task :: "user_callbacks \<Rightarrow> task \<Rightarrow> conn \<Rightarrow> conn_error + conn" where
  "run_task u Established_Task c = connectEstablished u c"
| "run_task u Destroyed_Task c = connectDestroyed u c"
| "run_task u (Send_Task msg) c = Inr (sendInLoop msg c)"
| "run_task u Shutdown_Task c = Inr (shutdownInLoop c)"
| "run_task u Force_Close_Task c = forceCloseInLoop u c"

text \<open>
  What can happen to a connection: its channel is dispatched with a report and the results of
  \<^verbatim>\<open>readv\<close> and \<^verbatim>\<open>write\<close>; the loop runs its next task; a method is called in the loop or in
  another thread; the server, told of the close, queues the destruction.
\<close>

datatype conn_input =
    Ready u32 "errno + string" "errno + nat"
  | Run_Task
  | In_Loop conn_action
  | Other_Thread conn_action
  | Server_Removes

definition conn_step :: "user_callbacks \<Rightarrow> conn_input \<Rightarrow> conn \<Rightarrow> conn_error + conn" where
  "conn_step u i c =
     (case i of
        Ready r rd wr \<Rightarrow>
          handleEvent (tied (conn_channel c)) True set_handling (bound_callback u rd wr) r c
      | Run_Task \<Rightarrow>
          (case tasks c of [] \<Rightarrow> Inr c | t # ts \<Rightarrow> run_task u t (c\<lparr>tasks := ts\<rparr>))
      | In_Loop a \<Rightarrow> Inr (call True a c)
      | Other_Thread a \<Rightarrow> Inr (call False a c)
      | Server_Removes \<Rightarrow> Inr (queueInLoop Destroyed_Task (c\<lparr>removal_due := False\<rparr>)))"

text \<open>
  The kernel reports a descriptor only while it is registered, and only what was asked for, an
  error or a hang-up (\<^verbatim>\<open>epoll_ctl(2)\<close>); a hang-up of a stream socket reads as end of file, so a
  report with urgent data and a hang-up says that there is something to read. A \<^verbatim>\<open>write\<close>
  takes at most what it was given. The server removes a connection that it was told of.
\<close>

definition may_report :: "channel \<Rightarrow> u32 \<Rightarrow> bool" where
  "may_report ch r \<longleftrightarrow> index ch = 1 \<and> r AND NOT (events ch OR EPOLLERR OR EPOLLHUP) = 0 \<and>
     (r AND EPOLLHUP \<noteq> 0 \<longrightarrow> r AND EPOLLPRI \<noteq> 0 \<longrightarrow> r AND EPOLLIN \<noteq> 0)"

fun may_happen :: "conn_input \<Rightarrow> conn \<Rightarrow> bool" where
  "may_happen (Ready r rd wr) c \<longleftrightarrow> may_report (conn_channel c) r"
| "may_happen Run_Task c \<longleftrightarrow> tasks c \<noteq> []"
| "may_happen (In_Loop a) c \<longleftrightarrow> True"
| "may_happen (Other_Thread a) c \<longleftrightarrow> True"
| "may_happen Server_Removes c \<longleftrightarrow> removal_due c"

inductive conn_reaches :: "user_callbacks \<Rightarrow> conn \<Rightarrow> conn \<Rightarrow> bool" for u where
  conn_start: "conn_reaches u c c"
| conn_next: "conn_reaches u c c' \<Longrightarrow> may_happen i c' \<Longrightarrow> conn_step u i c' = Inr c'' \<Longrightarrow>
    conn_reaches u c c''"

section \<open>The channel of a connection\<close>

text \<open>
  A connection's channel is in the epoll set and reads, writing or not, from the moment the
  connection is established until it is closed.
\<close>

definition chan_live :: "channel \<Rightarrow> bool" where
  "chan_live ch \<longleftrightarrow> index ch = 1 \<and> tied ch \<and>
     (events ch = kReadEvent \<or> events ch = kReadEvent OR kWriteEvent)"

definition chan_dead :: "channel \<Rightarrow> bool" where
  "chan_dead ch \<longleftrightarrow> (index ch = 0 \<or> index ch = -1) \<and> events ch = kNoneEvent"

lemma chan_live_steps:
  assumes "chan_live ch"
  shows "chan_live (fst (enableWriting p ch po)) \<and> isWriting (fst (enableWriting p ch po))"
    and "chan_live (fst (disableWriting p ch po)) \<and> \<not> isWriting (fst (disableWriting p ch po))"
    and "chan_dead (fst (disableAll p ch po))"
  using assms
  by (auto simp: chan_live_def chan_dead_def chan_ops updateChannel_def isWriting_def isNoneEvent_def
      epoll_bits Let_def)

lemma enableReading_fresh:
  assumes "index ch = -1" "events ch = kNoneEvent"
  shows "chan_live (fst (enableReading p (tie_channel ch) po)) \<and> \<not> isWriting (fst (enableReading p (tie_channel ch) po))"
  using assms
  by (auto simp: chan_live_def chan_ops updateChannel_def isWriting_def tie_channel_def epoll_bits Let_def)

lemma with_channel_simps [simp]:
  "conn_state (with_channel f c) = conn_state c" "self (with_channel f c) = self c"
  "conn_channel (with_channel f c) = fst (f (self c) (conn_channel c) (conn_poller c))"
  "conn_poller (with_channel f c) = snd (f (self c) (conn_channel c) (conn_poller c))"
  "inputBuffer (with_channel f c) = inputBuffer c" "outputBuffer (with_channel f c) = outputBuffer c"
  "tasks (with_channel f c) = tasks c" "removal_due (with_channel f c) = removal_due c"
  "trace (with_channel f c) = trace c"
  by (simp_all add: with_channel_def split: prod.splits)

lemma emit_simps [simp]:
  "conn_state (emit e c) = conn_state c" "self (emit e c) = self c"
  "conn_channel (emit e c) = conn_channel c" "conn_poller (emit e c) = conn_poller c"
  "inputBuffer (emit e c) = inputBuffer c" "outputBuffer (emit e c) = outputBuffer c"
  "tasks (emit e c) = tasks c" "removal_due (emit e c) = removal_due c"
  "trace (emit e c) = trace c @ [e]"
  by (simp_all add: emit_def)

lemma queueInLoop_simps [simp]:
  "conn_state (queueInLoop t c) = conn_state c" "self (queueInLoop t c) = self c"
  "conn_channel (queueInLoop t c) = conn_channel c" "conn_poller (queueInLoop t c) = conn_poller c"
  "inputBuffer (queueInLoop t c) = inputBuffer c" "outputBuffer (queueInLoop t c) = outputBuffer c"
  "tasks (queueInLoop t c) = tasks c @ [t]" "removal_due (queueInLoop t c) = removal_due c"
  "trace (queueInLoop t c) = trace c"
  by (simp_all add: queueInLoop_def)

section \<open>Control: states, interest and tasks\<close>

definition lifecycle :: "conn_event list \<Rightarrow> conn_event list" where
  "lifecycle tr = filter (\<lambda>e. e = Up \<or> e = Down \<or> e = Closed) tr"

lemma lifecycle_simps [simp]:
  "lifecycle [] = []" "lifecycle (tr @ tr') = lifecycle tr @ lifecycle tr'"
  "lifecycle (Up # tr) = Up # lifecycle tr" "lifecycle (Down # tr) = Down # lifecycle tr"
  "lifecycle (Closed # tr) = Closed # lifecycle tr" "lifecycle (Accepted s # tr) = lifecycle tr"
  "lifecycle (Wrote s # tr) = lifecycle tr" "lifecycle (Shut_Write # tr) = lifecycle tr"
  "lifecycle (Write_Complete # tr) = lifecycle tr"
  by (simp_all add: lifecycle_def)

definition pending :: "conn \<Rightarrow> bool" where
  "pending c \<longleftrightarrow> 0 < readableBytes (outputBuffer c)"

text \<open>
  Before it is established a connection has only that task; open, it reads, and it waits for
  writability whenever output is pending; closed, it has no interest left. The user has been told
  of the connection and the server of its end, once each and in this order.
\<close>

definition control_ok :: "conn \<Rightarrow> bool" where
  "control_ok c \<longleftrightarrow>
     (case conn_state c of
        KConnecting \<Rightarrow> index (conn_channel c) = -1 \<and> events (conn_channel c) = kNoneEvent \<and>
          (tasks c = [Established_Task] \<or> tasks c = []) \<and> \<not> removal_due c \<and>
          lifecycle (trace c) = [] \<and> \<not> pending c
      | KDisconnected \<Rightarrow> chan_dead (conn_channel c) \<and> Established_Task \<notin> set (tasks c) \<and>
          lifecycle (trace c) = [Up, Down, Closed]
      | _ \<Rightarrow> chan_live (conn_channel c) \<and> (pending c \<longrightarrow> writing c) \<and>
          Established_Task \<notin> set (tasks c) \<and> Destroyed_Task \<notin> set (tasks c) \<and> \<not> removal_due c \<and>
          lifecycle (trace c) = [Up])"

definition opened :: "conn \<Rightarrow> bool" where
  "opened c \<longleftrightarrow> conn_state c = KConnected \<or> conn_state c = KDisconnecting"

lemma control_open:
  "opened c \<Longrightarrow> control_ok c \<longleftrightarrow> chan_live (conn_channel c) \<and> (pending c \<longrightarrow> writing c) \<and>
     Established_Task \<notin> set (tasks c) \<and> Destroyed_Task \<notin> set (tasks c) \<and> \<not> removal_due c \<and>
     lifecycle (trace c) = [Up]"
  by (auto simp: opened_def control_ok_def)

lemma new_connection_control: "control_ok (new_connection p fd po)"
  by (simp add: control_ok_def new_connection_def Channel_def kNoneEvent_def pending_def readableBytes_def
      Buffer_def)

lemma sendInLoop_closed: "conn_state c = KDisconnected \<Longrightarrow> sendInLoop s c = c"
  by (simp add: sendInLoop_def)

lemma sendInLoop_state [simp]:
  "conn_state (sendInLoop s c) = conn_state c" "tasks (sendInLoop s c) = tasks c"
  "removal_due (sendInLoop s c) = removal_due c"
  by (simp_all add: sendInLoop_def Let_def)

lemma sendInLoop_control:
  assumes "control_ok c" "opened c"
  shows "control_ok (sendInLoop s c)"
proof -
  have o: "opened (sendInLoop s c)" using assms(2) by (simp add: opened_def)
  have "writing (sendInLoop s c)" "chan_live (conn_channel (sendInLoop s c))"
    "lifecycle (trace (sendInLoop s c)) = lifecycle (trace c)"
    using assms chan_live_steps(1) unfolding control_open [OF assms(2)]
    by (auto simp: sendInLoop_def Let_def writing_def opened_def)
  then show ?thesis using assms unfolding control_open [OF o] control_open [OF assms(2)] by simp
qed

lemma shutdownInLoop_simps [simp]:
  "conn_state (shutdownInLoop c) = conn_state c" "tasks (shutdownInLoop c) = tasks c"
  "removal_due (shutdownInLoop c) = removal_due c" "conn_channel (shutdownInLoop c) = conn_channel c"
  "outputBuffer (shutdownInLoop c) = outputBuffer c" "lifecycle (trace (shutdownInLoop c)) = lifecycle (trace c)"
  by (simp_all add: shutdownInLoop_def)

lemma shutdownInLoop_control: "control_ok c \<Longrightarrow> control_ok (shutdownInLoop c)"
  by (simp add: control_ok_def pending_def writing_def split: conn_state.splits)

lemma call_closed: "\<not> opened c \<Longrightarrow> call b a c = c"
  by (cases a) (auto simp: opened_def)

lemma calls_closed: "\<not> opened c \<Longrightarrow> calls as c = c"
  by (induction as) (simp_all add: calls_def call_closed)

lemma call_control:
  assumes "control_ok c" "opened c"
  shows "control_ok (call b a c)" and "opened (call b a c)"
proof -
  have "control_ok (c\<lparr>conn_state := KDisconnecting\<rparr>)" "opened (c\<lparr>conn_state := KDisconnecting\<rparr>)"
    using assms by (auto simp: control_ok_def opened_def pending_def writing_def)
  moreover have "control_ok (queueInLoop t c)" if "control_ok c" "opened c" "t \<notin> {Established_Task, Destroyed_Task}" for t c
    using that by (auto simp: control_ok_def opened_def pending_def writing_def)
  ultimately show "control_ok (call b a c)"
    using assms by (cases a) (auto simp: Let_def sendInLoop_control shutdownInLoop_control)
  show "opened (call b a c)" using assms(2) by (cases a) (auto simp: opened_def Let_def)
qed

lemma calls_control:
  "control_ok c \<Longrightarrow> opened c \<Longrightarrow> control_ok (calls as c) \<and> opened (calls as c)"
  unfolding calls_def by (induction as arbitrary: c) (simp_all add: call_control)

text \<open>
  A handler goes wrong only with an exception of the message callback; otherwise it leaves a
  connection in order.
\<close>

definition handled :: "user_callbacks \<Rightarrow> conn_error + conn \<Rightarrow> bool" where
  "handled u res \<longleftrightarrow>
     (case res of
        Inl e \<Rightarrow> \<exists>buf x. e = Uncaught x \<and> on_message u buf = Inl x
      | Inr c \<Rightarrow> control_ok c \<and> conn_state c \<noteq> KConnecting)"

lemma handled_simps [simp]:
  "handled u (Inr c) \<longleftrightarrow> control_ok c \<and> conn_state c \<noteq> KConnecting"
  "handled u (Inl e) \<longleftrightarrow> (\<exists>buf x. e = Uncaught x \<and> on_message u buf = Inl x)"
  by (simp_all add: handled_def)

lemma opened_started: "opened c \<Longrightarrow> conn_state c \<noteq> KConnecting"
  by (auto simp: opened_def)

lemma handleClose_control:
  assumes "control_ok c" "opened c"
  shows "\<exists>c'. handleClose u c = Inr c' \<and> control_ok c' \<and> conn_state c' = KDisconnected \<and>
    outputBuffer c' = outputBuffer c \<and> trace c' = trace c @ [Down, Closed] \<and> tasks c' = tasks c"
proof -
  define c1 where "c1 = emit Down (with_channel disableAll (c\<lparr>conn_state := KDisconnected\<rparr>))"
  have "\<not> opened c1" by (simp add: c1_def opened_def)
  then have "handleClose u c = Inr (emit Closed (c1\<lparr>removal_due := True\<rparr>))"
    using assms(2) by (simp add: handleClose_def opened_def Let_def c1_def calls_closed)
  then show ?thesis
    using assms(1) chan_live_steps(3) unfolding control_open [OF assms(2)]
    by (auto simp: control_ok_def c1_def)
qed

lemma inputBuffer_irrelevant [simp]:
  "control_ok (c\<lparr>inputBuffer := b\<rparr>) = control_ok c" "opened (c\<lparr>inputBuffer := b\<rparr>) = opened c"
  by (simp_all add: control_ok_def opened_def pending_def writing_def split: conn_state.splits)

lemma handleRead_control:
  assumes "control_ok c" "opened c"
  shows "handled u (handleRead u rd c)"
proof -
  obtain n e buf where r: "readFd (inputBuffer c) rd = (n, e, buf)" by (cases "readFd (inputBuffer c) rd")
  define c1 where "c1 = c\<lparr>inputBuffer := buf\<rparr>"
  have c1: "control_ok c1" "opened c1" using assms by (simp_all add: c1_def)
  have closing: "control_ok (c1\<lparr>conn_state := KDisconnecting\<rparr>)"
    using c1 by (auto simp: control_ok_def opened_def pending_def writing_def)
  obtain c2 where c2: "handleClose u c1 = Inr c2" "control_ok c2" "conn_state c2 = KDisconnected"
    using handleClose_control [OF c1] by blast
  consider "0 < n" | "n = 0" "pending c1" | "n = 0" "\<not> pending c1" | "n < 0" by linarith
  then show ?thesis
  proof cases
    case 1
    show ?thesis
    proof (cases "on_message u (inputBuffer c1)")
      case (Inl x)
      then show ?thesis using 1 r by (auto simp: handleRead_def c1_def)
    next
      case (Inr res)
      obtain as b where "res = (as, b)" by (cases res)
      then have "handleRead u rd c = Inr (calls as (c1\<lparr>inputBuffer := b\<rparr>))"
        using 1 r Inr by (simp add: handleRead_def c1_def)
      then show ?thesis using calls_control [of "c1\<lparr>inputBuffer := b\<rparr>" as] c1 opened_started by simp
    qed
  next
    case 2
    then have "handleRead u rd c = Inr (c1\<lparr>conn_state := KDisconnecting\<rparr>)"
      using r by (simp add: handleRead_def c1_def pending_def)
    then show ?thesis using closing by simp
  next
    case 3
    then show ?thesis using r c2 by (simp add: handleRead_def c1_def pending_def)
  next
    case 4
    then show ?thesis using r c1 opened_started by (simp add: handleRead_def c1_def)
  qed
qed

lemma writing_opened: "control_ok c \<Longrightarrow> writing c \<Longrightarrow> opened c"
  by (auto simp: control_ok_def opened_def writing_def isWriting_def chan_dead_def chan_simps
      split: conn_state.splits)

lemma retrieve_pending: "0 < readableBytes (retrieve b n) \<Longrightarrow> 0 < readableBytes b"
  by (auto simp: retrieve_def retrieveAll_def readableBytes_def split: if_splits)

lemma handleWrite_form:
  assumes "control_ok c" "writing c"
  obtains c1 n where "control_ok c1" "opened c1"
    "outputBuffer c1 = retrieve (outputBuffer c) n"
    "trace c1 = trace c @ [Wrote (take n (readable (outputBuffer c)))]" "handleWrite u wr c = Inr c1"
  | c1 where "control_ok c1" "opened c1" "outputBuffer c1 = outputBuffer c" "trace c1 = trace c @ [Wrote []]"
    "handleWrite u wr c = Inr c1"
  | n c2 where "wr = Inr n" "0 < n" "control_ok c2" "opened c2"
    "outputBuffer c2 = retrieve (outputBuffer c) n" "readableBytes (outputBuffer c2) = 0"
    "trace c2 = trace c @ [Wrote (take n (readable (outputBuffer c))), Write_Complete]"
    "\<not> writing c2" "conn_state c2 = conn_state c"
    "handleWrite u wr c = Inr (let c3 = calls (on_write_complete u) c2
       in if conn_state c3 = KDisconnecting then shutdownInLoop c3 else c3)"
proof -
  have op: "opened c" by (rule writing_opened [OF assms])
  obtain n e buf where w: "writeFd (outputBuffer c) wr = (n, e, buf)" by (cases "writeFd (outputBuffer c) wr")
  define sent where "sent = (case wr of Inl _ \<Rightarrow> [] | Inr k \<Rightarrow> take k (readable (outputBuffer c)))"
  define c1 where "c1 = emit (Wrote sent) (c\<lparr>outputBuffer := buf\<rparr>)"
  have op1: "opened c1" using op by (simp add: c1_def opened_def)
  have c1: "control_ok c1"
    using assms unfolding control_open [OF op] control_open [OF op1] by (simp add: c1_def writing_def)
  define c2 where "c2 = emit Write_Complete (with_channel disableWriting c1)"
  have op2: "opened c2" using op1 by (simp add: c2_def opened_def)
  have c2: "control_ok c2" if "\<not> pending c1"
    using c1 that chan_live_steps(2) unfolding control_open [OF op1] control_open [OF op2]
    by (simp add: c2_def pending_def)
  have nw: "\<not> writing c2"
    using c1 chan_live_steps(2) unfolding control_open [OF op1] by (simp add: c2_def writing_def)
  have step: "handleWrite u wr c =
      Inr (if 0 < n \<and> \<not> pending c1 then
             (let c3 = calls (on_write_complete u) c2
              in if conn_state c3 = KDisconnecting then shutdownInLoop c3 else c3)
           else c1)"
    using assms(2) w by (simp add: handleWrite_def sent_def c1_def c2_def Let_def pending_def)
  show thesis
  proof (cases wr)
    case (Inl x)
    then show thesis using w step c1 op1 that(2) by (auto simp: writeFd_def c1_def sent_def)
  next
    case (Inr k)
    then have w': "n = int k" "buf = retrieve (outputBuffer c) k" "sent = take k (readable (outputBuffer c))"
      using w by (simp_all add: writeFd_def sent_def)
    show thesis
    proof (cases "0 < n \<and> \<not> pending c1")
      case True
      then show thesis
        using that(3) [OF Inr _ c2 op2] step w' nw by (auto simp: c2_def c1_def pending_def)
    next
      case False
      then have "handleWrite u wr c = Inr c1" using step by auto
      then show thesis using that(1) [OF c1 op1] w' by (auto simp: c1_def)
    qed
  qed
qed

lemma handleWrite_control:
  assumes "control_ok c" "conn_state c \<noteq> KConnecting"
  shows "handled u (handleWrite u wr c)"
proof (cases "writing c")
  case False
  then show ?thesis using assms by (simp add: handleWrite_def)
next
  case True
  show ?thesis
    by (rule handleWrite_form [OF assms(1) True, of u wr])
      (use calls_control opened_started in \<open>auto simp: Let_def shutdownInLoop_control\<close>)
qed

lemma set_handling_simps [simp]:
  "conn_state (set_handling h c) = conn_state c" "control_ok (set_handling h c) = control_ok c"
  "opened (set_handling h c) = opened c" "trace (set_handling h c) = trace c"
  "outputBuffer (set_handling h c) = outputBuffer c" "tasks (set_handling h c) = tasks c"
  "tied (conn_channel (set_handling h c)) = tied (conn_channel c)"
  "removal_due (set_handling h c) = removal_due c"
  by (simp_all add: set_handling_def control_ok_def opened_def pending_def writing_def isWriting_def
      chan_live_def chan_dead_def split: conn_state.splits)

text \<open>A report of the kernel never asks for the close callback and the read callback at once.\<close>

lemma close_excludes_read:
  assumes "chan_live ch" "may_report ch r" "Close_Callback \<in> set (due_callbacks r)"
  shows "Read_Callback \<notin> set (due_callbacks r)"
proof -
  have hup: "r AND EPOLLHUP \<noteq> 0" "r AND EPOLLIN = 0" using assms(3) by (auto simp: due_callbacks_def split: if_splits)
  then have pri: "r AND EPOLLPRI = 0" using assms(2) by (auto simp: may_report_def)
  have "(events ch OR EPOLLERR OR EPOLLHUP) AND EPOLLRDHUP = 0"
    using assms(1) by (auto simp: chan_live_def epoll_bits)
  moreover have "r AND NOT (events ch OR EPOLLERR OR EPOLLHUP) = 0" using assms(2) by (simp add: may_report_def)
  ultimately have "r AND EPOLLRDHUP = 0"
    by (metis (no_types, lifting) and.assoc and.commute and_zero_eq bit.conj_cancel_right
        bit.conj_disj_distrib bit.disj_conj_distrib2 bit.disj_cancel_right bit.disj_zero_right
        word_bw_same(1) bit.conj_one_right)
  then have "r AND (EPOLLIN OR EPOLLPRI OR EPOLLRDHUP) = 0" using hup pri by (simp add: bit.conj_disj_distrib)
  then show ?thesis by (auto simp: due_callbacks_def)
qed

lemma bound_callback_control:
  assumes "control_ok c" "conn_state c \<noteq> KConnecting"
    and "k = Close_Callback \<or> k = Read_Callback \<longrightarrow> opened c"
  shows "handled u (bound_callback u rd wr k c)"
proof (cases k)
  case Close_Callback
  then obtain c' where "handleClose u c = Inr c'" "control_ok c'" "conn_state c' = KDisconnected"
    using assms handleClose_control by blast
  then show ?thesis using Close_Callback by (simp add: bound_callback_def)
qed (use assms in \<open>auto simp: bound_callback_def handleError_def handleRead_control handleWrite_control\<close>)

lemma run_callbacks_handled:
  assumes "control_ok c" "conn_state c \<noteq> KConnecting"
    and "\<forall>k \<in> set ks. k = Error_Callback \<or> k = Write_Callback"
  shows "handled u (run_callbacks (bound_callback u rd wr) ks c)"
  using assms
proof (induction ks arbitrary: c)
  case (Cons k ks)
  have "handled u (bound_callback u rd wr k c)" using bound_callback_control Cons.prems by auto
  then show ?case using Cons by (cases "bound_callback u rd wr k c") auto
qed simp

lemma run_callbacks_append:
  "run_callbacks f (ks @ ks') s =
     (case run_callbacks f ks s of Inl e \<Rightarrow> Inl e | Inr s' \<Rightarrow> run_callbacks f ks' s')"
  by (induction ks arbitrary: s) (auto split: sum.splits)

lemma run_callbacks_one_opened:
  assumes "control_ok c" "opened c" "k = Close_Callback \<or> k = Read_Callback"
    and "\<forall>k \<in> set ks \<union> set ks'. k = Error_Callback \<or> k = Write_Callback" "Write_Callback \<notin> set ks"
  shows "handled u (run_callbacks (bound_callback u rd wr) (ks @ k # ks') c)"
proof -
  have "run_callbacks (bound_callback u rd wr) ks c = Inr c"
    using assms(4,5) by (induction ks) (auto simp: bound_callback_def handleError_def)
  moreover have h: "handled u (bound_callback u rd wr k c)"
    using bound_callback_control assms(1-3) opened_started by blast
  have "handled u (run_callbacks (bound_callback u rd wr) (k # ks') c)"
  proof (cases "bound_callback u rd wr k c")
    case (Inr c')
    then show ?thesis using h run_callbacks_handled assms(4) by auto
  qed (use h in simp)
  ultimately show ?thesis by (simp add: run_callbacks_append)
qed

lemma due_callbacks_shapes:
  assumes "chan_live ch" "may_report ch r"
  obtains ks where "due_callbacks r = ks" "\<forall>k \<in> set ks. k = Error_Callback \<or> k = Write_Callback"
  | ks k ks' where "due_callbacks r = ks @ k # ks'" "k = Close_Callback \<or> k = Read_Callback"
      "\<forall>k \<in> set ks \<union> set ks'. k = Error_Callback \<or> k = Write_Callback" "Write_Callback \<notin> set ks"
proof -
  define err where "err = (if r AND EPOLLERR \<noteq> 0 then [Error_Callback] else [])"
  define wr where "wr = (if r AND EPOLLOUT \<noteq> 0 then [Write_Callback] else [])"
  have parts: "\<forall>k \<in> set err. k = Error_Callback" "\<forall>k \<in> set wr. k = Write_Callback"
    by (auto simp: err_def wr_def)
  have "due_callbacks r \<in> {err @ wr, Close_Callback # err @ wr, err @ Read_Callback # wr,
      Close_Callback # err @ Read_Callback # wr}"
    by (auto simp: due_callbacks_def err_def wr_def)
  moreover have "due_callbacks r \<noteq> Close_Callback # err @ Read_Callback # wr"
    using close_excludes_read [OF assms] by auto
  ultimately consider "due_callbacks r = err @ wr" | "due_callbacks r = [] @ Close_Callback # (err @ wr)"
    | "due_callbacks r = err @ Read_Callback # wr" by auto
  then show thesis
    using that parts by cases (force, (rule that(2), assumption, auto)+)
qed

lemma ready_control:
  assumes "control_ok c" "may_report (conn_channel c) r"
  shows "handled u (conn_step u (Ready r rd wr) c)"
proof -
  have op: "opened c"
    using assms by (auto simp: control_ok_def opened_def may_report_def chan_dead_def split: conn_state.splits)
  then have live: "chan_live (conn_channel c)" using assms(1) control_open by blast
  have c1: "control_ok (set_handling True c)" "opened (set_handling True c)" using assms(1) op by simp_all
  have "handled u (run_callbacks (bound_callback u rd wr) (due_callbacks r) (set_handling True c))"
    using due_callbacks_shapes [OF live assms(2)]
  proof cases
    case (1 ks)
    show ?thesis
      unfolding 1(1) by (rule run_callbacks_handled [OF c1(1) opened_started [OF c1(2)] 1(2)])
  next
    case (2 ks k ks')
    show ?thesis unfolding 2(1) by (rule run_callbacks_one_opened [OF c1 2(2-4)])
  qed
  then show ?thesis
    using live by (auto simp: conn_step_def handleEvent_def handleEventWithGuard_def chan_live_def split: sum.splits)
qed

lemma connectEstablished_control:
  assumes "control_ok c" "conn_state c = KConnecting" "tasks c = []"
  shows "handled u (connectEstablished u c)"
proof -
  define c1 where "c1 = emit Up (with_channel enableReading
      (c\<lparr>conn_state := KConnected, conn_channel := tie_channel (conn_channel c)\<rparr>))"
  have op: "opened c1" by (simp add: c1_def opened_def)
  have "control_ok c1"
    using assms enableReading_fresh unfolding control_open [OF op]
    by (simp add: control_ok_def c1_def pending_def)
  then show ?thesis
    using calls_control [OF _ op] assms(2) opened_started by (simp add: connectEstablished_def c1_def Let_def)
qed

lemma connectDestroyed_control:
  assumes "control_ok c" "conn_state c = KDisconnected"
  shows "\<exists>c'. connectDestroyed u c = Inr c' \<and> control_ok c' \<and> conn_state c' = KDisconnected \<and>
    \<not> addedToLoop (conn_channel c') \<and> eventHandling (conn_channel c') = eventHandling (conn_channel c) \<and>
    outputBuffer c' = outputBuffer c \<and> trace c' = trace c"
proof -
  have "events (conn_channel c) = kNoneEvent" using assms by (simp add: control_ok_def chan_dead_def)
  then show ?thesis
    using assms
    by (auto simp: connectDestroyed_def chan_remove_def isNoneEvent_def removeChannel_def control_ok_def
        chan_dead_def)
qed

lemma run_task_control:
  assumes "control_ok c" "tasks c = t # ts"
  shows "handled u (run_task u t (c\<lparr>tasks := ts\<rparr>))"
proof -
  define c1 where "c1 = c\<lparr>tasks := ts\<rparr>"
  have c1: "control_ok c1"
    using assms by (auto simp: c1_def control_ok_def pending_def writing_def split: conn_state.splits)
  consider "conn_state c = KConnecting" "t = Established_Task" "ts = []" | "conn_state c = KDisconnected" "t \<noteq> Established_Task"
    | "opened c" "t \<noteq> Established_Task" "t \<noteq> Destroyed_Task"
    using assms by (auto simp: control_ok_def opened_def split: conn_state.splits)
  then have "handled u (run_task u t c1)"
  proof cases
    case 1
    then show ?thesis using connectEstablished_control [OF c1] by (simp add: c1_def)
  next
    case 2
    then have st: "conn_state c1 = KDisconnected" by (simp add: c1_def)
    obtain c' where "connectDestroyed u c1 = Inr c'" "control_ok c'" "conn_state c' = KDisconnected"
      using connectDestroyed_control [OF c1 st] by blast
    then show ?thesis
      using 2(2) st c1 by (cases t) (simp_all add: sendInLoop_closed shutdownInLoop_control forceCloseInLoop_def)
  next
    case 3
    then have op: "opened c1" by (simp add: c1_def opened_def)
    obtain c' where "handleClose u c1 = Inr c'" "control_ok c'" "conn_state c' = KDisconnected"
      using handleClose_control [OF c1 op] by blast
    then show ?thesis
      using 3 c1 op opened_started [OF op] sendInLoop_control [OF c1 op] shutdownInLoop_control [OF c1]
      by (cases t) (auto simp: forceCloseInLoop_def opened_def)
  qed
  then show ?thesis by (simp add: c1_def)
qed

lemma conn_step_control:
  assumes "control_ok c" "may_happen i c"
  shows "case conn_step u i c of
      Inl e \<Rightarrow> \<exists>buf x. e = Uncaught x \<and> on_message u buf = Inl x
    | Inr c' \<Rightarrow> control_ok c'"
proof -
  have call: "control_ok (call b a c)" for b a
    using call_control [OF assms(1)] call_closed assms(1) by (cases "opened c") auto
  have drop: ?thesis if "handled u (conn_step u i c)"
    using that by (auto simp: handled_def split: sum.splits)
  show ?thesis
  proof (cases i)
    case (Ready r rd wr)
    then show ?thesis using ready_control [OF assms(1)] assms(2) drop by simp
  next
    case Run_Task
    then obtain t ts where "tasks c = t # ts" using assms(2) by (auto simp: neq_Nil_conv)
    then show ?thesis using Run_Task drop run_task_control [OF assms(1)] by (simp add: conn_step_def)
  next
    case Server_Removes
    then have "conn_state c = KDisconnected" using assms by (auto simp: control_ok_def split: conn_state.splits)
    then show ?thesis using Server_Removes assms(1) by (simp add: conn_step_def control_ok_def)
  qed (use call in \<open>auto simp: conn_step_def\<close>)
qed

lemma reaches_control: "conn_reaches u c c' \<Longrightarrow> control_ok c \<Longrightarrow> control_ok c'"
proof (induction rule: conn_reaches.induct)
  case (conn_next c c' i c'')
  then show ?case using conn_step_control [of c' i u] by auto
qed

section \<open>Data: what was accepted, what was written, what waits\<close>

fun accepted :: "conn_event list \<Rightarrow> string" where
  "accepted [] = []"
| "accepted (Accepted s # tr) = s @ accepted tr"
| "accepted (_ # tr) = accepted tr"

fun wrote :: "conn_event list \<Rightarrow> string" where
  "wrote [] = []"
| "wrote (Wrote s # tr) = s @ wrote tr"
| "wrote (_ # tr) = wrote tr"

lemma accepted_append [simp]: "accepted (tr @ tr') = accepted tr @ accepted tr'"
  by (induction tr rule: accepted.induct) simp_all

lemma wrote_append [simp]: "wrote (tr @ tr') = wrote tr @ wrote tr'"
  by (induction tr rule: wrote.induct) simp_all

text \<open>The write side is shut down only when everything accepted is written, or after the close.\<close>

definition shut_ok :: "conn_event list \<Rightarrow> bool" where
  "shut_ok tr \<longleftrightarrow>
     (\<forall>pre post. tr = pre @ Shut_Write # post \<longrightarrow> Down \<in> set pre \<or> accepted pre = wrote pre)"

lemma shut_ok_snoc:
  "shut_ok (tr @ [e]) \<longleftrightarrow> shut_ok tr \<and> (e = Shut_Write \<longrightarrow> Down \<in> set tr \<or> accepted tr = wrote tr)"
proof
  assume all: "shut_ok (tr @ [e])"
  have "Down \<in> set pre \<or> accepted pre = wrote pre" if "tr = pre @ Shut_Write # post" for pre post
    using all that unfolding shut_ok_def by (metis append.assoc append_Cons)
  then show "shut_ok tr \<and> (e = Shut_Write \<longrightarrow> Down \<in> set tr \<or> accepted tr = wrote tr)"
    using all unfolding shut_ok_def by auto
next
  assume one: "shut_ok tr \<and> (e = Shut_Write \<longrightarrow> Down \<in> set tr \<or> accepted tr = wrote tr)"
  show "shut_ok (tr @ [e])"
    unfolding shut_ok_def
  proof (intro allI impI)
    fix pre post
    assume split: "tr @ [e] = pre @ Shut_Write # post"
    show "Down \<in> set pre \<or> accepted pre = wrote pre"
    proof (cases post rule: rev_cases)
      case Nil
      then show ?thesis using split one by auto
    next
      case (snoc post' e')
      then have "tr = pre @ Shut_Write # post'" using split by simp
      then show ?thesis using one unfolding shut_ok_def by blast
    qed
  qed
qed

text \<open>The accepted bytes fit into memory, with the two reserved parts of the buffer.\<close>

definition memory_holds :: "conn_event list \<Rightarrow> bool" where
  "memory_holds tr \<longleftrightarrow> length (accepted tr) + 24 < SIZE_MAX_P1"

definition output_ok :: "byte_buffer \<Rightarrow> conn_event list \<Rightarrow> bool" where
  "output_ok b tr \<longleftrightarrow>
     (memory_holds tr \<longrightarrow>
        buf_ok b \<and> writeIndex b \<le> kCheapPrepend + length (accepted tr) \<and>
        accepted tr = wrote tr @ readable b \<and> shut_ok tr)"

abbreviation data_ok :: "conn \<Rightarrow> bool" where
  "data_ok c \<equiv> output_ok (outputBuffer c) (trace c)"

lemma output_ok_quiet [simp]:
  assumes "e \<in> {Up, Down, Write_Complete, Closed, Wrote [], Accepted []}"
  shows "output_ok b (tr @ [e]) = output_ok b tr"
proof -
  have "accepted [e] = []" "wrote [e] = []" "e \<noteq> Shut_Write" using assms by auto
  then show ?thesis by (simp add: output_ok_def memory_holds_def shut_ok_snoc)
qed

lemma output_ok_append:
  assumes "output_ok b tr"
  shows "output_ok (append_bytes b s) (tr @ [Accepted s])"
  unfolding output_ok_def
proof (intro impI)
  assume "memory_holds (tr @ [Accepted s])"
  then have mem: "length (accepted tr) + length s + 24 < SIZE_MAX_P1" by (simp add: memory_holds_def)
  then have b: "buf_ok b" "writeIndex b \<le> kCheapPrepend + length (accepted tr)"
    "accepted tr = wrote tr @ readable b" "shut_ok tr"
    using assms by (auto simp: output_ok_def memory_holds_def)
  have fits: "fits b (length s)" using mem b(2) unfolding fits_def kCheapPrepend_def by linarith
  show "buf_ok (append_bytes b s) \<and>
      writeIndex (append_bytes b s) \<le> kCheapPrepend + length (accepted (tr @ [Accepted s])) \<and>
      accepted (tr @ [Accepted s]) = wrote (tr @ [Accepted s]) @ readable (append_bytes b s) \<and>
      shut_ok (tr @ [Accepted s])"
    using append_bytes_ok [OF b(1) fits] b by (simp add: shut_ok_snoc)
qed

lemma output_ok_write:
  assumes "output_ok b tr"
  shows "output_ok (retrieve b n) (tr @ [Wrote (take n (readable b))])"
  using assms
  by (auto simp: output_ok_def memory_holds_def buf_simps shut_ok_snoc intro: order_trans [OF retrieve_writeIndex])

lemma output_ok_shut:
  assumes "output_ok b tr" "readableBytes b = 0 \<or> Down \<in> set tr"
  shows "output_ok b (tr @ [Shut_Write])"
proof -
  have "readable b = []" if "readableBytes b = 0" using that by (simp add: readable_def readableBytes_def)
  then show ?thesis using assms by (auto simp: output_ok_def memory_holds_def shut_ok_snoc)
qed

lemma sendInLoop_data: "data_ok c \<Longrightarrow> data_ok (sendInLoop s c)"
  by (simp add: sendInLoop_def Let_def output_ok_append)

lemma Down_in_lifecycle: "lifecycle tr = [Up, Down, Closed] \<Longrightarrow> Down \<in> set tr"
proof -
  assume "lifecycle tr = [Up, Down, Closed]"
  then have "Down \<in> set (lifecycle tr)" by simp
  then show "Down \<in> set tr" by (simp add: lifecycle_def)
qed

lemma shutdownInLoop_data: "control_ok c \<Longrightarrow> data_ok c \<Longrightarrow> data_ok (shutdownInLoop c)"
  by (auto simp: shutdownInLoop_def control_ok_def pending_def split: conn_state.splits
      intro!: output_ok_shut dest: Down_in_lifecycle)

lemma closing_control:
  assumes "control_ok c" "opened c"
  shows "control_ok (c\<lparr>conn_state := KDisconnecting\<rparr>)"
  using assms by (auto simp: control_ok_def opened_def pending_def writing_def)

lemma call_data:
  assumes "control_ok c" "data_ok c"
  shows "data_ok (call b a c)"
proof (cases "opened c")
  case True
  then show ?thesis
    using assms shutdownInLoop_data [OF closing_control [OF assms(1) True]]
    by (cases a) (simp_all add: Let_def sendInLoop_data)
qed (use assms in \<open>simp add: call_closed\<close>)

lemma calls_data: "control_ok c \<Longrightarrow> opened c \<Longrightarrow> data_ok c \<Longrightarrow> data_ok (calls as c)"
  unfolding calls_def by (induction as arbitrary: c) (simp_all add: call_control call_data)

lemma handleClose_data:
  "control_ok c \<Longrightarrow> opened c \<Longrightarrow> data_ok c \<Longrightarrow> handleClose u c = Inr c' \<Longrightarrow> data_ok c'"
  using handleClose_control [of c u] output_ok_quiet [of Closed "outputBuffer c" "trace c @ [Down]"] by auto

lemma handleRead_data:
  assumes "control_ok c" "opened c" "data_ok c" "handleRead u rd c = Inr c'"
  shows "data_ok c'"
  using assms handleClose_data [of "c\<lparr>inputBuffer := b\<rparr>" for b] calls_data [of "c\<lparr>inputBuffer := b\<rparr>" for b]
  by (auto simp: handleRead_def Let_def split: prod.splits if_splits sum.splits)

lemma handleWrite_data:
  assumes "control_ok c" "data_ok c" "handleWrite u wr c = Inr c'"
  shows "data_ok c'"
proof (cases "writing c")
  case True
  note drained = output_ok_write [OF assms(2)]
  show ?thesis
  proof (rule handleWrite_form [OF assms(1) True, of u wr])
    fix n c2
    assume c2: "control_ok c2" "opened c2" "outputBuffer c2 = retrieve (outputBuffer c) n"
      "trace c2 = trace c @ [Wrote (take n (readable (outputBuffer c))), Write_Complete]"
      "handleWrite u wr c = Inr (let c3 = calls (on_write_complete u) c2
         in if conn_state c3 = KDisconnecting then shutdownInLoop c3 else c3)"
    have "data_ok c2"
      using drained [of n] output_ok_quiet [of Write_Complete _ "trace c @ [Wrote (take n (readable (outputBuffer c)))]"]
      by (simp add: c2 del: output_ok_quiet)
    then have "control_ok (calls (on_write_complete u) c2)" "data_ok (calls (on_write_complete u) c2)"
      using c2 calls_control calls_data by blast+
    then show ?thesis using assms(3) c2(5) shutdownInLoop_data by (auto simp: Let_def split: if_splits)
  qed (use assms drained in auto)
qed (use assms in \<open>simp add: handleWrite_def\<close>)

lemma bound_callback_data:
  assumes "control_ok c" "data_ok c" "k = Close_Callback \<or> k = Read_Callback \<longrightarrow> opened c"
    and "bound_callback u rd wr k c = Inr c'"
  shows "data_ok c'"
proof (cases k)
  case Close_Callback
  then show ?thesis using handleClose_data [OF assms(1) _ assms(2)] assms(3,4) by (simp add: bound_callback_def)
next
  case Error_Callback
  then show ?thesis using assms(2,4) by (simp add: bound_callback_def handleError_def)
next
  case Read_Callback
  then show ?thesis using handleRead_data [OF assms(1) _ assms(2)] assms(3,4) by (simp add: bound_callback_def)
next
  case Write_Callback
  then show ?thesis using handleWrite_data [OF assms(1,2)] assms(4) by (simp add: bound_callback_def)
qed

lemma run_callbacks_data:
  assumes "control_ok c" "conn_state c \<noteq> KConnecting" "data_ok c"
    and "\<forall>k \<in> set ks. k = Error_Callback \<or> k = Write_Callback"
    and "run_callbacks (bound_callback u rd wr) ks c = Inr c'"
  shows "data_ok c'"
  using assms
proof (induction ks arbitrary: c)
  case (Cons k ks)
  obtain c1 where c1: "bound_callback u rd wr k c = Inr c1" "run_callbacks (bound_callback u rd wr) ks c1 = Inr c'"
    using Cons.prems(5) by (auto split: sum.splits)
  have "control_ok c1" "conn_state c1 \<noteq> KConnecting"
    using bound_callback_control [of c k u rd wr] Cons.prems(1,2,4) c1(1) by auto
  moreover have "data_ok c1"
    by (rule bound_callback_data [OF Cons.prems(1,3) _ c1(1)]) (use Cons.prems(4) in auto)
  ultimately show ?case using Cons.IH Cons.prems(4) c1(2) by simp
qed simp

lemma run_callbacks_one_data:
  assumes "control_ok c" "opened c" "data_ok c" "k = Close_Callback \<or> k = Read_Callback"
    and "\<forall>k \<in> set ks \<union> set ks'. k = Error_Callback \<or> k = Write_Callback" "Write_Callback \<notin> set ks"
    and "run_callbacks (bound_callback u rd wr) (ks @ k # ks') c = Inr c'"
  shows "data_ok c'"
proof -
  have "run_callbacks (bound_callback u rd wr) ks c = Inr c"
    using assms(5,6) by (induction ks) (auto simp: bound_callback_def handleError_def)
  then obtain c1 where c1: "bound_callback u rd wr k c = Inr c1"
      "run_callbacks (bound_callback u rd wr) ks' c1 = Inr c'"
    using assms(7) by (auto simp: run_callbacks_append split: sum.splits)
  have "control_ok c1" "conn_state c1 \<noteq> KConnecting"
    using bound_callback_control [of c k u rd wr] assms(1,2) opened_started [OF assms(2)] c1(1) by auto
  moreover have "data_ok c1" using bound_callback_data assms(1-3) c1(1) by blast
  ultimately show ?thesis using run_callbacks_data c1(2) assms(5) by blast
qed

lemma ready_data:
  assumes "control_ok c" "data_ok c" "may_report (conn_channel c) r"
    and "conn_step u (Ready r rd wr) c = Inr c'"
  shows "data_ok c'"
proof -
  have op: "opened c"
    using assms(1,3) by (auto simp: control_ok_def opened_def may_report_def chan_dead_def split: conn_state.splits)
  then have live: "chan_live (conn_channel c)" using assms(1) control_open by blast
  have c1: "control_ok (set_handling True c)" "opened (set_handling True c)" "data_ok (set_handling True c)"
    using assms(1,2) op by simp_all
  obtain c2 where c2: "run_callbacks (bound_callback u rd wr) (due_callbacks r) (set_handling True c) = Inr c2"
      "c' = set_handling False c2"
    using assms(4) live
    by (auto simp: conn_step_def handleEvent_def handleEventWithGuard_def chan_live_def split: sum.splits)
  have "data_ok c2" using due_callbacks_shapes [OF live assms(3)]
  proof cases
    case (1 ks)
    show ?thesis
      by (rule run_callbacks_data [OF c1(1) opened_started [OF c1(2)] c1(3) 1(2)]) (use c2(1) 1(1) in simp)
  next
    case (2 ks k ks')
    show ?thesis by (rule run_callbacks_one_data [OF c1 2(2-4)]) (use c2(1) 2(1) in simp)
  qed
  then show ?thesis using c2(2) by simp
qed

lemma run_task_data:
  assumes "control_ok c" "data_ok c" "tasks c = t # ts" "run_task u t (c\<lparr>tasks := ts\<rparr>) = Inr c'"
  shows "data_ok c'"
proof -
  define c1 where "c1 = c\<lparr>tasks := ts\<rparr>"
  have c1: "control_ok c1" "data_ok c1"
    using assms(1-3) by (auto simp: c1_def control_ok_def pending_def writing_def split: conn_state.splits)
  have run: "run_task u t c1 = Inr c'" using assms(4) by (simp add: c1_def)
  show ?thesis
  proof (cases t)
    case Established_Task
    define c2 where "c2 = emit Up (with_channel enableReading
        (c1\<lparr>conn_state := KConnected, conn_channel := tie_channel (conn_channel c1)\<rparr>))"
    have st: "conn_state c1 = KConnecting" and c': "c' = calls (on_connection u True) c2"
      using run Established_Task by (auto simp: connectEstablished_def c2_def Let_def split: if_splits)
    have op: "opened c2" by (simp add: c2_def opened_def)
    have "control_ok c2"
      using c1(1) st assms(1,3) enableReading_fresh unfolding control_open [OF op]
      by (auto simp: control_ok_def c2_def c1_def pending_def)
    moreover have "data_ok c2" using c1(2) by (simp add: c2_def)
    ultimately show ?thesis using calls_data op c' by blast
  next
    case Destroyed_Task
    then have "conn_state c1 = KDisconnected"
      using assms(1,3) by (auto simp: c1_def control_ok_def split: conn_state.splits)
    from connectDestroyed_control [OF c1(1) this, of u] obtain c2 where
      "connectDestroyed u c1 = Inr c2" "outputBuffer c2 = outputBuffer c1" "trace c2 = trace c1" by blast
    then show ?thesis using run Destroyed_Task c1(2) by simp
  next
    case Force_Close_Task
    then show ?thesis
      using run c1 handleClose_data [of c1 u] by (auto simp: forceCloseInLoop_def opened_def split: if_splits)
  qed (use run c1 sendInLoop_data shutdownInLoop_data in auto)
qed

lemma conn_step_data:
  assumes "control_ok c" "data_ok c" "may_happen i c" "conn_step u i c = Inr c'"
  shows "data_ok c'"
proof (cases i)
  case (Ready r rd wr)
  then show ?thesis using ready_data [OF assms(1,2)] assms(3,4) by simp
next
  case Run_Task
  then obtain t ts where "tasks c = t # ts" using assms(3) by (auto simp: neq_Nil_conv)
  then show ?thesis using Run_Task run_task_data [OF assms(1,2)] assms(4) by (simp add: conn_step_def)
next
  case (In_Loop a)
  then show ?thesis using call_data [OF assms(1,2)] assms(4) by (auto simp: conn_step_def)
next
  case (Other_Thread a)
  then show ?thesis using call_data [OF assms(1,2)] assms(4) by (auto simp: conn_step_def)
next
  case Server_Removes
  then show ?thesis using assms(2,4) by (auto simp: conn_step_def)
qed

lemma new_connection_data: "data_ok (new_connection p fd po)"
  by (simp add: output_ok_def new_connection_def Buffer_ok Buffer_readable shut_ok_def)
    (simp add: Buffer_def)

lemma reaches_data: "conn_reaches u c c' \<Longrightarrow> control_ok c \<Longrightarrow> data_ok c \<Longrightarrow> control_ok c' \<and> data_ok c'"
proof (induction rule: conn_reaches.induct)
  case (conn_next c c' i c'')
  then have ok: "control_ok c'" "data_ok c'" by simp_all
  show ?case
    using conn_step_control [OF ok(1) conn_next.hyps(2), of u]
      conn_step_data [OF ok conn_next.hyps(2,3)] conn_next.hyps(3) by simp
qed simp

lemma reaches_ok:
  "conn_reaches u (new_connection p fd po) c \<Longrightarrow> control_ok c \<and> data_ok c"
  by (rule reaches_data [OF _ new_connection_control new_connection_data])

section \<open>Properties of a connection\<close>

text \<open>
  C1: No bytes are lost, repeated or reordered on the way out: at every moment of a connection's
  life, the bytes accepted by send are the bytes handed to the socket so far followed by the
  bytes that wait in the output buffer, whatever sizes the writes had and whichever threads sent.
\<close>

theorem output_stream_intact:
  assumes "conn_reaches u (new_connection p fd po) c"
    and "length (accepted (trace c)) + 24 < SIZE_MAX_P1"
  shows "accepted (trace c) = wrote (trace c) @ readable (outputBuffer c)"
  using reaches_ok [OF assms(1)] assms(2) by (simp add: output_ok_def memory_holds_def)

text \<open>
  C28: Output never gets stuck: while a connection is open and bytes wait in its output buffer, its
  channel is registered in the epoll set with the write event.
\<close>

theorem pending_output_is_watched:
  assumes "conn_reaches u (new_connection p fd po) c"
    and "conn_state c \<noteq> KDisconnected" "0 < readableBytes (outputBuffer c)"
  shows "index (conn_channel c) = 1 \<and> isWriting (conn_channel c) \<and> isReading (conn_channel c)"
proof -
  have ok: "control_ok c" using reaches_ok [OF assms(1)] by blast
  then have op: "opened c"
    using assms(2,3) by (cases "conn_state c") (auto simp: control_ok_def opened_def pending_def)
  then show ?thesis
    using ok assms(3) unfolding control_open [OF op]
    by (auto simp: pending_def writing_def chan_live_def isReading_def isWriting_def epoll_bits)
qed

text \<open>
  C27: The shutdown is graceful: the write side of the socket is shut down only at a moment when
  every byte accepted until then has been written, unless the connection was closed before.
\<close>

theorem shutdown_after_drain:
  assumes "conn_reaches u (new_connection p fd po) c"
    and "length (accepted (trace c)) + 24 < SIZE_MAX_P1"
    and "trace c = pre @ Shut_Write # post" "Down \<notin> set pre"
  shows "wrote pre = accepted pre"
  using reaches_ok [OF assms(1)] assms(2-4) by (auto simp: output_ok_def memory_holds_def shut_ok_def)

text \<open>
  C35: The callbacks come in order and once: the user is told of the connection, then of its end,
  and right then the server is told to remove it, which is all that can happen; as long as the
  connection is open, it has announced itself and nothing else.
\<close>

theorem lifecycle_callbacks:
  assumes "conn_reaches u (new_connection p fd po) c"
  shows "filter (\<lambda>e. e = Up \<or> e = Down \<or> e = Closed) (trace c) =
    (case conn_state c of KConnecting \<Rightarrow> [] | KDisconnected \<Rightarrow> [Up, Down, Closed] | _ \<Rightarrow> [Up])"
  using reaches_ok [OF assms]
  by (auto simp: control_ok_def lifecycle_def split: conn_state.splits)


section \<open>Runs\<close>

fun conn_run :: "user_callbacks \<Rightarrow> conn_input list \<Rightarrow> conn \<Rightarrow> conn option" where
  "conn_run u [] c = Some c"
| "conn_run u (i # is) c =
     (if may_happen i c then
        case conn_step u i c of Inl e \<Rightarrow> None | Inr c' \<Rightarrow> conn_run u is c'
      else None)"

lemma conn_run_reaches: "conn_run u is c = Some c' \<Longrightarrow> conn_reaches u c0 c \<Longrightarrow> conn_reaches u c0 c'"
  by (induction "is" arbitrary: c) (auto split: if_splits sum.splits intro: conn_next)

text \<open>A connection that is being shut down accepts nothing more.\<close>

lemma calls_disconnecting:
  assumes "conn_state c = KDisconnecting"
  shows "conn_state (calls as c) = KDisconnecting \<and> trace (calls as c) = trace c \<and>
    outputBuffer (calls as c) = outputBuffer c \<and> conn_channel (calls as c) = conn_channel c"
proof -
  have one: "conn_state (call True a c) = KDisconnecting \<and> trace (call True a c) = trace c \<and>
      outputBuffer (call True a c) = outputBuffer c \<and> conn_channel (call True a c) = conn_channel c"
    if "conn_state c = KDisconnecting" for a c
    using that by (cases a) auto
  show ?thesis
    unfolding calls_def using assms one by (induction as arbitrary: c) simp_all
qed

definition writable :: "nat \<Rightarrow> conn_input" where
  "writable n = Ready EPOLLOUT (Inl 11) (Inr n)"

lemma retrieve_readableBytes: "buf_ok b \<Longrightarrow> readableBytes (retrieve b n) = readableBytes b - n"
  using length_readable [of b] length_readable [of "retrieve b n"] by (simp add: buf_simps)

lemma writable_step:
  assumes "control_ok c" "conn_state c = KDisconnecting" "buf_ok (outputBuffer c)"
    and "0 < n" "n \<le> readableBytes (outputBuffer c)"
  shows "may_happen (writable n) c \<and> (\<exists>c'. conn_step u (writable n) c = Inr c' \<and> conn_state c' = KDisconnecting \<and>
    buf_ok (outputBuffer c') \<and> readableBytes (outputBuffer c') = readableBytes (outputBuffer c) - n \<and>
    accepted (trace c') = accepted (trace c) \<and>
    (n = readableBytes (outputBuffer c) \<longrightarrow> last (trace c') = Shut_Write \<and> \<not> isWriting (conn_channel c')))"
proof -
  have op: "opened c" using assms(2) by (simp add: opened_def)
  have live: "chan_live (conn_channel c)" and wr: "writing c"
    using assms(1,4,5) unfolding control_open [OF op] by (auto simp: pending_def)
  then have "events (conn_channel c) = kReadEvent OR kWriteEvent"
    by (auto simp: chan_live_def writing_def isWriting_def epoll_bits)
  then have may: "may_happen (writable n) c"
    using live by (simp add: writable_def may_report_def chan_live_def epoll_bits)
  define c1 where "c1 = emit (Wrote (take n (readable (outputBuffer c))))
      ((set_handling True c)\<lparr>outputBuffer := retrieve (outputBuffer c) n\<rparr>)"
  define c2 where "c2 = calls (on_write_complete u) (emit Write_Complete (with_channel disableWriting c1))"
  have live1: "chan_live (conn_channel c1)" using live by (simp add: c1_def set_handling_def chan_live_def)
  have st1: "conn_state c1 = KDisconnecting" using assms(2) by (simp add: c1_def)
  have left: "readableBytes (outputBuffer c1) = readableBytes (outputBuffer c) - n"
    using retrieve_readableBytes [OF assms(3)] by (simp add: c1_def)
  have c2: "conn_state c2 = KDisconnecting" "trace c2 = trace c1 @ [Write_Complete]"
    "outputBuffer c2 = outputBuffer c1" "\<not> writing c2"
    using calls_disconnecting [of "emit Write_Complete (with_channel disableWriting c1)" "on_write_complete u"] st1
      chan_live_steps(2) [OF live1]
    by (simp_all add: c2_def writing_def)
  have "due_callbacks EPOLLOUT = [Write_Callback]" by (simp add: due_callbacks_def epoll_bits)
  moreover have "writing (set_handling True c)" using wr by (simp add: set_handling_def writing_def isWriting_def)
  ultimately have step: "conn_step u (writable n) c =
      Inr (set_handling False (if readableBytes (outputBuffer c1) = 0 then shutdownInLoop c2 else c1))"
    using live assms(4) c2
    by (simp add: conn_step_def writable_def handleEvent_def handleEventWithGuard_def chan_live_def
        bound_callback_def handleWrite_def writeFd_def c1_def c2_def Let_def)
  have "shutdownInLoop c2 = emit Shut_Write c2" using c2 by (simp add: shutdownInLoop_def)
  then show ?thesis
    using may step left c2 assms(2-5) retrieve_ok [OF assms(3), of n]
    by (auto simp: c1_def set_handling_def writing_def isWriting_def)
qed

lemma writable_run:
  assumes "control_ok c" "conn_state c = KDisconnecting" "buf_ok (outputBuffer c)" "ns \<noteq> []"
    and "\<forall>n \<in> set ns. 0 < n" "sum_list ns = readableBytes (outputBuffer c)"
  shows "\<exists>c'. conn_run u (map writable ns) c = Some c' \<and> readableBytes (outputBuffer c') = 0 \<and>
    \<not> isWriting (conn_channel c') \<and> last (trace c') = Shut_Write \<and> accepted (trace c') = accepted (trace c)"
  using assms
proof (induction ns arbitrary: c)
  case (Cons n ns)
  then obtain c1 where c1: "may_happen (writable n) c" "conn_step u (writable n) c = Inr c1"
    "conn_state c1 = KDisconnecting" "buf_ok (outputBuffer c1)"
    "readableBytes (outputBuffer c1) = readableBytes (outputBuffer c) - n"
    "accepted (trace c1) = accepted (trace c)"
    "n = readableBytes (outputBuffer c) \<longrightarrow> last (trace c1) = Shut_Write \<and> \<not> isWriting (conn_channel c1)"
    using writable_step [of c n u] by auto
  show ?case
  proof (cases ns)
    case Nil
    then show ?thesis using c1 Cons.prems(6) by auto
  next
    case Cons': (Cons m ms)
    have "control_ok c1" using conn_step_control [OF Cons.prems(1) c1(1), of u] c1(2) by simp
    from Cons.IH [OF this c1(3,4)] Cons' Cons.prems(5,6) c1(1,2,5,6) show ?thesis by auto
  qed
qed simp

text \<open>
  C26: A graceful shutdown completes: when a connection is shutting down with output pending and
  the socket keeps taking bytes, in portions of any positive sizes, then every portion is handled,
  and with the last byte the write interest is dropped and the write side of the socket is shut
  down, everything that was accepted having been written.
\<close>

theorem graceful_shutdown_completes:
  assumes "conn_reaches u (new_connection p fd po) c" "conn_state c = KDisconnecting"
    and "length (accepted (trace c)) + 24 < SIZE_MAX_P1"
    and "ns \<noteq> []" "\<forall>n \<in> set ns. 0 < n" "sum_list ns = readableBytes (outputBuffer c)"
  shows "\<exists>c'. conn_run u (map (\<lambda>n. Ready EPOLLOUT (Inl 11) (Inr n)) ns) c = Some c' \<and>
    wrote (trace c') = accepted (trace c) \<and> \<not> isWriting (conn_channel c') \<and>
    last (trace c') = Shut_Write"
proof -
  have ok: "control_ok c" "data_ok c" using reaches_ok [OF assms(1)] by simp_all
  then have "buf_ok (outputBuffer c)" using assms(3) by (simp add: output_ok_def memory_holds_def)
  from writable_run [OF ok(1) assms(2) this assms(4-6)] obtain c' where c':
    "conn_run u (map writable ns) c = Some c'" "readableBytes (outputBuffer c') = 0"
    "\<not> isWriting (conn_channel c')" "last (trace c') = Shut_Write" "accepted (trace c') = accepted (trace c)"
    by blast
  have "data_ok c'" using reaches_ok [OF conn_run_reaches [OF c'(1) assms(1)]] by blast
  moreover have "readable (outputBuffer c') = []" using c'(2) by (simp add: readable_def readableBytes_def)
  ultimately have "wrote (trace c') = accepted (trace c)"
    using c'(5) assms(3) by (simp add: output_ok_def memory_holds_def)
  then show ?thesis using c' by (auto simp: writable_def [abs_def])
qed

section \<open>An echo connection\<close>

definition echo_user :: user_callbacks where
  "echo_user = \<lparr>on_connection = (\<lambda>_. []), on_message = echo_onMessage, on_write_complete = []\<rparr>"

definition echo_conn :: conn where
  "echo_conn = new_connection 1 7 empty_poller"

text \<open>Five bytes are echoed, three of them written, then the connection is shut down.\<close>

definition echo_inputs :: "conn_input list" where
  "echo_inputs = [Run_Task, Ready EPOLLIN (Inr ''hello'') (Inl 11), writable 3, In_Loop Shutdown]"

definition glance :: "conn option \<Rightarrow> (conn_state \<times> bool \<times> string \<times> conn_event list) option" where
  "glance r = map_option (\<lambda>c. (conn_state c, writing c, readable (outputBuffer c), trace c)) r"

lemma glanceD:
  "glance (conn_run u is c) = Some (st, w, out, tr) \<Longrightarrow>
     \<exists>c'. conn_run u is c = Some c' \<and> conn_reaches u c c' \<and> conn_state c' = st \<and> writing c' = w \<and>
       readable (outputBuffer c') = out \<and> trace c' = tr"
  using conn_run_reaches [OF _ conn_start] by (auto simp: glance_def)

lemma echo_halfway:
  "glance (conn_run echo_user echo_inputs echo_conn) =
     Some (KDisconnecting, True, ''lo'', [Up, Accepted ''hello'', Wrote ''hel''])"
  by code_simp

lemma echo_drained:
  "glance (conn_run echo_user (echo_inputs @ [writable 2]) echo_conn) =
     Some (KDisconnecting, False, '''',
       [Up, Accepted ''hello'', Wrote ''hel'', Wrote ''lo'', Write_Complete, Shut_Write])"
  by code_simp

lemmas echo_halfway_conn = glanceD [OF echo_halfway, unfolded echo_conn_def]
lemmas echo_drained_conn = glanceD [OF echo_drained, unfolded echo_conn_def]

theorem output_stream_intact_witness:
  "\<exists>c. conn_reaches echo_user (new_connection 1 7 empty_poller) c \<and>
     accepted (trace c) = wrote (trace c) @ readable (outputBuffer c) \<and> readable (outputBuffer c) = ''lo''"
proof -
  obtain c where c: "conn_reaches echo_user (new_connection 1 7 empty_poller) c"
    "readable (outputBuffer c) = ''lo''" "trace c = [Up, Accepted ''hello'', Wrote ''hel'']"
    using echo_halfway_conn by blast
  have "length (accepted (trace c)) + 24 < SIZE_MAX_P1" by (simp add: c)
  from output_stream_intact [OF c(1) this] show ?thesis using c by blast
qed

theorem pending_output_is_watched_witness:
  "\<exists>c. conn_reaches echo_user (new_connection 1 7 empty_poller) c \<and> conn_state c = KDisconnecting \<and>
     index (conn_channel c) = 1 \<and> isWriting (conn_channel c) \<and> isReading (conn_channel c)"
proof -
  obtain c where c: "conn_reaches echo_user (new_connection 1 7 empty_poller) c"
    "conn_state c = KDisconnecting" "readable (outputBuffer c) = ''lo''"
    using echo_halfway_conn by blast
  have "0 < readableBytes (outputBuffer c)"
    using c(3) by (cases "0 < readableBytes (outputBuffer c)") (simp_all add: readable_def readableBytes_def)
  from pending_output_is_watched [OF c(1) _ this] show ?thesis using c by auto
qed

theorem shutdown_after_drain_witness:
  "\<exists>c pre. conn_reaches echo_user (new_connection 1 7 empty_poller) c \<and> trace c = pre @ [Shut_Write] \<and>
     wrote pre = accepted pre \<and> accepted pre = ''hello''"
proof -
  obtain c where c: "conn_reaches echo_user (new_connection 1 7 empty_poller) c"
    "trace c = [Up, Accepted ''hello'', Wrote ''hel'', Wrote ''lo'', Write_Complete] @ Shut_Write # []"
    using echo_drained_conn by auto
  have "length (accepted (trace c)) + 24 < SIZE_MAX_P1" by (simp add: c)
  from shutdown_after_drain [OF c(1) this c(2)] c show ?thesis by auto
qed

theorem lifecycle_callbacks_witness:
  "\<exists>c. conn_reaches echo_user (new_connection 1 7 empty_poller) c \<and>
     filter (\<lambda>e. e = Up \<or> e = Down \<or> e = Closed) (trace c) = [Up]"
proof -
  obtain c where c: "conn_reaches echo_user (new_connection 1 7 empty_poller) c" "conn_state c = KDisconnecting"
    using echo_halfway_conn by blast
  from lifecycle_callbacks [OF c(1)] c show ?thesis by auto
qed


theorem graceful_shutdown_completes_witness:
  "\<exists>c c'. conn_reaches echo_user (new_connection 1 7 empty_poller) c \<and>
     conn_run echo_user (map (\<lambda>n. Ready EPOLLOUT (Inl 11) (Inr n)) [1, 1]) c = Some c' \<and>
     wrote (trace c') = ''hello'' \<and> last (trace c') = Shut_Write"
proof -
  obtain c where c: "conn_reaches echo_user (new_connection 1 7 empty_poller) c"
    "conn_state c = KDisconnecting" "readable (outputBuffer c) = ''lo''"
    "trace c = [Up, Accepted ''hello'', Wrote ''hel'']"
    using echo_halfway_conn by blast
  have mem: "length (accepted (trace c)) + 24 < SIZE_MAX_P1" by (simp add: c)
  have "buf_ok (outputBuffer c)"
    using reaches_ok [OF c(1)] mem by (simp add: output_ok_def memory_holds_def)
  then have "readableBytes (outputBuffer c) = 2" using length_readable c(3) by fastforce
  then have "[1, 1] \<noteq> ([] :: nat list)" "\<forall>n \<in> set [1, 1 :: nat]. 0 < n"
    "sum_list [1, 1] = readableBytes (outputBuffer c)" by simp_all
  note fin = graceful_shutdown_completes [OF c(1,2) mem this]
  have "accepted (trace c) = ''hello''" by (simp add: c)
  then show ?thesis using fin c(1) by metis
qed

section \<open>Behaviour to know about\<close>

text \<open>
  Sending the empty string turns the write interest on, and nothing turns it off: the handler
  takes the 0 that \<^verbatim>\<open>write\<close> returns for an error, so a writable socket is reported forever.
\<close>

lemma empty_send_keeps_writing:
  "glance (conn_run echo_user [Run_Task, In_Loop (Send ''''), writable 0, writable 0] echo_conn) =
     Some (KConnected, True, '''', [Up, Accepted '''', Wrote '''', Wrote ''''])"
  by code_simp

text \<open>
  After the peer has closed while output is pending, a write that fails (the peer is gone) changes
  nothing: the connection is not closed, and the same report comes back at the next wait.
\<close>

lemma broken_peer_never_closes:
  "glance (conn_run echo_user
     (Run_Task # In_Loop (Send ''x'') # replicate 3 (Ready (EPOLLIN OR EPOLLOUT) (Inr '''') (Inl 32)))
     echo_conn) =
     Some (KDisconnecting, True, ''x'', [Up, Accepted ''x'', Wrote '''', Wrote '''', Wrote ''''])"
  by code_simp

text \<open>
  A shutdown in the loop overtakes what another thread has sent before: the socket is shut down
  for writing first, and the bytes are put into the output buffer after that.
\<close>

lemma shutdown_overtakes_send:
  "glance (conn_run echo_user [Run_Task, Other_Thread (Send ''x''), In_Loop Shutdown, Run_Task] echo_conn) =
     Some (KDisconnecting, True, ''x'', [Up, Shut_Write, Accepted ''x''])"
  by code_simp

text \<open>
  The server's destructor runs \<^verbatim>\<open>connectDestroyed\<close> for every connection it still has; on one that
  is shutting down the channel has its interest still and the assertion in \<^verbatim>\<open>remove\<close> fails.
\<close>

lemma destroying_while_closing_asserts:
  "(case conn_run echo_user [Run_Task, In_Loop Shutdown] echo_conn of
      None \<Rightarrow> False
    | Some c \<Rightarrow> (case connectDestroyed echo_user c of Inl e \<Rightarrow> e = Assertion_Failed | Inr _ \<Rightarrow> False))"
  by code_simp

text \<open>A callback that throws on a message ends the process.\<close>

lemma throwing_callback_escapes:
  "bytes \<noteq> [] \<Longrightarrow> on_message u = (\<lambda>_. Inl x) \<Longrightarrow> handleRead u (Inr bytes) c = Inl (Uncaught x)"
  by (auto simp: handleRead_def readFd_def Let_def)

end
