(* ===== verification/Connection_Order.thy ===== *)
theory Connection_Order
  imports Tcp_Connection "HOL-Library.Sublist"
begin

text \<open>
  The states of a connection in the order of its life, \<^verbatim>\<open>StateE\<close> of \<^verbatim>\<open>TcpConnection.h\<close>, and the
  fact that every handler and method moves forward in it. The order is an instance of the
  library's linear orders; what a handler does to state and history is followed separately, and
  the invariant of the connection puts the two together.
\<close>

section \<open>The order of the states\<close>

fun rank :: "conn_state \<Rightarrow> nat" where
  "rank KConnecting = 0"
| "rank KConnected = 1"
| "rank KDisconnecting = 2"
| "rank KDisconnected = 3"

lemma rank_inj: "rank a = rank b \<Longrightarrow> a = b"
  by (cases a; cases b) simp_all

instantiation conn_state :: linorder
begin

definition less_eq_conn_state :: "conn_state \<Rightarrow> conn_state \<Rightarrow> bool" where
  "less_eq_conn_state a b \<longleftrightarrow> rank a \<le> rank b"

definition less_conn_state :: "conn_state \<Rightarrow> conn_state \<Rightarrow> bool" where
  "less_conn_state a b \<longleftrightarrow> rank a < rank b"

instance
  by standard (auto simp: less_eq_conn_state_def less_conn_state_def rank_inj)

end

section \<open>One step after another\<close>

text \<open>
  The history only grows, and no handler sets the first two states again: a connection that is
  connecting was so before, one that is connected was connecting or connected.
\<close>

definition advances :: "conn \<Rightarrow> conn \<Rightarrow> bool" where
  "advances c c' \<longleftrightarrow> prefix (trace c) (trace c') \<and>
     (conn_state c' = KConnecting \<longrightarrow> conn_state c = KConnecting) \<and>
     (conn_state c' = KConnected \<longrightarrow> conn_state c = KConnecting \<or> conn_state c = KConnected)"

lemma advances_refl [simp]: "advances c c"
  by (simp add: advances_def)

lemma advances_trans: "advances c c' \<Longrightarrow> advances c' c'' \<Longrightarrow> advances c c''"
  unfolding advances_def by (metis prefix_order.trans)

text \<open>Only state and history count, and a step to one of the last two states is always allowed.\<close>

lemma advances_same:
  "conn_state c' = conn_state c \<Longrightarrow> prefix (trace c) (trace c') \<Longrightarrow> advances c c'"
  by (simp add: advances_def)

lemma advances_late:
  "conn_state c' = KDisconnecting \<or> conn_state c' = KDisconnected \<Longrightarrow> prefix (trace c) (trace c') \<Longrightarrow> advances c c'"
  by (auto simp: advances_def)

lemma advances_sendInLoop: "advances c (sendInLoop s c)"
  by (rule advances_same) (simp_all add: sendInLoop_def Let_def)

lemma advances_shutdownInLoop: "advances c (shutdownInLoop c)"
  by (rule advances_same) (simp_all add: shutdownInLoop_def)

lemma advances_call: "advances c (call b a c)"
proof (cases a)
  case Shutdown
  have "advances c (c\<lparr>conn_state := KDisconnecting\<rparr>)" by (simp add: advances_late)
  from advances_trans [OF this advances_shutdownInLoop] show ?thesis
    using Shutdown by (auto simp: Let_def intro: advances_late)
qed (auto simp: Let_def advances_sendInLoop intro: advances_same advances_late)

lemma advances_calls: "advances c (calls as c)"
  unfolding calls_def
proof (induction as arbitrary: c)
  case (Cons a as)
  show ?case using advances_trans [OF advances_call Cons.IH] by simp
qed simp

text \<open>A handler's result that is not an error is an advance.\<close>

definition onward :: "conn \<Rightarrow> conn_error + conn \<Rightarrow> bool" where
  "onward c res \<longleftrightarrow> (\<forall>c'. res = Inr c' \<longrightarrow> advances c c')"

lemma onward_simps [simp]: "onward c (Inl e)" "onward c (Inr c') \<longleftrightarrow> advances c c'"
  by (simp_all add: onward_def)

lemma onward_trans: "advances c c' \<Longrightarrow> onward c' res \<Longrightarrow> onward c res"
  by (auto simp: onward_def intro: advances_trans)

lemma onward_handleClose: "onward c (handleClose u c)"
proof -
  define c1 where "c1 = emit Down (with_channel disableAll (c\<lparr>conn_state := KDisconnected\<rparr>))"
  define c2 where "c2 = calls (on_connection u False) c1"
  have "advances c c1" by (rule advances_late) (simp_all add: c1_def)
  then have "advances c c2" unfolding c2_def using advances_calls by (rule advances_trans)
  moreover have "advances c2 (emit Closed (c2\<lparr>removal_due := True\<rparr>))" by (rule advances_same) simp_all
  ultimately have "advances c (emit Closed (c2\<lparr>removal_due := True\<rparr>))" by (rule advances_trans)
  then show ?thesis by (simp add: handleClose_def Let_def c1_def c2_def)
qed

lemma onward_handleRead: "onward c (handleRead u rd c)"
proof -
  obtain n e buf where r: "readFd (inputBuffer c) rd = (n, e, buf)" by (cases "readFd (inputBuffer c) rd")
  have b: "advances c (c\<lparr>inputBuffer := b\<rparr>)" for b by (rule advances_same) simp_all
  have "advances c (c\<lparr>inputBuffer := buf, conn_state := KDisconnecting\<rparr>)" by (rule advances_late) simp_all
  then show ?thesis
    using r onward_trans [OF b onward_handleClose] advances_trans [OF b advances_calls]
    by (auto simp: handleRead_def Let_def b split: sum.split)
qed

lemma onward_handleWrite: "onward c (handleWrite u wr c)"
proof -
  obtain n e buf where w: "writeFd (outputBuffer c) wr = (n, e, buf)" by (cases "writeFd (outputBuffer c) wr")
  have steps: "advances c (emit (Wrote s) (c\<lparr>outputBuffer := buf\<rparr>))"
    "advances c (emit Write_Complete (with_channel disableWriting (emit (Wrote s) (c\<lparr>outputBuffer := buf\<rparr>))))" for s
    by (rule advances_same; simp)+
  note called = advances_trans [OF steps(2) advances_calls]
  show ?thesis
    using w steps(1) called advances_trans [OF called advances_shutdownInLoop]
    by (auto simp: handleWrite_def Let_def)
qed

lemma onward_connectEstablished: "onward c (connectEstablished u c)"
proof (cases "conn_state c = KConnecting")
  case True
  then have "advances c (emit Up (with_channel enableReading
      (c\<lparr>conn_state := KConnected, conn_channel := tie_channel (conn_channel c)\<rparr>)))"
    by (simp add: advances_def)
  from advances_trans [OF this advances_calls] show ?thesis by (simp add: connectEstablished_def Let_def)
qed (simp add: connectEstablished_def)

lemma onward_connectDestroyed: "onward c (connectDestroyed u c)"
proof -
  have "advances c (emit Down (with_channel disableAll (c\<lparr>conn_state := KDisconnected\<rparr>)))"
    by (rule advances_late) simp_all
  note down = advances_trans [OF this advances_calls]
  have put: "advances c' (c'\<lparr>conn_channel := ch, conn_poller := po\<rparr>)" for c' ch po
    by (rule advances_same) simp_all
  show ?thesis
    by (auto simp: connectDestroyed_def Let_def put advances_trans [OF down put] split: option.split)
qed

lemma onward_forceCloseInLoop: "onward c (forceCloseInLoop u c)"
  by (simp add: forceCloseInLoop_def onward_handleClose)

lemma onward_bound_callback: "onward c (bound_callback u rd wr k c)"
  by (cases k) (simp_all add: bound_callback_def onward_handleClose onward_handleRead onward_handleWrite handleError_def)

lemma onward_run_callbacks: "onward c (run_callbacks (bound_callback u rd wr) ks c)"
proof (induction ks arbitrary: c)
  case (Cons k ks)
  show ?case
  proof (cases "bound_callback u rd wr k c")
    case (Inr c')
    then have "advances c c'" using onward_bound_callback [of c u rd wr k] by simp
    from onward_trans [OF this Cons.IH] show ?thesis using Inr by simp
  qed simp
qed simp

lemma onward_run_task: "onward c (run_task u t c)"
  by (cases t) (simp_all add: onward_connectEstablished onward_connectDestroyed advances_sendInLoop
      advances_shutdownInLoop onward_forceCloseInLoop)

lemma onward_ready: "onward c (conn_step u (Ready r rd wr) c)"
proof -
  have flag: "advances c (set_handling h c)" for c h by (rule advances_same) simp_all
  have run: "onward c (run_callbacks (bound_callback u rd wr) (due_callbacks r) (set_handling True c))"
    by (rule onward_trans [OF flag onward_run_callbacks])
  have "onward c (handleEventWithGuard set_handling (bound_callback u rd wr) r c)"
  proof (cases "run_callbacks (bound_callback u rd wr) (due_callbacks r) (set_handling True c)")
    case (Inr c')
    then have "advances c c'" using run by simp
    from advances_trans [OF this flag] show ?thesis using Inr by (simp add: handleEventWithGuard_def)
  qed (simp add: handleEventWithGuard_def)
  then show ?thesis by (simp add: conn_step_def handleEvent_def)
qed

lemma onward_step: "onward c (conn_step u i c)"
proof (cases i)
  case Run_Task
  have "advances c (c\<lparr>tasks := ts\<rparr>)" for ts by (rule advances_same) simp_all
  from onward_trans [OF this onward_run_task] show ?thesis
    using Run_Task by (simp add: conn_step_def split: list.split)
next
  case Server_Removes
  then show ?thesis by (auto simp: conn_step_def intro: advances_same)
next
  case (Ready r rd wr)
  then show ?thesis using onward_ready by simp
qed (simp_all add: conn_step_def advances_call)

lemma reaches_advances: "conn_reaches u c c' \<Longrightarrow> advances c c'"
proof (induction rule: conn_reaches.induct)
  case (conn_next c c' i c'')
  then show ?case using onward_step [of c' u i] by (auto intro: advances_trans)
qed simp

section \<open>The states only advance\<close>

text \<open>
  The history tells the first, the middle two and the last state apart, so it cannot grow while the
  state goes back; between the middle two it is the handlers that do not.
\<close>

lemma advances_ordered:
  assumes "control_ok c" "control_ok c'" "advances c c'"
  shows "conn_state c \<le> conn_state c'"
proof -
  have "prefix (lifecycle (trace c)) (lifecycle (trace c'))"
    using assms(3) by (auto simp: advances_def prefix_def lifecycle_def)
  then show ?thesis
    using assms by (auto simp: control_ok_def advances_def less_eq_conn_state_def split: conn_state.splits)
qed

text \<open>
  A connection only goes forward in its life: whatever happens to it and in whatever order,
  from connecting over connected and disconnecting to disconnected, it may skip a state but
  never returns to an earlier one.
\<close>

theorem connection_only_advances:
  assumes "conn_reaches u (new_connection p fd po) c" "conn_reaches u c c'"
  shows "conn_state c \<le> conn_state c'"
proof -
  have "control_ok c" using reaches_ok [OF assms(1)] by blast
  from advances_ordered [OF this reaches_control [OF assms(2) this] reaches_advances [OF assms(2)]]
  show ?thesis .
qed

theorem connection_only_advances_witness:
  "\<exists>c c'. conn_reaches echo_user (new_connection 1 7 empty_poller) c \<and> conn_reaches echo_user c c' \<and>
     conn_state c = KConnected \<and> conn_state c' = KDisconnecting \<and> conn_state c \<le> conn_state c'"
proof -
  obtain c where c: "conn_step echo_user Run_Task (new_connection 1 7 empty_poller) = Inr c" "conn_state c = KConnected"
    by (auto simp: conn_step_def new_connection_def connectEstablished_def echo_user_def calls_def Let_def)
  have "may_happen Run_Task (new_connection 1 7 empty_poller)" by (simp add: new_connection_def)
  from conn_next [OF conn_start this c(1)] have r: "conn_reaches echo_user (new_connection 1 7 empty_poller) c" .
  have "conn_step echo_user (In_Loop Shutdown) c = Inr (call True Shutdown c)" by (simp add: conn_step_def)
  from conn_next [OF conn_start _ this] have r': "conn_reaches echo_user c (call True Shutdown c)" by simp
  have "conn_state (call True Shutdown c) = KDisconnecting" using c(2) by simp
  then show ?thesis using connection_only_advances [OF r r'] r r' c(2) by blast
qed

end
