(* ===== verification/Inet_Address.thy ===== *)
theory Inet_Address
  imports Std_Format
begin

text \<open>
  \<^verbatim>\<open>InetAddress.h/.cpp\<close>: an IPv4 address with a port. The bytes of the address are kept in network
  order, as \<^verbatim>\<open>sin_addr\<close> has them; of \<^verbatim>\<open>inet_ntop\<close> and \<^verbatim>\<open>inet_pton\<close> for \<^verbatim>\<open>AF_INET\<close> the model has
  the dotted decimal notation, four numbers up to 255 without leading zeros.
\<close>

type_synonym u8 = "8 word"

record inet_address =
  sin_addr :: "u8 \<times> u8 \<times> u8 \<times> u8"
  sin_port :: u16

definition INADDR_ANY :: "u8 \<times> u8 \<times> u8 \<times> u8" where
  "INADDR_ANY = (0, 0, 0, 0)"

definition INADDR_LOOPBACK :: "u8 \<times> u8 \<times> u8 \<times> u8" where
  "INADDR_LOOPBACK = (127, 0, 0, 1)"

section \<open>Dotted decimals\<close>

definition inet_ntop :: "u8 \<times> u8 \<times> u8 \<times> u8 \<Rightarrow> string" where
  "inet_ntop q = (case q of (a, b, c, d) \<Rightarrow>
     dec (unat a) @ ''.'' @ dec (unat b) @ ''.'' @ dec (unat c) @ ''.'' @ dec (unat d))"

fun split_at :: "char \<Rightarrow> string \<Rightarrow> string list" where
  "split_at s [] = [[]]"
| "split_at s (x # xs) =
     (if x = s then [] # split_at s xs
      else case split_at s xs of [] \<Rightarrow> [[x]] | w # ws \<Rightarrow> (x # w) # ws)"

definition is_digit :: "char \<Rightarrow> bool" where
  "is_digit c \<longleftrightarrow> CHR ''0'' \<le> c \<and> c \<le> CHR ''9''"

definition octet :: "string \<Rightarrow> u8 option" where
  "octet s =
     (if s \<noteq> [] \<and> length s \<le> 3 \<and> list_all is_digit s \<and> (hd s = CHR ''0'' \<longrightarrow> length s = 1) \<and>
         dec_value 0 s \<le> 255
      then Some (of_nat (dec_value 0 s)) else None)"

definition inet_pton :: "string \<Rightarrow> (u8 \<times> u8 \<times> u8 \<times> u8) option" where
  "inet_pton s =
     (case map octet (split_at CHR ''.'' s) of
        [Some a, Some b, Some c, Some d] \<Rightarrow> Some (a, b, c, d)
      | _ \<Rightarrow> None)"

section \<open>The class\<close>

text \<open>The constructor from port, text and flag; a text that is no address means any address.\<close>

definition InetAddress :: "u16 \<Rightarrow> string \<Rightarrow> bool \<Rightarrow> inet_address" where
  "InetAddress port ip loopbackOnly =
     \<lparr>sin_addr =
        (if loopbackOnly then INADDR_LOOPBACK
         else if ip = [] \<or> ip = ''INADDR_ANY'' then INADDR_ANY
         else case inet_pton (c_str ip) of None \<Rightarrow> INADDR_ANY | Some q \<Rightarrow> q),
      sin_port = port\<rparr>"

definition toIp :: "inet_address \<Rightarrow> string" where
  "toIp a = inet_ntop (sin_addr a)"

definition toIpPort :: "inet_address \<Rightarrow> string" where
  "toIpPort a = snprintf 128 (inet_ntop (sin_addr a) @ '':'' @ dec (unat (sin_port a)))"

section \<open>Facts\<close>

lemma octet_bound: "unat (a :: u8) < 256"
  using unsigned_less [of a] by simp

lemma port_bound: "unat (a :: u16) < 65536"
  using unsigned_less [of a] by simp

lemma digit_char_digit: "d < 10 \<Longrightarrow> is_digit (digit_char d)"
  by (simp add: is_digit_def less_eq_char_def digit_char_code)

lemma dec_digits: "list_all is_digit (dec n)"
  using set_dec digit_char_digit by (fastforce simp: list_all_iff)

lemma length_octet: "length (dec (unat (a :: u8))) \<le> 3"
  using octet_bound [of a] by (intro length_dec_le) auto

lemma dec_hd: "hd (dec n) = CHR ''0'' \<Longrightarrow> n = 0"
proof (induction n rule: dec.induct)
  case (1 n)
  show ?case
  proof (cases "n < 10")
    case True
    then have "of_char (hd (dec n)) = (48 + n :: nat)" by (simp add: dec.simps [of n] digit_char_code)
    with 1 show ?thesis by simp
  next
    case False
    then have "hd (dec n) = hd (dec (n div 10))" by (subst dec.simps) simp
    with 1 False have "n div 10 = 0" by simp
    with False show ?thesis by simp
  qed
qed

lemma octet_dec: "octet (dec (unat a)) = Some a"
proof -
  have "hd (dec (unat a)) = CHR ''0'' \<longrightarrow> length (dec (unat a)) = 1"
    using dec_hd [of "unat a"] dec.simps [of 0] by auto
  then show ?thesis
    using octet_bound [of a] by (simp add: octet_def length_octet dec_digits dec_value_dec)
qed

lemma split_at_append:
  "s \<notin> set w \<Longrightarrow> split_at s (w @ s # rest) = w # split_at s rest" "s \<notin> set w \<Longrightarrow> split_at s w = [w]"
  by (induction w) (auto split: list.split)

lemma not_in_dec: "\<not> is_digit c \<Longrightarrow> c \<notin> set (dec n)"
  using dec_digits [of n] by (auto simp: list_all_iff)

lemma no_digits [simp]: "\<not> is_digit CHR ''.''" "\<not> is_digit CHR '':''" "\<not> is_digit CHR ''#''" "\<not> is_digit CHR 0x00"
  "\<not> is_digit CHR ''-''"
  by (simp_all add: is_digit_def less_eq_char_def)

lemma inet_pton_ntop: "inet_pton (inet_ntop q) = Some q"
proof -
  obtain a b c d where q: "q = (a, b, c, d)" by (cases q)
  have "split_at CHR ''.'' (inet_ntop q) = [dec (unat a), dec (unat b), dec (unat c), dec (unat d)]"
    by (simp add: inet_ntop_def q split_at_append not_in_dec)
  then show ?thesis by (simp add: inet_pton_def octet_dec q)
qed

lemma set_inet_ntop: "c \<in> set (inet_ntop q) \<Longrightarrow> c = CHR ''.'' \<or> is_digit c"
  using not_in_dec by (fastforce simp: inet_ntop_def split: prod.splits)

lemma length_inet_ntop: "length (inet_ntop q) \<le> 15"
proof -
  obtain a b c d where q: "q = (a, b, c, d)" by (cases q)
  show ?thesis
    using length_octet [of a] length_octet [of b] length_octet [of c] length_octet [of d]
    by (simp add: inet_ntop_def q)
qed

lemma length_port: "length (dec (unat (p :: u16))) \<le> 5"
  using port_bound [of p] by (intro length_dec_le) auto

lemma toIpPort_eq: "toIpPort a = inet_ntop (sin_addr a) @ '':'' @ dec (unat (sin_port a))"
  using length_inet_ntop [of "sin_addr a"] length_port [of "sin_port a"]
  by (simp add: toIpPort_def snprintf_id)

lemma length_toIpPort: "length (toIpPort a) \<le> 21"
  using length_inet_ntop [of "sin_addr a"] length_port [of "sin_port a"] by (simp add: toIpPort_eq)

lemma inet_ntop_text: "inet_ntop q \<noteq> []" "inet_ntop q \<noteq> ''INADDR_ANY''" "CHR 0x00 \<notin> set (inet_ntop q)"
proof -
  obtain a b c d where q: "q = (a, b, c, d)" by (cases q)
  show "inet_ntop q \<noteq> []" by (simp add: inet_ntop_def q)
  have "CHR ''I'' \<notin> set (inet_ntop q)"
    using set_inet_ntop [of "CHR ''I''" q] by (auto simp: is_digit_def less_eq_char_def)
  then show "inet_ntop q \<noteq> ''INADDR_ANY''" by (metis list.set_intros(1))
  show "CHR 0x00 \<notin> set (inet_ntop q)" using set_inet_ntop [of "CHR 0x00" q] by auto
qed

text \<open>
  An address that is printed and read again is the same: constructing an address from the
  text of any address and its port gives that address.\<close>

theorem printed_address_reads_back: "InetAddress (sin_port a) (toIp a) False = a"
proof -
  have "inet_pton (c_str (toIp a)) = Some (sin_addr a)"
    using inet_ntop_text(3) [of "sin_addr a"] by (simp add: toIp_def c_str_id inet_pton_ntop)
  then show ?thesis
    using inet_ntop_text [of "sin_addr a"] by (simp add: InetAddress_def toIp_def)
qed

text \<open>Different addresses print differently.\<close>

lemma inet_ntop_inj: "inet_ntop q = inet_ntop r \<longleftrightarrow> q = r"
  by (metis inet_pton_ntop option.inject)

lemma append_sep_inj:
  "x @ c # y = x' @ c # y' \<Longrightarrow> c \<notin> set x \<Longrightarrow> c \<notin> set x' \<Longrightarrow> x = x' \<and> y = y'"
  by (induction x arbitrary: x') (case_tac x'; auto)+

lemma toIpPort_inj: "toIpPort a = toIpPort b \<longleftrightarrow> a = b"
proof
  assume eq: "toIpPort a = toIpPort b"
  have colon: "CHR '':'' \<notin> set (inet_ntop q)" for q using set_inet_ntop [of "CHR '':''" q] by auto
  have "inet_ntop (sin_addr a) = inet_ntop (sin_addr b) \<and> dec (unat (sin_port a)) = dec (unat (sin_port b))"
    using append_sep_inj [OF _ colon colon] eq by (simp add: toIpPort_eq)
  then show "a = b" by (cases a, cases b) (simp add: inet_ntop_inj dec_inj word_unat_eq_iff)
qed simp

end
