(* ===== verification/Acceptor.thy ===== *)
theory Acceptor
  imports Channel_Poller Inet_Address
begin

text \<open>
  \<^verbatim>\<open>Socket.h/.cpp\<close> and \<^verbatim>\<open>Acceptor.h/.cpp\<close>: the listening socket of a server and what it does when
  the process has no descriptors left. The kernel's side is the table of open descriptors with its
  limit and the queue of connections that wait to be accepted; a new descriptor is the lowest
  free one.
\<close>

section \<open>Descriptors\<close>

record kernel =
  fd_limit :: nat
  open_fds :: "nat set"
  backlog :: "inet_address list"

datatype sys_error = EMFILE | EAGAIN | Other_Errno int

definition free_fds :: "kernel \<Rightarrow> nat list" where
  "free_fds k = filter (\<lambda>n. n \<notin> open_fds k) [0..<fd_limit k]"

definition sys_open :: "kernel \<Rightarrow> (sys_error + nat) \<times> kernel" where
  "sys_open k =
     (case free_fds k of
        [] \<Rightarrow> (Inl EMFILE, k)
      | n # ns \<Rightarrow> (Inr n, k\<lparr>open_fds := insert n (open_fds k)\<rparr>))"

text \<open>
  \<^verbatim>\<open>accept4\<close> needs a free descriptor before it looks at the queue. Its other failures, of the
  connection or the network, are the argument.
\<close>

definition sys_accept :: "int option \<Rightarrow> kernel \<Rightarrow> (sys_error + nat \<times> inet_address) \<times> kernel" where
  "sys_accept err k =
     (case free_fds k of
        [] \<Rightarrow> (Inl EMFILE, k)
      | n # ns \<Rightarrow>
          (case (err, backlog k) of
             (Some e, _) \<Rightarrow> (Inl (Other_Errno e), k)
           | (None, []) \<Rightarrow> (Inl EAGAIN, k)
           | (None, p # ps) \<Rightarrow> (Inr (n, p), k\<lparr>open_fds := insert n (open_fds k), backlog := ps\<rparr>)))"

text \<open>Closing a number that is no open descriptor fails and changes nothing.\<close>

definition sys_close :: "nat option \<Rightarrow> kernel \<Rightarrow> kernel" where
  "sys_close fd k = (case fd of None \<Rightarrow> k | Some n \<Rightarrow> k\<lparr>open_fds := open_fds k - {n}\<rparr>)"

section \<open>Socket\<close>

text \<open>A socket owns a descriptor or, after it was closed or moved from, none (the value -1).\<close>

record socket =
  sockfd :: "nat option"

definition Socket :: "kernel \<Rightarrow> (socket \<times> kernel) option" where
  "Socket k =
     (case sys_open k of (Inl e, k) \<Rightarrow> None | (Inr n, k) \<Rightarrow> Some (\<lparr>sockfd = Some n\<rparr>, k))"

definition socket_close :: "socket \<Rightarrow> kernel \<Rightarrow> socket \<times> kernel" where
  "socket_close s k = (if sockfd s = None then (s, k) else (s\<lparr>sockfd := None\<rparr>, sys_close (sockfd s) k))"

definition socket_move :: "socket \<Rightarrow> socket \<times> socket" where
  "socket_move other = (\<lparr>sockfd = sockfd other\<rparr>, other\<lparr>sockfd := None\<rparr>)"

definition socket_assign :: "socket \<Rightarrow> socket \<Rightarrow> kernel \<Rightarrow> socket \<times> socket \<times> kernel" where
  "socket_assign this other k =
     (case socket_close this k of (this, k) \<Rightarrow> (this\<lparr>sockfd := sockfd other\<rparr>, other\<lparr>sockfd := None\<rparr>, k))"

text \<open>\<^verbatim>\<open>Socket::accept\<close>: the descriptor and the peer's address, or the error left in \<^verbatim>\<open>errno\<close>.\<close>

definition socket_accept :: "int option \<Rightarrow> kernel \<Rightarrow> (sys_error + nat \<times> inet_address) \<times> kernel" where
  "socket_accept err k = sys_accept err k"

section \<open>Acceptor\<close>

record acceptor =
  acceptSocket :: socket
  acceptChannel :: channel
  listening :: bool
  idleFd :: "nat option"

text \<open>The constructor; \<^term>\<open>None\<close>, no socket could be created, which ends the process.\<close>

definition Acceptor :: "kernel \<Rightarrow> (acceptor \<times> kernel) option" where
  "Acceptor k =
     (case Socket k of
        None \<Rightarrow> None
      | Some (s, k) \<Rightarrow>
          (case sys_open k of
             (r, k) \<Rightarrow> Some (\<lparr>acceptSocket = s, acceptChannel = Channel (int (the (sockfd s))), listening = False,
               idleFd = (case r of Inl _ \<Rightarrow> None | Inr n \<Rightarrow> Some n)\<rparr>, k)))"

text \<open>\<open>p\<close> is the address of the channel.\<close>

definition listen :: "nat \<Rightarrow> acceptor \<times> poller \<Rightarrow> acceptor \<times> poller" where
  "listen p apo =
     (case enableReading p (acceptChannel (fst apo)) (snd apo) of
        (ch, po) \<Rightarrow> ((fst apo)\<lparr>listening := True, acceptChannel := ch\<rparr>, po))"

text \<open>
  \<^verbatim>\<open>handleRead\<close>. What is handed to the callback for new connections is the middle result; without a
  callback (the first argument) the connection is closed again. The errors of the two calls of
  \<^verbatim>\<open>accept\<close> are the next two.
\<close>

definition handleAccept ::
  "bool \<Rightarrow> int option \<Rightarrow> int option \<Rightarrow> acceptor \<times> kernel \<Rightarrow> acceptor \<times> (nat \<times> inet_address) option \<times> kernel" where
  "handleAccept has_callback e1 e2 ak =
     (case ak of (a, k) \<Rightarrow>
        case socket_accept e1 k of
          (Inr (connfd, peerAddr), k) \<Rightarrow>
            if has_callback then (a, Some (connfd, peerAddr), k) else (a, None, sys_close (Some connfd) k)
        | (Inl EMFILE, k) \<Rightarrow>
            let k = sys_close (idleFd a) k;
                (r, k) = socket_accept e2 k;
                idle = (case r of Inl _ \<Rightarrow> None | Inr (n, _) \<Rightarrow> Some n);
                k = (if idle = None then k else sys_close idle k);
                (r, k) = sys_open k
            in (a\<lparr>idleFd := (case r of Inl _ \<Rightarrow> None | Inr n \<Rightarrow> Some n)\<rparr>, None, k)
        | (Inl _, k) \<Rightarrow> (a, None, k))"

text \<open>\<^verbatim>\<open>~Acceptor\<close> and then the socket's destructor; \<^term>\<open>None\<close>, an assertion of the channel fails.\<close>

definition destroy_acceptor :: "nat \<Rightarrow> acceptor \<times> poller \<times> kernel \<Rightarrow> (poller \<times> kernel) option" where
  "destroy_acceptor p apk =
     (case apk of (a, po, k) \<Rightarrow>
        case disableAll p (acceptChannel a) po of
          (ch, po) \<Rightarrow>
            (case chan_remove p ch po of
               None \<Rightarrow> None
             | Some (ch, po) \<Rightarrow> Some (po, snd (socket_close (acceptSocket a) (sys_close (idleFd a) k)))))"

section \<open>Facts\<close>

definition kernel_ok :: "kernel \<Rightarrow> bool" where
  "kernel_ok k \<longleftrightarrow> open_fds k \<subseteq> {..<fd_limit k}"

definition acceptor_ok :: "acceptor \<Rightarrow> kernel \<Rightarrow> bool" where
  "acceptor_ok a k \<longleftrightarrow> kernel_ok k \<and>
     (\<exists>i s. idleFd a = Some i \<and> sockfd (acceptSocket a) = Some s \<and> i \<noteq> s \<and> i \<in> open_fds k \<and> s \<in> open_fds k)"

lemma set_free_fds: "set (free_fds k) = {..<fd_limit k} - open_fds k"
  by (auto simp: free_fds_def)

lemma free_fds_Cons:
  "free_fds k = n # ns \<Longrightarrow> n < fd_limit k \<and> n \<notin> open_fds k"
  using set_free_fds [of k] by auto

lemma only_free_fd:
  assumes "kernel_ok k" "free_fds k = []" "i \<in> open_fds k"
  shows "free_fds (k\<lparr>open_fds := open_fds k - {i}\<rparr>) = [i]"
proof -
  have full: "open_fds k = {..<fd_limit k}" using assms(1,2) set_free_fds [of k] by (auto simp: kernel_ok_def)
  then have "i < fd_limit k" using assms(3) by simp
  then have "[0..<fd_limit k] = [0..<i] @ i # [Suc i..<fd_limit k]"
    by (metis le_add1 add_0 upt_add_eq_append less_imp_add_positive upt_conv_Cons less_imp_le_nat le0 append_Nil)
  then have "free_fds (k\<lparr>open_fds := open_fds k - {i}\<rparr>) =
      filter (\<lambda>n. n \<notin> {..<fd_limit k} - {i}) ([0..<i] @ i # [Suc i..<fd_limit k])"
    by (simp add: free_fds_def full)
  also have "\<dots> = [i]" using \<open>i < fd_limit k\<close> by (auto simp: filter_empty_conv)
  finally show ?thesis .
qed

lemma sys_open_full: "free_fds k = [n] \<Longrightarrow> sys_open k = (Inr n, k\<lparr>open_fds := insert n (open_fds k)\<rparr>)"
  by (simp add: sys_open_def)

lemma free_fds_backlog [simp]: "free_fds (k\<lparr>backlog := ps\<rparr>) = free_fds k"
  by (simp add: free_fds_def)

text \<open>With the table full: the spare descriptor is given up, used to accept and close, and taken back.\<close>

lemma handleAccept_full:
  assumes ok: "acceptor_ok a k" and full: "free_fds k = []"
  shows "handleAccept cb e1 e2 (a, k) =
    (a, None, case (e2, backlog k) of (None, p # ps) \<Rightarrow> k\<lparr>backlog := ps\<rparr> | _ \<Rightarrow> k)"
proof -
  obtain i where i: "idleFd a = Some i" "i \<in> open_fds k" and kok: "kernel_ok k" using ok by (auto simp: acceptor_ok_def)
  define k1 where "k1 = k\<lparr>open_fds := open_fds k - {i}\<rparr>"
  have free: "free_fds k1 = [i]" unfolding k1_def by (rule only_free_fd [OF kok full i(2)])
  have refill: "k1\<lparr>open_fds := insert i (open_fds k1)\<rparr> = k" using i(2) by (simp add: k1_def insert_absorb)
  have first: "socket_accept e1 k = (Inl EMFILE, k)" using full by (simp add: socket_accept_def sys_accept_def)
  have same: "a\<lparr>idleFd := Some i\<rparr> = a" using i(1) by simp
  show ?thesis
  proof (cases "e2 = None \<and> backlog k \<noteq> []")
    case True
    then obtain p ps where p: "e2 = None" "backlog k = p # ps" by (cases "backlog k") auto
    define k2 where "k2 = k1\<lparr>backlog := ps\<rparr>"
    have acc: "socket_accept e2 k1 = (Inr (i, p), k1\<lparr>open_fds := insert i (open_fds k1), backlog := ps\<rparr>)"
      using free p by (simp add: socket_accept_def sys_accept_def k1_def)
    have "sys_close (Some i) (k1\<lparr>open_fds := insert i (open_fds k1), backlog := ps\<rparr>) = k2"
      by (simp add: sys_close_def k1_def k2_def)
    moreover have "sys_open k2 = (Inr i, k\<lparr>backlog := ps\<rparr>)"
      using free refill i(2) by (simp add: sys_open_def k2_def) (simp add: k1_def insert_absorb)
    moreover have "sys_close (Some i) k = k1" by (simp add: sys_close_def k1_def)
    ultimately show ?thesis
      using first acc i(1) p same by (simp add: handleAccept_def)
  next
    case False
    then have acc: "\<exists>e. socket_accept e2 k1 = (Inl e, k1)"
      using free by (auto simp: socket_accept_def sys_accept_def k1_def split: option.split list.split)
    moreover have "sys_open k1 = (Inr i, k)" using free refill by (simp add: sys_open_def)
    moreover have "sys_close (Some i) k = k1" by (simp add: sys_close_def k1_def)
    moreover have "(case (e2, backlog k) of (None, p # ps) \<Rightarrow> k\<lparr>backlog := ps\<rparr> | _ \<Rightarrow> k) = k"
      using False by (auto split: option.split list.split)
    ultimately show ?thesis
      using first i(1) same by (auto simp: handleAccept_def)
  qed
qed

text \<open>Otherwise the connection goes to the callback, or is closed again if there is none.\<close>

lemma handleAccept_free:
  assumes "free_fds k = n # ns"
  shows "handleAccept cb e1 e2 (a, k) =
    (case (e1, backlog k) of
       (None, p # ps) \<Rightarrow>
         if cb then (a, Some (n, p), k\<lparr>open_fds := insert n (open_fds k), backlog := ps\<rparr>)
         else (a, None, k\<lparr>backlog := ps\<rparr>)
     | _ \<Rightarrow> (a, None, k))"
  using assms free_fds_Cons [OF assms]
  by (auto simp: handleAccept_def socket_accept_def sys_accept_def sys_close_def split: option.split list.split)


text \<open>The process has three descriptors, all in use: one, the socket and the spare one.\<close>

definition full_kernel :: kernel where
  "full_kernel = \<lparr>fd_limit = 3, open_fds = {0, 1, 2}, backlog = [\<lparr>sin_addr = (10, 0, 0, 1), sin_port = 4000\<rparr>]\<rparr>"

definition demo_acceptor :: acceptor where
  "demo_acceptor = \<lparr>acceptSocket = \<lparr>sockfd = Some 1\<rparr>, acceptChannel = Channel 1, listening = True, idleFd = Some 2\<rparr>"


text \<open>A socket closes its descriptor once: closed or moved from it holds none.\<close>

lemma socket_close_twice: "socket_close (fst (socket_close s k)) k' = (fst (socket_close s k), k')"
  by (simp add: socket_close_def)

lemma socket_assign_hands_over:
  "socket_assign this other k = (s, rest, k') \<Longrightarrow>
    sockfd s = sockfd other \<and> sockfd rest = None \<and>
    open_fds k' = open_fds k - (case sockfd this of None \<Rightarrow> {} | Some n \<Rightarrow> {n})"
  by (auto simp: socket_assign_def socket_close_def sys_close_def split: if_splits option.splits)

text \<open>Without its spare descriptor an acceptor that is out of descriptors accepts nothing and spins.\<close>

lemma no_spare_spins:
  "free_fds k = [] \<Longrightarrow> idleFd a = None \<Longrightarrow> handleAccept cb e1 e2 (a, k) = (a, None, k)"
  by (simp add: handleAccept_def socket_accept_def sys_accept_def sys_close_def sys_open_def)

text \<open>\<^verbatim>\<open>~Acceptor\<close> returns both descriptors to the kernel.\<close>

lemma destroy_returns_descriptors:
  "destroy_acceptor p (a, po, k) = Some (po', k') \<Longrightarrow> idleFd a = Some i \<Longrightarrow> sockfd (acceptSocket a) = Some s \<Longrightarrow>
    open_fds k' = open_fds k - {i, s}"
  by (auto simp: destroy_acceptor_def socket_close_def sys_close_def split: prod.splits option.splits)

end
