(* ===== verification/Socket_Options.thy ===== *)
theory Socket_Options
  imports Acceptor
begin

text \<open>
  The calls of \<^verbatim>\<open>Socket.cpp\<close> that change a socket and not the table of descriptors: its options, its
  address, and whether it listens and writes. Each system call is given its error, \<^term>\<open>None\<close> when it
  succeeds. The server's way to a listening socket is put together from them.
\<close>

section \<open>Sockets in the kernel\<close>

record sock =
  nonblocking :: bool
  reuse_addr :: bool
  reuse_port :: bool
  no_delay :: bool
  keep_alive :: bool
  bound_to :: "inet_address option"
  accepting :: bool
  write_open :: bool

type_synonym sockets = "nat \<rightharpoonup> sock"

text \<open>What \<^verbatim>\<open>socket\<close> and \<^verbatim>\<open>accept4\<close> return with the flags that the code passes to both.\<close>

definition new_sock :: sock where
  "new_sock = \<lparr>nonblocking = True, reuse_addr = False, reuse_port = False, no_delay = False, keep_alive = False,
     bound_to = None, accepting = False, write_open = True\<rparr>"

text \<open>A call that fails changes nothing, and neither does one without a socket.\<close>

definition sys_set :: "int option \<Rightarrow> (sock \<Rightarrow> sock) \<Rightarrow> socket \<Rightarrow> sockets \<Rightarrow> sockets" where
  "sys_set err f s ss =
     (case (err, sockfd s) of (None, Some fd) \<Rightarrow> ss(fd := map_option f (ss fd)) | _ \<Rightarrow> ss)"

section \<open>The calls\<close>

definition setReuseAddr :: "int option \<Rightarrow> bool \<Rightarrow> socket \<Rightarrow> sockets \<Rightarrow> sockets" where
  "setReuseAddr err on = sys_set err (\<lambda>x. x\<lparr>reuse_addr := on\<rparr>)"

definition setReusePort :: "int option \<Rightarrow> bool \<Rightarrow> socket \<Rightarrow> sockets \<Rightarrow> sockets" where
  "setReusePort err on = sys_set err (\<lambda>x. x\<lparr>reuse_port := on\<rparr>)"

definition setTcpNoDelay :: "int option \<Rightarrow> bool \<Rightarrow> socket \<Rightarrow> sockets \<Rightarrow> sockets" where
  "setTcpNoDelay err on = sys_set err (\<lambda>x. x\<lparr>no_delay := on\<rparr>)"

definition setKeepAlive :: "int option \<Rightarrow> bool \<Rightarrow> socket \<Rightarrow> sockets \<Rightarrow> sockets" where
  "setKeepAlive err on = sys_set err (\<lambda>x. x\<lparr>keep_alive := on\<rparr>)"

text \<open>The first call only reads the flags; when it fails the second is not made.\<close>

definition setNonBlocking :: "int option \<Rightarrow> int option \<Rightarrow> socket \<Rightarrow> sockets \<Rightarrow> sockets" where
  "setNonBlocking get_err set_err s ss =
     (if get_err \<noteq> None then ss else sys_set set_err (\<lambda>x. x\<lparr>nonblocking := True\<rparr>) s ss)"

definition shutdownWrite :: "int option \<Rightarrow> socket \<Rightarrow> sockets \<Rightarrow> sockets" where
  "shutdownWrite err = sys_set err (\<lambda>x. x\<lparr>write_open := False\<rparr>)"

text \<open>The two calls whose failure ends the process.\<close>

datatype startup_abort = No_Socket | Bind_Failed int | Listen_Failed int

definition socket_bind :: "int option \<Rightarrow> inet_address \<Rightarrow> socket \<Rightarrow> sockets \<Rightarrow> startup_abort + sockets" where
  "socket_bind err addr s ss =
     (case err of Some e \<Rightarrow> Inl (Bind_Failed e) | None \<Rightarrow> Inr (sys_set None (\<lambda>x. x\<lparr>bound_to := Some addr\<rparr>) s ss))"

definition socket_listen :: "int option \<Rightarrow> socket \<Rightarrow> sockets \<Rightarrow> startup_abort + sockets" where
  "socket_listen err s ss =
     (case err of Some e \<Rightarrow> Inl (Listen_Failed e) | None \<Rightarrow> Inr (sys_set None (\<lambda>x. x\<lparr>accepting := True\<rparr>) s ss))"

text \<open>The destructor: the descriptor goes, and with it the socket that it stood for.\<close>

definition destroy_socket :: "socket \<Rightarrow> kernel \<times> sockets \<Rightarrow> kernel \<times> sockets" where
  "destroy_socket s ks =
     (snd (socket_close s (fst ks)), case sockfd s of None \<Rightarrow> snd ks | Some fd \<Rightarrow> (snd ks)(fd := None))"

section \<open>From the constructor of the acceptor to a listening socket\<close>

record call_errors =
  reuse_addr_error :: "int option"
  reuse_port_error :: "int option"
  bind_error :: "int option"
  listen_error :: "int option"

text \<open>The body of \<^verbatim>\<open>Acceptor\<close> after its members are constructed, and \<^verbatim>\<open>Acceptor::listen\<close>.\<close>

definition bound_acceptor ::
  "call_errors \<Rightarrow> inet_address \<Rightarrow> kernel \<times> sockets \<Rightarrow> startup_abort + acceptor \<times> kernel \<times> sockets" where
  "bound_acceptor er addr ks =
     (case Acceptor (fst ks) of
        None \<Rightarrow> Inl No_Socket
      | Some (a, k) \<Rightarrow>
          let s = acceptSocket a;
              ss = (snd ks)(the (sockfd s) \<mapsto> new_sock);
              ss = setReuseAddr (reuse_addr_error er) True s ss;
              ss = setReusePort (reuse_port_error er) True s ss
          in (case socket_bind (bind_error er) addr s ss of Inl x \<Rightarrow> Inl x | Inr ss \<Rightarrow> Inr (a, k, ss)))"

definition listening_acceptor ::
  "call_errors \<Rightarrow> inet_address \<Rightarrow> nat \<Rightarrow> poller \<Rightarrow> kernel \<times> sockets \<Rightarrow>
     startup_abort + acceptor \<times> poller \<times> kernel \<times> sockets" where
  "listening_acceptor er addr p po ks =
     (case bound_acceptor er addr ks of
        Inl x \<Rightarrow> Inl x
      | Inr (a, k, ss) \<Rightarrow>
          (case socket_listen (listen_error er) (acceptSocket a) ss of
             Inl x \<Rightarrow> Inl x
           | Inr ss \<Rightarrow> (case listen p (a, po) of (a, po) \<Rightarrow> Inr (a, po, k, ss))))"

text \<open>The options that the constructor of a connection sets on the socket it was given.\<close>

definition connection_socket :: "int option \<Rightarrow> int option \<Rightarrow> nat \<Rightarrow> sockets \<Rightarrow> sockets" where
  "connection_socket ka_err nd_err fd ss =
     (let s = \<lparr>sockfd = Some fd\<rparr> in setTcpNoDelay nd_err True s (setKeepAlive ka_err True s ss))"

section \<open>Facts\<close>

lemma sys_set_other: "sockfd s \<noteq> Some fd \<Longrightarrow> sys_set err f s ss fd = ss fd"
  by (auto simp: sys_set_def split: option.split)

lemma sys_set_own:
  "sockfd s = Some fd \<Longrightarrow> ss fd = Some x \<Longrightarrow> sys_set err f s ss = (if err = None then ss(fd \<mapsto> f x) else ss)"
  by (auto simp: sys_set_def split: option.split)

lemma Acceptor_result:
  "Acceptor k = (case free_fds k of
      [] \<Rightarrow> None
    | fd # rest \<Rightarrow> Some (\<lparr>acceptSocket = \<lparr>sockfd = Some fd\<rparr>, acceptChannel = Channel (int fd), listening = False,
          idleFd = (case rest of [] \<Rightarrow> None | i # is \<Rightarrow> Some i)\<rparr>,
        k\<lparr>open_fds := set (take 1 rest) \<union> insert fd (open_fds k)\<rparr>))"
proof (cases "free_fds k")
  case Nil
  then show ?thesis by (simp add: Acceptor_def Socket_def sys_open_def)
next
  case (Cons fd rest)
  define k1 where "k1 = k\<lparr>open_fds := insert fd (open_fds k)\<rparr>"
  have "distinct (free_fds k)" by (simp add: free_fds_def)
  then have "fd \<notin> set rest" using Cons by simp
  moreover have "free_fds k1 = filter (\<lambda>n. n \<noteq> fd) (free_fds k)"
    by (auto simp: free_fds_def k1_def intro: filter_cong)
  ultimately have "free_fds k1 = rest" using Cons by (simp add: filter_id_conv) metis
  then show ?thesis
    using Cons by (cases rest) (simp_all add: Acceptor_def Socket_def sys_open_def k1_def [symmetric], simp_all add: k1_def insert_commute)
qed

text \<open>The socket that the server listens on, when it gets there.\<close>

definition listening_sock :: "call_errors \<Rightarrow> inet_address \<Rightarrow> sock" where
  "listening_sock er addr = new_sock\<lparr>reuse_addr := (reuse_addr_error er = None),
     reuse_port := (reuse_port_error er = None), bound_to := Some addr, accepting := True\<rparr>"

lemma bound_acceptor_result:
  assumes "free_fds k = fd # rest"
  shows "bound_acceptor er addr (k, ss) =
    (case bind_error er of
       Some e \<Rightarrow> Inl (Bind_Failed e)
     | None \<Rightarrow> Inr (fst (the (Acceptor k)), snd (the (Acceptor k)),
         ss(fd \<mapsto> (listening_sock er addr)\<lparr>accepting := False\<rparr>)))"
proof -
  define s where "s = \<lparr>sockfd = Some fd\<rparr>"
  obtain a k' where A: "Acceptor k = Some (a, k')" "acceptSocket a = s"
    using assms by (auto simp: Acceptor_result s_def)
  have fd: "sockfd s = Some fd" by (simp add: s_def)
  have "setReusePort (reuse_port_error er) True s (setReuseAddr (reuse_addr_error er) True s (ss(fd \<mapsto> new_sock))) =
      ss(fd \<mapsto> new_sock\<lparr>reuse_addr := (reuse_addr_error er = None), reuse_port := (reuse_port_error er = None)\<rparr>)"
    by (cases "reuse_port_error er"; cases "reuse_addr_error er")
      (simp_all add: setReusePort_def setReuseAddr_def sys_set_own [OF fd] new_sock_def)
  then show ?thesis
    using A by (simp add: bound_acceptor_def socket_bind_def sys_set_own [OF fd] fd listening_sock_def new_sock_def
        split: option.split)
qed


text \<open>Two descriptors are free: one for the socket, one to spare.\<close>

definition start_kernel :: kernel where
  "start_kernel = \<lparr>fd_limit = 3, open_fds = {0}, backlog = []\<rparr>"

definition no_errors :: call_errors where
  "no_errors = \<lparr>reuse_addr_error = None, reuse_port_error = None, bind_error = None, listen_error = None\<rparr>"


section \<open>Other sockets\<close>

text \<open>A connection's socket gets the two options whose calls succeed; all other sockets are as before.\<close>

lemma connection_socket_options:
  assumes "ss fd = Some x"
  shows "connection_socket e1 e2 fd ss =
    ss(fd \<mapsto> x\<lparr>keep_alive := (e1 = None \<or> keep_alive x), no_delay := (e2 = None \<or> no_delay x)\<rparr>)"
  using assms
  by (cases e1; cases e2)
    (simp_all add: connection_socket_def setTcpNoDelay_def setKeepAlive_def sys_set_def Let_def fun_upd_idem)

lemma setNonBlocking_result:
  assumes "sockfd s = Some fd" "ss fd = Some x"
  shows "setNonBlocking e1 e2 s ss fd = Some (x\<lparr>nonblocking := (e1 = None \<and> e2 = None \<or> nonblocking x)\<rparr>)"
  using assms by (cases e1; cases e2) (simp_all add: setNonBlocking_def sys_set_def)

lemma shutdownWrite_closes_write_side:
  "sockfd s = Some fd \<Longrightarrow> ss fd = Some x \<Longrightarrow> shutdownWrite None s ss fd = Some (x\<lparr>write_open := False\<rparr>)"
  by (simp add: shutdownWrite_def sys_set_own)

text \<open>A socket that was moved from or closed is destroyed without an effect.\<close>

lemma destroy_socket_once:
  "destroy_socket (snd (socket_move s)) ks = ks"
  "sockfd s = Some fd \<Longrightarrow> destroy_socket s (k, ss) = (k\<lparr>open_fds := open_fds k - {fd}\<rparr>, ss(fd := None))"
  by (simp_all add: destroy_socket_def socket_move_def socket_close_def sys_close_def)

end
