(* ===== verification/Reactor_Start.thy ===== *)
theory Reactor_Start
  imports Acceptor "HOL-Library.Monad_Syntax"
begin

text \<open>
  The descriptors that the server program of \<^verbatim>\<open>reactor_net\<close> opens before it serves: each event loop
  has three, for \<^verbatim>\<open>epoll\<close>, the timer and the wake-up, and aborts when one of them cannot be had; the acceptor
  has its socket and the spare descriptor. The main thread opens those of its loop and of the acceptor, then
  \<^verbatim>\<open>TcpServer::start\<close> waits for one loop per thread in turn. \<^term>\<open>None\<close> stands for
  \<^verbatim>\<open>std::abort\<close>.
\<close>

section \<open>The loop's descriptors\<close>

text \<open>A call that makes a descriptor; \<open>err\<close> is a failure other than that of a full table.\<close>

definition sys_make :: "int option \<Rightarrow> kernel \<Rightarrow> (sys_error + nat) \<times> kernel" where
  "sys_make err k = (case err of Some e \<Rightarrow> (Inl (Other_Errno e), k) | None \<Rightarrow> sys_open k)"

definition EPollPoller_open :: "int option \<Rightarrow> kernel \<Rightarrow> (nat \<times> kernel) option" where
  "EPollPoller_open err k =
     (case sys_make err k of (Inl e, k) \<Rightarrow> None | (Inr epollfd, k) \<Rightarrow> Some (epollfd, k))"

definition createTimerfd :: "int option \<Rightarrow> kernel \<Rightarrow> (nat \<times> kernel) option" where
  "createTimerfd err k =
     (case sys_make err k of (Inl e, k) \<Rightarrow> None | (Inr timerfd, k) \<Rightarrow> Some (timerfd, k))"

definition createEventfd :: "int option \<Rightarrow> kernel \<Rightarrow> (nat \<times> kernel) option" where
  "createEventfd err k =
     (case sys_make err k of (Inl e, k) \<Rightarrow> None | (Inr evtfd, k) \<Rightarrow> Some (evtfd, k))"

record loop_fds =
  epollfd :: nat
  timerfd :: nat
  wakeupFd :: nat

record loop_errors =
  epoll_error :: "int option"
  timer_error :: "int option"
  event_error :: "int option"

text \<open>
  The constructor of \<^verbatim>\<open>EventLoop\<close> makes its members in the order of their declaration; only then it
  looks whether the thread has a loop already.
\<close>

definition EventLoop_open :: "bool \<Rightarrow> loop_errors \<Rightarrow> kernel \<Rightarrow> (loop_fds \<times> kernel) option" where
  "EventLoop_open has_loop er k = do {
     (ep, k) \<leftarrow> EPollPoller_open (epoll_error er) k;
     (tf, k) \<leftarrow> createTimerfd (timer_error er) k;
     (wf, k) \<leftarrow> createEventfd (event_error er) k;
     if has_loop then None else Some (\<lparr>epollfd = ep, timerfd = tf, wakeupFd = wf\<rparr>, k)
   }"

section \<open>The program\<close>

text \<open>The loop of \<^verbatim>\<open>TcpServer::start\<close>: a new thread has no loop yet.\<close>

fun start_loops :: "loop_errors list \<Rightarrow> kernel \<Rightarrow> (loop_fds list \<times> kernel) option" where
  "start_loops [] k = Some ([], k)"
| "start_loops (er # ers) k = do {
     (l, k) \<leftarrow> EventLoop_open False er k;
     (ls, k) \<leftarrow> start_loops ers k;
     Some (l # ls, k)
   }"

definition open_reactor ::
  "loop_errors \<Rightarrow> loop_errors list \<Rightarrow> kernel \<Rightarrow> (loop_fds \<times> acceptor \<times> loop_fds list \<times> kernel) option" where
  "open_reactor er ers k = do {
     (base, k) \<leftarrow> EventLoop_open False er k;
     (a, k) \<leftarrow> Acceptor k;
     (subLoops, k) \<leftarrow> start_loops ers k;
     Some (base, a, subLoops, k)
   }"

section \<open>Which descriptors are open\<close>

definition fds_of :: "loop_fds \<Rightarrow> nat list" where
  "fds_of l = [epollfd l, timerfd l, wakeupFd l]"

definition no_errors :: loop_errors where
  "no_errors = \<lparr>epoll_error = None, timer_error = None, event_error = None\<rparr>"

text \<open>The descriptors \<open>xs\<close> were opened, the smallest free ones in this order.\<close>

definition opened :: "kernel \<Rightarrow> nat list \<Rightarrow> kernel \<Rightarrow> bool" where
  "opened k xs k' \<longleftrightarrow> free_fds k = xs @ free_fds k' \<and> open_fds k' = open_fds k \<union> set xs \<and>
     fd_limit k' = fd_limit k \<and> backlog k' = backlog k"

lemma opened_refl: "opened k [] k"
  by (simp add: opened_def)

lemma opened_trans: "opened k xs k1 \<Longrightarrow> opened k1 ys k2 \<Longrightarrow> opened k (xs @ ys) k2"
  by (auto simp: opened_def)

lemma sys_open_opened:
  assumes "sys_open k = (Inr n, k')"
  shows "opened k [n] k'"
proof -
  obtain ns where f: "free_fds k = n # ns" and k': "k' = k\<lparr>open_fds := insert n (open_fds k)\<rparr>"
    using assms by (auto simp: sys_open_def split: list.splits)
  have "distinct (free_fds k)" by (simp add: free_fds_def)
  moreover have "free_fds k' = filter (\<lambda>x. x \<noteq> n) (free_fds k)" by (auto simp: free_fds_def k' intro: filter_cong)
  ultimately have "free_fds k' = ns" by (auto simp: f filter_id_conv)
  then show ?thesis by (simp add: opened_def f k')
qed

lemma sys_make_result:
  "case sys_make err k of (Inl e, k') \<Rightarrow> err \<noteq> None \<or> free_fds k = [] | (Inr n, k') \<Rightarrow> opened k [n] k'"
  using sys_open_opened [of k] by (auto simp: sys_make_def sys_open_def split: option.split list.split)

lemma make_opened:
  "EPollPoller_open err k = Some (n, k') \<Longrightarrow> opened k [n] k'"
  "createTimerfd err k = Some (n, k') \<Longrightarrow> opened k [n] k'"
  "createEventfd err k = Some (n, k') \<Longrightarrow> opened k [n] k'"
  using sys_make_result [of err k]
  by (auto simp: EPollPoller_open_def createTimerfd_def createEventfd_def split: prod.splits sum.splits)

lemma make_None:
  "EPollPoller_open None k = None \<longleftrightarrow> free_fds k = []"
  "createTimerfd None k = None \<longleftrightarrow> free_fds k = []"
  "createEventfd None k = None \<longleftrightarrow> free_fds k = []"
  by (auto simp: EPollPoller_open_def createTimerfd_def createEventfd_def sys_make_def sys_open_def split: list.splits)

lemma EventLoop_opened:
  assumes "EventLoop_open has_loop er k = Some (l, k')"
  shows "opened k (fds_of l) k'"
proof -
  obtain ep k1 tf k2 wf where s: "EPollPoller_open (epoll_error er) k = Some (ep, k1)"
    "createTimerfd (timer_error er) k1 = Some (tf, k2)" "createEventfd (event_error er) k2 = Some (wf, k')"
    "l = \<lparr>epollfd = ep, timerfd = tf, wakeupFd = wf\<rparr>"
    using assms by (auto simp: EventLoop_open_def split: Option.bind_splits if_splits)
  show ?thesis
    using opened_trans [OF make_opened(1) [OF s(1)] opened_trans [OF make_opened(2) [OF s(2)] make_opened(3) [OF s(3)]]]
    by (simp add: fds_of_def s(4))
qed

lemma EventLoop_None:
  assumes "EventLoop_open False no_errors k = None"
  shows "length (free_fds k) < 3"
proof (rule ccontr)
  assume "\<not> length (free_fds k) < 3"
  then obtain a b c ns where f: "free_fds k = a # b # c # ns"
    by (metis (no_types) One_nat_def Suc_less_eq length_Cons list.exhaust list.size(3) numeral_3_eq_3 zero_less_Suc)
  obtain x k1 where e: "EPollPoller_open None k = Some (x, k1)" using make_None(1) [of k] f by fastforce
  then have f1: "free_fds k1 = b # c # ns" using make_opened(1) [OF e] f by (simp add: opened_def)
  obtain y k2 where t: "createTimerfd None k1 = Some (y, k2)" using make_None(2) [of k1] f1 by fastforce
  then have f2: "free_fds k2 = c # ns" using make_opened(2) [OF t] f1 by (simp add: opened_def)
  obtain z k3 where "createEventfd None k2 = Some (z, k3)" using make_None(3) [of k2] f2 by fastforce
  then show False using assms e t by (simp add: EventLoop_open_def no_errors_def)
qed

lemma start_loops_opened:
  "start_loops ers k = Some (ls, k') \<Longrightarrow> opened k (concat (map fds_of ls)) k' \<and> length ls = length ers"
proof (induction ers arbitrary: k ls)
  case (Cons er ers)
  then obtain l k1 ms where s: "EventLoop_open False er k = Some (l, k1)" "start_loops ers k1 = Some (ms, k')" "ls = l # ms"
    by (auto split: Option.bind_splits)
  then show ?case using Cons.IH [OF s(2)] opened_trans [OF EventLoop_opened [OF s(1)]] by simp
qed (simp add: opened_refl)

lemma opened_length: "opened k xs k' \<Longrightarrow> length (free_fds k) = length xs + length (free_fds k')"
  by (simp add: opened_def)

lemma start_loops_None: "start_loops (replicate n no_errors) k = None \<Longrightarrow> length (free_fds k) < 3 * n"
proof (induction n arbitrary: k)
  case (Suc n)
  show ?case
  proof (cases "EventLoop_open False no_errors k")
    case None
    from EventLoop_None [OF None] show ?thesis by simp
  next
    case (Some lk)
    then obtain l k1 where l: "EventLoop_open False no_errors k = Some (l, k1)" by (cases lk) auto
    then have "start_loops (replicate n no_errors) k1 = None" using Suc.prems by (auto split: Option.bind_splits)
    then show ?thesis using Suc.IH opened_length [OF EventLoop_opened [OF l]] by (fastforce simp: fds_of_def)
  qed
qed simp

text \<open>The acceptor: its socket, and the spare descriptor if there is one left.\<close>

lemma Acceptor_opened:
  assumes "Acceptor k = Some (a, k')"
  obtains s where "sockfd (acceptSocket a) = Some s" "idleFd a = None" "free_fds k = [s]" "opened k [s] k'"
    | s i where "sockfd (acceptSocket a) = Some s" "idleFd a = Some i" "opened k [s, i] k'"
proof -
  obtain n k1 where n: "sys_open k = (Inr n, k1)" and s: "sockfd (acceptSocket a) = Some n"
    and idle: "sys_open k1 = (case idleFd a of None \<Rightarrow> (Inl EMFILE, k1) | Some i \<Rightarrow> (Inr i, k'))"
      "idleFd a = None \<longrightarrow> k' = k1"
    using assms by (auto simp: Acceptor_def Socket_def sys_open_def split: list.splits sum.splits)
  note o = sys_open_opened [OF n]
  show ?thesis
  proof (cases "idleFd a")
    case None
    then have "free_fds k1 = []" using idle(1) by (auto simp: sys_open_def split: list.splits)
    then have "free_fds k = [n]" using o by (simp add: opened_def)
    with that(1) s None o idle(2) show ?thesis by simp
  next
    case (Some i)
    then have "opened k1 [i] k'" using idle(1) sys_open_opened by simp
    then have "opened k ([n] @ [i]) k'" by (rule opened_trans [OF o])
    with that(2) s Some show ?thesis by simp
  qed
qed

lemma Acceptor_None: "Acceptor k = None \<longleftrightarrow> free_fds k = []"
  by (auto simp: Acceptor_def Socket_def sys_open_def split: list.splits prod.splits)

definition acceptor_fds :: "acceptor \<Rightarrow> nat list" where
  "acceptor_fds a = (case sockfd (acceptSocket a) of None \<Rightarrow> [] | Some s \<Rightarrow> [s]) @
     (case idleFd a of None \<Rightarrow> [] | Some i \<Rightarrow> [i])"

lemma acceptor_fds_opened: "Acceptor k = Some (a, k') \<Longrightarrow> opened k (acceptor_fds a) k'"
  by (erule Acceptor_opened) (simp_all add: acceptor_fds_def)

lemma kernel_ok_opened: "opened k xs k' \<Longrightarrow> kernel_ok k \<Longrightarrow> kernel_ok k'"
proof -
  assume o: "opened k xs k'" and ok: "kernel_ok k"
  have "set xs \<subseteq> {..<fd_limit k}" using o set_free_fds [of k] by (auto simp: opened_def)
  then show "kernel_ok k'" using o ok by (auto simp: opened_def kernel_ok_def)
qed

text \<open>
  The start of the server with \<open>n\<close> threads, when no call fails but for a full table. If it returns,
  exactly the smallest free descriptors were opened, in turn for the main loop, the acceptor and each thread's
  loop, all different, and the rest is left for connections. It needs three per loop and two for the
  acceptor: with fewer it aborts, except that without threads one too few makes a server without the
  spare descriptor; with as many it returns, and the acceptor is in the state in which it survives
  running out of descriptors later.
\<close>

theorem server_starts_or_aborts:
  assumes "kernel_ok k"
  shows "case open_reactor no_errors (replicate n no_errors) k of
      None \<Rightarrow> length (free_fds k) < 3 * (n + 1) + 2
    | Some (base, a, ls, k') \<Rightarrow> length ls = n \<and>
        opened k (fds_of base @ acceptor_fds a @ concat (map fds_of ls)) k' \<and>
        (if length (free_fds k) < 3 * (n + 1) + 2 then n = 0 \<and> length (free_fds k) = 4 \<and> idleFd a = None
         else acceptor_ok a k')"
proof (cases "EventLoop_open False no_errors k")
  case None
  then show ?thesis using EventLoop_None [OF None] by (simp add: open_reactor_def)
next
  case (Some lk)
  then obtain base k1 where b: "EventLoop_open False no_errors k = Some (base, k1)" by (cases lk) auto
  note ob = EventLoop_opened [OF b]
  have lb: "length (free_fds k) = 3 + length (free_fds k1)" using opened_length [OF ob] by (simp add: fds_of_def)
  show ?thesis
  proof (cases "Acceptor k1")
    case None
    then show ?thesis using Acceptor_None [of k1] lb b by (simp add: open_reactor_def)
  next
    case (Some ak)
    then obtain a k2 where a: "Acceptor k1 = Some (a, k2)" by (cases ak) auto
    note oa = acceptor_fds_opened [OF a]
    show ?thesis
    proof (cases "start_loops (replicate n no_errors) k2")
      case None
      have "length (acceptor_fds a) \<le> 2" by (auto simp: acceptor_fds_def split: option.split)
      then show ?thesis using start_loops_None [OF None] opened_length [OF oa] lb b a None
        by (simp add: open_reactor_def)
    next
      case (Some lsk)
      then obtain ls k' where l: "start_loops (replicate n no_errors) k2 = Some (ls, k')" by (cases lsk) auto
      note ol = start_loops_opened [OF l]
      have all: "opened k (fds_of base @ acceptor_fds a @ concat (map fds_of ls)) k'"
        using opened_trans [OF ob opened_trans [OF oa]] ol by blast
      have run: "open_reactor no_errors (replicate n no_errors) k = Some (base, a, ls, k')"
        using b a l by (simp add: open_reactor_def)
      have size: "length (concat (map fds_of ls)) = 3 * length ls" by (simp add: length_concat fds_of_def comp_def sum_list_triv)
      have rest: "if length (free_fds k) < 3 * (n + 1) + 2 then n = 0 \<and> length (free_fds k) = 4 \<and> idleFd a = None
         else acceptor_ok a k'"
        using a
      proof (cases rule: Acceptor_opened)
        case (1 s)
        then have "free_fds k2 = []" by (simp add: opened_def)
        then have "n = 0" using opened_length [of k2 "concat (map fds_of ls)" k'] ol size by simp
        then show ?thesis using 1 lb by simp
      next
        case (2 s i)
        have enough: "3 * (n + 1) + 2 \<le> length (free_fds k)"
          using opened_length [OF all] ol size 2 by (simp add: acceptor_fds_def fds_of_def)
        have "distinct (free_fds k1)" by (simp add: free_fds_def)
        then have "s \<noteq> i" using 2(3) by (auto simp: opened_def)
        moreover have "s \<in> open_fds k'" "i \<in> open_fds k'" using all 2 by (auto simp: opened_def acceptor_fds_def)
        ultimately show ?thesis using enough 2 kernel_ok_opened [OF all assms] by (simp add: acceptor_ok_def)
      qed
      show ?thesis unfolding run using all rest ol by simp
    qed
  qed
qed

text \<open>A terminal's process that may have 16 files: with three threads it starts.\<close>

definition sixteen_files :: kernel where
  "sixteen_files = \<lparr>fd_limit = 17, open_fds = {0, 1, 2}, backlog = []\<rparr>"

lemma sixteen_free: "length (free_fds sixteen_files) = 14" "kernel_ok sixteen_files"
  by code_simp (auto simp: kernel_ok_def sixteen_files_def)

theorem server_starts_or_aborts_witness:
  "case open_reactor no_errors (replicate 3 no_errors) sixteen_files of None \<Rightarrow> False
    | Some (base, a, ls, k') \<Rightarrow> acceptor_ok a k' \<and> length ls = 3"
  using server_starts_or_aborts [OF sixteen_free(2), of 3] sixteen_free(1) by (auto split: option.splits)

text \<open>With four threads it aborts, and without any a table that is one short leaves no spare descriptor.\<close>

lemma four_threads_abort: "Option.is_none (open_reactor no_errors (replicate 4 no_errors) sixteen_files)"
  by code_simp

lemma start_without_spare:
  "map_option (\<lambda>(base, a, ls, k). idleFd a)
     (open_reactor no_errors [] \<lparr>fd_limit = 7, open_fds = {0, 1, 2}, backlog = []\<rparr>) = Some None"
  by code_simp

end
