(* ===== verification/Tcp_Server.thy ===== *)
theory Tcp_Server
  imports Acceptor Std_Map
begin

text \<open>
  \<^verbatim>\<open>TcpServer.h/.cpp\<close>: the connections of a server by name, their distribution over the loops, and
  their removal. Loops and connections are numbers in the order of creation, the base loop is 0. A
  connection closes in its own loop and is removed in the base loop, so that with more than one
  loop removals wait there in order; what is posted to the loops is recorded.
\<close>

section \<open>State\<close>

record server_conn =
  sc_name :: string
  sc_loop :: nat
  sc_fd :: nat
  sc_peer :: inet_address

datatype loop_task = Establish nat | Destroy nat

record server =
  server_name :: string
  started :: bool
  accepting :: bool
  nextConnId :: int
  threadNum :: int
  subLoops :: "nat list"
  connections :: "(string \<times> nat) list"
  created :: "server_conn list"
  removing :: "nat list"
  closed :: "nat list"
  posted :: "(nat \<times> loop_task) list"

text \<open>
  The last four fields stand for what is outside the object: all connections made, the removals
  queued in the base loop, the connections whose close callback has been called, and the tasks
  given to loops.
\<close>

definition TcpServer :: "string \<Rightarrow> server" where
  "TcpServer name = \<lparr>server_name = name, started = False, accepting = False, nextConnId = 1, threadNum = 0,
     subLoops = [], connections = [], created = [], removing = [], closed = [], posted = []\<rparr>"

text \<open>A failed assertion, and the overflow of an \<^verbatim>\<open>int\<close>, is \<^term>\<open>None\<close>.\<close>

definition setThreadNum :: "int \<Rightarrow> server \<Rightarrow> server option" where
  "setThreadNum n s = (if started s then None else Some (s\<lparr>threadNum := n\<rparr>))"

definition start :: "server \<Rightarrow> server" where
  "start s =
     (let s = (if started s then s
               else s\<lparr>started := True,
                 subLoops := subLoops s @ (if threadNum s > 0 then [1..<nat (threadNum s) + 1] else [])\<rparr>)
      in if accepting s then s else s\<lparr>accepting := True\<rparr>)"

definition getAllLoops :: "server \<Rightarrow> nat list" where
  "getAllLoops s = [0] @ subLoops s"

section \<open>Connections\<close>

definition conn_name :: "string \<Rightarrow> inet_address \<Rightarrow> int \<Rightarrow> string" where
  "conn_name name peerAddr i =
     name @ snprintf 64 (''-'' @ toIpPort peerAddr @ ''#'' @ dec_int i)"

definition newConnection :: "nat \<Rightarrow> inet_address \<Rightarrow> server \<Rightarrow> server option" where
  "newConnection fd peerAddr s =
     (if subLoops s \<noteq> [] \<and> nextConnId s = 2147483647 then None
      else
        let ioLoop = (if subLoops s = [] then 0
                      else subLoops s ! nat (nextConnId s mod int (length (subLoops s))));
            s = (if subLoops s = [] then s else s\<lparr>nextConnId := nextConnId s + 1\<rparr>);
            connName = conn_name (server_name s) peerAddr (nextConnId s);
            conn = length (created s);
            s = s\<lparr>created := created s @ [\<lparr>sc_name = connName, sc_loop = ioLoop, sc_fd = fd, sc_peer = peerAddr\<rparr>],
                  connections := map_put connName conn (connections s)\<rparr>
        in Some (s\<lparr>posted := posted s @ [(ioLoop, Establish conn)]\<rparr>))"

definition removeConnectionInLoop :: "nat \<Rightarrow> server \<Rightarrow> server option" where
  "removeConnectionInLoop conn s =
     (let c = created s ! conn
      in if map_find (connections s) (sc_name c) = None then None
         else Some (s\<lparr>connections := map_erase (sc_name c) (connections s),
                posted := posted s @ [(sc_loop c, Destroy conn)]\<rparr>))"

text \<open>The close callback, called in the loop of the connection.\<close>

definition removeConnection :: "nat \<Rightarrow> server \<Rightarrow> server option" where
  "removeConnection conn s =
     (let s = s\<lparr>closed := closed s @ [conn]\<rparr>
      in if sc_loop (created s ! conn) = 0 then removeConnectionInLoop conn s
         else Some (s\<lparr>removing := removing s @ [conn]\<rparr>))"

definition destroy_server :: "server \<Rightarrow> server" where
  "destroy_server s =
     s\<lparr>posted := posted s @ map (\<lambda>(name, conn). (sc_loop (created s ! conn), Destroy conn)) (connections s),
       connections := []\<rparr>"

section \<open>Steps\<close>

text \<open>
  The base loop accepts a connection or runs the next queued removal; the loop of a connection
  calls its close callback, at most once.
\<close>

inductive server_step :: "server \<Rightarrow> server \<Rightarrow> bool" where
  new_conn: "accepting s \<Longrightarrow> newConnection fd peer s = Some s' \<Longrightarrow> server_step s s'"
| closes: "c < length (created s) \<Longrightarrow> c \<notin> set (closed s) \<Longrightarrow> removeConnection c s = Some s' \<Longrightarrow> server_step s s'"
| removes: "removing s = c # cs \<Longrightarrow> removeConnectionInLoop c (s\<lparr>removing := cs\<rparr>) = Some s' \<Longrightarrow> server_step s s'"

inductive server_reaches :: "string \<Rightarrow> int \<Rightarrow> server \<Rightarrow> bool" for name n where
  server_start: "setThreadNum n (TcpServer name) = Some s \<Longrightarrow> server_reaches name n (start s)"
| server_next: "server_reaches name n s \<Longrightarrow> server_step s s' \<Longrightarrow> server_reaches name n s'"

section \<open>Names\<close>

lemma append_sep_inj_last:
  assumes "x @ c # y = x' @ c # y'" "c \<notin> set y" "c \<notin> set y'"
  shows "x = x' \<and> y = y'"
proof -
  have "rev y @ c # rev x = rev y' @ c # rev x'" using arg_cong [OF assms(1), of rev] by simp
  then show ?thesis using append_sep_inj [of "rev y" c "rev x" "rev y'" "rev x'"] assms(2,3) by simp
qed

lemma length_dec_int: "0 \<le> i \<Longrightarrow> i < 2147483648 \<Longrightarrow> length (dec_int i) \<le> 10"
  using length_dec_le [of "nat i" 10] by (auto simp: dec_int_def)

lemma conn_name_eq:
  assumes "0 \<le> i" "i < 2147483648"
  shows "conn_name name p i = name @ ''-'' @ toIpPort p @ ''#'' @ dec (nat i)"
  using length_dec_int [OF assms] length_toIpPort [of p] assms
  by (simp add: conn_name_def snprintf_id dec_int_def)

lemma conn_name_inj:
  assumes "0 \<le> i" "i < 2147483648" "0 \<le> j" "j < 2147483648" "conn_name name p i = conn_name name q j"
  shows "i = j \<and> p = q"
proof -
  have "(toIpPort p) @ CHR ''#'' # dec (nat i) = (toIpPort q) @ CHR ''#'' # dec (nat j)"
    using assms by (simp add: conn_name_eq)
  then have "toIpPort p = toIpPort q \<and> dec (nat i) = dec (nat j)"
    by (rule append_sep_inj_last) (simp_all add: not_in_dec)
  then have "p = q" "nat i = nat j" by (simp_all add: toIpPort_inj dec_inj)
  then show ?thesis using assms(1,3) by simp
qed

section \<open>Invariant\<close>

definition removed :: "server \<Rightarrow> nat \<Rightarrow> bool" where
  "removed s c \<longleftrightarrow> c \<in> set (closed s) \<and> c \<notin> set (removing s)"

text \<open>With loops of its own, the server's \<open>i\<close>-th connection has its own number and the next loop.\<close>

definition conns_ok :: "server \<Rightarrow> bool" where
  "conns_ok s \<longleftrightarrow> nextConnId s = int (length (created s)) + 1 \<and> nextConnId s < 2147483648 \<and>
     (\<forall>c < length (created s).
        sc_name (created s ! c) = conn_name (server_name s) (sc_peer (created s ! c)) (int c + 2) \<and>
        sc_loop (created s ! c) = subLoops s ! ((c + 1) mod length (subLoops s)))"

definition loops_ok :: "server \<Rightarrow> bool" where
  "loops_ok s \<longleftrightarrow> subLoops s \<noteq> [] \<and> distinct (subLoops s) \<and> 0 \<notin> set (subLoops s)"

definition table_ok :: "server \<Rightarrow> bool" where
  "table_ok s \<longleftrightarrow> map_ok (connections s) \<and>
     (\<forall>k c. map_find (connections s) k = Some c \<longleftrightarrow>
        c < length (created s) \<and> k = sc_name (created s ! c) \<and> \<not> removed s c) \<and>
     distinct (removing s) \<and> set (removing s) \<subseteq> set (closed s) \<and> (\<forall>c \<in> set (closed s). c < length (created s))"

definition server_ok :: "server \<Rightarrow> bool" where
  "server_ok s \<longleftrightarrow> conns_ok s \<and> loops_ok s \<and> table_ok s"

lemma names_differ:
  assumes "conns_ok s" "c < length (created s)" "d < length (created s)"
    "sc_name (created s ! c) = sc_name (created s ! d)"
  shows "c = d"
proof -
  have b: "int (length (created s)) + 1 < 2147483648" using assms(1) by (simp add: conns_ok_def)
  have "conn_name (server_name s) (sc_peer (created s ! c)) (int c + 2) =
      conn_name (server_name s) (sc_peer (created s ! d)) (int d + 2)"
    using assms by (auto simp: conns_ok_def)
  then have "int c + 2 = int d + 2"
    using conn_name_inj [of "int c + 2" "int d + 2"] b assms(2,3) by auto
  then show ?thesis by simp
qed

lemma start_ok:
  assumes "setThreadNum n (TcpServer name) = Some s" "0 < n"
  shows "server_ok (start s) \<and> subLoops (start s) = [1..<nat n + 1] \<and> accepting (start s)"
  using assms
  by (auto simp: setThreadNum_def TcpServer_def start_def server_ok_def conns_ok_def loops_ok_def table_ok_def
      map_ok_def removed_def)

lemma newConnection_ok:
  assumes ok: "server_ok s" and new: "newConnection fd p s = Some s'"
  shows "server_ok s' \<and> subLoops s' = subLoops s \<and> accepting s' = accepting s"
proof -
  have cs: "conns_ok s" and lo: "loops_ok s" and tb: "table_ok s" using ok by (auto simp: server_ok_def)
  have subs: "subLoops s \<noteq> []" using lo by (simp add: loops_ok_def)
  let ?n = "length (created s)"
  have id: "nextConnId s = int ?n + 1" "nextConnId s \<noteq> 2147483647" "nextConnId s < 2147483648"
    using cs new subs by (auto simp: conns_ok_def newConnection_def split: if_splits)
  let ?name = "conn_name (server_name s) p (int ?n + 2)"
  define c where "c = \<lparr>sc_name = ?name, sc_loop = subLoops s ! ((?n + 1) mod length (subLoops s)), sc_fd = fd, sc_peer = p\<rparr>"
  have "(int ?n + 1) mod int (length (subLoops s)) = int ((?n + 1) mod length (subLoops s))" by (simp add: zmod_int add.commute)
  then have idx: "nat ((int ?n + 1) mod int (length (subLoops s))) = (?n + 1) mod length (subLoops s)" by simp
  have s': "s' = s\<lparr>nextConnId := nextConnId s + 1, created := created s @ [c],
      connections := map_put ?name ?n (connections s), posted := posted s @ [(sc_loop c, Establish ?n)]\<rparr>"
    using new subs id(2) idx unfolding newConnection_def Let_def c_def by (simp add: id(1) add.commute [of 2])
  have conns: "conns_ok s'"
    using cs id unfolding conns_ok_def s' by (auto simp: nth_append c_def less_Suc_eq)
  have fresh: "sc_name (created s ! d) \<noteq> ?name" if "d < ?n" for d
  proof
    assume "sc_name (created s ! d) = ?name"
    then have "sc_name (created s' ! d) = sc_name (created s' ! ?n)" using that by (simp add: s' nth_append c_def)
    then have "d = ?n" using names_differ [OF conns, of d ?n] that by (simp add: s')
    then show False using that by simp
  qed
  have mok: "map_ok (connections s)" using tb by (simp add: table_ok_def)
  have found: "map_find (connections s) k = Some d \<longleftrightarrow> d < ?n \<and> k = sc_name (created s ! d) \<and> \<not> removed s d" for k d
    using tb by (simp add: table_ok_def)
  have rem: "removed s' d = removed s d" for d by (simp add: removed_def s')
  have new': "\<not> removed s ?n" using tb by (auto simp: table_ok_def removed_def)
  have "map_find (connections s') k = Some d \<longleftrightarrow>
      d < length (created s') \<and> k = sc_name (created s' ! d) \<and> \<not> removed s' d" for k d
  proof (cases "k = ?name")
    case True
    then have "map_find (connections s') k = Some ?n" using omap.find_put [OF mok] by (simp add: s')
    moreover have "sc_name (created s' ! d) = ?name \<longleftrightarrow> d = ?n" if "d < length (created s')"
      using fresh [of d] that by (auto simp: s' nth_append c_def less_Suc_eq)
    moreover have "\<not> removed s' ?n" using new' rem by simp
    ultimately show ?thesis using True by (auto simp: s')
  next
    case False
    then have "map_find (connections s') k = map_find (connections s) k" using omap.find_put [OF mok] by (simp add: s')
    then show ?thesis using False found [of k d] rem [of d] by (auto simp: s' nth_append c_def less_Suc_eq)
  qed
  then have "table_ok s'"
    using tb omap.put_invar [OF mok] unfolding table_ok_def by (auto simp: s' less_Suc_eq)
  then show ?thesis using conns lo by (simp add: server_ok_def loops_ok_def s')
qed

text \<open>Removing a connection whose close callback has run and whose removal is the next.\<close>

lemma remove_ok:
  assumes ok: "server_ok s" and r: "removing s = c # cs"
  shows "\<exists>s'. removeConnectionInLoop c (s\<lparr>removing := cs\<rparr>) = Some s' \<and> server_ok s' \<and>
    subLoops s' = subLoops s \<and> accepting s' = accepting s \<and>
    posted s' = posted s @ [(sc_loop (created s ! c), Destroy c)]"
proof -
  have cs: "conns_ok s" and tb: "table_ok s" using ok by (auto simp: server_ok_def)
  have c: "c < length (created s)" "c \<in> set (closed s)" "c \<notin> set cs" "distinct cs" using tb r by (auto simp: table_ok_def)
  have found: "map_find (connections s) k = Some d \<longleftrightarrow> d < length (created s) \<and> k = sc_name (created s ! d) \<and> \<not> removed s d" for k d
    using tb by (simp add: table_ok_def)
  have here: "map_find (connections s) (sc_name (created s ! c)) = Some c"
    using found c r by (simp add: removed_def)
  define s' where "s' = s\<lparr>removing := cs, connections := map_erase (sc_name (created s ! c)) (connections s),
      posted := posted s @ [(sc_loop (created s ! c), Destroy c)]\<rparr>"
  have step: "removeConnectionInLoop c (s\<lparr>removing := cs\<rparr>) = Some s'"
    using here by (simp add: removeConnectionInLoop_def s'_def Let_def)
  have rem: "removed s' d \<longleftrightarrow> removed s d \<or> d = c" for d using c r by (auto simp: removed_def s'_def)
  have mok: "map_ok (connections s)" using tb by (simp add: table_ok_def)
  have "map_find (connections s') k = Some d \<longleftrightarrow>
      d < length (created s') \<and> k = sc_name (created s' ! d) \<and> \<not> removed s' d" for k d
    using found [of k d] rem [of d] names_differ [OF cs, of c d] c(1) here omap.find_erase [OF mok, of "sc_name (created s ! c)"]
    by (auto simp: s'_def)
  then have "table_ok s'"
    using tb omap.erase_invar [OF mok] c r unfolding table_ok_def by (auto simp: s'_def)
  then have "server_ok s'" using ok by (simp add: server_ok_def conns_ok_def loops_ok_def s'_def)
  then show ?thesis using step by (auto simp: s'_def)
qed

lemma close_ok:
  assumes ok: "server_ok s" and c: "c < length (created s)" "c \<notin> set (closed s)"
  shows "\<exists>s'. removeConnection c s = Some s' \<and> server_ok s' \<and> subLoops s' = subLoops s \<and> accepting s' = accepting s"
proof -
  have cs: "conns_ok s" and lo: "loops_ok s" and tb: "table_ok s" using ok by (auto simp: server_ok_def)
  have "sc_loop (created s ! c) \<in> set (subLoops s)"
    using cs lo c(1) by (simp add: conns_ok_def loops_ok_def)
  then have sub: "sc_loop (created s ! c) \<noteq> 0" using lo by (metis loops_ok_def)
  define s' where "s' = s\<lparr>closed := closed s @ [c], removing := removing s @ [c]\<rparr>"
  have step: "removeConnection c s = Some s'" using sub by (simp add: removeConnection_def s'_def Let_def)
  have "removed s' d = removed s d" for d using c tb by (auto simp: removed_def s'_def table_ok_def)
  then have "table_ok s'" using tb c unfolding table_ok_def by (auto simp: s'_def)
  then have "server_ok s'" using ok by (simp add: server_ok_def conns_ok_def loops_ok_def s'_def)
  then show ?thesis using step by (auto simp: s'_def)
qed

lemma server_reaches_ok:
  assumes "server_reaches name n s" "0 < n"
  shows "server_ok s \<and> subLoops s = [1..<nat n + 1] \<and> accepting s"
  using assms
proof induction
  case (server_next s s')
  then have ok: "server_ok s" "subLoops s = [1..<nat n + 1]" "accepting s" by auto
  show ?case
    using server_next.hyps(2)
  proof cases
    case (closes c)
    then show ?thesis using close_ok [OF ok(1)] ok by (metis option.inject)
  next
    case (removes c cs)
    then show ?thesis using remove_ok [OF ok(1)] ok by (metis option.inject)
  qed (use newConnection_ok [OF ok(1)] ok in auto)
qed (use start_ok in blast)

section \<open>Properties\<close>

text \<open>
  A server with loops of its own never loses track of a connection. In every order of accepting,
  closing and removing, connections that are not removed have different names and are found under
  them, so that neither closing a connection nor removing a closed one fails its assertion.\<close>

theorem connections_are_found_when_removed:
  assumes "server_reaches name n s" "0 < n"
  shows "(\<forall>k c. map_find (connections s) k = Some c \<longleftrightarrow>
      c < length (created s) \<and> k = sc_name (created s ! c) \<and> \<not> removed s c) \<and>
    inj_on (\<lambda>c. sc_name (created s ! c)) {..<length (created s)} \<and>
    (\<forall>c. c < length (created s) \<longrightarrow> c \<notin> set (closed s) \<longrightarrow> removeConnection c s \<noteq> None) \<and>
    (\<forall>c cs. removing s = c # cs \<longrightarrow> removeConnectionInLoop c (s\<lparr>removing := cs\<rparr>) \<noteq> None)"
proof -
  have ok: "server_ok s" using server_reaches_ok [OF assms] by simp
  have "inj_on (\<lambda>c. sc_name (created s ! c)) {..<length (created s)}"
    using names_differ ok by (auto simp: inj_on_def server_ok_def)
  then show ?thesis
    using ok close_ok [OF ok] remove_ok [OF ok] by (fastforce simp: server_ok_def table_ok_def)
qed

text \<open>
  Connections are distributed fairly: every connection is on one of the server's own loops, and
  any as many consecutive connections as there are loops are on different ones.\<close>

theorem round_robin_is_fair:
  assumes "server_reaches name n s" "0 < n" "i + nat n \<le> length (created s)"
  shows "set (map sc_loop (take (nat n) (drop i (created s)))) = {1..<nat n + 1} \<and>
    distinct (map sc_loop (take (nat n) (drop i (created s))))"
proof -
  have ok: "server_ok s" and subs: "subLoops s = [1..<nat n + 1]" using server_reaches_ok [OF assms(1,2)] by auto
  let ?ls = "map sc_loop (take (nat n) (drop i (created s)))"
  have loop: "sc_loop (created s ! c) = Suc ((c + 1) mod nat n)" if "c < length (created s)" for c
  proof -
    have "sc_loop (created s ! c) = subLoops s ! ((c + 1) mod length (subLoops s))"
      using ok that by (simp add: server_ok_def conns_ok_def)
    moreover have "length (subLoops s) = nat n" "(c + 1) mod nat n < nat n" using subs assms(2) by simp_all
    ultimately show ?thesis using subs nth_upt [of 1 "(c + 1) mod nat n" "nat n + 1"] by simp
  qed
  have len: "length ?ls = nat n" using assms(3) by simp
  have nth: "?ls ! j = Suc ((i + 1 + j) mod nat n)" if "j < nat n" for j
    using that assms(3) loop [of "i + j"] by (simp add: add_ac)
  have dist: "distinct ?ls"
    unfolding distinct_conv_nth len using mod_add_inj [of "i + 1" _ "nat n"] nth by (metis Suc_inject)
  have "set ?ls \<subseteq> {1..<nat n + 1}"
    using nth len assms(2) by (auto simp only: in_set_conv_nth) auto
  moreover have "card (set ?ls) = card {1..<nat n + 1}" using distinct_card [OF dist] len by simp
  ultimately show ?thesis using dist by (simp add: card_subset_eq)
qed

text \<open>Destroying the server gives every connection that is still in the table to its loop once.\<close>

lemma destroy_server_posts:
  assumes "server_reaches name n s" "0 < n"
  shows "\<exists>cs. posted (destroy_server s) = posted s @ map (\<lambda>c. (sc_loop (created s ! c), Destroy c)) cs \<and>
    distinct cs \<and> set cs = {c. c < length (created s) \<and> \<not> removed s c}"
proof (intro exI conjI)
  have ok: "server_ok s" using server_reaches_ok [OF assms] by simp
  then have mok: "map_ok (connections s)" by (simp add: server_ok_def table_ok_def)
  have found: "map_find (connections s) k = Some d \<longleftrightarrow> d < length (created s) \<and> k = sc_name (created s ! d) \<and> \<not> removed s d" for k d
    using ok by (simp add: server_ok_def table_ok_def)
  have mem: "(k, d) \<in> set (connections s) \<longleftrightarrow> d < length (created s) \<and> k = sc_name (created s ! d) \<and> \<not> removed s d" for k d
    using omap.find_entries [OF mok, of k d] found by simp
  show "posted (destroy_server s) = posted s @ map (\<lambda>c. (sc_loop (created s ! c), Destroy c)) (map snd (connections s))"
    by (simp add: destroy_server_def case_prod_beta comp_def)
  show "set (map snd (connections s)) = {c. c < length (created s) \<and> \<not> removed s c}"
  proof (intro set_eqI iffI)
    fix c assume "c \<in> {c. c < length (created s) \<and> \<not> removed s c}"
    then have "(sc_name (created s ! c), c) \<in> set (connections s)" using mem by simp
    then show "c \<in> set (map snd (connections s))" using image_eqI [of c snd] by fastforce
  next
    fix c assume "c \<in> set (map snd (connections s))"
    then obtain k where "(k, c) \<in> set (connections s)" by auto
    then show "c \<in> {c. c < length (created s) \<and> \<not> removed s c}" using mem by simp
  qed
  have "distinct (connections s)" using omap.keys_distinct [OF mok] by (simp add: distinct_map)
  moreover have "inj_on snd (set (connections s))" using mem by (auto simp: inj_on_def)
  ultimately show "distinct (map snd (connections s))" by (simp add: distinct_map)
qed

section \<open>Runs\<close>

definition demo_peer :: inet_address where
  "demo_peer = \<lparr>sin_addr = (10, 0, 0, 1), sin_port = 80\<rparr>"

definition demo_server :: "int \<Rightarrow> server" where
  "demo_server n = start (the (setThreadNum n (TcpServer ''echo'')))"

definition demo_two :: "int \<Rightarrow> server" where
  "demo_two n = the (newConnection 9 demo_peer (the (newConnection 8 demo_peer (demo_server n))))"

definition demo_closed :: server where
  "demo_closed = the (removeConnection 0 (demo_two 2))"

lemma demo_reaches: "server_reaches ''echo'' 2 demo_closed"
proof -
  have s0: "server_reaches ''echo'' 2 (demo_server 2)"
    unfolding demo_server_def by (rule server_start) (simp add: setThreadNum_def TcpServer_def)
  have a0: "accepting (demo_server 2)"
    by (simp add: demo_server_def setThreadNum_def TcpServer_def start_def)
  have step: "server_reaches ''echo'' 2 (the (newConnection fd p s)) \<and> accepting (the (newConnection fd p s))"
    if r: "server_reaches ''echo'' 2 s" and a: "accepting s" and n: "nextConnId s \<noteq> 2147483647" for fd p s
  proof -
    obtain s' where s': "newConnection fd p s = Some s'" using n by (auto simp: newConnection_def Let_def)
    then have r': "server_reaches ''echo'' 2 s'" using server_next [OF r new_conn [OF a]] by blast
    then have "accepting s'" using server_reaches_ok by fastforce
    then show ?thesis using s' r' by simp
  qed
  have "nextConnId (demo_server 2) \<noteq> 2147483647" by code_simp
  then have s1: "server_reaches ''echo'' 2 (the (newConnection 8 demo_peer (demo_server 2)))"
    "accepting (the (newConnection 8 demo_peer (demo_server 2)))" using step [OF s0 a0] by auto
  have "nextConnId (the (newConnection 8 demo_peer (demo_server 2))) \<noteq> 2147483647" by code_simp
  then have s2: "server_reaches ''echo'' 2 (demo_two 2)" using step [OF s1] by (simp add: demo_two_def)
  have c: "0 < length (created (demo_two 2))" "0 \<notin> set (closed (demo_two 2))" by code_simp+
  have ok: "server_ok (demo_two 2)" using server_reaches_ok [OF s2] by simp
  then obtain s' where s': "removeConnection 0 (demo_two 2) = Some s'" using close_ok [OF ok c] by blast
  have "server_reaches ''echo'' 2 s'" by (rule server_next [OF s2 closes [OF c s']])
  then show ?thesis using s' by (simp add: demo_closed_def)
qed

theorem connections_are_found_when_removed_witness:
  "removeConnection 1 demo_closed \<noteq> None \<and> removeConnectionInLoop 0 (demo_closed\<lparr>removing := []\<rparr>) \<noteq> None"
proof -
  have "1 < length (created demo_closed)" "1 \<notin> set (closed demo_closed)" "removing demo_closed = 0 # []" by code_simp+
  then show ?thesis using connections_are_found_when_removed [OF demo_reaches] by simp
qed

theorem round_robin_is_fair_witness: "set (map sc_loop (created demo_closed)) = {1, 2}"
proof -
  have "length (created demo_closed) = 2" by code_simp
  then have "set (map sc_loop (created demo_closed)) = {1..<3}"
    using round_robin_is_fair [OF demo_reaches, of 0] by simp
  then show ?thesis by auto
qed

section \<open>Observations\<close>

text \<open>
  Without loops of its own the server never advances its number. A second connection from the same
  address and port, while the first is still in the table, takes its place there; when the first one
  closes it removes the second one's entry, and when that closes the assertion fails.
\<close>

lemma single_loop_names_collide:
  "map sc_name (created (demo_two 0)) = [''echo-10.0.0.1:80#1'', ''echo-10.0.0.1:80#1''] \<and>
   connections (demo_two 0) = [(''echo-10.0.0.1:80#1'', 1)] \<and>
   connections (the (removeConnection 0 (demo_two 0))) = [] \<and>
   Option.is_none (removeConnection 1 (the (removeConnection 0 (demo_two 0))))"
  by code_simp

end
