(* ===== verification/Server_Connections.thy ===== *)
theory Server_Connections
  imports Tcp_Server Connection_Order
begin

text \<open>
  \<^verbatim>\<open>TcpServer\<close> and its \<^verbatim>\<open>TcpConnection\<close>s together. The server of \<^verbatim>\<open>Tcp_Server\<close> knows connections by
  number, a connection of \<^verbatim>\<open>Tcp_Connection\<close> knows that it owes a removal; here the close callback
  of the one is the call of the other, and what the server posts to the connection's loop is the
  task the connection runs.
\<close>

section \<open>Closing one connection\<close>

text \<open>
  A closed connection waits for the server, or for its last task, or is out of its loop.
\<close>

definition due_ok :: "conn \<Rightarrow> bool" where
  "due_ok c \<longleftrightarrow> (conn_state c = KDisconnected \<longrightarrow>
     removal_due c \<or> Destroyed_Task \<in> set (tasks c) \<or> \<not> addedToLoop (conn_channel c))"

text \<open>What a handler may do to a connection on its way there.\<close>

definition winds :: "conn \<Rightarrow> conn \<Rightarrow> bool" where
  "winds c c' \<longleftrightarrow>
     (conn_state c = KDisconnected \<longrightarrow> conn_state c' = KDisconnected \<and> removal_due c' = removal_due c \<and>
        (addedToLoop (conn_channel c') \<longrightarrow> addedToLoop (conn_channel c))) \<and>
     (conn_state c \<noteq> KDisconnected \<longrightarrow> conn_state c' = KDisconnected \<longrightarrow> removal_due c') \<and>
     (removal_due c \<longrightarrow> removal_due c') \<and>
     (Destroyed_Task \<in> set (tasks c) \<longrightarrow> Destroyed_Task \<in> set (tasks c')) \<and>
     eventHandling (conn_channel c') = eventHandling (conn_channel c)"

lemma winds_refl [simp]: "winds c c"
  by (simp add: winds_def)

lemma winds_trans: "winds c c' \<Longrightarrow> winds c' c'' \<Longrightarrow> winds c c''"
  unfolding winds_def by blast

lemma winds_due: "winds c c' \<Longrightarrow> due_ok c \<Longrightarrow> due_ok c'"
  unfolding winds_def due_ok_def by blast

text \<open>Most handlers leave the server and the last task alone and do not close.\<close>

lemma winds_open:
  "conn_state c \<noteq> KDisconnected \<Longrightarrow> conn_state c' \<noteq> KDisconnected \<Longrightarrow> removal_due c' = removal_due c \<Longrightarrow>
   set (tasks c) \<subseteq> set (tasks c') \<Longrightarrow> eventHandling (conn_channel c') = eventHandling (conn_channel c) \<Longrightarrow> winds c c'"
  by (auto simp: winds_def)

lemma winds_same:
  "conn_state c' = conn_state c \<Longrightarrow> removal_due c' = removal_due c \<Longrightarrow> tasks c' = tasks c \<Longrightarrow>
   conn_channel c' = conn_channel c \<Longrightarrow> winds c c'"
  by (simp add: winds_def)

lemma chan_handling [simp]:
  "eventHandling (fst (enableReading p ch po)) = eventHandling ch"
  "eventHandling (fst (enableWriting p ch po)) = eventHandling ch"
  "eventHandling (fst (disableWriting p ch po)) = eventHandling ch"
  "eventHandling (fst (disableAll p ch po)) = eventHandling ch"
  by (simp_all add: enableReading_def enableWriting_def disableWriting_def disableAll_def chan_update_def
      updateChannel_def Let_def split: if_splits)

lemma winds_sendInLoop: "winds c (sendInLoop s c)"
proof (cases "conn_state c = KDisconnected")
  case False
  then show ?thesis by (intro winds_open) (auto simp: sendInLoop_def Let_def)
qed (simp add: sendInLoop_closed)

lemma winds_shutdownInLoop: "winds c (shutdownInLoop c)"
  by (rule winds_same) simp_all

lemma winds_call: "winds c (call b a c)"
proof (cases "opened c")
  case True
  then have "conn_state c \<noteq> KDisconnected" by (auto simp: opened_def)
  moreover have "winds c (c\<lparr>conn_state := KDisconnecting\<rparr>)" if "conn_state c \<noteq> KDisconnected"
    using that by (intro winds_open) simp_all
  note winds_trans [OF this winds_shutdownInLoop]
  ultimately show ?thesis
    by (cases a) (auto simp: Let_def winds_sendInLoop intro: winds_open)
qed (simp add: call_closed)

lemma winds_calls: "winds c (calls as c)"
  unfolding calls_def
proof (induction as arbitrary: c)
  case (Cons a as)
  show ?case using winds_trans [OF winds_call Cons.IH] by simp
qed simp

lemma winds_handleClose:
  assumes "handleClose u c = Inr c'"
  shows "winds c c'"
proof -
  define c1 where "c1 = emit Down (with_channel disableAll (c\<lparr>conn_state := KDisconnected\<rparr>))"
  have op: "opened c" using assms by (auto simp: handleClose_def opened_def split: if_splits)
  have "\<not> opened c1" by (simp add: c1_def opened_def)
  then have "c' = emit Closed (c1\<lparr>removal_due := True\<rparr>)"
    using assms op by (simp add: handleClose_def opened_def Let_def c1_def calls_closed)
  then show ?thesis using op by (auto simp: winds_def c1_def opened_def)
qed

lemma winds_handleRead:
  assumes "opened c" "handleRead u rd c = Inr c'"
  shows "winds c c'"
proof -
  obtain n e buf where r: "readFd (inputBuffer c) rd = (n, e, buf)" by (cases "readFd (inputBuffer c) rd")
  have b: "winds c (c\<lparr>inputBuffer := b\<rparr>)" for b by (rule winds_same) simp_all
  have "conn_state c \<noteq> KDisconnected" using assms(1) by (auto simp: opened_def)
  then have "winds c (c\<lparr>inputBuffer := buf, conn_state := KDisconnecting\<rparr>)" by (intro winds_open) simp_all
  then show ?thesis
    using assms(2) r b winds_trans [OF b winds_handleClose] winds_trans [OF b winds_calls]
    by (auto simp: handleRead_def Let_def split: sum.splits if_splits)
qed

lemma winds_handleWrite:
  assumes "control_ok c" "handleWrite u wr c = Inr c'"
  shows "winds c c'"
proof (cases "writing c")
  case True
  obtain n e buf where w: "writeFd (outputBuffer c) wr = (n, e, buf)" by (cases "writeFd (outputBuffer c) wr")
  have "conn_state c \<noteq> KDisconnected" using writing_opened [OF assms(1) True] by (auto simp: opened_def)
  then have steps: "winds c (emit (Wrote s) (c\<lparr>outputBuffer := buf\<rparr>))"
    "winds c (emit Write_Complete (with_channel disableWriting (emit (Wrote s) (c\<lparr>outputBuffer := buf\<rparr>))))" for s
    by (intro winds_open; simp)+
  note called = winds_trans [OF steps(2) winds_calls]
  show ?thesis
    using assms(2) w steps(1) called winds_trans [OF called winds_shutdownInLoop]
    by (auto simp: handleWrite_def Let_def split: if_splits)
qed (use assms(2) in \<open>simp add: handleWrite_def\<close>)

lemma winds_connectEstablished:
  assumes "connectEstablished u c = Inr c'"
  shows "winds c c'"
proof -
  define c1 where "c1 = emit Up (with_channel enableReading
      (c\<lparr>conn_state := KConnected, conn_channel := tie_channel (conn_channel c)\<rparr>))"
  have "conn_state c = KConnecting" "c' = calls (on_connection u True) c1"
    using assms by (auto simp: connectEstablished_def Let_def c1_def split: if_splits)
  moreover from this have "winds c c1" by (intro winds_open) (simp_all add: c1_def tie_channel_def)
  ultimately show ?thesis using winds_trans [OF _ winds_calls] by simp
qed

lemma winds_bound_callback:
  assumes "control_ok c" "k = Read_Callback \<longrightarrow> opened c" "bound_callback u rd wr k c = Inr c'"
  shows "winds c c'"
  using assms winds_handleClose winds_handleRead winds_handleWrite
  by (cases k) (auto simp: bound_callback_def handleError_def)

lemma winds_run_callbacks:
  assumes "control_ok c" "conn_state c \<noteq> KConnecting" "\<forall>k \<in> set ks. k = Error_Callback \<or> k = Write_Callback"
    "run_callbacks (bound_callback u rd wr) ks c = Inr c'"
  shows "winds c c'"
  using assms
proof (induction ks arbitrary: c)
  case (Cons k ks)
  obtain c1 where c1: "bound_callback u rd wr k c = Inr c1" using Cons.prems(4) by (cases "bound_callback u rd wr k c") auto
  have k: "k = Error_Callback \<or> k = Write_Callback" using Cons.prems(3) by simp
  have "handled u (bound_callback u rd wr k c)" using bound_callback_control [OF Cons.prems(1,2)] k by blast
  then have "winds c1 c'" using Cons c1 by auto
  moreover have "winds c c1" using winds_bound_callback [OF Cons.prems(1) _ c1] k by blast
  ultimately show ?case using winds_trans by blast
qed simp

lemma winds_dispatch:
  assumes ok: "control_ok c" and report: "may_report (conn_channel c) r"
    and run: "run_callbacks (bound_callback u rd wr) (due_callbacks r) (set_handling True c) = Inr c'"
  shows "winds (set_handling True c) c'"
proof -
  define c0 where "c0 = set_handling True c"
  have op: "opened c0"
    using assms(1,2) by (auto simp: c0_def control_ok_def opened_def may_report_def chan_dead_def split: conn_state.splits)
  have ok0: "control_ok c0" using ok by (simp add: c0_def)
  have live: "chan_live (conn_channel c)" using ok op control_open [of c] by (simp add: c0_def)
  have "winds c0 c'"
    using due_callbacks_shapes [OF live report]
  proof cases
    case (1 ks)
    then show ?thesis using winds_run_callbacks [OF ok0 opened_started [OF op] 1(2)] run by (simp add: c0_def)
  next
    case (2 ks k ks')
    have "run_callbacks (bound_callback u rd wr) ks c0 = Inr c0"
      using 2(3,4) by (induction ks) (auto simp: bound_callback_def handleError_def)
    then have rest: "run_callbacks (bound_callback u rd wr) (k # ks') c0 = Inr c'"
      using run 2(1) by (simp add: run_callbacks_append c0_def)
    then obtain c1 where c1: "bound_callback u rd wr k c0 = Inr c1"
      "run_callbacks (bound_callback u rd wr) ks' c1 = Inr c'"
      by (cases "bound_callback u rd wr k c0") auto
    have "handled u (bound_callback u rd wr k c0)"
      using bound_callback_control [OF ok0 opened_started [OF op]] op by blast
    then have "control_ok c1" "conn_state c1 \<noteq> KConnecting" using c1(1) by simp_all
    from winds_run_callbacks [OF this _ c1(2)] 2(3) have "winds c1 c'" by blast
    moreover have "winds c0 c1" using winds_bound_callback [OF ok0 _ c1(1)] op by blast
    ultimately show ?thesis using winds_trans by blast
  qed
  then show ?thesis by (simp add: c0_def)
qed

text \<open>
  What one input does to the winding up, the server's own apart: a closed connection stays closed,
  one that closes now owes its removal, and what it still waits for is not forgotten.
\<close>

definition wound :: "conn \<Rightarrow> conn \<Rightarrow> bool" where
  "wound c c' \<longleftrightarrow>
     (conn_state c = KDisconnected \<longrightarrow> conn_state c' = KDisconnected \<and> removal_due c' = removal_due c) \<and>
     (conn_state c \<noteq> KDisconnected \<longrightarrow> conn_state c' = KDisconnected \<longrightarrow> removal_due c') \<and>
     (due_ok c \<longrightarrow> due_ok c') \<and> (\<not> eventHandling (conn_channel c) \<longrightarrow> \<not> eventHandling (conn_channel c'))"

lemma winds_wound: "winds c c' \<Longrightarrow> wound c c'"
  using winds_due unfolding winds_def wound_def by blast

lemma ready_wound:
  assumes "control_ok c" "may_report (conn_channel c) r" "conn_step u (Ready r rd wr) c = Inr c'"
  shows "wound c c'"
proof -
  have "opened c"
    using assms(1,2) by (auto simp: control_ok_def opened_def may_report_def chan_dead_def split: conn_state.splits)
  then have "chan_live (conn_channel c)" using assms(1) control_open by blast
  then obtain c1 where c1: "run_callbacks (bound_callback u rd wr) (due_callbacks r) (set_handling True c) = Inr c1"
    "c' = set_handling False c1"
    using assms(3) by (auto simp: conn_step_def handleEvent_def handleEventWithGuard_def chan_live_def split: sum.splits)
  have w: "winds (set_handling True c) c1" by (rule winds_dispatch [OF assms(1,2) c1(1)])
  have flag: "addedToLoop (conn_channel (set_handling h d)) = addedToLoop (conn_channel d)"
    "eventHandling (conn_channel (set_handling h d)) = h" for h d by (simp_all add: set_handling_def)
  have "due_ok (set_handling h d) = due_ok d" for h d using flag(1) by (simp add: due_ok_def)
  then show ?thesis
    using w winds_due [OF w] flag unfolding wound_def winds_def c1(2) by simp
qed

lemma run_task_wound:
  assumes ok: "control_ok c" and ts: "tasks c = t # ts" and run: "run_task u t (c\<lparr>tasks := ts\<rparr>) = Inr c'"
  shows "wound c c'"
proof -
  define c1 where "c1 = c\<lparr>tasks := ts\<rparr>"
  have ok1: "control_ok c1"
    using ok ts by (auto simp: c1_def control_ok_def pending_def writing_def split: conn_state.splits)
  show ?thesis
  proof (cases "t = Destroyed_Task")
    case True
    then have "conn_state c = KDisconnected" using ok ts by (auto simp: control_ok_def split: conn_state.splits)
    then have "conn_state c1 = KDisconnected" by (simp add: c1_def)
    have "connectDestroyed u c1 = Inr c'" using run True by (simp add: c1_def)
    then have "conn_state c' = KDisconnected" "\<not> addedToLoop (conn_channel c')"
      "eventHandling (conn_channel c') = eventHandling (conn_channel c1)"
      using connectDestroyed_control [OF ok1 \<open>conn_state c1 = KDisconnected\<close>, of u] by auto
    moreover have "removal_due c' = removal_due c1"
      using run True \<open>conn_state c1 = KDisconnected\<close>
      by (auto simp: connectDestroyed_def c1_def split: option.splits)
    ultimately show ?thesis using \<open>conn_state c = KDisconnected\<close> by (auto simp: wound_def due_ok_def c1_def)
  next
    case False
    have "winds c1 c'"
      using run False winds_connectEstablished winds_sendInLoop winds_shutdownInLoop winds_handleClose
      by (cases t) (auto simp: c1_def [symmetric] forceCloseInLoop_def split: if_splits)
    moreover have "due_ok c \<longrightarrow> due_ok c1" using False ts by (auto simp: due_ok_def c1_def)
    ultimately show ?thesis using winds_due [of c1 c'] unfolding wound_def winds_def by (simp add: c1_def)
  qed
qed

lemma conn_step_wound:
  assumes "control_ok c" "may_happen i c" "i \<noteq> Server_Removes" "conn_step u i c = Inr c'"
  shows "wound c c'"
proof (cases i)
  case (Ready r rd wr)
  then show ?thesis using ready_wound [OF assms(1)] assms(2,4) by simp
next
  case Run_Task
  then obtain t ts where "tasks c = t # ts" using assms(2) by (auto simp: neq_Nil_conv)
  then show ?thesis using Run_Task run_task_wound [OF assms(1)] assms(4) by (simp add: conn_step_def)
qed (use assms(3,4) winds_wound [OF winds_call] in \<open>auto simp: conn_step_def\<close>)

section \<open>Server and connections\<close>

record site =
  srv :: server
  conn_at :: "nat \<Rightarrow> conn"

text \<open>
  The base loop accepts a socket (with the identity of the new channel and the poller of its loop)
  or runs a removal that was queued; a loop lets something happen to one of its connections.
\<close>

datatype site_input = Accept_Socket nat inet_address nat poller | At_Conn nat conn_input | Run_Removal

text \<open>A \<^term>\<open>Destroy\<close> that the server posts is queued in the connection's loop.\<close>

definition deliver :: "server \<Rightarrow> server \<Rightarrow> (nat \<Rightarrow> conn) \<Rightarrow> nat \<Rightarrow> conn" where
  "deliver s s' m =
     fold (\<lambda>(l, t) m. case t of
         Destroy c \<Rightarrow> m(c := queueInLoop Destroyed_Task ((m c)\<lparr>removal_due := False\<rparr>))
       | Establish c \<Rightarrow> m)
       (drop (length (posted s)) (posted s')) m"

definition server_acts :: "server option \<Rightarrow> site \<Rightarrow> conn_error + site" where
  "server_acts r st =
     (case r of
        None \<Rightarrow> Inl Assertion_Failed
      | Some s \<Rightarrow> Inr (st\<lparr>srv := s, conn_at := deliver (srv st) s (conn_at st)\<rparr>))"

fun site_next :: "user_callbacks \<Rightarrow> site_input \<Rightarrow> site \<Rightarrow> conn_error + site" where
  "site_next u (Accept_Socket fd peer p po) st =
     server_acts (newConnection fd peer (srv st))
       (st\<lparr>conn_at := (conn_at st)(length (created (srv st)) := new_connection p (int fd) po)\<rparr>)"
| "site_next u (At_Conn c i) st =
     (case conn_step u i (conn_at st c) of
        Inl e \<Rightarrow> Inl e
      | Inr k \<Rightarrow>
          let st' = st\<lparr>conn_at := (conn_at st)(c := k)\<rparr>
          in if removal_due k \<and> \<not> removal_due (conn_at st c)
             then server_acts (removeConnection c (srv st)) st' else Inr st')"
| "site_next u Run_Removal st =
     (case removing (srv st) of
        [] \<Rightarrow> Inr st
      | c # cs \<Rightarrow> server_acts (removeConnectionInLoop c ((srv st)\<lparr>removing := cs\<rparr>)) st)"

text \<open>The server numbers at most 2^31 - 3 connections, see \<^term>\<open>newConnection\<close>.\<close>

fun site_may :: "site_input \<Rightarrow> site \<Rightarrow> bool" where
  "site_may (Accept_Socket fd peer p po) st \<longleftrightarrow> nextConnId (srv st) < 2147483647"
| "site_may (At_Conn c i) st \<longleftrightarrow>
     c < length (created (srv st)) \<and> i \<noteq> Server_Removes \<and> may_happen i (conn_at st c)"
| "site_may Run_Removal st \<longleftrightarrow> removing (srv st) \<noteq> []"

inductive site_reaches :: "user_callbacks \<Rightarrow> string \<Rightarrow> int \<Rightarrow> site \<Rightarrow> bool" for u name n where
  site_start: "setThreadNum n (TcpServer name) = Some s \<Longrightarrow> srv st = start s \<Longrightarrow> site_reaches u name n st"
| site_then: "site_reaches u name n st \<Longrightarrow> site_may i st \<Longrightarrow> site_next u i st = Inr st' \<Longrightarrow> site_reaches u name n st'"

section \<open>Invariant of the two\<close>

definition site_conn_ok :: "server \<Rightarrow> nat \<Rightarrow> conn \<Rightarrow> bool" where
  "site_conn_ok s c k \<longleftrightarrow> control_ok k \<and> due_ok k \<and> \<not> eventHandling (conn_channel k) \<and>
     (removal_due k \<longleftrightarrow> c \<in> set (removing s)) \<and> (conn_state k = KDisconnected \<longleftrightarrow> c \<in> set (closed s))"

definition site_ok :: "site \<Rightarrow> bool" where
  "site_ok st \<longleftrightarrow> server_ok (srv st) \<and> (\<forall>c < length (created (srv st)). site_conn_ok (srv st) c (conn_at st c))"

lemma newConnection_keeps:
  assumes "newConnection fd peer s = Some s'"
  shows "closed s' = closed s" "removing s' = removing s" "\<exists>c. created s' = created s @ [c]"
    and "\<exists>l. posted s' = posted s @ [(l, Establish (length (created s)))]"
  using assms by (auto simp: newConnection_def Let_def split: if_splits)

lemma removeConnection_queues:
  assumes "server_ok s" "c < length (created s)"
  shows "removeConnection c s = Some (s\<lparr>closed := closed s @ [c], removing := removing s @ [c]\<rparr>)"
proof -
  have "sc_loop (created s ! c) \<in> set (subLoops s)"
    using assms by (simp add: server_ok_def conns_ok_def loops_ok_def)
  then have "sc_loop (created s ! c) \<noteq> 0" using assms(1) by (metis loops_ok_def server_ok_def)
  then show ?thesis by (simp add: removeConnection_def Let_def)
qed

lemma removal_keeps:
  "removeConnectionInLoop c s = Some s' \<Longrightarrow> closed s' = closed s \<and> removing s' = removing s \<and> created s' = created s"
  by (auto simp: removeConnectionInLoop_def Let_def split: if_splits)

lemma new_connection_site: "c \<notin> set (removing s) \<Longrightarrow> c \<notin> set (closed s) \<Longrightarrow> site_conn_ok s c (new_connection p fd po)"
  using new_connection_control
  by (simp add: site_conn_ok_def due_ok_def) (simp add: new_connection_def Channel_def)

text \<open>An input to a connection closes it exactly when it tells the server.\<close>

lemma conn_input_site:
  assumes ok: "site_conn_ok s c k" and i: "may_happen i k" "i \<noteq> Server_Removes" and step: "conn_step u i k = Inr k'"
  shows "removal_due k' \<and> \<not> removal_due k \<longrightarrow>
      c \<notin> set (closed s) \<and> conn_state k' = KDisconnected \<and> control_ok k' \<and> due_ok k' \<and> \<not> eventHandling (conn_channel k')"
    and "\<not> (removal_due k' \<and> \<not> removal_due k) \<longrightarrow> site_conn_ok s c k'"
proof -
  have ctl: "control_ok k" using ok by (simp add: site_conn_ok_def)
  have ctl': "control_ok k'" using conn_step_control [OF ctl i(1), of u] step by simp
  have w: "wound k k'" by (rule conn_step_wound [OF ctl i step])
  have due: "removal_due d \<longrightarrow> conn_state d = KDisconnected" if "control_ok d" for d
    using that by (auto simp: control_ok_def split: conn_state.splits)
  show "removal_due k' \<and> \<not> removal_due k \<longrightarrow>
      c \<notin> set (closed s) \<and> conn_state k' = KDisconnected \<and> control_ok k' \<and> due_ok k' \<and> \<not> eventHandling (conn_channel k')"
    using w ok ctl' due [OF ctl'] unfolding wound_def site_conn_ok_def by blast
  show "\<not> (removal_due k' \<and> \<not> removal_due k) \<longrightarrow> site_conn_ok s c k'"
    using w ok ctl' due [OF ctl] due [OF ctl'] unfolding wound_def site_conn_ok_def by blast
qed

lemma destroy_queued_site:
  assumes "control_ok k" "conn_state k = KDisconnected" "\<not> eventHandling (conn_channel k)"
    and "c \<notin> set (removing s)" "c \<in> set (closed s)"
  shows "site_conn_ok s c (queueInLoop Destroyed_Task (k\<lparr>removal_due := False\<rparr>))"
  using assms by (simp add: site_conn_ok_def due_ok_def control_ok_def)

lemma site_cong:
  "site_conn_ok s c k \<Longrightarrow> c \<in> set (removing s') \<longleftrightarrow> c \<in> set (removing s) \<Longrightarrow>
   c \<in> set (closed s') \<longleftrightarrow> c \<in> set (closed s) \<Longrightarrow> site_conn_ok s' c k"
  by (simp add: site_conn_ok_def)

lemma site_next_ok:
  assumes ok: "site_ok st" and may: "site_may i st"
  shows "(\<exists>st'. site_next u i st = Inr st' \<and> site_ok st') \<or>
    (\<exists>x buf. site_next u i st = Inl (Uncaught x) \<and> on_message u buf = Inl x)"
proof -
  define s where "s = srv st"
  have sok: "server_ok s" and cok: "\<And>c. c < length (created s) \<Longrightarrow> site_conn_ok s c (conn_at st c)"
    using ok by (auto simp: site_ok_def s_def)
  have tab: "distinct (removing s)" "set (removing s) \<subseteq> set (closed s)" "\<forall>c \<in> set (closed s). c < length (created s)"
    using sok by (auto simp: server_ok_def table_ok_def)
  show ?thesis
  proof (cases i)
    case (Accept_Socket fd peer p po)
    have "newConnection fd peer s \<noteq> None" using may Accept_Socket by (simp add: newConnection_def s_def Let_def)
    then obtain s' where s': "newConnection fd peer s = Some s'" by blast
    note keep = newConnection_keeps [OF s']
    have "server_ok s'" using newConnection_ok [OF sok s'] by blast
    moreover have "site_conn_ok s' (length (created s)) (new_connection p (int fd) po)"
      using tab keep(1,2) by (intro new_connection_site) auto
    moreover have "site_conn_ok s' c (conn_at st c)" if "c < length (created s)" for c
      using site_cong [OF cok [OF that]] keep(1,2) by simp
    moreover obtain l where "posted s' = posted s @ [(l, Establish (length (created s)))]" using keep(4) by blast
    then have "deliver s s' m = m" for m by (simp add: deliver_def)
    ultimately show ?thesis
      using Accept_Socket s' keep(3)
      by (auto simp: server_acts_def s_def [symmetric] site_ok_def less_Suc_eq)
  next
    case (At_Conn c ci)
    then have c: "c < length (created s)" "ci \<noteq> Server_Removes" "may_happen ci (conn_at st c)" using may by (simp_all add: s_def)
    have ctl: "control_ok (conn_at st c)" using cok [OF c(1)] by (simp add: site_conn_ok_def)
    show ?thesis
    proof (cases "conn_step u ci (conn_at st c)")
      case (Inl e)
      then show ?thesis using conn_step_control [OF ctl c(3), of u] At_Conn by auto
    next
      case (Inr k)
      note step = conn_input_site [OF cok [OF c(1)] c(3,2) Inr]
      define st' where "st' = st\<lparr>conn_at := (conn_at st)(c := k)\<rparr>"
      show ?thesis
      proof (cases "removal_due k \<and> \<not> removal_due (conn_at st c)")
        case False
        then have "site_ok st'" using step(2) sok cok by (simp add: site_ok_def st'_def s_def [symmetric])
        then show ?thesis using At_Conn Inr False by (auto simp: st'_def Let_def)
      next
        case True
        define s' where "s' = s\<lparr>closed := closed s @ [c], removing := removing s @ [c]\<rparr>"
        have rem: "removeConnection c s = Some s'" using removeConnection_queues [OF sok c(1)] by (simp add: s'_def)
        have k: "c \<notin> set (closed s)" "conn_state k = KDisconnected" "control_ok k" "due_ok k" "\<not> eventHandling (conn_channel k)"
          using step(1) True by auto
        have "server_ok s'" using close_ok [OF sok c(1) k(1)] rem by auto
        moreover have "site_conn_ok s' c k" using k True by (simp add: site_conn_ok_def s'_def)
        moreover have "site_conn_ok s' d (conn_at st d)" if "d < length (created s)" "d \<noteq> c" for d
          using site_cong [OF cok [OF that(1)], of s'] that(2) by (simp add: s'_def)
        moreover have "deliver s s' m = m" for m by (simp add: deliver_def s'_def)
        ultimately have "site_ok (st'\<lparr>srv := s', conn_at := deliver s s' (conn_at st')\<rparr>)"
          by (simp add: site_ok_def st'_def) (simp add: s'_def)
        then show ?thesis
          using At_Conn Inr True rem by (auto simp: st'_def Let_def server_acts_def s_def [symmetric])
      qed
    qed
  next
    case Run_Removal
    then obtain c cs where r: "removing s = c # cs" using may by (auto simp: s_def neq_Nil_conv)
    obtain s' where s': "removeConnectionInLoop c (s\<lparr>removing := cs\<rparr>) = Some s'" "server_ok s'"
      "posted s' = posted s @ [(sc_loop (created s ! c), Destroy c)]" using remove_ok [OF sok r] by blast
    have keep: "closed s' = closed s" "removing s' = cs" "created s' = created s" using removal_keeps [OF s'(1)] by simp_all
    have c: "c \<in> set (closed s)" "c < length (created s)" "c \<notin> set cs" using tab r by auto
    define k where "k = queueInLoop Destroyed_Task ((conn_at st c)\<lparr>removal_due := False\<rparr>)"
    have "deliver s s' (conn_at st) = (conn_at st)(c := k)" by (simp add: deliver_def s'(3) k_def)
    moreover have "site_conn_ok s' c k"
      unfolding k_def using cok [OF c(2)] c keep by (intro destroy_queued_site) (auto simp: site_conn_ok_def)
    moreover have "site_conn_ok s' d (conn_at st d)" if "d < length (created s)" "d \<noteq> c" for d
      using site_cong [OF cok [OF that(1)], of s'] that(2) keep r by simp
    ultimately have "site_ok (st\<lparr>srv := s', conn_at := deliver s s' (conn_at st)\<rparr>)"
      using s'(2) keep by (simp add: site_ok_def)
    then show ?thesis using Run_Removal r s'(1) by (auto simp: server_acts_def s_def)
  qed
qed

lemma site_reaches_ok:
  assumes "site_reaches u name n st" "0 < n"
  shows "site_ok st"
  using assms
proof induction
  case (site_start s st)
  then have "server_ok (start s)" using start_ok by blast
  moreover have "created (start s) = []"
    using site_start.hyps(1) by (auto simp: setThreadNum_def TcpServer_def start_def Let_def)
  ultimately show ?case using site_start.hyps(2) by (simp add: site_ok_def)
next
  case (site_then st i st')
  then have "site_ok st" by simp
  from site_next_ok [OF this site_then.hyps(2), of u] site_then.hyps(3) show ?case by auto
qed

section \<open>Runs of the two\<close>

fun site_run :: "user_callbacks \<Rightarrow> site_input list \<Rightarrow> site \<Rightarrow> conn_error + site" where
  "site_run u [] st = Inr st"
| "site_run u (i # is) st =
     (if site_may i st then case site_next u i st of Inl e \<Rightarrow> Inl e | Inr st' \<Rightarrow> site_run u is st'
      else Inl Assertion_Failed)"

lemma site_run_append:
  "site_run u (is @ js) st = (case site_run u is st of Inl e \<Rightarrow> Inl e | Inr st' \<Rightarrow> site_run u js st')"
  by (induction "is" arbitrary: st) (auto split: sum.split)

lemma site_run_reaches: "site_run u is st = Inr st' \<Longrightarrow> site_reaches u name n st \<Longrightarrow> site_reaches u name n st'"
proof (induction "is" arbitrary: st)
  case (Cons i "is")
  then obtain st1 where "site_may i st" "site_next u i st = Inr st1" "site_run u is st1 = Inr st'"
    by (auto split: if_splits sum.splits)
  then show ?case using Cons.IH site_then [OF Cons.prems(2)] by blast
qed simp

text \<open>The base loop can work off its removals, and the loop of a closed connection its tasks.\<close>

lemma removals_drain:
  "site_ok st \<Longrightarrow> \<exists>is st'. site_run u is st = Inr st' \<and> site_ok st' \<and> removing (srv st') = [] \<and>
     length (created (srv st')) = length (created (srv st)) \<and> set (closed (srv st')) = set (closed (srv st))"
proof (induction "removing (srv st)" arbitrary: st)
  case Nil
  then show ?case by (intro exI [of _ "[]"] exI [of _ st]) simp
next
  case (Cons c cs)
  have r: "removing (srv st) = c # cs" using Cons.hyps(2) by simp
  then have may: "site_may Run_Removal st" by simp
  have "server_ok (srv st)" using Cons.prems by (simp add: site_ok_def)
  from remove_ok [OF this r] obtain s' where s': "removeConnectionInLoop c ((srv st)\<lparr>removing := cs\<rparr>) = Some s'" by blast
  define st1 where "st1 = st\<lparr>srv := s', conn_at := deliver (srv st) s' (conn_at st)\<rparr>"
  have next1: "site_next u Run_Removal st = Inr st1" using r s' by (simp add: server_acts_def st1_def)
  then have ok1: "site_ok st1" using site_next_ok [OF Cons.prems may, of u] by auto
  have keep: "removing (srv st1) = cs" "created (srv st1) = created (srv st)" "closed (srv st1) = closed (srv st)"
    using removal_keeps [OF s'] by (simp_all add: st1_def)
  obtain "is" st' where run: "site_run u is st1 = Inr st'" "site_ok st'" "removing (srv st') = []"
    "length (created (srv st')) = length (created (srv st1))" "set (closed (srv st')) = set (closed (srv st1))"
    using Cons.hyps(1) [OF _ ok1] keep(1) by auto
  have "site_run u (Run_Removal # is) st = Inr st'"
    using next1 run(1) may by (simp del: site_may.simps site_next.simps)
  then show ?case using run keep by metis
qed

lemma closed_task_shrinks:
  assumes ok: "control_ok k" and st: "conn_state k = KDisconnected" and ts: "tasks k = t # ts"
  shows "\<exists>k'. conn_step u Run_Task k = Inr k' \<and> tasks k' = ts"
proof -
  define k1 where "k1 = k\<lparr>tasks := ts\<rparr>"
  have k1: "control_ok k1" "conn_state k1 = KDisconnected"
    using ok st ts by (auto simp: k1_def control_ok_def)
  have t: "t \<noteq> Established_Task" using ok st ts by (auto simp: control_ok_def)
  obtain k' where d: "connectDestroyed u k1 = Inr k'" using connectDestroyed_control [OF k1] by blast
  then have "tasks k' = ts" using st by (auto simp: connectDestroyed_def k1_def split: option.splits)
  then show ?thesis
    using t d st ts by (cases t) (auto simp: conn_step_def k1_def sendInLoop_closed forceCloseInLoop_def)
qed

lemma tasks_drain:
  "site_ok st \<Longrightarrow> removing (srv st) = [] \<Longrightarrow> c < length (created (srv st)) \<Longrightarrow> c \<in> set (closed (srv st)) \<Longrightarrow>
     \<exists>is st'. site_run u is st = Inr st' \<and> site_ok st' \<and> srv st' = srv st \<and> tasks (conn_at st' c) = []"
proof (induction "tasks (conn_at st c)" arbitrary: st)
  case Nil
  then show ?case by (intro exI [of _ "[]"] exI [of _ st]) simp
next
  case (Cons t ts)
  define k where "k = conn_at st c"
  have k: "control_ok k" "conn_state k = KDisconnected" "\<not> removal_due k" "tasks k = t # ts"
    using Cons.prems Cons.hyps(2) by (auto simp: site_ok_def site_conn_ok_def k_def)
  obtain k' where step: "conn_step u Run_Task k = Inr k'" "tasks k' = ts" using closed_task_shrinks [OF k(1,2,4)] by blast
  have "may_happen Run_Task k" using k(4) by simp
  from conn_step_wound [OF k(1) this _ step(1)] k have due: "\<not> removal_due k'" by (auto simp: wound_def)
  define st1 where "st1 = st\<lparr>conn_at := (conn_at st)(c := k')\<rparr>"
  have may: "site_may (At_Conn c Run_Task) st" using Cons.prems k(4) by (simp add: k_def)
  have next1: "site_next u (At_Conn c Run_Task) st = Inr st1"
    using step(1) due by (simp add: k_def [symmetric] st1_def Let_def)
  then have ok1: "site_ok st1" using site_next_ok [OF Cons.prems(1) may, of u] by auto
  have "ts = tasks (conn_at st1 c)" using step(2) by (simp add: st1_def)
  from Cons.hyps(1) [OF this ok1] Cons.prems obtain "is" st' where
    run: "site_run u is st1 = Inr st'" "site_ok st'" "srv st' = srv st" "tasks (conn_at st' c) = []" by (auto simp: st1_def)
  have "site_run u (At_Conn c Run_Task # is) st = Inr st'"
    using next1 run(1) may by (simp del: site_may.simps site_next.simps)
  then show ?case using run by blast
qed

section \<open>Properties\<close>


lemma open_or_found:
  assumes "site_ok st" "c < length (created (srv st))"
  shows "conn_state (conn_at st c) \<noteq> KDisconnected \<Longrightarrow>
      map_find (connections (srv st)) (sc_name (created (srv st) ! c)) = Some c"
    and "conn_state (conn_at st c) = KDisconnected \<Longrightarrow> removing (srv st) = [] \<Longrightarrow>
      map_find (connections (srv st)) x \<noteq> Some c"
proof -
  have "site_conn_ok (srv st) c (conn_at st c)" and "table_ok (srv st)"
    using assms by (auto simp: site_ok_def server_ok_def)
  then show "conn_state (conn_at st c) \<noteq> KDisconnected \<Longrightarrow>
      map_find (connections (srv st)) (sc_name (created (srv st) ! c)) = Some c"
    "conn_state (conn_at st c) = KDisconnected \<Longrightarrow> removing (srv st) = [] \<Longrightarrow> map_find (connections (srv st)) x \<noteq> Some c"
    using assms(2) by (auto simp: site_conn_ok_def table_ok_def removed_def)
qed


section \<open>A server with two loops and one connection\<close>

definition two_loops :: server where
  "two_loops = start (the (setThreadNum 2 (TcpServer ''web'')))"

definition empty_site :: site where
  "empty_site = \<lparr>srv = two_loops, conn_at = (\<lambda>c. new_connection 0 0 empty_poller)\<rparr>"

text \<open>A client connects, is established, and closes.\<close>

definition visit :: "site_input list" where
  "visit = [Accept_Socket 7 \<lparr>sin_addr = (1, 2, 3, 4), sin_port = 5\<rparr> 1 empty_poller,
     At_Conn 0 Run_Task, At_Conn 0 (Ready EPOLLIN (Inr '''') (Inl 11))]"

definition visited :: site where
  "visited = projr (site_run echo_user visit empty_site)"

lemma empty_site_reached: "site_reaches u ''web'' 2 empty_site"
proof (rule site_start)
  show "setThreadNum 2 (TcpServer ''web'') = Some (the (setThreadNum 2 (TcpServer ''web'')))"
    by (simp add: setThreadNum_def TcpServer_def)
qed (simp add: empty_site_def two_loops_def)

lemma visited_reached: "site_reaches echo_user ''web'' 2 visited"
proof -
  have "\<not> isl (site_run echo_user visit empty_site)" by code_simp
  then have "site_run echo_user visit empty_site = Inr visited" unfolding visited_def by (rule sum.collapse(2) [symmetric])
  then show ?thesis by (rule site_run_reaches [OF _ empty_site_reached])
qed

lemma visited_facts:
  "removing (srv visited) = [0]" "conn_state (conn_at visited 0) = KDisconnected" "length (created (srv visited)) = 1"
  unfolding visited_def by code_simp+



end
