(* ===== verification/Timer_Queue.thy ===== *)
theory Timer_Queue
  imports Std_Heap "HOL-Library.Monad_Syntax"
begin

text \<open>
  \<^verbatim>\<open>Timer.h/.cpp\<close> and \<^verbatim>\<open>TimerQueue.h/.cpp\<close>: the timers of a loop in a binary heap by expiry, the
  set used for cancellation and the timerfd. Time stamps are microseconds, an interval is the
  value of \<^verbatim>\<open>static_cast<int64_t>(interval * 1000000)\<close>; both are taken to stay in the range of
  \<^verbatim>\<open>int64_t\<close>. A timer object is named by its sequence number, so a freed one is never found again
  under a new timer. Every reading of the clock is an argument. Using a freed timer is \<^term>\<open>None\<close>.
\<close>

section \<open>State\<close>

record timer =
  expiration :: int
  interval :: int
  repeats :: bool

text \<open>
  \<^term>\<open>armed\<close> is what the timerfd was last set to and has not yet fired for: the expiry it was set
  for and the relative time given to the kernel. \<^term>\<open>runs\<close> is the history of callbacks.
\<close>

record timer_queue =
  timers :: "nat list"
  activeTimers :: "nat set"
  store :: "nat \<rightharpoonup> timer"
  numCreated :: nat
  armed :: "(int \<times> int \<times> int) option"
  runs :: "nat list"

definition TimerQueue :: timer_queue where
  "TimerQueue = \<lparr>timers = [], activeTimers = {}, store = Map.empty, numCreated = 0, armed = None, runs = []\<rparr>"

definition Timer :: "int \<Rightarrow> int \<Rightarrow> bool \<Rightarrow> timer" where
  "Timer when iv rep = \<lparr>expiration = when, interval = iv, repeats = rep\<rparr>"

definition restart :: "int \<Rightarrow> timer \<Rightarrow> timer" where
  "restart now tm =
     (if repeats tm then tm\<lparr>expiration := now + interval tm\<rparr> else tm\<lparr>expiration := 0\<rparr>)"

definition valid_stamp :: "int \<Rightarrow> bool" where
  "valid_stamp t \<longleftrightarrow> 0 < t"

definition key :: "timer_queue \<Rightarrow> nat \<Rightarrow> int" where
  "key q t = (case store q t of None \<Rightarrow> 0 | Some tm \<Rightarrow> expiration tm)"

section \<open>The timerfd\<close>

text \<open>The relative time as seconds and nanoseconds.\<close>

definition howMuchTimeFromNow :: "int \<Rightarrow> int \<Rightarrow> int \<times> int" where
  "howMuchTimeFromNow now when =
     (let microseconds = when - now;
          microseconds = (if microseconds < 100 then 100 else microseconds)
      in (microseconds div 1000000, (microseconds mod 1000000) * 1000))"

definition resetTimerfd :: "int \<Rightarrow> int \<Rightarrow> timer_queue \<Rightarrow> timer_queue" where
  "resetTimerfd clk when q = q\<lparr>armed := Some (when, howMuchTimeFromNow clk when)\<rparr>"

text \<open>The timerfd is one-shot: when it has fired it is no longer armed.\<close>

definition readTimerfd :: "timer_queue \<Rightarrow> timer_queue" where
  "readTimerfd q = q\<lparr>armed := None\<rparr>"

section \<open>Operations\<close>

definition insert_timer :: "int \<Rightarrow> nat \<Rightarrow> timer_queue \<Rightarrow> timer_queue option" where
  "insert_timer clk t q = do {
     tm \<leftarrow> store q t;
     earliestChanged \<leftarrow> (case timers q of
         [] \<Rightarrow> Some True
       | f # _ \<Rightarrow> do { fm \<leftarrow> store q f; Some (expiration tm < expiration fm) });
     let q = q\<lparr>timers := push_heap (key q) (timers q @ [t]), activeTimers := insert t (activeTimers q)\<rparr>;
     Some (if earliestChanged then resetTimerfd clk (expiration tm) q else q)
   }"

definition addTimer :: "int \<Rightarrow> timer \<Rightarrow> timer_queue \<Rightarrow> timer_queue option" where
  "addTimer clk tm q =
     (let t = numCreated q + 1
      in insert_timer clk t (q\<lparr>store := (store q)(t \<mapsto> tm), numCreated := t\<rparr>))"

text \<open>The overload that takes a delay, in microseconds.\<close>

definition addTimerAfter :: "int \<Rightarrow> int \<Rightarrow> int \<Rightarrow> bool \<Rightarrow> timer_queue \<Rightarrow> timer_queue option" where
  "addTimerAfter clk delay iv rep q = addTimer clk (Timer (clk + delay) iv rep) q"

definition cancel :: "nat \<Rightarrow> timer_queue \<Rightarrow> timer_queue" where
  "cancel t q =
     (if t \<in> activeTimers q then
        let q = q\<lparr>activeTimers := activeTimers q - {t}\<rparr>;
            q = (if t \<in> set (timers q) then q\<lparr>timers := make_heap (key q) (remove1 t (timers q))\<rparr> else q)
        in q\<lparr>store := (store q)(t := None)\<rparr>
      else q)"

function getExpired :: "int \<Rightarrow> timer_queue \<Rightarrow> nat list \<times> timer_queue" where
  "getExpired now q =
     (case timers q of
        [] \<Rightarrow> ([], q)
      | t # _ \<Rightarrow>
          if key q t \<le> now then
            let popped = pop_heap (key q) (timers q);
                q' = q\<lparr>activeTimers := activeTimers q - {t}, timers := butlast popped\<rparr>;
                (expired, q'') = getExpired now q'
            in (last popped # expired, q'')
          else ([], q))"
  by pat_completeness auto
termination
proof (relation "measure (\<lambda>(now, q). length (timers q))", goal_cases)
  case (2 now q t ts)
  have "length (pop_heap (key q) (timers q)) = length (timers q)" by (metis mset_pop_heap size_mset)
  then show ?case using 2 by simp
qed simp

declare getExpired.simps [simp del]

text \<open>What a callback does to its queue: add a timer, with its reading of the clock, or cancel one.\<close>

datatype queue_call = Add_Timer int timer | Cancel_Timer nat

fun timer_call :: "queue_call \<Rightarrow> timer_queue \<Rightarrow> timer_queue option" where
  "timer_call (Add_Timer clk tm) q = addTimer clk tm q"
| "timer_call (Cancel_Timer t) q = Some (cancel t q)"

fun timer_calls :: "queue_call list \<Rightarrow> timer_queue \<Rightarrow> timer_queue option" where
  "timer_calls [] q = Some q"
| "timer_calls (c # cs) q = do { q \<leftarrow> timer_call c q; timer_calls cs q }"

fun run_timers :: "(nat \<Rightarrow> queue_call list) \<Rightarrow> nat list \<Rightarrow> timer_queue \<Rightarrow> timer_queue option" where
  "run_timers body [] q = Some q"
| "run_timers body (t # ts) q = do {
     tm \<leftarrow> store q t;
     q \<leftarrow> timer_calls (body t) (q\<lparr>runs := runs q @ [t]\<rparr>);
     run_timers body ts q
   }"

fun restart_or_free :: "int \<Rightarrow> int \<Rightarrow> nat list \<Rightarrow> timer_queue \<Rightarrow> timer_queue option" where
  "restart_or_free clk now [] q = Some q"
| "restart_or_free clk now (t # ts) q = do {
     tm \<leftarrow> store q t;
     q \<leftarrow> (if repeats tm then insert_timer clk t (q\<lparr>store := (store q)(t \<mapsto> restart now tm)\<rparr>)
           else Some (q\<lparr>store := (store q)(t := None)\<rparr>));
     restart_or_free clk now ts q
   }"

definition arm_front :: "int \<Rightarrow> timer_queue \<Rightarrow> timer_queue" where
  "arm_front clk q =
     (case timers q of
        [] \<Rightarrow> q
      | t # _ \<Rightarrow> if valid_stamp (key q t) then resetTimerfd clk (key q t) q else q)"

definition reset_timers :: "int \<Rightarrow> int \<Rightarrow> nat list \<Rightarrow> timer_queue \<Rightarrow> timer_queue option" where
  "reset_timers clk now expired q = do {
     q \<leftarrow> restart_or_free clk now expired q;
     Some (arm_front clk q)
   }"

definition handleTimers :: "(nat \<Rightarrow> queue_call list) \<Rightarrow> int \<Rightarrow> int \<Rightarrow> timer_queue \<Rightarrow> timer_queue option" where
  "handleTimers body now clk q = do {
     let (expired, q) = getExpired now (readTimerfd q);
     q \<leftarrow> run_timers body expired q;
     reset_timers clk now expired q
   }"

section \<open>Invariant\<close>

definition queue_ok :: "timer_queue \<Rightarrow> bool" where
  "queue_ok q \<longleftrightarrow> is_heap (key q) (timers q) \<and> distinct (timers q) \<and> set (timers q) = activeTimers q \<and>
     activeTimers q \<subseteq> dom (store q) \<and> (\<forall>t \<in> dom (store q). t \<le> numCreated q)"

text \<open>The timerfd will fire no later than a time.\<close>

definition armed_by :: "timer_queue \<Rightarrow> int \<Rightarrow> bool" where
  "armed_by q e \<longleftrightarrow> (\<exists>w ts. armed q = Some (w, ts) \<and> w \<le> e)"

definition covered :: "int \<Rightarrow> timer_queue \<Rightarrow> bool" where
  "covered limit q \<longleftrightarrow> (\<forall>t \<in> set (timers q). key q t \<le> limit \<longrightarrow> armed_by q (key q t))"

lemma key_cong: "store q' = store q \<Longrightarrow> key q' = key q"
  by (simp add: key_def [abs_def])

lemma key_simps [simp]:
  "key (q\<lparr>timers := ts\<rparr>) = key q" "key (q\<lparr>activeTimers := as\<rparr>) = key q" "key (q\<lparr>armed := a\<rparr>) = key q"
  "key (q\<lparr>runs := rs\<rparr>) = key q" "key (q\<lparr>numCreated := n\<rparr>) = key q" "key (resetTimerfd clk w q) = key q"
  by (simp_all add: key_def [abs_def] resetTimerfd_def)

lemma resetTimerfd_simps [simp]:
  "timers (resetTimerfd clk w q) = timers q" "activeTimers (resetTimerfd clk w q) = activeTimers q"
  "store (resetTimerfd clk w q) = store q" "runs (resetTimerfd clk w q) = runs q"
  "numCreated (resetTimerfd clk w q) = numCreated q" "armed_by (resetTimerfd clk w q) e \<longleftrightarrow> w \<le> e"
  by (auto simp: resetTimerfd_def armed_by_def)

lemma armed_by_cong: "armed q' = armed q \<Longrightarrow> armed_by q' = armed_by q"
  by (simp add: armed_by_def [abs_def])

lemma armed_by_mono: "armed_by q a \<Longrightarrow> a \<le> b \<Longrightarrow> armed_by q b"
  by (auto simp: armed_by_def)

lemma insert_timer_ok:
  assumes ok: "queue_ok q" and t: "store q t = Some tm" "t \<notin> activeTimers q"
  shows "\<exists>q'. insert_timer clk t q = Some q' \<and> queue_ok q' \<and> activeTimers q' = insert t (activeTimers q) \<and>
    store q' = store q \<and> runs q' = runs q \<and> numCreated q' = numCreated q \<and>
    (covered limit q \<longrightarrow> covered limit q')"
proof -
  have set: "set (timers q) = activeTimers q" and dist: "distinct (timers q)" and heap: "is_heap (key q) (timers q)"
    and live: "activeTimers q \<subseteq> dom (store q)" using ok by (auto simp: queue_ok_def)
  define early where "early \<longleftrightarrow> timers q = [] \<or> key q t < key q (hd (timers q))"
  define q1 where "q1 = q\<lparr>timers := push_heap (key q) (timers q @ [t]), activeTimers := insert t (activeTimers q)\<rparr>"
  define q' where "q' = (if early then resetTimerfd clk (key q t) q1 else q1)"
  have "\<exists>fm. store q (hd (timers q)) = Some fm" if "timers q \<noteq> []"
    using that live set by (metis domD hd_in_set subsetD)
  then have run: "insert_timer clk t q = Some q'"
    using t(1) by (cases "timers q") (auto simp: insert_timer_def q'_def q1_def early_def key_def Let_def)
  have m: "mset (timers q') = add_mset t (mset (timers q))" by (simp add: q'_def q1_def mset_push_heap)
  have set': "set (timers q') = insert t (activeTimers q)"
    using m set by (metis set_mset_add_mset_insert set_mset_mset)
  have "distinct (t # timers q)" using dist set t(2) by simp
  then have "distinct (timers q')" using m by (metis mset.simps(2) mset_eq_imp_distinct_iff)
  moreover have "is_heap (key q') (timers q')" using is_heap_push [OF heap] by (simp add: q'_def q1_def)
  moreover have "store q' = store q" "runs q' = runs q" "numCreated q' = numCreated q"
    "activeTimers q' = insert t (activeTimers q)" by (simp_all add: q'_def q1_def)
  moreover have "t \<in> dom (store q)" using t(1) by auto
  ultimately have "queue_ok q'" using ok set' by (auto simp: queue_ok_def)
  moreover have "covered limit q'" if cov: "covered limit q"
    unfolding covered_def
  proof (intro ballI impI)
    fix x assume x: "x \<in> set (timers q')" "key q' x \<le> limit"
    have keys: "key q' = key q" by (simp add: q'_def q1_def)
    have front: "key q (hd (timers q)) \<le> key q y" if "y \<in> set (timers q)" for y
      using is_heap_front [OF heap that] .
    show "armed_by q' (key q' x)"
    proof (cases early)
      case True
      then have "key q t \<le> key q x"
        using x(1) set set' front [of x] by (cases "timers q") (auto simp: early_def)
      then show ?thesis using True keys by (simp add: q'_def)
    next
      case False
      then have f: "timers q \<noteq> []" "key q (hd (timers q)) \<le> key q t" by (auto simp: early_def)
      have armed: "armed_by q' = armed_by q" using False by (auto simp: q'_def q1_def intro: armed_by_cong)
      have "hd (timers q) \<in> set (timers q)" using f(1) by simp
      then show ?thesis
        using cov x set set' f(2) keys armed armed_by_mono [of q "key q (hd (timers q))" "key q t"]
        by (auto simp: covered_def)
    qed
  qed
  ultimately show ?thesis using run \<open>store q' = store q\<close> \<open>runs q' = runs q\<close> \<open>numCreated q' = numCreated q\<close>
      \<open>activeTimers q' = insert t (activeTimers q)\<close> by blast
qed

text \<open>Changing timer objects that are not in the heap does not disturb it.\<close>

lemma queue_ok_store:
  assumes "queue_ok q" "\<And>t. t \<in> activeTimers q \<Longrightarrow> st t = store q t" "\<forall>t \<in> dom st. t \<le> n"
  shows "queue_ok (q\<lparr>store := st, numCreated := n\<rparr>)" and "covered limit q \<longrightarrow> covered limit (q\<lparr>store := st, numCreated := n\<rparr>)"
proof -
  let ?q = "q\<lparr>store := st, numCreated := n\<rparr>"
  have keys: "key ?q t = key q t" if "t \<in> set (timers q)" for t
    using that assms(1,2) by (simp add: key_def queue_ok_def)
  have "is_heap (key ?q) (timers q)" using is_heap_cong keys assms(1) by (metis queue_ok_def)
  moreover have "activeTimers q \<subseteq> dom st" using assms(1,2) unfolding queue_ok_def by (metis domIff subsetI subset_iff)
  ultimately show "queue_ok ?q" using assms(1,3) by (simp add: queue_ok_def)
  show "covered limit q \<longrightarrow> covered limit ?q"
    using keys by (auto simp: covered_def armed_by_def)
qed

lemma queue_ok_store':
  assumes "queue_ok q" "\<And>t. t \<in> activeTimers q \<Longrightarrow> st t = store q t" "dom st \<subseteq> dom (store q)"
  shows "queue_ok (q\<lparr>store := st\<rparr>)" and "covered limit q \<Longrightarrow> covered limit (q\<lparr>store := st\<rparr>)"
proof -
  have "\<forall>t \<in> dom st. t \<le> numCreated q" using assms(1,3) unfolding queue_ok_def by blast
  moreover have "q\<lparr>store := st\<rparr> = q\<lparr>store := st, numCreated := numCreated q\<rparr>" by simp
  ultimately show "queue_ok (q\<lparr>store := st\<rparr>)" "covered limit q \<Longrightarrow> covered limit (q\<lparr>store := st\<rparr>)"
    using queue_ok_store [OF assms(1,2)] by metis+
qed

lemma addTimer_ok:
  assumes "queue_ok q"
  shows "\<exists>q'. addTimer clk tm q = Some q' \<and> queue_ok q' \<and>
    activeTimers q' = insert (numCreated q + 1) (activeTimers q) \<and>
    store q' = (store q)(numCreated q + 1 \<mapsto> tm) \<and> runs q' = runs q \<and>
    numCreated q' = numCreated q + 1 \<and> (covered limit q \<longrightarrow> covered limit q')"
proof -
  define t where "t = numCreated q + 1"
  define q1 where "q1 = q\<lparr>store := (store q)(t \<mapsto> tm), numCreated := t\<rparr>"
  have fresh: "t \<notin> activeTimers q" "\<forall>x \<in> dom ((store q)(t \<mapsto> tm)). x \<le> t"
  proof -
    have old: "x \<le> numCreated q" if "x \<in> dom (store q)" for x using assms that unfolding queue_ok_def by blast
    then show "\<forall>x \<in> dom ((store q)(t \<mapsto> tm)). x \<le> t" by (fastforce simp: t_def)
    have "activeTimers q \<subseteq> dom (store q)" using assms by (simp add: queue_ok_def)
    then show "t \<notin> activeTimers q" using old [of t] by (auto simp: t_def)
  qed
  have other: "((store q)(t \<mapsto> tm)) x = store q x" if "x \<in> activeTimers q" for x using that fresh(1) by auto
  note q1 = queue_ok_store [OF assms other fresh(2), folded q1_def, simplified]
  have "store q1 t = Some tm" "t \<notin> activeTimers q1" using fresh by (simp_all add: q1_def)
  from insert_timer_ok [OF q1(1) this, of clk limit] q1(2) [of limit] show ?thesis
    by (auto simp: addTimer_def Let_def t_def [symmetric] q1_def [symmetric]) (simp_all add: q1_def t_def)
qed

lemma cancel_ok:
  assumes "queue_ok q"
  shows "queue_ok (cancel t q)" and "activeTimers (cancel t q) = activeTimers q - {t}"
    and "store (cancel t q) = (if t \<in> activeTimers q then (store q)(t := None) else store q)"
    and "runs (cancel t q) = runs q" and "numCreated (cancel t q) = numCreated q"
    and "covered limit q \<Longrightarrow> covered limit (cancel t q)"
proof -
  have set: "set (timers q) = activeTimers q" and dist: "distinct (timers q)" using assms by (auto simp: queue_ok_def)
  define q1 where "q1 = q\<lparr>activeTimers := activeTimers q - {t}, timers := make_heap (key q) (remove1 t (timers q))\<rparr>"
  have c: "cancel t q = (if t \<in> activeTimers q then q1\<lparr>store := (store q)(t := None)\<rparr> else q)"
    using set by (simp add: cancel_def q1_def Let_def)
  have m: "mset (timers q1) = mset (remove1 t (timers q))" by (simp add: q1_def vec.make_mset)
  then have s1: "set (timers q1) = activeTimers q - {t}" using set dist
    by (metis mset_eq_setD set_remove1_eq)
  have "distinct (timers q1)" using m dist by (metis distinct_remove1 mset_eq_imp_distinct_iff)
  moreover have "is_heap (key q1) (timers q1)" by (simp add: q1_def vec.make_heaped)
  ultimately have q1: "queue_ok q1" using assms s1 by (auto simp: queue_ok_def q1_def)
  have "queue_ok (q1\<lparr>store := (store q)(t := None)\<rparr>)"
    by (rule queue_ok_store' [OF q1]) (auto simp: q1_def)
  then show "queue_ok (cancel t q)" using c assms by auto
  show "activeTimers (cancel t q) = activeTimers q - {t}" by (auto simp: c q1_def)
  show "store (cancel t q) = (if t \<in> activeTimers q then (store q)(t := None) else store q)" by (simp add: c)
  show "runs (cancel t q) = runs q" "numCreated (cancel t q) = numCreated q" by (simp_all add: c q1_def)
  assume cov: "covered limit q"
  have "covered limit q1"
    using cov s1 set by (auto simp: covered_def q1_def armed_by_def)
  then have "covered limit (q1\<lparr>store := (store q)(t := None)\<rparr>)"
    by (intro queue_ok_store' [OF q1]) (auto simp: q1_def)
  then show "covered limit (cancel t q)" using c cov by auto
qed

section \<open>Expiry\<close>

lemma getExpired_ok:
  assumes "queue_ok q"
  shows "\<exists>es q'. getExpired now q = (es, q') \<and> queue_ok q' \<and> distinct es \<and>
    set es = {t \<in> activeTimers q. key q t \<le> now} \<and>
    activeTimers q' = {t \<in> activeTimers q. now < key q t} \<and>
    sorted (map (key q) es) \<and> store q' = store q \<and> runs q' = runs q \<and>
    numCreated q' = numCreated q \<and> armed q' = armed q"
  using assms
proof (induction now q rule: getExpired.induct)
  case (1 now q)
  have heap: "is_heap (key q) (timers q)" and set: "set (timers q) = activeTimers q"
    and dist: "distinct (timers q)" using 1(2) by (auto simp: queue_ok_def)
  have front: "key q (hd (timers q)) \<le> key q x" if "x \<in> activeTimers q" for x
    using is_heap_front [OF heap] that set by blast
  consider "timers q = []" | t ts where "timers q = t # ts" "now < key q t" | t ts where "timers q = t # ts" "key q t \<le> now"
    by (metis linorder_not_le list.exhaust)
  then show ?case
  proof cases
    case none: 1
    then show ?thesis using 1(2) set by (subst getExpired.simps) auto
  next
    case 2
    then have "now < key q x" if "x \<in> activeTimers q" for x using front [OF that] by simp
    then show ?thesis using 2 1(2) by (subst getExpired.simps) force
  next
    case 3
    let ?ps = "pop_heap (key q) (timers q)"
    define q1 where "q1 = q\<lparr>activeTimers := activeTimers q - {t}, timers := butlast ?ps\<rparr>"
    have ne: "timers q \<noteq> []" "hd (timers q) = t" using 3 by simp_all
    note pop = vec.pop_front [OF heap ne(1)] vec.pop_distinct [OF heap ne(1) dist] vec.pop_last [OF ne(1), of "key q"]
    have q1: "queue_ok q1"
      using pop ne set 1(2) by (auto simp: queue_ok_def q1_def)
    from 1(1) [OF 3(1,2) refl q1_def q1] obtain es q' where q':
      "getExpired now q1 = (es, q')" "queue_ok q'" "distinct es" "set es = {x \<in> activeTimers q1. key q1 x \<le> now}"
      "activeTimers q' = {x \<in> activeTimers q1. now < key q1 x}" "sorted (map (key q1) es)" "store q' = store q1"
      "runs q' = runs q1" "numCreated q' = numCreated q1" "armed q' = armed q1" by blast
    have keys: "key q1 = key q" "activeTimers q1 = activeTimers q - {t}" by (simp_all add: q1_def)
    have "getExpired now q = (t # es, q')"
      using 3 q'(1) pop(5) ne by (subst getExpired.simps) (simp add: q1_def)
    moreover have "t \<notin> activeTimers q1" by (simp add: q1_def)
    moreover have "t \<in> activeTimers q" using 3 set by auto
    moreover have "set (t # es) = {x \<in> activeTimers q. key q x \<le> now}"
    proof -
      have "insert t {x \<in> activeTimers q - {t}. key q x \<le> now} = {x \<in> activeTimers q. key q x \<le> now}"
        using \<open>t \<in> activeTimers q\<close> 3(2) by blast
      then show ?thesis using q'(4) keys by simp
    qed
    moreover have "activeTimers q' = {x \<in> activeTimers q. now < key q x}"
    proof -
      have "{x \<in> activeTimers q - {t}. now < key q x} = {x \<in> activeTimers q. now < key q x}"
        using 3(2) by (auto simp: not_less)
      then show ?thesis using q'(5) keys by simp
    qed
    moreover have "sorted (map (key q) (t # es))"
      using q'(4,6) front ne(2) unfolding keys by auto
    moreover have "distinct (t # es)" using q'(3,4) unfolding keys by auto
    moreover have "store q' = store q" "runs q' = runs q" "numCreated q' = numCreated q" "armed q' = armed q"
      using q'(7-10) by (simp_all add: q1_def)
    ultimately show ?thesis using q'(2) by blast
  qed
qed

text \<open>The timers that were taken out and wait for their fate are left alone by what callbacks do.\<close>

definition aside :: "nat set \<Rightarrow> timer_queue \<Rightarrow> bool" where
  "aside D q \<longleftrightarrow> D \<inter> activeTimers q = {} \<and> D \<subseteq> dom (store q)"

lemma timer_call_ok:
  assumes "queue_ok q" "aside D q" "covered limit q"
  shows "\<exists>q'. timer_call c q = Some q' \<and> queue_ok q' \<and> aside D q' \<and> covered limit q' \<and>
    (\<forall>t \<in> D. store q' t = store q t) \<and> runs q' = runs q"
proof (cases c)
  case (Add_Timer clk tm)
  obtain q' where q': "addTimer clk tm q = Some q'" "queue_ok q'"
    "activeTimers q' = insert (numCreated q + 1) (activeTimers q)"
    "store q' = (store q)(numCreated q + 1 \<mapsto> tm)" "runs q' = runs q" "covered limit q \<longrightarrow> covered limit q'"
    using addTimer_ok [OF assms(1), of clk tm limit] by blast
  have "\<forall>t \<in> dom (store q). t \<le> numCreated q" using assms(1) unfolding queue_ok_def by blast
  then have "numCreated q + 1 \<notin> dom (store q)" by (metis Suc_eq_plus1 not_less_eq_eq le_refl)
  then have "numCreated q + 1 \<notin> D" using assms(2) by (auto simp: aside_def)
  then show ?thesis using q' assms Add_Timer by (auto simp: aside_def)
next
  case (Cancel_Timer t)
  have "\<forall>x \<in> D. store (cancel t q) x = store q x" using assms(2) cancel_ok(3) [OF assms(1), of t] by (auto simp: aside_def)
  moreover have "aside D (cancel t q)"
    using assms(2) cancel_ok(2,3) [OF assms(1), of t] by (auto simp: aside_def)
  ultimately show ?thesis using Cancel_Timer cancel_ok [OF assms(1)] assms(3) by simp
qed

lemma timer_calls_ok:
  assumes "queue_ok q" "aside D q" "covered limit q"
  shows "\<exists>q'. timer_calls cs q = Some q' \<and> queue_ok q' \<and> aside D q' \<and> covered limit q' \<and>
    (\<forall>t \<in> D. store q' t = store q t) \<and> runs q' = runs q"
  using assms
proof (induction cs arbitrary: q)
  case (Cons c cs)
  obtain q1 where q1: "timer_call c q = Some q1" "queue_ok q1" "aside D q1" "covered limit q1"
    "\<forall>t \<in> D. store q1 t = store q t" "runs q1 = runs q" using timer_call_ok [OF Cons.prems] by blast
  from Cons.IH [OF q1(2-4)] q1 show ?case by auto
qed simp

lemma queue_ok_runs [simp]:
  "queue_ok (q\<lparr>runs := rs\<rparr>) = queue_ok q" "aside D (q\<lparr>runs := rs\<rparr>) = aside D q"
  "covered limit (q\<lparr>runs := rs\<rparr>) = covered limit q"
  by (simp_all add: queue_ok_def aside_def covered_def armed_by_def)

lemma run_timers_ok:
  assumes "queue_ok q" "aside D q" "covered limit q" "set es \<subseteq> D"
  shows "\<exists>q'. run_timers body es q = Some q' \<and> queue_ok q' \<and> aside D q' \<and> covered limit q' \<and>
    (\<forall>t \<in> D. store q' t = store q t) \<and> runs q' = runs q @ es"
  using assms
proof (induction es arbitrary: q)
  case (Cons t es)
  obtain tm where tm: "store q t = Some tm" using Cons.prems by (auto simp: aside_def)
  have "queue_ok (q\<lparr>runs := runs q @ [t]\<rparr>)" "aside D (q\<lparr>runs := runs q @ [t]\<rparr>)" "covered limit (q\<lparr>runs := runs q @ [t]\<rparr>)"
    using Cons.prems by simp_all
  from timer_calls_ok [OF this, of "body t"] obtain q1 where q1:
    "timer_calls (body t) (q\<lparr>runs := runs q @ [t]\<rparr>) = Some q1" "queue_ok q1" "aside D q1" "covered limit q1"
    "\<forall>x \<in> D. store q1 x = store q x" "runs q1 = runs q @ [t]" by auto
  from Cons.IH [OF q1(2-4)] Cons.prems(4) q1 tm show ?case by auto
qed simp

lemma restart_or_free_ok:
  assumes "queue_ok q" "aside (set es) q" "covered limit q" "distinct es"
  shows "\<exists>q'. restart_or_free clk now es q = Some q' \<and> queue_ok q' \<and> covered limit q' \<and> runs q' = runs q \<and>
    numCreated q' = numCreated q \<and> activeTimers q' = activeTimers q \<union> {t \<in> set es. \<exists>tm. store q t = Some tm \<and> repeats tm} \<and>
    (\<forall>t. store q' t = (if t \<in> set es then
        (case store q t of None \<Rightarrow> None | Some tm \<Rightarrow> if repeats tm then Some (restart now tm) else None)
      else store q t))"
  using assms
proof (induction es arbitrary: q)
  case (Cons t es)
  obtain tm where tm: "store q t = Some tm" using Cons.prems(2) by (auto simp: aside_def)
  have t: "t \<notin> activeTimers q" "t \<notin> set es" using Cons.prems(2,4) by (auto simp: aside_def)
  define st where "st = (if repeats tm then (store q)(t \<mapsto> restart now tm) else (store q)(t := None))"
  have other: "st x = store q x" if "x \<in> activeTimers q" for x using that t by (auto simp: st_def)
  have dom: "dom st \<subseteq> dom (store q)" using tm by (auto simp: st_def split: if_splits)
  note st_ok = queue_ok_store' [OF Cons.prems(1) other dom]
  have "\<exists>q1. (if repeats tm then insert_timer clk t (q\<lparr>store := (store q)(t \<mapsto> restart now tm)\<rparr>)
      else Some (q\<lparr>store := (store q)(t := None)\<rparr>)) = Some q1 \<and> queue_ok q1 \<and> covered limit q1 \<and>
      store q1 = st \<and> runs q1 = runs q \<and> numCreated q1 = numCreated q \<and> activeTimers q1 = activeTimers q \<union> (if repeats tm then {t} else {})"
  proof (cases "repeats tm")
    case True
    have "store (q\<lparr>store := st\<rparr>) t = Some (restart now tm)" "t \<notin> activeTimers (q\<lparr>store := st\<rparr>)"
      using t True by (simp_all add: st_def)
    from insert_timer_ok [OF st_ok(1) this, of clk limit] show ?thesis
      using True st_ok(2) [OF _ Cons.prems(3)] by (auto simp: st_def)
  next
    case False
    then show ?thesis using st_ok(1) st_ok(2) [OF _ Cons.prems(3)] by (auto simp: st_def)
  qed
  then obtain q1 where q1: "(if repeats tm then insert_timer clk t (q\<lparr>store := (store q)(t \<mapsto> restart now tm)\<rparr>)
      else Some (q\<lparr>store := (store q)(t := None)\<rparr>)) = Some q1" "queue_ok q1" "covered limit q1"
      "store q1 = st" "runs q1 = runs q" "activeTimers q1 = activeTimers q \<union> (if repeats tm then {t} else {})"
      "numCreated q1 = numCreated q" by blast
  have same: "store q1 x = store q x" if "x \<noteq> t" for x using that q1(4) by (simp add: st_def)
  have "aside (set es) q1"
  proof -
    have "x \<in> dom (store q1)" if "x \<in> set es" for x
    proof -
      have "x \<noteq> t" "x \<in> dom (store q)" using that t(2) Cons.prems(2) by (auto simp: aside_def)
      then show ?thesis using same [of x] by (simp add: domIff)
    qed
    moreover have "set es \<inter> activeTimers q1 = {}"
      using Cons.prems(2) t q1(6) by (auto simp: aside_def split: if_splits)
    ultimately show ?thesis by (auto simp: aside_def)
  qed
  from Cons.IH [OF q1(2) this q1(3)] Cons.prems(4) obtain q' where q':
    "restart_or_free clk now es q1 = Some q'" "queue_ok q'" "covered limit q'" "runs q' = runs q1" "numCreated q' = numCreated q1"
    "activeTimers q' = activeTimers q1 \<union> {x \<in> set es. \<exists>tm. store q1 x = Some tm \<and> repeats tm}"
    "\<forall>x. store q' x = (if x \<in> set es then
        (case store q1 x of None \<Rightarrow> None | Some tm \<Rightarrow> if repeats tm then Some (restart now tm) else None)
      else store q1 x)" by auto
  have "restart_or_free clk now (t # es) q = Some q'" using tm q1(1) q'(1) by simp
  moreover have in_es: "store q1 x = store q x" if "x \<in> set es" for x using same [of x] that t(2) by metis
  then have "{x \<in> set es. \<exists>tm. store q1 x = Some tm \<and> repeats tm} =
      {x \<in> set es. \<exists>tm. store q x = Some tm \<and> repeats tm}" by auto
  then have "activeTimers q' = activeTimers q \<union> {x \<in> set (t # es). \<exists>tm. store q x = Some tm \<and> repeats tm}"
    using q'(6) q1(6) tm by auto
  moreover have "\<forall>x. store q' x = (if x \<in> set (t # es) then
        (case store q x of None \<Rightarrow> None | Some tm \<Rightarrow> if repeats tm then Some (restart now tm) else None)
      else store q x)"
    using q'(7) same t(2) tm q1(4) by (auto simp: st_def)
  ultimately show ?case using q'(2-5) q1(5,7) by auto
qed simp

lemma arm_front_ok:
  assumes "queue_ok q" "covered now q" "0 \<le> now"
  shows "queue_ok (arm_front clk q)" and "covered limit (arm_front clk q)"
    and "activeTimers (arm_front clk q) = activeTimers q" "store (arm_front clk q) = store q" "runs (arm_front clk q) = runs q"
    and "numCreated (arm_front clk q) = numCreated q"
proof -
  show "queue_ok (arm_front clk q)" "activeTimers (arm_front clk q) = activeTimers q" "store (arm_front clk q) = store q"
    "runs (arm_front clk q) = runs q" "numCreated (arm_front clk q) = numCreated q"
    using assms(1) by (auto simp: arm_front_def queue_ok_def split: list.split)
  show "covered limit (arm_front clk q)"
  proof (cases "timers q")
    case (Cons t ts)
    have front: "key q t \<le> key q x" if "x \<in> set (timers q)" for x
      using is_heap_front [of "key q" "timers q" x] assms(1) that Cons unfolding queue_ok_def by force
    show ?thesis
    proof (cases "valid_stamp (key q t)")
      case True
      then show ?thesis using Cons front by (auto simp: arm_front_def covered_def)
    next
      case False
      then have "armed_by q (key q t)" using assms(2,3) Cons by (auto simp: covered_def valid_stamp_def)
      then show ?thesis
        using False Cons front armed_by_mono by (fastforce simp: arm_front_def covered_def)
    qed
  qed (simp add: arm_front_def covered_def)
qed

lemma handleTimers_ok:
  assumes "queue_ok q" "0 \<le> now"
  shows "\<exists>es q'. handleTimers body now clk q = Some q' \<and> queue_ok q' \<and> covered limit q' \<and>
    runs q' = runs q @ es \<and> distinct es \<and> set es = {t \<in> activeTimers q. key q t \<le> now} \<and>
    sorted (map (key q) es)"
proof -
  have "queue_ok (readTimerfd q)" using assms(1) by (simp add: readTimerfd_def queue_ok_def)
  from getExpired_ok [OF this, of now] obtain es q1 where q1:
    "getExpired now (readTimerfd q) = (es, q1)" "queue_ok q1" "distinct es"
    "set es = {t \<in> activeTimers q. key q t \<le> now}" "activeTimers q1 = {t \<in> activeTimers q. now < key q t}"
    "sorted (map (key q) es)" "store q1 = store q" "runs q1 = runs q"
    by (auto simp: readTimerfd_def)
  have "activeTimers q \<subseteq> dom (store q)" using assms(1) by (simp add: queue_ok_def)
  then have aside: "aside (set es) q1" using q1(4,5,7) by (auto simp: aside_def)
  have "set (timers q1) = activeTimers q1" using q1(2) by (simp add: queue_ok_def)
  then have cov: "covered now q1" using q1(5) key_cong [OF q1(7)] by (auto simp: covered_def)
  obtain q2 where q2: "run_timers body es q1 = Some q2" "queue_ok q2" "aside (set es) q2" "covered now q2"
    "runs q2 = runs q1 @ es"
    using run_timers_ok [OF q1(2) aside cov] by blast
  obtain q3 where q3: "restart_or_free clk now es q2 = Some q3" "queue_ok q3" "covered now q3" "runs q3 = runs q2"
    using restart_or_free_ok [OF q2(2-4) q1(3)] by blast
  have "handleTimers body now clk q = Some (arm_front clk q3)"
    using q1(1) q2(1) q3(1) by (simp add: handleTimers_def reset_timers_def)
  then show ?thesis using arm_front_ok [OF q3(2,3) assms(2)] q1(3,4,6,8) q2(5) q3(4) by metis
qed

section \<open>Properties\<close>

datatype queue_input = Call queue_call | Fired int int

text \<open>A queue lives through calls in its loop's thread and the firing of its timerfd.\<close>

fun queue_step :: "(nat \<Rightarrow> queue_call list) \<Rightarrow> queue_input \<Rightarrow> timer_queue \<Rightarrow> timer_queue option" where
  "queue_step body (Call c) q = timer_call c q"
| "queue_step body (Fired now clk) q = handleTimers body now clk q"

definition after_epoch :: "queue_input \<Rightarrow> bool" where
  "after_epoch i \<longleftrightarrow> (\<forall>now clk. i = Fired now clk \<longrightarrow> 0 \<le> now)"

inductive queue_reaches :: "(nat \<Rightarrow> queue_call list) \<Rightarrow> timer_queue \<Rightarrow> bool" for body where
  queue_new: "queue_reaches body TimerQueue"
| queue_next: "queue_reaches body q \<Longrightarrow> after_epoch i \<Longrightarrow> queue_step body i q = Some q' \<Longrightarrow> queue_reaches body q'"

lemma queue_step_ok:
  assumes "queue_ok q" "\<And>limit. covered limit q" "after_epoch i"
  shows "\<exists>q'. queue_step body i q = Some q' \<and> queue_ok q' \<and> (\<forall>limit. covered limit q')"
proof (cases i)
  case (Call c)
  have "aside {} q" by (simp add: aside_def)
  from timer_call_ok [OF assms(1) this assms(2), where c = c] Call show ?thesis
    by (metis option.inject queue_step.simps(1))
next
  case (Fired now clk)
  then have "0 \<le> now" using assms(3) by (simp add: after_epoch_def)
  then show ?thesis using handleTimers_ok [OF assms(1)] Fired by (metis option.inject queue_step.simps(2))
qed

lemma queue_reaches_ok: "queue_reaches body q \<Longrightarrow> queue_ok q \<and> (\<forall>limit. covered limit q)"
proof (induction rule: queue_reaches.induct)
  case queue_new
  then show ?case by (simp add: queue_ok_def TimerQueue_def covered_def is_heap_Nil)
next
  case (queue_next q i q')
  then show ?case using queue_step_ok [of q i body] by auto
qed


text \<open>
  C36: When the timerfd has fired, the callbacks of exactly the timers that have expired are run,
  each once and in order of expiry, and no timer object that was freed is touched, whatever the
  callbacks add and cancel meanwhile.
\<close>

theorem expired_timers_run:
  assumes "queue_reaches body q" "0 \<le> now"
  shows "\<exists>es q'. handleTimers body now clk q = Some q' \<and> runs q' = runs q @ es \<and> distinct es \<and>
    set es = {t \<in> set (timers q). key q t \<le> now} \<and> sorted (map (key q) es)"
proof -
  have ok: "queue_ok q" using queue_reaches_ok [OF assms(1)] by blast
  then have "set (timers q) = activeTimers q" by (simp add: queue_ok_def)
  then show ?thesis using handleTimers_ok [OF ok assms(2), of body clk 0] by metis
qed

lemma run_timers_quiet: "\<forall>t \<in> set es. t \<in> dom (store q) \<Longrightarrow>
    run_timers (\<lambda>_. []) es q = Some (q\<lparr>runs := runs q @ es\<rparr>)"
  by (induction es arbitrary: q) auto

lemma quiet_firing:
  assumes ok: "queue_ok q" and now: "0 \<le> now"
  shows "\<exists>es q'. handleTimers (\<lambda>_. []) now clk q = Some q' \<and> queue_ok q' \<and> runs q' = runs q @ es \<and>
    numCreated q' = numCreated q \<and> distinct es \<and> set es = {t \<in> activeTimers q. key q t \<le> now} \<and>
    sorted (map (key q) es) \<and>
    activeTimers q' = {t \<in> activeTimers q. now < key q t} \<union> {t \<in> set es. \<exists>tm. store q t = Some tm \<and> repeats tm} \<and>
    (\<forall>t. store q' t = (if t \<in> set es then
        (case store q t of None \<Rightarrow> None | Some tm \<Rightarrow> if repeats tm then Some (restart now tm) else None)
      else store q t))"
proof -
  have "queue_ok (readTimerfd q)" using ok by (simp add: readTimerfd_def queue_ok_def)
  from getExpired_ok [OF this, of now] obtain es q1 where q1:
    "getExpired now (readTimerfd q) = (es, q1)" "queue_ok q1" "distinct es"
    "set es = {t \<in> activeTimers q. key q t \<le> now}" "activeTimers q1 = {t \<in> activeTimers q. now < key q t}"
    "store q1 = store q" "sorted (map (key q) es)" "runs q1 = runs q" "numCreated q1 = numCreated q"
    by (auto simp: readTimerfd_def)
  have live: "activeTimers q \<subseteq> dom (store q)" and set: "set (timers q) = activeTimers q" using ok by (auto simp: queue_ok_def)
  then have dom: "\<forall>t \<in> set es. t \<in> dom (store q1)" using q1(4,6) by auto
  define q2 where "q2 = q1\<lparr>runs := runs q1 @ es\<rparr>"
  have q2: "queue_ok q2" "aside (set es) q2" "covered now q2"
    using q1 dom live by (auto simp: q2_def queue_ok_def aside_def covered_def key_def)
  obtain q3 where q3: "restart_or_free clk now es q2 = Some q3" "queue_ok q3" "covered now q3" "runs q3 = runs q2"
    "numCreated q3 = numCreated q2"
    "activeTimers q3 = activeTimers q2 \<union> {t \<in> set es. \<exists>tm. store q2 t = Some tm \<and> repeats tm}"
    "\<forall>t. store q3 t = (if t \<in> set es then
        (case store q2 t of None \<Rightarrow> None | Some tm \<Rightarrow> if repeats tm then Some (restart now tm) else None)
      else store q2 t)"
    using restart_or_free_ok [OF q2(1-3) q1(3), of clk now] by blast
  have run: "handleTimers (\<lambda>_. []) now clk q = Some (arm_front clk q3)"
    using q1(1) run_timers_quiet [OF dom] q3(1) by (simp add: handleTimers_def reset_timers_def q2_def)
  note arm = arm_front_ok [OF q3(2,3) now, of clk]
  have "store q2 = store q" "activeTimers q2 = {t \<in> activeTimers q. now < key q t}" "runs q2 = runs q @ es"
    "numCreated q2 = numCreated q" using q1 by (simp_all add: q2_def)
  then show ?thesis
    using run arm q3 q1(3,4,7) by (intro exI [of _ es] exI [of _ "arm_front clk q3"]) simp
qed

text \<open>
  After a firing whose callbacks leave the queue alone, the repeating ones of the expired timers
  are in the queue again, due one interval after the time of the firing, the one-shot ones are
  freed, and the timers that had not expired are as before.
\<close>

theorem firing_reschedules:
  assumes "queue_reaches body q" "0 \<le> now"
  shows "\<exists>q'. handleTimers (\<lambda>_. []) now clk q = Some q' \<and>
    (\<forall>t tm. t \<in> set (timers q) \<longrightarrow> store q t = Some tm \<longrightarrow>
       (if now < expiration tm then t \<in> set (timers q') \<and> store q' t = Some tm
        else if repeats tm then t \<in> set (timers q') \<and> store q' t = Some (tm\<lparr>expiration := now + interval tm\<rparr>)
        else t \<notin> set (timers q') \<and> store q' t = None))"
proof -
  have ok: "queue_ok q" using queue_reaches_ok [OF assms(1)] by blast
  then have set: "set (timers q) = activeTimers q" by (simp add: queue_ok_def)
  obtain es q' where q': "handleTimers (\<lambda>_. []) now clk q = Some q'" "queue_ok q'"
    "set es = {t \<in> activeTimers q. key q t \<le> now}"
    "activeTimers q' = {t \<in> activeTimers q. now < key q t} \<union> {t \<in> set es. \<exists>tm. store q t = Some tm \<and> repeats tm}"
    "\<forall>t. store q' t = (if t \<in> set es then
        (case store q t of None \<Rightarrow> None | Some tm \<Rightarrow> if repeats tm then Some (restart now tm) else None)
      else store q t)"
    using quiet_firing [OF ok assms(2), of clk] by blast
  have set': "set (timers q') = activeTimers q'" using q'(2) by (simp add: queue_ok_def)
  show ?thesis
  proof (intro exI conjI allI impI)
    show "handleTimers (\<lambda>_. []) now clk q = Some q'" by (rule q'(1))
    fix t tm
    assume t: "t \<in> set (timers q)" "store q t = Some tm"
    then have "key q t = expiration tm" by (simp add: key_def)
    then have "t \<in> set es \<longleftrightarrow> \<not> now < expiration tm" using t(1) set q'(3) by auto
    then show "if now < expiration tm then t \<in> set (timers q') \<and> store q' t = Some tm
        else if repeats tm then t \<in> set (timers q') \<and> store q' t = Some (tm\<lparr>expiration := now + interval tm\<rparr>)
        else t \<notin> set (timers q') \<and> store q' t = None"
      using q'(4,5) t \<open>key q t = expiration tm\<close> set by (simp add: set' restart_def)
  qed
qed

text \<open>
  The time handed to the kernel is never zero, which would disarm the timerfd, nor less than
  100 microseconds; it is exactly the time left when that is more, and its nanoseconds are in the
  range the kernel accepts.
\<close>

theorem timespec_is_exact_and_positive:
  "case howMuchTimeFromNow now when of (sec, nsec) \<Rightarrow>
     0 \<le> sec \<and> 0 \<le> nsec \<and> nsec < 1000000000 \<and>
     sec * 1000000000 + nsec = 1000 * max 100 (when - now)"
proof -
  define m where "m = max 100 (when - now)"
  have "howMuchTimeFromNow now when = (m div 1000000, (m mod 1000000) * 1000)"
    by (simp add: howMuchTimeFromNow_def m_def Let_def max_def)
  moreover have "0 \<le> m" by (simp add: m_def)
  then have "0 \<le> m div 1000000" "0 \<le> m mod 1000000" "m mod 1000000 < 1000000" by simp_all
  moreover have "m div 1000000 * 1000000 + m mod 1000000 = m" by simp
  then have "m div 1000000 * 1000000000 + m mod 1000000 * 1000 = 1000 * m" by linarith
  ultimately show ?thesis by (simp add: m_def)
qed

section \<open>A queue with a one-shot and a repeating timer\<close>

definition no_calls :: "nat \<Rightarrow> queue_call list" where
  "no_calls t = []"

definition demo_queue :: timer_queue where
  "demo_queue = \<lparr>timers = [1, 2], activeTimers = {1, 2},
     store = [1 \<mapsto> Timer 500 0 False, 2 \<mapsto> Timer 700 300 True], numCreated = 2,
     armed = Some (500, (0, 490000)), runs = []\<rparr>"

lemma demo_queue_reached: "queue_reaches body demo_queue"
proof -
  have a: "timer_call (Add_Timer 10 (Timer 500 0 False)) TimerQueue =
      Some \<lparr>timers = [1], activeTimers = {1}, store = [1 \<mapsto> Timer 500 0 False], numCreated = 1,
        armed = Some (500, (0, 490000)), runs = []\<rparr>" (is "_ = Some ?q")
    by (simp add: addTimer_def insert_timer_def TimerQueue_def Timer_def push_heap_def sift_up.simps
        resetTimerfd_def howMuchTimeFromNow_def Let_def)
  have b: "timer_call (Add_Timer 20 (Timer 700 300 True)) ?q = Some demo_queue"
    by (simp add: addTimer_def insert_timer_def Timer_def push_heap_def sift_up.simps parent_def key_def
        demo_queue_def Let_def insert_commute numeral_2_eq_2 fun_upd_twist)
  have ep: "after_epoch (Call c)" for c by (simp add: after_epoch_def)
  have "queue_step body (Call (Add_Timer 10 (Timer 500 0 False))) TimerQueue = Some ?q"
    "queue_step body (Call (Add_Timer 20 (Timer 700 300 True))) ?q = Some demo_queue"
    using a b by (simp_all only: queue_step.simps)
  from queue_next [OF queue_next [OF queue_new ep this(1)] ep this(2)] show ?thesis .
qed


lemma demo_due: "{t \<in> set (timers demo_queue). key demo_queue t \<le> 600} = {1}"
  by (auto simp: demo_queue_def key_def Timer_def split: if_splits)

theorem expired_timers_run_witness:
  "\<exists>q'. handleTimers no_calls 600 650 demo_queue = Some q' \<and> runs q' = [1]"
proof -
  obtain es q' where "handleTimers no_calls 600 650 demo_queue = Some q'" "runs q' = runs demo_queue @ es"
    "distinct es" "set es = {1}"
    using expired_timers_run [OF demo_queue_reached, of 600 no_calls 650] demo_due by auto
  moreover from this have "length es = 1" using distinct_card [of es] by simp
  then have "es = [1]" using \<open>set es = {1}\<close> by (cases es) auto
  ultimately show ?thesis by (simp add: demo_queue_def)
qed

theorem firing_reschedules_witness:
  "\<exists>q'. handleTimers (\<lambda>_. []) 800 850 demo_queue = Some q' \<and> store q' 1 = None \<and>
     2 \<in> set (timers q') \<and> store q' 2 = Some (Timer 1100 300 True)"
proof -
  obtain q' where "handleTimers (\<lambda>_. []) 800 850 demo_queue = Some q'"
    "\<forall>t tm. t \<in> set (timers demo_queue) \<longrightarrow> store demo_queue t = Some tm \<longrightarrow>
       (if 800 < expiration tm then t \<in> set (timers q') \<and> store q' t = Some tm
        else if repeats tm then t \<in> set (timers q') \<and> store q' t = Some (tm\<lparr>expiration := 800 + interval tm\<rparr>)
        else t \<notin> set (timers q') \<and> store q' t = None)"
    using firing_reschedules [OF demo_queue_reached, of 800 850] by auto
  from this(1) this(2) [rule_format, of 1 "Timer 500 0 False"] this(2) [rule_format, of 2 "Timer 700 300 True"]
  show ?thesis by (simp add: demo_queue_def Timer_def)
qed

section \<open>Behaviour to know about\<close>

text \<open>
  A repeating timer cannot be cancelled from its own callback: it is in neither container then, so
  \<^verbatim>\<open>cancel\<close> does nothing, and after the callbacks it is put in again.
\<close>

lemma self_cancel_is_ignored:
  "aside (set es) q \<Longrightarrow> run_timers (\<lambda>t. [Cancel_Timer t]) es q = run_timers (\<lambda>_. []) es q"
proof (induction es arbitrary: q)
  case (Cons t es)
  then have "cancel t (q\<lparr>runs := runs q @ [t]\<rparr>) = q\<lparr>runs := runs q @ [t]\<rparr>"
    by (auto simp: cancel_def aside_def)
  moreover have "aside (set es) (q\<lparr>runs := runs q @ [t]\<rparr>)" using Cons.prems by (auto simp: aside_def)
  ultimately show ?case using Cons.IH by (cases "store q t") simp_all
qed simp

lemma cancel_in_callback_is_lost:
  assumes "queue_ok q"
  shows "handleTimers (\<lambda>t. [Cancel_Timer t]) now clk q = handleTimers (\<lambda>_. []) now clk q"
proof -
  have "queue_ok (readTimerfd q)" using assms by (simp add: readTimerfd_def queue_ok_def)
  from getExpired_ok [OF this, of now] obtain es q1 where q1:
    "getExpired now (readTimerfd q) = (es, q1)" "set es = {t \<in> activeTimers q. key q t \<le> now}"
    "activeTimers q1 = {t \<in> activeTimers q. now < key q t}" "store q1 = store q"
    by (auto simp: readTimerfd_def)
  have "activeTimers q \<subseteq> dom (store q)" using assms by (simp add: queue_ok_def)
  then have "aside (set es) q1" using q1 by (auto simp: aside_def)
  then show ?thesis using self_cancel_is_ignored q1(1) by (simp add: handleTimers_def)
qed

section \<open>Destruction\<close>

text \<open>The destructor deletes the timers that are still in the heap; deleting one twice is None.\<close>

fun delete_timers :: "nat list \<Rightarrow> timer_queue \<Rightarrow> timer_queue option" where
  "delete_timers [] q = Some q"
| "delete_timers (t # ts) q =
     (case store q t of
        None \<Rightarrow> None
      | Some _ \<Rightarrow> delete_timers ts (q\<lparr>store := (store q)(t := None)\<rparr>))"

lemma delete_timers_all:
  "distinct ts \<Longrightarrow> set ts \<subseteq> dom (store q) \<Longrightarrow>
     \<exists>q'. delete_timers ts q = Some q' \<and> dom (store q') = dom (store q) - set ts"
proof (induction ts arbitrary: q)
  case (Cons t ts)
  have "set ts \<subseteq> dom (store (q\<lparr>store := (store q)(t := None)\<rparr>))" using Cons.prems by auto
  moreover have "distinct ts" using Cons.prems(1) by simp
  ultimately obtain q' where q':
    "delete_timers ts (q\<lparr>store := (store q)(t := None)\<rparr>) = Some q'"
    "dom (store q') = dom ((store q)(t := None)) - set ts"
    using Cons.IH [of "q\<lparr>store := (store q)(t := None)\<rparr>"] by (metis timer_queue.select_convs(3) timer_queue.surjective timer_queue.update_convs(3))
  have "dom ((store q)(t := None)) - set ts = dom (store q) - set (t # ts)" by (auto split: if_splits)
  moreover have "delete_timers (t # ts) q = Some q'" using Cons.prems(2) q'(1) by auto
  ultimately show ?case using q'(2) by metis
qed simp

lemma destructor_deletes_once:
  "queue_ok q \<Longrightarrow> \<exists>q'. delete_timers (timers q) q = Some q' \<and> dom (store q') = dom (store q) - activeTimers q"
  using delete_timers_all [of "timers q" q] by (simp add: queue_ok_def)

end
