(* ===== verification/Timer_List.thy ===== *)
theory Timer_List
  imports Prelude "HOL-Library.Monad_Syntax" "HOL-Library.Multiset"
begin

text \<open>
  \<^verbatim>\<open>timer/timer.cc\<close>: the list of timers ordered by expiry, doubly linked through the nodes. The
  model has an explicit store: nodes are found by their address, a null pointer is \<^term>\<open>None\<close>, and
  an access through the address of a node that was deleted makes the whole operation \<^term>\<open>None\<close>,
  as does a loop that does not end. All operations hold the mutex for their whole body, except
  that \<^verbatim>\<open>tick\<close> calls the callbacks outside it.
\<close>

section \<open>Nodes and the list\<close>

record timer_node =
  expire :: int
  has_cb :: bool
  user_data :: "nat option"
  prev :: "nat option"
  nxt :: "nat option"

text \<open>\<^term>\<open>timer_of\<close> is the field \<^verbatim>\<open>timer\<close> of the client data at an address.\<close>

record timers =
  head :: "nat option"
  tail :: "nat option"
  nodes :: "nat \<rightharpoonup> timer_node"
  timer_of :: "nat \<Rightarrow> nat option"
  fired :: "nat list"

definition TimerNode :: timer_node where
  "TimerNode = \<lparr>expire = 0, has_cb = False, user_data = None, prev = None, nxt = None\<rparr>"

definition update_node :: "nat \<Rightarrow> (timer_node \<Rightarrow> timer_node) \<Rightarrow> timers \<Rightarrow> timers option" where
  "update_node n f s =
     (case nodes s n of None \<Rightarrow> None | Some nd \<Rightarrow> Some (s\<lparr>nodes := (nodes s)(n \<mapsto> f nd)\<rparr>))"

definition set_next :: "nat option \<Rightarrow> timer_node \<Rightarrow> timer_node" where
  "set_next p nd = nd\<lparr>nxt := p\<rparr>"

definition set_prev :: "nat option \<Rightarrow> timer_node \<Rightarrow> timer_node" where
  "set_prev p nd = nd\<lparr>prev := p\<rparr>"

definition free_node :: "nat \<Rightarrow> timers \<Rightarrow> timers option" where
  "free_node n s = (if nodes s n = None then None else Some (s\<lparr>nodes := (nodes s)(n := None)\<rparr>))"

text \<open>The client's pointer to its timer is cleared.\<close>

definition forget :: "timer_node \<Rightarrow> timers \<Rightarrow> timers" where
  "forget nd s = (case user_data nd of None \<Rightarrow> s | Some c \<Rightarrow> s\<lparr>timer_of := (timer_of s)(c := None)\<rparr>)"

section \<open>Operations\<close>

text \<open>The private overload of \<^verbatim>\<open>add_timer\<close>: the first later node after \<open>p\<close>, or the end.\<close>

partial_function (option) insert_scan :: "nat \<Rightarrow> int \<Rightarrow> nat \<Rightarrow> nat option \<Rightarrow> timers \<Rightarrow> timers option" where
  "insert_scan t e p tmp s =
     (case tmp of
        None \<Rightarrow> do {
          s \<leftarrow> update_node p (set_next (Some t)) s;
          s \<leftarrow> update_node t (set_prev (Some p)) s;
          s \<leftarrow> update_node t (set_next None) s;
          Some (s\<lparr>tail := Some t\<rparr>)
        }
      | Some x \<Rightarrow> do {
          nd \<leftarrow> nodes s x;
          if e < expire nd then do {
            s \<leftarrow> update_node p (set_next (Some t)) s;
            s \<leftarrow> update_node t (set_next (Some x)) s;
            s \<leftarrow> update_node x (set_prev (Some t)) s;
            update_node t (set_prev (Some p)) s
          } else insert_scan t e x (nxt nd) s
        })"

text \<open>The common part of \<^verbatim>\<open>add_timer\<close> and the end of \<^verbatim>\<open>adjust_timer\<close>.\<close>

definition insert_timer :: "nat \<Rightarrow> timers \<Rightarrow> timers option" where
  "insert_timer t s =
     (case head s of
        None \<Rightarrow> Some (s\<lparr>head := Some t, tail := Some t\<rparr>)
      | Some h \<Rightarrow> do {
          nt \<leftarrow> nodes s t;
          nh \<leftarrow> nodes s h;
          if expire nt < expire nh then do {
            s \<leftarrow> update_node t (set_next (Some h)) s;
            s \<leftarrow> update_node h (set_prev (Some t)) s;
            Some (s\<lparr>head := Some t\<rparr>)
          } else insert_scan t (expire nt) h (nxt nh) s
        })"

definition add_timer :: "nat option \<Rightarrow> timers \<Rightarrow> timers option" where
  "add_timer timer s = (case timer of None \<Rightarrow> Some s | Some t \<Rightarrow> insert_timer t s)"

text \<open>Taking a node out of the list, the four cases at once; its own links are cleared.\<close>

definition unlink :: "nat \<Rightarrow> timers \<Rightarrow> timers option" where
  "unlink t s = do {
     nd \<leftarrow> nodes s t;
     s \<leftarrow> (case prev nd of
             Some p \<Rightarrow> update_node p (set_next (nxt nd)) s
           | None \<Rightarrow> Some (if head s = Some t then s\<lparr>head := nxt nd\<rparr> else s));
     nd \<leftarrow> nodes s t;
     s \<leftarrow> (case nxt nd of
             Some q \<Rightarrow> update_node q (set_prev (prev nd)) s
           | None \<Rightarrow> Some (if tail s = Some t then s\<lparr>tail := prev nd\<rparr> else s));
     update_node t (\<lambda>nd. nd\<lparr>prev := None, nxt := None\<rparr>) s
   }"

definition del_timer :: "nat option \<Rightarrow> timers \<Rightarrow> timers option" where
  "del_timer timer s =
     (case timer of
        None \<Rightarrow> Some s
      | Some t \<Rightarrow> do {
          s \<leftarrow> unlink t s;
          nd \<leftarrow> nodes s t;
          free_node t (forget nd s)
        })"

definition in_place :: "nat \<Rightarrow> timers \<Rightarrow> bool option" where
  "in_place t s = do {
     nd \<leftarrow> nodes s t;
     after_ok \<leftarrow> (case nxt nd of None \<Rightarrow> Some True
                    | Some q \<Rightarrow> do { nq \<leftarrow> nodes s q; Some (expire nd \<le> expire nq) });
     before_ok \<leftarrow> (case prev nd of None \<Rightarrow> Some True
                     | Some p \<Rightarrow> do { np \<leftarrow> nodes s p; Some (expire np \<le> expire nd) });
     Some (after_ok \<and> before_ok)
   }"

definition adjust_timer :: "nat option \<Rightarrow> timers \<Rightarrow> timers option" where
  "adjust_timer timer s =
     (case timer of
        None \<Rightarrow> Some s
      | Some t \<Rightarrow> do {
          ok \<leftarrow> in_place t s;
          if ok then Some s
          else do {
            s \<leftarrow> unlink t s;
            insert_timer t s
          }
        })"

text \<open>\<^verbatim>\<open>tick\<close>, the part under the lock: the expired nodes are taken off the front.\<close>

partial_function (option) pop_expired :: "int \<Rightarrow> timers \<Rightarrow> (nat list \<times> timers) option" where
  "pop_expired cur s =
     (case head s of
        None \<Rightarrow> Some ([], s)
      | Some t \<Rightarrow> do {
          nd \<leftarrow> nodes s t;
          if expire nd \<le> cur then do {
            s \<leftarrow> Some (s\<lparr>head := nxt nd\<rparr>);
            s \<leftarrow> (case head s of
                    Some h \<Rightarrow> update_node h (set_prev None) s
                  | None \<Rightarrow> Some (s\<lparr>tail := None\<rparr>));
            s \<leftarrow> update_node t (\<lambda>nd. nd\<lparr>prev := None, nxt := None\<rparr>) s;
            (expired, s) \<leftarrow> pop_expired cur (forget nd s);
            Some (t # expired, s)
          } else Some ([], s)
        })"

text \<open>
  The part outside the lock: each expired node's callback is called with its client, then the node
  is deleted. \<open>cb\<close> is what the callback does, which may call the list again.
\<close>

fun run_expired :: "(nat \<Rightarrow> timers \<Rightarrow> timers option) \<Rightarrow> nat list \<Rightarrow> timers \<Rightarrow> timers option" where
  "run_expired cb [] s = Some s"
| "run_expired cb (t # ts) s = do {
     nd \<leftarrow> nodes s t;
     s \<leftarrow> (case user_data nd of
             Some c \<Rightarrow> if has_cb nd then cb c (s\<lparr>fired := fired s @ [c]\<rparr>) else Some s
           | None \<Rightarrow> Some s);
     s \<leftarrow> free_node t s;
     run_expired cb ts s
   }"

definition tick :: "(nat \<Rightarrow> timers \<Rightarrow> timers option) \<Rightarrow> int \<Rightarrow> timers \<Rightarrow> timers option" where
  "tick cb cur s = do {
     (expired, s) \<leftarrow> pop_expired cur s;
     run_expired cb expired s
   }"

text \<open>The constructor and the destructor.\<close>

definition TimerListMgr :: "timers \<Rightarrow> timers" where
  "TimerListMgr s = s\<lparr>head := None, tail := None\<rparr>"

partial_function (option) free_all :: "nat option \<Rightarrow> timers \<Rightarrow> timers option" where
  "free_all tmp s =
     (case tmp of
        None \<Rightarrow> Some (s\<lparr>head := None, tail := None\<rparr>)
      | Some t \<Rightarrow> do {
          nd \<leftarrow> nodes s t;
          s \<leftarrow> free_node t (forget nd s);
          free_all (nxt nd) s
        })"

definition destroy_timers :: "timers \<Rightarrow> timers option" where
  "destroy_timers s = free_all (head s) s"

declare insert_scan.simps [code] pop_expired.simps [code] free_all.simps [code]

section \<open>The list that the links stand for\<close>

definition first_of :: "nat list \<Rightarrow> nat option \<Rightarrow> nat option" where
  "first_of xs q = (case xs of [] \<Rightarrow> q | x # _ \<Rightarrow> Some x)"

definition last_of :: "nat option \<Rightarrow> nat list \<Rightarrow> nat option" where
  "last_of p xs = (if xs = [] then p else Some (last xs))"

lemma end_simps [simp]:
  "first_of [] q = q" "first_of (x # xs) q = Some x" "last_of p [] = p" "last_of p (xs @ [x]) = Some x"
  "last_of p (x # xs) = last_of (Some x) xs"
  by (simp_all add: first_of_def last_of_def)

fun dll :: "(nat \<rightharpoonup> timer_node) \<Rightarrow> nat option \<Rightarrow> nat list \<Rightarrow> nat option \<Rightarrow> bool" where
  "dll h p [] q = True"
| "dll h p (x # xs) q =
     (\<exists>nd. h x = Some nd \<and> prev nd = p \<and> nxt nd = first_of xs q \<and> dll h (Some x) xs q)"

lemma first_of_append: "first_of (xs @ ys) q = first_of xs (first_of ys q)"
  by (cases xs) simp_all

lemma last_of_append: "last_of p (xs @ ys) = last_of (last_of p xs) ys"
  by (simp add: last_of_def)

lemma dll_append:
  "dll h p (xs @ ys) q \<longleftrightarrow> dll h p xs (first_of ys q) \<and> dll h (last_of p xs) ys q"
  by (induction xs arbitrary: p) (auto simp: first_of_append)

lemma dll_frame: "n \<notin> set xs \<Longrightarrow> dll (h(n := v)) p xs q = dll h p xs q"
  by (induction xs arbitrary: p) auto

lemma dll_live: "dll h p xs q \<Longrightarrow> x \<in> set xs \<Longrightarrow> \<exists>nd. h x = Some nd"
  by (induction xs arbitrary: p) auto

lemma dll_cong: "(\<And>x. x \<in> set xs \<Longrightarrow> h' x = h x) \<Longrightarrow> dll h' p xs q = dll h p xs q"
  by (induction xs arbitrary: p) auto

text \<open>Changing the outer link of a segment's first or last node moves the segment.\<close>

lemma dll_new_prev:
  assumes "dll h p (x # xs) q" "x \<notin> set xs" "h x = Some nd"
  shows "dll (h(x \<mapsto> set_prev p' nd)) p' (x # xs) q"
  using assms by (simp add: dll_frame set_prev_def)

lemma dll_new_next:
  assumes "dll h p (xs @ [x]) q" "x \<notin> set xs" "h x = Some nd"
  shows "dll (h(x \<mapsto> set_next q' nd)) p (xs @ [x]) q'"
  using assms by (auto simp: dll_append dll_frame set_next_def)

definition linked :: "timers \<Rightarrow> nat list \<Rightarrow> bool" where
  "linked s xs \<longleftrightarrow> distinct xs \<and> dll (nodes s) None xs None \<and>
     head s = first_of xs None \<and> tail s = last_of None xs"

definition detached :: "timers \<Rightarrow> nat \<Rightarrow> bool" where
  "detached s t \<longleftrightarrow> (\<exists>nd. nodes s t = Some nd \<and> prev nd = None \<and> nxt nd = None)"

definition payload :: "timer_node \<Rightarrow> int \<times> bool \<times> nat option" where
  "payload nd = (expire nd, has_cb nd, user_data nd)"

definition expire_at :: "timers \<Rightarrow> nat \<Rightarrow> int" where
  "expire_at s x = (case nodes s x of None \<Rightarrow> 0 | Some nd \<Rightarrow> expire nd)"

text \<open>
  Only links inside a set of nodes have changed: the nodes outside are as before, and inside the
  expiry, the callback and the client are.
\<close>

definition relinked :: "nat set \<Rightarrow> timers \<Rightarrow> timers \<Rightarrow> bool" where
  "relinked A s s' \<longleftrightarrow>
     (\<forall>x. map_option payload (nodes s' x) = map_option payload (nodes s x)) \<and>
     (\<forall>x. x \<notin> A \<longrightarrow> nodes s' x = nodes s x) \<and> timer_of s' = timer_of s \<and> fired s' = fired s"

lemma relinked_refl [simp]: "relinked A s s"
  by (simp add: relinked_def)

lemma relinked_ends [simp]:
  "relinked A s (s'\<lparr>tail := p\<rparr>) = relinked A s s'" "relinked A s (s'\<lparr>head := p\<rparr>) = relinked A s s'"
  by (simp_all add: relinked_def)

lemma relinked_trans: "relinked A s s' \<Longrightarrow> relinked A s' s'' \<Longrightarrow> relinked A s s''"
  by (auto simp: relinked_def)

lemma relinked_mono: "relinked A s s' \<Longrightarrow> A \<subseteq> B \<Longrightarrow> relinked B s s'"
  by (auto simp: relinked_def)

lemma relinked_expire: "relinked A s s' \<Longrightarrow> expire_at s' = expire_at s"
proof
  fix x
  assume "relinked A s s'"
  then have "map_option payload (nodes s' x) = map_option payload (nodes s x)" by (simp add: relinked_def)
  then show "expire_at s' x = expire_at s x"
    by (cases "nodes s x"; cases "nodes s' x") (auto simp: expire_at_def payload_def)
qed

lemma update_node_Some:
  "nodes s n = Some nd \<Longrightarrow> update_node n f s = Some (s\<lparr>nodes := (nodes s)(n \<mapsto> f nd)\<rparr>)"
  by (simp add: update_node_def)

lemma linked_live: "linked s xs \<Longrightarrow> x \<in> set xs \<Longrightarrow> \<exists>nd. nodes s x = Some nd"
  using dll_live by (auto simp: linked_def)

section \<open>Taking a node out\<close>

lemma unlink_linked:
  assumes l: "linked s (as @ t # bs)" and nd: "nodes s t = Some nd"
  shows "\<exists>s'. unlink t s = Some s' \<and> linked s' (as @ bs) \<and> detached s' t \<and>
    relinked (set (as @ t # bs)) s s'"
proof -
  have dist: "distinct (as @ t # bs)" and head: "head s = first_of (as @ t # bs) None"
    and tail: "tail s = last_of None (as @ t # bs)"
    using l by (auto simp: linked_def)
  have seg: "dll (nodes s) None as (Some t)" "prev nd = last_of None as" "nxt nd = first_of bs None"
      "dll (nodes s) (Some t) bs None"
    using l nd by (auto simp: linked_def dll_append)
  define s1 where "s1 = (case prev nd of
      Some p \<Rightarrow> s\<lparr>nodes := (nodes s)(p \<mapsto> set_next (nxt nd) (the (nodes s p)))\<rparr>
    | None \<Rightarrow> (if head s = Some t then s\<lparr>head := nxt nd\<rparr> else s))"
  have s1: "(case prev nd of Some p \<Rightarrow> update_node p (set_next (nxt nd)) s
      | None \<Rightarrow> Some (if head s = Some t then s\<lparr>head := nxt nd\<rparr> else s)) = Some s1 \<and>
      nodes s1 t = Some nd \<and> dll (nodes s1) None as (first_of bs None) \<and> dll (nodes s1) (Some t) bs None \<and>
      head s1 = first_of (as @ bs) None \<and> tail s1 = tail s \<and> relinked (set as) s s1"
  proof (cases as rule: rev_cases)
    case Nil
    then show ?thesis using nd seg head by (auto simp: s1_def relinked_def)
  next
    case (snoc as' a)
    obtain na where na: "nodes s a = Some na" using linked_live [OF l, of a] snoc by auto
    have "dll ((nodes s)(a \<mapsto> set_next (first_of bs None) na)) None (as' @ [a]) (first_of bs None)"
      by (rule dll_new_next) (use seg(1) dist snoc na in auto)
    then show ?thesis
      using na nd seg dist head snoc
      by (auto simp: s1_def update_node_Some dll_frame relinked_def payload_def set_next_def first_of_append)
  qed
  define s2 where "s2 = (case nxt nd of
      Some q \<Rightarrow> s1\<lparr>nodes := (nodes s1)(q \<mapsto> set_prev (prev nd) (the (nodes s1 q)))\<rparr>
    | None \<Rightarrow> (if tail s1 = Some t then s1\<lparr>tail := prev nd\<rparr> else s1))"
  have s2: "(case nxt nd of Some q \<Rightarrow> update_node q (set_prev (prev nd)) s1
      | None \<Rightarrow> Some (if tail s1 = Some t then s1\<lparr>tail := prev nd\<rparr> else s1)) = Some s2 \<and>
      nodes s2 t = Some nd \<and> dll (nodes s2) None as (first_of bs None) \<and>
      dll (nodes s2) (last_of None as) bs None \<and>
      head s2 = head s1 \<and> tail s2 = last_of None (as @ bs) \<and> relinked (set bs) s1 s2"
  proof (cases bs)
    case Nil
    then show ?thesis using s1 nd seg tail by (auto simp: s2_def last_of_append)
  next
    case (Cons b bs')
    then obtain nb where nb: "nodes s1 b = Some nb" using s1 by auto
    have "dll ((nodes s1)(b \<mapsto> set_prev (last_of None as) nb)) (last_of None as) (b # bs') None"
      by (rule dll_new_prev) (use s1 dist Cons nb in auto)
    then show ?thesis
      using nb nd s1 seg dist tail Cons
      by (auto simp: s2_def update_node_Some dll_frame relinked_def payload_def set_prev_def last_of_append)
  qed
  define s3 where "s3 = s2\<lparr>nodes := (nodes s2)(t \<mapsto> nd\<lparr>prev := None, nxt := None\<rparr>)\<rparr>"
  have "update_node t (\<lambda>nd. nd\<lparr>prev := None, nxt := None\<rparr>) s2 = Some s3"
    using s2 by (simp add: s3_def update_node_Some)
  then have "unlink t s = Some s3" using nd s1 s2 by (simp add: unlink_def)
  moreover have "linked s3 (as @ bs)"
    using s1 s2 dist by (auto simp: linked_def s3_def dll_append dll_frame)
  moreover have "detached s3 t" by (simp add: detached_def s3_def)
  moreover have "relinked (set (as @ t # bs)) s s3"
  proof -
    have "nodes s2 t = Some nd" using s2 by blast
    then have "relinked {t} s2 s3" by (auto simp: s3_def relinked_def payload_def)
    moreover have "set as \<subseteq> set (as @ t # bs)" "set bs \<subseteq> set (as @ t # bs)" "{t} \<subseteq> set (as @ t # bs)" by auto
    ultimately show ?thesis using s1 s2 by (meson relinked_mono relinked_trans)
  qed
  ultimately show ?thesis by blast
qed

section \<open>Putting a node in\<close>

text \<open>Behind all nodes up to the first one that expires later.\<close>

definition placed :: "timers \<Rightarrow> nat \<Rightarrow> nat list \<Rightarrow> nat list" where
  "placed s t xs =
     takeWhile (\<lambda>x. expire_at s x \<le> expire_at s t) xs @ t #
     dropWhile (\<lambda>x. expire_at s x \<le> expire_at s t) xs"

lemma set_placed: "set (placed s t xs) = insert t (set xs)"
  unfolding placed_def by (metis Un_insert_right list.simps(15) set_append takeWhile_dropWhile_id)

lemma mset_placed: "mset (placed s t xs) = add_mset t (mset xs)"
proof -
  have "mset xs = mset (takeWhile P xs) + mset (dropWhile P xs)" for P
    by (metis mset_append takeWhile_dropWhile_id)
  then show ?thesis by (simp add: placed_def)
qed

lemma sorted_placed:
  assumes "sorted (map (expire_at s) xs)"
  shows "sorted (map (expire_at s) (placed s t xs))"
proof -
  let ?P = "\<lambda>x. expire_at s x \<le> expire_at s t"
  have low: "expire_at s x \<le> expire_at s t" if "x \<in> set (takeWhile ?P xs)" for x
    using that set_takeWhileD by fastforce
  have "sorted (map (expire_at s) (takeWhile ?P xs @ dropWhile ?P xs))" using assms by simp
  then have parts: "sorted (map (expire_at s) (takeWhile ?P xs))" "sorted (map (expire_at s) (dropWhile ?P xs))"
    by (simp_all only: map_append sorted_append)
  have high: "expire_at s t \<le> expire_at s x" if "x \<in> set (dropWhile ?P xs)" for x
  proof (cases "dropWhile ?P xs")
    case (Cons y ys)
    have "\<not> ?P y" using Cons by (simp add: dropWhile_eq_Cons_conv)
    then show ?thesis using that parts(2) Cons by fastforce
  qed (use that in \<open>simp del: dropWhile_eq_Nil_conv\<close>)
  show ?thesis
    using parts low high by (fastforce simp: placed_def sorted_append intro: order_trans)
qed

lemma insert_end:
  assumes l: "linked s (as @ [p])" and t: "nodes s t = Some nt" "t \<notin> set (as @ [p])"
  shows "\<exists>s'. insert_scan t e p None s = Some s' \<and> linked s' (as @ [p, t]) \<and>
    relinked (insert t (set (as @ [p]))) s s'"
proof -
  obtain np where p: "nodes s p = Some np" using linked_live [OF l, of p] by auto
  have tp: "t \<noteq> p" using t(2) by auto
  define s1 where "s1 = s\<lparr>nodes := (nodes s)(p \<mapsto> set_next (Some t) np)\<rparr>"
  define s2 where "s2 = s1\<lparr>nodes := (nodes s1)(t \<mapsto> set_prev (Some p) nt)\<rparr>"
  define s3 where "s3 = s2\<lparr>nodes := (nodes s2)(t \<mapsto> set_next None (set_prev (Some p) nt)), tail := Some t\<rparr>"
  have "insert_scan t e p None s = Some s3"
    using p t tp by (subst insert_scan.simps) (simp add: update_node_Some s1_def s2_def s3_def)
  moreover have "dll (nodes s1) None (as @ [p]) (Some t)"
    unfolding s1_def using l p by (auto simp: linked_def intro!: dll_new_next)
  then have "dll (nodes s3) None (as @ [p]) (Some t)"
    using t(2) by (simp add: s3_def s2_def dll_frame)
  then have "linked s3 (as @ [p, t])"
    using l t tp dll_append [of "nodes s3" None "as @ [p]" "[t]" None]
    by (auto simp: linked_def s3_def s2_def s1_def set_prev_def set_next_def first_of_append last_of_append)
  moreover have "relinked (insert t (set (as @ [p]))) s s3"
    using p t tp by (auto simp: relinked_def s3_def s2_def s1_def payload_def set_prev_def set_next_def)
  ultimately show ?thesis by blast
qed

lemma insert_between:
  assumes l: "linked s (as @ p # x # bs)" and t: "nodes s t = Some nt" "t \<notin> set (as @ p # x # bs)"
    and e: "e < expire_at s x"
  shows "\<exists>s'. insert_scan t e p (Some x) s = Some s' \<and> linked s' (as @ p # t # x # bs) \<and>
    relinked (insert t (set (as @ p # x # bs))) s s'"
proof -
  obtain np nx where p: "nodes s p = Some np" and x: "nodes s x = Some nx"
    using linked_live [OF l, of p] linked_live [OF l, of x] by auto
  have ne: "t \<noteq> p" "t \<noteq> x" "p \<noteq> x" using t(2) l by (auto simp: linked_def)
  define h1 where "h1 = (nodes s)(p \<mapsto> set_next (Some t) np)"
  define h2 where "h2 = h1(t \<mapsto> set_next (Some x) nt)"
  define h3 where "h3 = h2(x \<mapsto> set_prev (Some t) nx)"
  define h4 where "h4 = h3(t \<mapsto> set_prev (Some p) (set_next (Some x) nt))"
  have less: "e < expire nx" using e x by (simp add: expire_at_def)
  have run: "insert_scan t e p (Some x) s = Some (s\<lparr>nodes := h4\<rparr>)"
    using p t x ne less
    by (subst insert_scan.simps) (simp add: update_node_Some h1_def h2_def h3_def h4_def)
  have dist: "distinct (as @ p # x # bs)" and d: "dll (nodes s) None ((as @ [p]) @ x # bs) None"
    using l by (auto simp: linked_def)
  then have left: "dll (nodes s) None (as @ [p]) (Some x)" and right: "dll (nodes s) (Some p) (x # bs) None"
    by (auto simp only: dll_append first_of_append last_of_append end_simps)
  have "dll h1 None (as @ [p]) (Some t)" unfolding h1_def by (rule dll_new_next [OF left _ p]) (use dist in auto)
  then have left': "dll h4 None (as @ [p]) (Some t)"
    using t(2) dist by (simp add: h4_def h3_def h2_def dll_frame)
  have nx: "h2 x = Some nx" using x ne by (simp add: h2_def h1_def)
  have "dll h2 (Some p) (x # bs) None"
    using right t(2) dist unfolding h2_def h1_def by (subst dll_frame, simp)+ simp
  then have "dll h3 (Some t) (x # bs) None"
    unfolding h3_def by (rule dll_new_prev) (use dist nx in auto)
  then have right': "dll h4 (Some t) (x # bs) None"
    using t(2) unfolding h4_def by (subst dll_frame) auto
  have mid: "h4 t = Some (set_prev (Some p) (set_next (Some x) nt))" by (simp add: h4_def)
  have "dll h4 None ((as @ [p]) @ t # x # bs) None"
    using left' right' mid by (subst dll_append) (simp add: set_prev_def set_next_def)
  then have "linked (s\<lparr>nodes := h4\<rparr>) (as @ p # t # x # bs)"
    using l t(2) by (auto simp: linked_def first_of_append last_of_append)
  moreover have "relinked (insert t (set (as @ p # x # bs))) s (s\<lparr>nodes := h4\<rparr>)"
    using p t x ne by (auto simp: relinked_def h1_def h2_def h3_def h4_def payload_def set_prev_def set_next_def)
  ultimately show ?thesis using run by blast
qed

lemma insert_scan_linked:
  assumes "linked s (as @ p # ys)" "nodes s t = Some nt" "t \<notin> set (as @ p # ys)"
  shows "\<exists>s'. insert_scan t e p (first_of ys None) s = Some s' \<and>
    linked s' (as @ p # takeWhile (\<lambda>x. expire_at s x \<le> e) ys @ t # dropWhile (\<lambda>x. expire_at s x \<le> e) ys) \<and>
    relinked (insert t (set (as @ p # ys))) s s'"
  using assms
proof (induction ys arbitrary: as p)
  case Nil
  then show ?case using insert_end [of s as p t nt e] by simp
next
  case (Cons x xs)
  show ?case
  proof (cases "e < expire_at s x")
    case True
    then show ?thesis using insert_between [OF Cons.prems True] by simp
  next
    case False
    obtain nx where x: "nodes s x = Some nx" using linked_live [OF Cons.prems(1), of x] by auto
    have "dll (nodes s) None ((as @ [p]) @ x # xs) None" using Cons.prems(1) by (simp add: linked_def)
    then have "nxt nx = first_of xs None" using x by (simp only: dll_append) auto
    then have "insert_scan t e p (first_of (x # xs) None) s = insert_scan t e x (first_of xs None) s"
      using x False by (subst insert_scan.simps) (simp add: expire_at_def)
    moreover have "\<exists>s'. insert_scan t e x (first_of xs None) s = Some s' \<and>
      linked s' ((as @ [p]) @ x # takeWhile (\<lambda>x. expire_at s x \<le> e) xs @ t # dropWhile (\<lambda>x. expire_at s x \<le> e) xs) \<and>
      relinked (insert t (set ((as @ [p]) @ x # xs))) s s'"
      by (rule Cons.IH) (use Cons.prems in auto)
    ultimately show ?thesis using False by simp
  qed
qed

lemma insert_timer_linked:
  assumes l: "linked s xs" and t: "detached s t" "t \<notin> set xs"
  shows "\<exists>s'. insert_timer t s = Some s' \<and> linked s' (placed s t xs) \<and> relinked (insert t (set xs)) s s'"
proof -
  obtain nt where nt: "nodes s t = Some nt" "prev nt = None" "nxt nt = None" using t(1) by (auto simp: detached_def)
  have et: "expire_at s t = expire nt" using nt by (simp add: expire_at_def)
  show ?thesis
  proof (cases xs)
    case Nil
    then show ?thesis using l nt by (auto simp: insert_timer_def linked_def placed_def)
  next
    case (Cons h ys)
    have head: "head s = Some h" using l Cons by (simp add: linked_def)
    obtain nh where nh: "nodes s h = Some nh" "nxt nh = first_of ys None" "prev nh = None"
      using l Cons by (auto simp: linked_def)
    have ne: "t \<noteq> h" using t(2) Cons by auto
    have eh: "expire_at s h = expire nh" using nh by (simp add: expire_at_def)
    show ?thesis
    proof (cases "expire nt < expire nh")
      case True
      define h1 where "h1 = (nodes s)(t \<mapsto> set_next (Some h) nt)"
      define h2 where "h2 = h1(h \<mapsto> set_prev (Some t) nh)"
      have run: "insert_timer t s = Some (s\<lparr>nodes := h2, head := Some t\<rparr>)"
        using head nt nh ne True by (simp add: insert_timer_def update_node_Some h1_def h2_def)
      have "dll (nodes s) None (h # ys) None" "distinct (h # ys)" using l Cons by (simp_all add: linked_def)
      then have "dll h2 (Some t) (h # ys) None"
        unfolding h2_def h1_def using t(2) Cons ne nh
        by (intro dll_new_prev) (auto simp: dll_frame)
      then have "linked (s\<lparr>nodes := h2, head := Some t\<rparr>) (t # h # ys)"
        using l Cons t(2) nt ne by (auto simp: linked_def h2_def h1_def set_next_def)
      moreover have "placed s t xs = t # h # ys" using Cons True et eh by (simp add: placed_def)
      moreover have "relinked (insert t (set xs)) s (s\<lparr>nodes := h2, head := Some t\<rparr>)"
        using nt nh ne Cons by (auto simp: relinked_def h1_def h2_def payload_def set_prev_def set_next_def)
      ultimately show ?thesis using run by auto
    next
      case False
      then have "insert_timer t s = insert_scan t (expire nt) h (first_of ys None) s"
        using head nt nh by (simp add: insert_timer_def)
      moreover have "placed s t xs = [] @ h # takeWhile (\<lambda>x. expire_at s x \<le> expire nt) ys @ t #
          dropWhile (\<lambda>x. expire_at s x \<le> expire nt) ys"
        using Cons False et eh by (simp add: placed_def)
      ultimately show ?thesis
        using insert_scan_linked [of s "[]" h ys t nt "expire nt"] l nt(1) t(2) Cons by simp
    qed
  qed
qed

section \<open>The ordered list\<close>

definition timer_list :: "timers \<Rightarrow> nat list \<Rightarrow> bool" where
  "timer_list s xs \<longleftrightarrow> linked s xs \<and> sorted (map (expire_at s) xs)"

text \<open>A client's pointer, where it is set, leads to a timer of the list that has the client.\<close>

definition backed :: "timers \<Rightarrow> nat list \<Rightarrow> bool" where
  "backed s xs \<longleftrightarrow>
     (\<forall>c t. timer_of s c = Some t \<longrightarrow> t \<in> set xs \<and> (\<exists>nd. nodes s t = Some nd \<and> user_data nd = Some c))"

lemma forget_simps [simp]:
  "nodes (forget nd s) = nodes s" "head (forget nd s) = head s" "tail (forget nd s) = tail s"
  "fired (forget nd s) = fired s" "expire_at (forget nd s) = expire_at s" "linked (forget nd s) = linked s"
  by (simp_all add: forget_def expire_at_def [abs_def] linked_def [abs_def] split: option.split)

lemma timer_of_forget:
  "timer_of (forget nd s) c = (if user_data nd = Some c then None else timer_of s c)"
  by (auto simp: forget_def split: option.split)

lemma linked_cong:
  assumes "linked s xs" "\<And>x. x \<in> set xs \<Longrightarrow> nodes s' x = nodes s x" "head s' = head s" "tail s' = tail s"
  shows "linked s' xs"
  using assms dll_cong [of xs "nodes s'" "nodes s"] by (simp add: linked_def)

lemma expire_at_cong: "nodes s' x = nodes s x \<Longrightarrow> expire_at s' x = expire_at s x"
  by (simp add: expire_at_def)

lemma expire_at_payload:
  "map_option payload (nodes s' x) = map_option payload (nodes s x) \<Longrightarrow> expire_at s' x = expire_at s x"
  by (cases "nodes s' x"; cases "nodes s x") (auto simp: expire_at_def payload_def)

lemma payload_same:
  assumes "relinked A s s'" "nodes s t = Some nd"
  shows "\<exists>nd'. nodes s' t = Some nd' \<and> payload nd' = payload nd"
proof -
  have "map_option payload (nodes s' t) = map_option payload (nodes s t)"
    using assms(1) by (simp add: relinked_def)
  then show ?thesis using assms(2) by (cases "nodes s' t") auto
qed

lemma del_timer_linked:
  assumes l: "linked s xs" and t: "t \<in> set xs"
  shows "\<exists>s' nd. del_timer (Some t) s = Some s' \<and> linked s' (remove1 t xs) \<and> nodes s' t = None \<and>
    nodes s t = Some nd \<and>
    (\<forall>x. x \<noteq> t \<longrightarrow> map_option payload (nodes s' x) = map_option payload (nodes s x)) \<and>
    (\<forall>x. x \<notin> set xs \<longrightarrow> nodes s' x = nodes s x) \<and> fired s' = fired s \<and>
    (\<forall>c. timer_of s' c = (if user_data nd = Some c then None else timer_of s c))"
proof -
  obtain as bs where xs: "xs = as @ t # bs" using t split_list by metis
  obtain nd where nd: "nodes s t = Some nd" using linked_live [OF l t] by blast
  obtain s1 where s1: "unlink t s = Some s1" "linked s1 (as @ bs)" "detached s1 t" "relinked (set xs) s s1"
    using unlink_linked [of s as t bs nd] l nd xs by auto
  obtain nd1 where nd1: "nodes s1 t = Some nd1" "payload nd1 = payload nd"
    using payload_same [OF s1(4) nd] by blast
  define s2 where "s2 = (forget nd1 s1)\<lparr>nodes := (nodes s1)(t := None)\<rparr>"
  have del: "del_timer (Some t) s = Some s2"
    using s1(1) nd1(1) by (simp add: del_timer_def free_node_def s2_def)
  have "t \<notin> set as" "t \<notin> set bs" using l xs by (auto simp: linked_def)
  then have rem: "remove1 t xs = as @ bs" "t \<notin> set (as @ bs)" by (simp_all add: xs remove1_append)
  have "linked s2 (as @ bs)"
    by (rule linked_cong [OF s1(2)]) (use rem in \<open>auto simp: s2_def\<close>)
  moreover have "user_data nd1 = user_data nd" using nd1(2) by (simp add: payload_def)
  ultimately show ?thesis
    using del nd rem s1(4) t
    by (intro exI [of _ s2] exI [of _ nd]) (auto simp: s2_def relinked_def timer_of_forget)
qed

lemma sorted_remove1_map: "sorted (map f xs) \<Longrightarrow> sorted (map f (remove1 t xs))"
  by (induction xs) (auto dest: notin_set_remove1 intro: set_remove1_subset [THEN subsetD])

text \<open>
  Adding a timer that is not in the list puts it behind all timers that expire no later and
  before the first one that expires later, so the list stays ordered and timers with the same
  expiry stay in the order they were added; only links change.
\<close>

theorem add_timer_keeps_order:
  assumes "timer_list s xs" "detached s t" "t \<notin> set xs"
  shows "\<exists>s'. add_timer (Some t) s = Some s' \<and>
    timer_list s' (takeWhile (\<lambda>x. expire_at s x \<le> expire_at s t) xs @ t #
      dropWhile (\<lambda>x. expire_at s x \<le> expire_at s t) xs) \<and>
    (\<forall>x. map_option payload (nodes s' x) = map_option payload (nodes s x))"
proof -
  obtain s' where s': "insert_timer t s = Some s'" "linked s' (placed s t xs)" "relinked (insert t (set xs)) s s'"
    using insert_timer_linked [of s xs t] assms by (auto simp: timer_list_def)
  have "sorted (map (expire_at s') (placed s t xs))"
    using sorted_placed [of s xs t] assms(1) relinked_expire [OF s'(3)] by (simp add: timer_list_def)
  then show ?thesis using s' by (auto simp: add_timer_def timer_list_def placed_def relinked_def)
qed

text \<open>
  Deleting a timer of the list takes out exactly that one, wherever it stands, frees it and
  clears its client's pointer; the other timers keep their order and their contents.
\<close>

theorem del_timer_removes:
  assumes "timer_list s xs" "t \<in> set xs"
  shows "\<exists>s'. del_timer (Some t) s = Some s' \<and> timer_list s' (remove1 t xs) \<and> nodes s' t = None \<and>
    (\<forall>c nd. nodes s t = Some nd \<longrightarrow> user_data nd = Some c \<longrightarrow> timer_of s' c = None) \<and>
    (\<forall>x. x \<noteq> t \<longrightarrow> map_option payload (nodes s' x) = map_option payload (nodes s x))"
proof -
  have l: "linked s xs" using assms(1) by (simp add: timer_list_def)
  obtain s' nd where s': "del_timer (Some t) s = Some s'" "linked s' (remove1 t xs)" "nodes s' t = None"
    "nodes s t = Some nd" "\<forall>x. x \<noteq> t \<longrightarrow> map_option payload (nodes s' x) = map_option payload (nodes s x)"
    "\<forall>c. timer_of s' c = (if user_data nd = Some c then None else timer_of s c)"
    using del_timer_linked [OF l assms(2)] by blast
  have same: "expire_at s' x = expire_at s x" if "x \<noteq> t" for x
    using s'(5) that by (intro expire_at_payload) blast
  have "t \<notin> set (remove1 t xs)" using l by (simp add: linked_def)
  then have "map (expire_at s') (remove1 t xs) = map (expire_at s) (remove1 t xs)"
    using same by (metis map_cong)
  then have "sorted (map (expire_at s') (remove1 t xs))"
    using assms(1) by (metis sorted_remove1_map timer_list_def)
  then show ?thesis using s' by (auto simp: timer_list_def)
qed

lemma in_place_linked:
  assumes "linked s (as @ t # bs)"
  shows "in_place t s = Some ((bs = [] \<or> expire_at s t \<le> expire_at s (hd bs)) \<and>
    (as = [] \<or> expire_at s (last as) \<le> expire_at s t))"
proof -
  obtain nd where nd: "nodes s t = Some nd" using linked_live [OF assms, of t] by auto
  have links: "prev nd = last_of None as" "nxt nd = first_of bs None"
    using assms nd by (auto simp: linked_def dll_append)
  have "\<exists>nb. nodes s (hd bs) = Some nb" if "bs \<noteq> []" using linked_live [OF assms, of "hd bs"] that by simp
  moreover have "\<exists>na. nodes s (last as) = Some na" if "as \<noteq> []" using linked_live [OF assms, of "last as"] that by simp
  ultimately show ?thesis
    using nd links
    by (cases bs; cases as rule: rev_cases) (auto simp: in_place_def expire_at_def)
qed

text \<open>
  After a timer of the list has been given another expiry, earlier or later, adjusting it makes
  the list ordered again with the same timers; where the order already was right nothing changes.
\<close>

theorem adjust_timer_reorders:
  assumes "linked s xs" "t \<in> set xs" "sorted (map (expire_at s) (remove1 t xs))"
  shows "\<exists>s' ys. adjust_timer (Some t) s = Some s' \<and> timer_list s' ys \<and> mset ys = mset xs \<and>
    (sorted (map (expire_at s) xs) \<longrightarrow> s' = s \<and> ys = xs) \<and>
    (\<forall>x. map_option payload (nodes s' x) = map_option payload (nodes s x)) \<and> timer_of s' = timer_of s \<and> fired s' = fired s"
proof -
  obtain as bs where xs: "xs = as @ t # bs" using assms(2) split_list by metis
  have "t \<notin> set as" "t \<notin> set bs" using assms(1) xs by (auto simp: linked_def)
  then have rem: "remove1 t xs = as @ bs" "t \<notin> set (as @ bs)" by (simp_all add: xs remove1_append)
  have parts: "sorted (map (expire_at s) as)" "sorted (map (expire_at s) bs)"
    "\<forall>x \<in> set as. \<forall>y \<in> set bs. expire_at s x \<le> expire_at s y"
    using assms(3) rem by (auto simp: sorted_append)
  define ok where "ok \<longleftrightarrow> (bs = [] \<or> expire_at s t \<le> expire_at s (hd bs)) \<and>
      (as = [] \<or> expire_at s (last as) \<le> expire_at s t)"
  have place: "in_place t s = Some ok" using in_place_linked [of s as t bs] assms(1) xs by (simp add: ok_def)
  have ok_sorted: "ok \<longleftrightarrow> sorted (map (expire_at s) xs)"
  proof
    assume ok
    have "expire_at s t \<le> expire_at s y" if "y \<in> set bs" for y
      using that \<open>ok\<close> parts(2) by (cases bs) (auto simp: ok_def)
    moreover have "expire_at s x \<le> expire_at s t" if "x \<in> set as" for x
      using that \<open>ok\<close> parts(1) by (cases as rule: rev_cases) (auto simp: ok_def sorted_append)
    ultimately show "sorted (map (expire_at s) xs)" using parts xs by (auto simp: sorted_append)
  next
    assume "sorted (map (expire_at s) xs)"
    then show ok using xs by (cases bs; cases as rule: rev_cases) (auto simp: ok_def sorted_append)
  qed
  show ?thesis
  proof (cases ok)
    case True
    then show ?thesis
      using place assms(1) ok_sorted by (auto simp: adjust_timer_def timer_list_def)
  next
    case False
    obtain nd where nd: "nodes s t = Some nd" using linked_live [OF assms(1,2)] by blast
    obtain s1 where s1: "unlink t s = Some s1" "linked s1 (as @ bs)" "detached s1 t" "relinked (set xs) s s1"
      using unlink_linked [of s as t bs nd] assms(1) nd xs by auto
    obtain s2 where s2: "insert_timer t s1 = Some s2" "linked s2 (placed s1 t (as @ bs))"
        "relinked (insert t (set (as @ bs))) s1 s2"
      using insert_timer_linked [OF s1(2,3) rem(2)] by blast
    have e: "expire_at s2 = expire_at s1" "expire_at s1 = expire_at s"
      using relinked_expire s1(4) s2(3) by blast+
    have "sorted (map (expire_at s2) (placed s1 t (as @ bs)))"
      using sorted_placed [of s1 "as @ bs" t] assms(3) rem(1) e by simp
    moreover have "mset (placed s1 t (as @ bs)) = mset xs" by (simp add: mset_placed xs)
    ultimately show ?thesis
      using place False ok_sorted s1 s2 by (auto simp: adjust_timer_def timer_list_def relinked_def)
  qed
qed

section \<open>Expiry\<close>

text \<open>What \<^verbatim>\<open>tick\<close> finds under the lock and leaves there.\<close>

definition due :: "int \<Rightarrow> timers \<Rightarrow> nat list \<Rightarrow> nat list" where
  "due cur s xs = takeWhile (\<lambda>x. expire_at s x \<le> cur) xs"

definition not_due :: "int \<Rightarrow> timers \<Rightarrow> nat list \<Rightarrow> nat list" where
  "not_due cur s xs = dropWhile (\<lambda>x. expire_at s x \<le> cur) xs"

lemma due_splits: "due cur s xs @ not_due cur s xs = xs"
  by (simp add: due_def not_due_def)

lemma pop_expired_linked:
  assumes "linked s xs"
  shows "\<exists>s'. pop_expired cur s = Some (due cur s xs, s') \<and> linked s' (not_due cur s xs) \<and>
    (\<forall>x. map_option payload (nodes s' x) = map_option payload (nodes s x)) \<and>
    (\<forall>x. x \<notin> set xs \<longrightarrow> nodes s' x = nodes s x) \<and> (\<forall>t \<in> set (due cur s xs). detached s' t) \<and>
    fired s' = fired s \<and>
    (\<forall>c. timer_of s' c =
       (if \<exists>t \<in> set (due cur s xs). \<exists>nd. nodes s t = Some nd \<and> user_data nd = Some c then None else timer_of s c))"
  using assms
proof (induction xs arbitrary: s)
  case Nil
  then have "head s = None" by (simp add: linked_def)
  then show ?case using Nil by (subst pop_expired.simps) (simp add: due_def not_due_def)
next
  case (Cons t xs)
  obtain nd where nd: "nodes s t = Some nd" "prev nd = None" "nxt nd = first_of xs None"
    "dll (nodes s) (Some t) xs None" and dist: "t \<notin> set xs" "distinct xs" and ends: "head s = Some t" "tail s = last_of (Some t) xs"
    using Cons.prems by (auto simp: linked_def)
  show ?case
  proof (cases "expire nd \<le> cur")
    case False
    then show ?thesis
      using Cons.prems nd ends by (subst pop_expired.simps) (simp add: due_def not_due_def expire_at_def)
  next
    case True
    define s1 where "s1 = s\<lparr>head := nxt nd\<rparr>"
    define s2 where "s2 = (case nxt nd of
        Some h \<Rightarrow> s1\<lparr>nodes := (nodes s1)(h \<mapsto> set_prev None (the (nodes s1 h)))\<rparr>
      | None \<Rightarrow> s1\<lparr>tail := None\<rparr>)"
    have s2: "(case nxt nd of Some h \<Rightarrow> update_node h (set_prev None) s1 | None \<Rightarrow> Some (s1\<lparr>tail := None\<rparr>)) = Some s2 \<and>
        linked s2 xs \<and> relinked (set xs) s s2 \<and> nodes s2 t = Some nd"
    proof (cases xs)
      case Nil
      then show ?thesis using nd by (auto simp: s1_def s2_def linked_def)
    next
      case (Cons h ys)
      then obtain nh where nh: "nodes s h = Some nh" using nd by auto
      have "dll ((nodes s)(h \<mapsto> set_prev None nh)) None (h # ys) None"
        by (rule dll_new_prev) (use nd dist Cons nh in auto)
      then show ?thesis
        using nd dist ends Cons nh
        by (auto simp: s1_def s2_def update_node_Some linked_def relinked_def payload_def set_prev_def)
    qed
    define s3 where "s3 = s2\<lparr>nodes := (nodes s2)(t \<mapsto> nd\<lparr>prev := None, nxt := None\<rparr>)\<rparr>"
    define s4 where "s4 = forget nd s3"
    have t2: "nodes s2 t = Some nd" using s2 by blast
    have s3: "update_node t (\<lambda>nd. nd\<lparr>prev := None, nxt := None\<rparr>) s2 = Some s3"
      using t2 by (simp add: update_node_Some s3_def)
    have l3: "linked s3 xs" by (rule linked_cong [of s2]) (use s2 dist in \<open>auto simp: s3_def\<close>)
    have "relinked (insert t (set xs)) s2 s3" using t2 by (auto simp: s3_def relinked_def payload_def)
    moreover have "relinked (insert t (set xs)) s s2"
      by (rule relinked_mono [of "set xs"]) (use s2 in auto)
    ultimately have r3: "relinked (insert t (set xs)) s s3" by (rule relinked_trans [rotated])
    have l4: "linked s4 xs" using l3 by (simp add: s4_def)
    have pay: "\<forall>x. map_option payload (nodes s4 x) = map_option payload (nodes s x)"
      using r3 by (simp add: relinked_def s4_def)
    have e4: "expire_at s4 = expire_at s" using relinked_expire [OF r3] by (simp add: s4_def)
    from Cons.IH [OF l4] obtain s' where s':
      "pop_expired cur s4 = Some (due cur s xs, s')" "linked s' (not_due cur s xs)"
      "\<forall>x. map_option payload (nodes s' x) = map_option payload (nodes s4 x)"
      "\<forall>x. x \<notin> set xs \<longrightarrow> nodes s' x = nodes s4 x" "\<forall>t \<in> set (due cur s xs). detached s' t"
      "fired s' = fired s4"
      "\<forall>c. timer_of s' c = (if \<exists>t \<in> set (due cur s xs). \<exists>nd. nodes s4 t = Some nd \<and> user_data nd = Some c
         then None else timer_of s4 c)"
      by (auto simp: due_def not_due_def e4)
    have "head s1 = nxt nd" by (simp add: s1_def)
    then have run: "pop_expired cur s = Some (t # due cur s xs, s')"
      using ends(1) nd(1) True s2 s3 s'(1)
      by (subst pop_expired.simps) (simp add: s1_def [symmetric] s4_def [symmetric])
    have d: "due cur s (t # xs) = t # due cur s xs" "not_due cur s (t # xs) = not_due cur s xs"
      using True nd(1) by (simp_all add: due_def not_due_def expire_at_def)
    have "detached s' t" using s'(4) dist by (simp add: detached_def s4_def s3_def)
    moreover have client: "(\<exists>nd. nodes s4 x = Some nd \<and> user_data nd = Some c) \<longleftrightarrow>
        (\<exists>nd. nodes s x = Some nd \<and> user_data nd = Some c)" for x c
      using spec [OF pay, of x] by (cases "nodes s4 x"; cases "nodes s x") (auto simp: payload_def)
    have "timer_of s4 c = (if user_data nd = Some c then None else timer_of s c)" for c
      using r3 by (simp add: s4_def timer_of_forget relinked_def)
    then have "\<forall>c. timer_of s' c = (if \<exists>x \<in> set (t # due cur s xs). \<exists>nd. nodes s x = Some nd \<and> user_data nd = Some c
         then None else timer_of s c)"
      using s'(7) client nd(1) by auto
    moreover have "\<forall>x. x \<notin> set (t # xs) \<longrightarrow> nodes s' x = nodes s x"
      using s'(4) r3 by (auto simp: relinked_def s4_def)
    moreover have "fired s' = fired s" using s'(6) r3 by (simp add: s4_def relinked_def)
    ultimately show ?thesis using run s'(2,3,5) pay unfolding d by auto
  qed
qed

lemma not_due_later:
  assumes "sorted (map (expire_at s) xs)" "x \<in> set (not_due cur s xs)"
  shows "cur < expire_at s x"
proof (cases "not_due cur s xs")
  case (Cons y ys)
  have "\<not> expire_at s y \<le> cur" using Cons unfolding not_due_def by (simp add: dropWhile_eq_Cons_conv)
  moreover have "sorted (map (expire_at s) (due cur s xs @ y # ys))"
    using assms(1) due_splits [of cur s xs] Cons by simp
  then have "expire_at s y \<le> expire_at s x" using assms(2) Cons by (auto simp: sorted_append)
  ultimately show ?thesis by simp
qed (use assms in simp)

text \<open>
  Under its lock \<^verbatim>\<open>tick\<close> takes off exactly the timers that have expired, in order of their
  expiry; the ones that stay expire later and are still an ordered list. Each one taken is out of
  the list with no links, and its client no longer points to it, before any callback is called.
\<close>

theorem tick_takes_expired:
  assumes "timer_list s xs"
  shows "\<exists>ts rest s'. pop_expired cur s = Some (ts, s') \<and> ts @ rest = xs \<and> timer_list s' rest \<and>
    (\<forall>t \<in> set ts. expire_at s t \<le> cur \<and> detached s' t \<and>
       (\<forall>c nd. nodes s t = Some nd \<longrightarrow> user_data nd = Some c \<longrightarrow> timer_of s' c = None)) \<and>
    (\<forall>t \<in> set rest. cur < expire_at s t)"
proof -
  have l: "linked s xs" and srt: "sorted (map (expire_at s) xs)" using assms by (simp_all add: timer_list_def)
  from pop_expired_linked [OF l, of cur] obtain s' where s':
    "pop_expired cur s = Some (due cur s xs, s')" "linked s' (not_due cur s xs)"
    "\<forall>x. map_option payload (nodes s' x) = map_option payload (nodes s x)"
    "\<forall>t \<in> set (due cur s xs). detached s' t"
    "\<forall>c. timer_of s' c = (if \<exists>t \<in> set (due cur s xs). \<exists>nd. nodes s t = Some nd \<and> user_data nd = Some c
       then None else timer_of s c)" by blast
  have e: "expire_at s' = expire_at s"
  proof
    fix x
    show "expire_at s' x = expire_at s x"
      using spec [OF s'(3), of x] by (cases "nodes s' x"; cases "nodes s x") (auto simp: expire_at_def payload_def)
  qed
  have "sorted (map (expire_at s) (not_due cur s xs))"
    using srt due_splits [of cur s xs] by (metis map_append sorted_append)
  then have "timer_list s' (not_due cur s xs)" using s'(2) e by (simp add: timer_list_def)
  moreover have "expire_at s t \<le> cur" if "t \<in> set (due cur s xs)" for t
    using that unfolding due_def by (metis (mono_tags, lifting) set_takeWhileD)
  ultimately show ?thesis
    using s'(1,4,5) not_due_later [OF srt] due_splits [of cur s xs]
    by (intro exI [of _ "due cur s xs"] exI [of _ "not_due cur s xs"] exI [of _ s']) auto
qed

text \<open>
  What a callback may do: anything that leaves an ordered list and touches no timer that was taken
  off and is still to be called or deleted.
\<close>

definition callback_ok :: "(nat \<Rightarrow> timers \<Rightarrow> timers option) \<Rightarrow> bool" where
  "callback_ok cb \<longleftrightarrow>
     (\<forall>c s xs ds. timer_list s xs \<and> backed s xs \<and> (\<forall>d \<in> ds. detached s d) \<and> ds \<inter> set xs = {} \<longrightarrow>
        (\<exists>s' xs'. cb c s = Some s' \<and> timer_list s' xs' \<and> backed s' xs' \<and> ds \<inter> set xs' = {} \<and>
           (\<forall>d \<in> ds. nodes s' d = nodes s d) \<and> fired s' = fired s))"

lemma callback_okD:
  assumes "callback_ok cb" "timer_list s xs" "backed s xs" "\<forall>d \<in> ds. detached s d" "ds \<inter> set xs = {}"
  shows "\<exists>s' xs'. cb c s = Some s' \<and> timer_list s' xs' \<and> backed s' xs' \<and> ds \<inter> set xs' = {} \<and>
    (\<forall>d \<in> ds. nodes s' d = nodes s d) \<and> fired s' = fired s"
  using assms(1) [unfolded callback_ok_def, rule_format, of s xs ds c] assms(2-) by blast

definition callees :: "timers \<Rightarrow> nat list \<Rightarrow> nat list" where
  "callees s ts =
     concat (map (\<lambda>t. case nodes s t of
                        Some nd \<Rightarrow> (case user_data nd of Some c \<Rightarrow> if has_cb nd then [c] else [] | None \<Rightarrow> [])
                      | None \<Rightarrow> []) ts)"

lemma callees_cong:
  assumes "\<And>t. t \<in> set ts \<Longrightarrow> map_option payload (nodes s' t) = map_option payload (nodes s t)"
  shows "callees s' ts = callees s ts"
  using assms
proof (induction ts)
  case (Cons t ts)
  have "map_option payload (nodes s' t) = map_option payload (nodes s t)" by (rule Cons.prems) simp
  then show ?case
    using Cons by (cases "nodes s' t"; cases "nodes s t") (auto simp: callees_def payload_def split: option.split)
qed (simp add: callees_def)

lemma timer_list_free:
  assumes "timer_list s xs" "backed s xs" "t \<notin> set xs"
  shows "timer_list (s\<lparr>nodes := (nodes s)(t := None)\<rparr>) xs" and "backed (s\<lparr>nodes := (nodes s)(t := None)\<rparr>) xs"
proof -
  let ?s = "s\<lparr>nodes := (nodes s)(t := None)\<rparr>"
  have "linked ?s xs" by (rule linked_cong [of s]) (use assms in \<open>auto simp: timer_list_def\<close>)
  moreover have "map (expire_at ?s) xs = map (expire_at s) xs"
    using assms(3) by (auto simp: expire_at_def)
  ultimately show "timer_list ?s xs" using assms(1) unfolding timer_list_def by metis
  show "backed ?s xs" using assms(2,3) unfolding backed_def by (metis fun_upd_other timers.select_convs(3,4)
      timers.surjective timers.update_convs(3))
qed

lemma timer_list_fired [simp]:
  "timer_list (s\<lparr>fired := l\<rparr>) xs = timer_list s xs" "backed (s\<lparr>fired := l\<rparr>) xs = backed s xs"
  "detached (s\<lparr>fired := l\<rparr>) t = detached s t"
  by (simp_all add: timer_list_def linked_def backed_def detached_def expire_at_def [abs_def])

lemma run_expired_ok:
  assumes "callback_ok cb" "timer_list s xs" "backed s xs" "distinct ts" "set ts \<inter> set xs = {}"
    and "\<forall>t \<in> set ts. detached s t"
  shows "\<exists>s' ys. run_expired cb ts s = Some s' \<and> timer_list s' ys \<and> backed s' ys \<and>
    fired s' = fired s @ callees s ts"
  using assms(2-)
proof (induction ts arbitrary: s xs)
  case (Cons t ts)
  obtain nd where nd: "nodes s t = Some nd" using Cons.prems(5) by (auto simp: detached_def)
  define call where "call \<longleftrightarrow> has_cb nd \<and> user_data nd \<noteq> None"
  have "\<exists>s1 ys. (case user_data nd of Some c \<Rightarrow> if has_cb nd then cb c (s\<lparr>fired := fired s @ [c]\<rparr>) else Some s
        | None \<Rightarrow> Some s) = Some s1 \<and> timer_list s1 ys \<and> backed s1 ys \<and> set (t # ts) \<inter> set ys = {} \<and>
      (\<forall>d \<in> set (t # ts). nodes s1 d = nodes s d) \<and> fired s1 = fired s @ callees s [t]"
  proof (cases call)
    case False
    then show ?thesis
      using Cons.prems nd
      by (intro exI [of _ s] exI [of _ xs]) (auto simp: call_def callees_def split: option.split)
  next
    case True
    then obtain c where c: "user_data nd = Some c" "has_cb nd" by (auto simp: call_def)
    let ?s = "s\<lparr>fired := fired s @ [c]\<rparr>"
    have "timer_list ?s xs" "backed ?s xs" "\<forall>d \<in> set (t # ts). detached ?s d" using Cons.prems by simp_all
    from callback_okD [OF assms(1) this Cons.prems(4), of c] obtain s1 ys where
      "cb c ?s = Some s1" "timer_list s1 ys" "backed s1 ys" "set (t # ts) \<inter> set ys = {}"
      "\<forall>d \<in> set (t # ts). nodes s1 d = nodes ?s d" "fired s1 = fired ?s" by blast
    moreover have "callees s [t] = [c]" using c nd by (simp add: callees_def)
    ultimately show ?thesis using c by (intro exI [of _ s1] exI [of _ ys]) simp
  qed
  then obtain s1 ys where s1: "(case user_data nd of Some c \<Rightarrow> if has_cb nd then cb c (s\<lparr>fired := fired s @ [c]\<rparr>) else Some s
        | None \<Rightarrow> Some s) = Some s1" "timer_list s1 ys" "backed s1 ys" "set (t # ts) \<inter> set ys = {}"
      "\<forall>d \<in> set (t # ts). nodes s1 d = nodes s d" "fired s1 = fired s @ callees s [t]" by blast
  define s2 where "s2 = s1\<lparr>nodes := (nodes s1)(t := None)\<rparr>"
  have free: "free_node t s1 = Some s2" using s1(5) nd by (simp add: free_node_def s2_def)
  have tl: "timer_list s2 ys" "backed s2 ys"
    using timer_list_free [OF s1(2,3)] s1(4) by (simp_all add: s2_def)
  have keep: "nodes s2 d = nodes s d" if "d \<in> set ts" for d
    using that s1(5) Cons.prems(3) by (auto simp: s2_def)
  have det: "\<forall>d \<in> set ts. detached s2 d"
    using Cons.prems(5) keep by (auto simp: detached_def)
  have "distinct ts" "set ts \<inter> set ys = {}" using Cons.prems(3) s1(4) by auto
  from Cons.IH [OF tl this det] obtain s' zs where s':
    "run_expired cb ts s2 = Some s'" "timer_list s' zs" "backed s' zs" "fired s' = fired s2 @ callees s2 ts" by blast
  have "callees s2 ts = callees s ts" by (rule callees_cong) (simp add: keep)
  then have "fired s' = fired s @ callees s (t # ts)" using s'(4) s1(6) by (simp add: s2_def callees_def)
  moreover have "run_expired cb (t # ts) s = Some s'" using nd s1(1) free s'(1) by simp
  ultimately show ?case using s'(2,3) by blast
qed (auto simp: callees_def)

text \<open>
  A tick calls the callback of every expired timer that has one and a client exactly once, in
  order of expiry and no other, deletes each after its call, and leaves an ordered list, provided
  the callbacks themselves leave one and do not touch timers that are already taken off.
\<close>

theorem tick_calls_expired:
  assumes "timer_list s xs" "backed s xs" "callback_ok cb"
  shows "\<exists>s' ys. tick cb cur s = Some s' \<and> timer_list s' ys \<and>
    fired s' = fired s @ callees s (takeWhile (\<lambda>x. expire_at s x \<le> cur) xs)"
proof -
  have l: "linked s xs" and srt: "sorted (map (expire_at s) xs)" using assms by (simp_all add: timer_list_def)
  from pop_expired_linked [OF l, of cur] obtain s1 where s1:
    "pop_expired cur s = Some (due cur s xs, s1)" "linked s1 (not_due cur s xs)"
    "\<forall>x. map_option payload (nodes s1 x) = map_option payload (nodes s x)"
    "\<forall>t \<in> set (due cur s xs). detached s1 t" "fired s1 = fired s"
    "\<forall>c. timer_of s1 c = (if \<exists>t \<in> set (due cur s xs). \<exists>nd. nodes s t = Some nd \<and> user_data nd = Some c
       then None else timer_of s c)" by blast
  have pay: "expire_at s1 x = expire_at s x" "(\<exists>nd. nodes s1 x = Some nd \<and> user_data nd = Some c) \<longleftrightarrow>
      (\<exists>nd. nodes s x = Some nd \<and> user_data nd = Some c)" for x c
    using spec [OF s1(3), of x] by (cases "nodes s1 x"; cases "nodes s x"; auto simp: expire_at_def payload_def)+
  have "sorted (map (expire_at s) (not_due cur s xs))"
    using srt due_splits [of cur s xs] by (metis map_append sorted_append)
  moreover have "expire_at s1 = expire_at s" using pay(1) by blast
  ultimately have tl: "timer_list s1 (not_due cur s xs)" using s1(2) by (simp add: timer_list_def)
  have dist: "distinct (due cur s xs @ not_due cur s xs)" using l due_splits by (simp add: linked_def)
  have "backed s1 (not_due cur s xs)"
    unfolding backed_def
  proof (intro allI impI)
    fix c t
    assume "timer_of s1 c = Some t"
    then have c: "timer_of s c = Some t" "\<not> (\<exists>t \<in> set (due cur s xs). \<exists>nd. nodes s t = Some nd \<and> user_data nd = Some c)"
      using s1(6) by (auto split: if_splits)
    then have t: "t \<in> set xs" "\<exists>nd. nodes s t = Some nd \<and> user_data nd = Some c"
      using assms(2) by (auto simp: backed_def)
    then have "t \<notin> set (due cur s xs)" using c(2) by blast
    then have "t \<in> set (not_due cur s xs)" using t(1) due_splits [of cur s xs] by (metis Un_iff set_append)
    then show "t \<in> set (not_due cur s xs) \<and> (\<exists>nd. nodes s1 t = Some nd \<and> user_data nd = Some c)"
      using t(2) pay(2) by simp
  qed
  from run_expired_ok [OF assms(3) tl this _ _ s1(4)] dist obtain s' ys where s':
    "run_expired cb (due cur s xs) s1 = Some s'" "timer_list s' ys" "fired s' = fired s1 @ callees s1 (due cur s xs)"
    by auto
  have "callees s1 (due cur s xs) = callees s (due cur s xs)" by (rule callees_cong) (use s1(3) in blast)
  then show ?thesis using s' s1(1,5) by (auto simp: tick_def due_def)
qed

lemma free_all_linked:
  assumes "dll (nodes s) p xs None" "distinct xs"
  shows "\<exists>s'. free_all (first_of xs None) s = Some s' \<and> head s' = None \<and> tail s' = None \<and>
    nodes s' = nodes s |` (- set xs) \<and>
    (\<forall>x \<in> set xs. \<forall>c nd. nodes s x = Some nd \<longrightarrow> user_data nd = Some c \<longrightarrow> timer_of s' c = None) \<and>
    (\<forall>c. timer_of s c = None \<longrightarrow> timer_of s' c = None)"
  using assms
proof (induction xs arbitrary: s p)
  case Nil
  then show ?case by (subst free_all.simps) (simp add: restrict_map_def fun_eq_iff)
next
  case (Cons x xs)
  obtain nd where nd: "nodes s x = Some nd" "nxt nd = first_of xs None" "dll (nodes s) (Some x) xs None"
    using Cons.prems(1) by auto
  define s1 where "s1 = (forget nd s)\<lparr>nodes := (nodes s)(x := None)\<rparr>"
  have free: "free_node x (forget nd s) = Some s1" using nd(1) by (simp add: free_node_def s1_def)
  have "dll (nodes s1) (Some x) xs None" using nd(3) Cons.prems(2) by (simp add: s1_def dll_frame)
  from Cons.IH [OF this] Cons.prems(2) obtain s' where s':
    "free_all (first_of xs None) s1 = Some s'" "head s' = None" "tail s' = None"
    "nodes s' = nodes s1 |` (- set xs)"
    "\<forall>y \<in> set xs. \<forall>c nd. nodes s1 y = Some nd \<longrightarrow> user_data nd = Some c \<longrightarrow> timer_of s' c = None"
    "\<forall>c. timer_of s1 c = None \<longrightarrow> timer_of s' c = None" by auto
  have "free_all (first_of (x # xs) None) s = Some s'"
    using nd free s'(1) by (subst free_all.simps) simp
  moreover have "nodes s' = nodes s |` (- set (x # xs))"
    unfolding s'(4) by (auto simp: s1_def restrict_map_def)
  moreover have "timer_of s1 c = (if user_data nd = Some c then None else timer_of s c)" for c
    by (simp add: s1_def timer_of_forget)
  ultimately show ?case using s'(2,3,5,6) nd(1) by (auto simp: s1_def split: if_splits)
qed

text \<open>
  The destructor deletes every timer of the list and nothing else, and no client of one of
  them keeps a pointer to it.
\<close>

theorem destructor_frees_all:
  assumes "timer_list s xs"
  shows "\<exists>s'. destroy_timers s = Some s' \<and> nodes s' = nodes s |` (- set xs) \<and> timer_list s' [] \<and>
    (\<forall>x \<in> set xs. \<forall>c nd. nodes s x = Some nd \<longrightarrow> user_data nd = Some c \<longrightarrow> timer_of s' c = None)"
proof -
  have "dll (nodes s) None xs None" "distinct xs" "head s = first_of xs None"
    using assms by (auto simp: timer_list_def linked_def)
  then show ?thesis
    using free_all_linked [of s None xs] by (auto simp: destroy_timers_def timer_list_def linked_def)
qed

section \<open>A list of two timers, and a third one\<close>

definition demo_node :: "int \<Rightarrow> nat \<Rightarrow> nat option \<Rightarrow> nat option \<Rightarrow> timer_node" where
  "demo_node e c p n = \<lparr>expire = e, has_cb = True, user_data = Some c, prev = p, nxt = n\<rparr>"

definition demo_timers :: timers where
  "demo_timers = \<lparr>head = Some 1, tail = Some 3,
     nodes = [1 \<mapsto> demo_node 5 11 None (Some 3), 2 \<mapsto> demo_node 7 12 None None,
       3 \<mapsto> demo_node 9 13 (Some 1) None],
     timer_of = (\<lambda>_. None)(11 := Some 1, 13 := Some 3), fired = []\<rparr>"

lemma demo_timers_ok: "timer_list demo_timers [1, 3]" "backed demo_timers [1, 3]" "detached demo_timers 2"
  by (auto simp: timer_list_def linked_def backed_def detached_def demo_timers_def demo_node_def expire_at_def
      first_of_def last_of_def split: if_splits)

lemma demo_expire: "expire_at demo_timers 1 = 5" "expire_at demo_timers 2 = 7" "expire_at demo_timers 3 = 9"
  "expire_at demo_timers (Suc 0) = 5"
  by (simp_all add: expire_at_def demo_timers_def demo_node_def)

text \<open>The usual callback: it deletes its client's timer.\<close>

definition delete_own :: "nat \<Rightarrow> timers \<Rightarrow> timers option" where
  "delete_own c s = del_timer (timer_of s c) s"

lemma delete_own_ok: "callback_ok delete_own"
  unfolding callback_ok_def
proof (intro allI impI)
  fix c s xs ds
  assume asm: "timer_list s xs \<and> backed s xs \<and> (\<forall>d \<in> ds. detached s d) \<and> ds \<inter> set xs = {}"
  then have l: "linked s xs" and srt: "sorted (map (expire_at s) xs)" by (simp_all add: timer_list_def)
  show "\<exists>s' xs'. delete_own c s = Some s' \<and> timer_list s' xs' \<and> backed s' xs' \<and> ds \<inter> set xs' = {} \<and>
      (\<forall>d \<in> ds. nodes s' d = nodes s d) \<and> fired s' = fired s"
  proof (cases "timer_of s c")
    case None
    then show ?thesis using asm by (auto simp: delete_own_def del_timer_def)
  next
    case (Some t)
    then have t: "t \<in> set xs" "\<exists>nd. nodes s t = Some nd \<and> user_data nd = Some c"
      using asm by (auto simp: backed_def)
    obtain s' nd where s': "del_timer (Some t) s = Some s'" "linked s' (remove1 t xs)" "nodes s t = Some nd"
      "\<forall>x. x \<noteq> t \<longrightarrow> map_option payload (nodes s' x) = map_option payload (nodes s x)"
      "\<forall>x. x \<notin> set xs \<longrightarrow> nodes s' x = nodes s x" "fired s' = fired s"
      "\<forall>c. timer_of s' c = (if user_data nd = Some c then None else timer_of s c)"
      using del_timer_linked [OF l t(1)] by blast
    have dist: "distinct xs" "t \<notin> set (remove1 t xs)" using l by (auto simp: linked_def)
    have same: "expire_at s' x = expire_at s x" "(\<exists>nd. nodes s' x = Some nd \<and> user_data nd = Some b) \<longleftrightarrow>
        (\<exists>nd. nodes s x = Some nd \<and> user_data nd = Some b)" if "x \<noteq> t" for x b
      using s'(4) that by (cases "nodes s' x"; cases "nodes s x"; auto simp: expire_at_def payload_def)+
    have "map (expire_at s') (remove1 t xs) = map (expire_at s) (remove1 t xs)"
      using same(1) dist(2) by (metis map_cong)
    then have "timer_list s' (remove1 t xs)"
      using s'(2) srt by (metis sorted_remove1_map timer_list_def)
    moreover have "backed s' (remove1 t xs)"
      unfolding backed_def
    proof (intro allI impI)
      fix b x
      assume "timer_of s' b = Some x"
      then have x: "timer_of s b = Some x" "user_data nd \<noteq> Some b" using s'(7) by (auto split: if_splits)
      then have xs: "x \<in> set xs" "\<exists>nd. nodes s x = Some nd \<and> user_data nd = Some b"
        using asm by (auto simp: backed_def)
      then have "x \<noteq> t" using x(2) s'(3) by auto
      then show "x \<in> set (remove1 t xs) \<and> (\<exists>nd. nodes s' x = Some nd \<and> user_data nd = Some b)"
        using xs same(2) by simp
    qed
    moreover have "\<forall>d \<in> ds. nodes s' d = nodes s d" using asm s'(5) by blast
    moreover have "ds \<inter> set (remove1 t xs) = {}" using asm set_remove1_subset [of t xs] by blast
    ultimately show ?thesis using s'(1,6) Some by (auto simp: delete_own_def)
  qed
qed

theorem add_timer_keeps_order_witness:
  "\<exists>s'. add_timer (Some 2) demo_timers = Some s' \<and> timer_list s' [1, 2, 3]"
  using add_timer_keeps_order [OF demo_timers_ok(1,3)] by (auto simp: demo_expire)

theorem del_timer_removes_witness:
  "\<exists>s'. del_timer (Some 1) demo_timers = Some s' \<and> timer_list s' [3] \<and> nodes s' 1 = None \<and> timer_of s' 11 = None"
  using del_timer_removes [OF demo_timers_ok(1), of 1] by (auto simp: demo_timers_def demo_node_def)

definition retimed :: timers where
  "retimed = demo_timers\<lparr>nodes := (nodes demo_timers)(1 \<mapsto> demo_node 12 11 None (Some 3))\<rparr>"

lemma retimed_linked: "linked retimed [1, 3]" "expire_at retimed 1 = 12" "expire_at retimed 3 = 9"
  by (simp_all add: retimed_def linked_def demo_timers_def demo_node_def expire_at_def)

theorem adjust_timer_reorders_witness:
  "\<exists>s' ys. adjust_timer (Some 1) retimed = Some s' \<and> timer_list s' ys \<and> mset ys = {#1, 3#}"
  using adjust_timer_reorders [OF retimed_linked(1), of 1] by auto

theorem tick_takes_expired_witness:
  "\<exists>ts rest s'. pop_expired 6 demo_timers = Some (ts, s') \<and> ts @ rest = [1, 3] \<and> timer_list s' rest \<and>
     (\<forall>t \<in> set ts. expire_at demo_timers t \<le> 6) \<and> (\<forall>t \<in> set rest. 6 < expire_at demo_timers t)"
  using tick_takes_expired [OF demo_timers_ok(1), of 6] by blast

theorem tick_calls_expired_witness:
  "\<exists>s' ys. tick delete_own 6 demo_timers = Some s' \<and> timer_list s' ys \<and> fired s' = [11]"
proof -
  have "callees demo_timers [1] = [11]" by (simp add: callees_def demo_timers_def demo_node_def)
  moreover have "takeWhile (\<lambda>x. expire_at demo_timers x \<le> 6) [1, 3] = [1]" by (simp add: demo_expire)
  moreover have "fired demo_timers = []" by (simp add: demo_timers_def)
  ultimately show ?thesis using tick_calls_expired [OF demo_timers_ok(1,2) delete_own_ok, of 6] by simp
qed

theorem destructor_frees_all_witness:
  "\<exists>s'. destroy_timers demo_timers = Some s' \<and> nodes s' 1 = None \<and> nodes s' 2 \<noteq> None \<and> timer_list s' []"
  using destructor_frees_all [OF demo_timers_ok(1)] by (auto simp: demo_timers_def)

section \<open>Behaviour to know about\<close>

text \<open>Deleting a timer twice uses the freed node, although the list itself would not be harmed.\<close>

lemma second_delete_uses_freed_node:
  assumes "timer_list s xs" "t \<in> set xs" "del_timer (Some t) s = Some s'"
  shows "del_timer (Some t) s' = None"
proof -
  have "nodes s' t = None"
    using del_timer_linked [of s xs t] assms by (auto simp: timer_list_def)
  then show ?thesis by (simp add: del_timer_def unlink_def)
qed

text \<open>
  A callback that deletes its own timer by a pointer it has kept frees the node that \<^verbatim>\<open>tick\<close> deletes
  after the call.
\<close>

lemma callback_deleting_its_node:
  assumes "nodes s t = Some nd" "detached s t" "has_cb nd" "user_data nd = Some c"
  shows "run_expired (\<lambda>_ s. del_timer (Some t) s) (t # ts) s = None"
proof -
  define s1 where "s1 = s\<lparr>fired := fired s @ [c]\<rparr>"
  have gone: "nodes s2 t = None" if "del_timer (Some t) s1 = Some s2" for s2
    using that by (auto simp: del_timer_def free_node_def split: Option.bind_splits if_splits)
  then show ?thesis
    using assms(1,3,4) by (cases "del_timer (Some t) s1") (simp_all add: s1_def free_node_def)
qed

end
