(* ===== verification/Timer_Clients.thy ===== *)
theory Timer_Clients
  imports Timer_List
begin

text \<open>
  The list of timers as its client \<^verbatim>\<open>timer/main.cpp\<close> uses it, with the helper \<^verbatim>\<open>add_timer\<close> of that
  file: every timer has a callback and a client that points back to it. Seen from outside such a list
  is a map from the live timers to the times they are due, and every operation does to the map what
  its name says.
\<close>

section \<open>The helper of the client\<close>

text \<open>
  It allocates the client data and the node, points each to the other and hands the node over. Client
  and node number \<open>t\<close> go together.
\<close>

definition client_node :: "nat \<Rightarrow> int \<Rightarrow> timer_node" where
  "client_node t e = TimerNode\<lparr>expire := e, has_cb := True, user_data := Some t\<rparr>"

definition client_add_timer :: "nat \<Rightarrow> int \<Rightarrow> timers \<Rightarrow> timers option" where
  "client_add_timer t e s =
     add_timer (Some t) (s\<lparr>nodes := (nodes s)(t \<mapsto> client_node t e), timer_of := (timer_of s)(t := Some t)\<rparr>)"

definition no_timers :: timers where
  "no_timers = TimerListMgr \<lparr>head = None, tail = None, nodes = Map.empty, timer_of = (\<lambda>c. None), fired = []\<rparr>"

section \<open>The map behind the list\<close>

text \<open>Exactly the timers of the map are allocated, all of them are in the list, and no client points elsewhere.\<close>

definition holds_timers :: "timers \<Rightarrow> nat list \<Rightarrow> (nat \<rightharpoonup> int) \<Rightarrow> bool" where
  "holds_timers s xs m \<longleftrightarrow> timer_list s xs \<and> set xs = dom m \<and>
     (\<forall>t. map_option payload (nodes s t) = map_option (\<lambda>e. (e, True, Some t)) (m t)) \<and>
     (\<forall>c. timer_of s c = (if m c = None then None else Some c))"

lemma holds_node:
  assumes "holds_timers s xs m" "m t = Some e"
  shows "t \<in> set xs" "expire_at s t = e" "timer_of s t = Some t" "callees s [t] = [t]"
    "\<exists>nd. nodes s t = Some nd \<and> expire nd = e \<and> has_cb nd \<and> user_data nd = Some t"
proof -
  have "map_option payload (nodes s t) = Some (e, True, Some t)" using assms by (simp add: holds_timers_def)
  then obtain nd where nd: "nodes s t = Some nd" "expire nd = e" "has_cb nd" "user_data nd = Some t"
    by (auto simp: payload_def)
  then show "\<exists>nd. nodes s t = Some nd \<and> expire nd = e \<and> has_cb nd \<and> user_data nd = Some t" by blast
  show "expire_at s t = e" using nd by (simp add: expire_at_def)
  show "callees s [t] = [t]" using nd by (simp add: callees_def)
  show "t \<in> set xs" "timer_of s t = Some t" using assms by (auto simp: holds_timers_def)
qed

lemma holds_no_node:
  assumes "holds_timers s xs m" "m t = None"
  shows "t \<notin> set xs" "nodes s t = None" "timer_of s t = None"
proof -
  have "map_option payload (nodes s t) = None" using assms by (simp add: holds_timers_def)
  then show "nodes s t = None" by simp
qed (use assms in \<open>auto simp: holds_timers_def\<close>)

lemma nothing_held: "holds_timers no_timers [] Map.empty"
  by (simp add: holds_timers_def timer_list_def linked_def no_timers_def TimerListMgr_def)

lemma holds_callees:
  assumes "holds_timers s xs m"
  shows "set ts \<subseteq> dom m \<Longrightarrow> callees s ts = ts"
proof (induction ts)
  case (Cons t ts)
  then obtain e where "m t = Some e" by auto
  then have "callees s [t] = [t]" using holds_node(4) [OF assms] by blast
  then show ?case using Cons by (simp add: callees_def)
qed (simp add: callees_def)

section \<open>The operations on the map\<close>

lemma add_timer_holds:
  assumes h: "holds_timers s xs m" and new: "m t = None"
  shows "\<exists>s' ys. client_add_timer t e s = Some s' \<and> holds_timers s' ys (m(t \<mapsto> e)) \<and> fired s' = fired s"
proof -
  have tl: "timer_list s xs" and xs: "set xs = dom m" using h by (auto simp: holds_timers_def)
  have t: "t \<notin> set xs" using xs new by auto
  define s1 where "s1 = s\<lparr>nodes := (nodes s)(t \<mapsto> client_node t e), timer_of := (timer_of s)(t := Some t)\<rparr>"
  have "linked s1 xs" by (rule linked_cong [of s]) (use tl t in \<open>auto simp: timer_list_def s1_def\<close>)
  moreover have "map (expire_at s1) xs = map (expire_at s) xs"
    using t by (auto simp: s1_def intro!: expire_at_cong)
  then have srt: "sorted (map (expire_at s1) xs)" using tl by (simp only: timer_list_def)
  moreover have "detached s1 t" by (simp add: detached_def s1_def client_node_def TimerNode_def)
  ultimately obtain s' where s': "insert_timer t s1 = Some s'" "linked s' (placed s1 t xs)"
    "relinked (insert t (set xs)) s1 s'" using insert_timer_linked t by blast
  have "timer_list s' (placed s1 t xs)"
    using s'(2) sorted_placed [OF srt] relinked_expire [OF s'(3)] by (simp add: timer_list_def)
  moreover have "map_option payload (nodes s' x) = map_option (\<lambda>e. (e, True, Some x)) ((m(t \<mapsto> e)) x)" for x
  proof -
    have "map_option payload (nodes s' x) = map_option payload (nodes s1 x)" using s'(3) by (simp add: relinked_def)
    moreover have "map_option payload (nodes s x) = map_option (\<lambda>e. (e, True, Some x)) (m x)"
      using h by (simp add: holds_timers_def)
    ultimately show ?thesis by (auto simp: s1_def client_node_def TimerNode_def payload_def)
  qed
  moreover have "timer_of s' c = (if (m(t \<mapsto> e)) c = None then None else Some c)" for c
    using s'(3) h by (simp add: relinked_def s1_def holds_timers_def)
  ultimately have "holds_timers s' (placed s1 t xs) (m(t \<mapsto> e))"
    using xs by (simp add: holds_timers_def set_placed)
  moreover have "fired s' = fired s" using s'(3) by (simp add: relinked_def s1_def)
  moreover have "client_add_timer t e s = Some s'"
    using s'(1) by (simp add: client_add_timer_def add_timer_def s1_def)
  ultimately show ?thesis by blast
qed

lemma del_timer_holds:
  assumes h: "holds_timers s xs m" and t: "m t = Some e"
  shows "\<exists>s'. del_timer (Some t) s = Some s' \<and> holds_timers s' (remove1 t xs) (m(t := None)) \<and> fired s' = fired s"
proof -
  have tl: "timer_list s xs" and xs: "set xs = dom m" using h by (auto simp: holds_timers_def)
  have l: "linked s xs" using tl by (simp add: timer_list_def)
  obtain s' nd where s': "del_timer (Some t) s = Some s'" "linked s' (remove1 t xs)" "nodes s' t = None"
    "nodes s t = Some nd" "\<forall>x. x \<noteq> t \<longrightarrow> map_option payload (nodes s' x) = map_option payload (nodes s x)"
    "fired s' = fired s" "\<forall>d. timer_of s' d = (if user_data nd = Some d then None else timer_of s d)"
    using del_timer_linked [OF l holds_node(1) [OF h t]] by blast
  have nd: "user_data nd = Some t" using holds_node(5) [OF h t] s'(4) by auto
  have rem: "set (remove1 t xs) = set xs - {t}" using l by (simp add: linked_def)
  have "expire_at s' x = expire_at s x" if "x \<in> set (remove1 t xs)" for x
    using s'(5) that rem by (intro expire_at_payload) blast
  then have "map (expire_at s') (remove1 t xs) = map (expire_at s) (remove1 t xs)" by (rule map_cong [OF refl])
  then have "timer_list s' (remove1 t xs)" using tl s'(2) by (metis sorted_remove1_map timer_list_def)
  moreover have "map_option payload (nodes s' x) = map_option (\<lambda>e. (e, True, Some x)) ((m(t := None)) x)" for x
    using s'(3,5) h by (simp add: holds_timers_def)
  moreover have "timer_of s' c = (if (m(t := None)) c = None then None else Some c)" for c
    using s'(7) nd h by (simp add: holds_timers_def)
  moreover have "set (remove1 t xs) = dom (m(t := None))" using rem xs by auto
  ultimately have "holds_timers s' (remove1 t xs) (m(t := None))" unfolding holds_timers_def by blast
  then show ?thesis using s'(1,6) by blast
qed

lemma due_set:
  assumes "sorted (map (expire_at s) xs)"
  shows "set (due now s xs) = {t \<in> set xs. expire_at s t \<le> now}"
    and "set (not_due now s xs) = {t \<in> set xs. now < expire_at s t}"
proof -
  have parts: "A = B \<union> C \<Longrightarrow> \<forall>x \<in> B. expire_at s x \<le> now \<Longrightarrow> \<forall>x \<in> C. now < expire_at s x \<Longrightarrow>
      B = {x \<in> A. expire_at s x \<le> now} \<and> C = {x \<in> A. now < expire_at s x}" for A B C by force
  have "set xs = set (due now s xs) \<union> set (not_due now s xs)" by (metis due_splits set_append)
  moreover have "\<forall>t \<in> set (due now s xs). expire_at s t \<le> now" by (auto simp: due_def dest: set_takeWhileD)
  moreover have "\<forall>t \<in> set (not_due now s xs). now < expire_at s t" using not_due_later [OF assms] by blast
  ultimately show "set (due now s xs) = {t \<in> set xs. expire_at s t \<le> now}"
    "set (not_due now s xs) = {t \<in> set xs. now < expire_at s t}" using parts by blast+
qed

lemma run_expired_quiet:
  assumes "distinct ts" "\<forall>t \<in> set ts. nodes s t \<noteq> None"
  shows "run_expired (\<lambda>c s. Some s) ts s =
    Some (s\<lparr>nodes := (nodes s) |` (- set ts), fired := fired s @ callees s ts\<rparr>)"
  using assms
proof (induction ts arbitrary: s)
  case (Cons t ts)
  obtain nd where nd: "nodes s t = Some nd" using Cons.prems by auto
  define c where "c = callees s [t]"
  define s1 where "s1 = s\<lparr>fired := fired s @ c, nodes := (nodes s)(t := None)\<rparr>"
  have "run_expired (\<lambda>c s. Some s) (t # ts) s = run_expired (\<lambda>c s. Some s) ts s1"
    using nd by (cases "user_data nd") (auto simp: s1_def free_node_def c_def callees_def)
  moreover have "run_expired (\<lambda>c s. Some s) ts s1 =
      Some (s1\<lparr>nodes := (nodes s1) |` (- set ts), fired := fired s1 @ callees s1 ts\<rparr>)"
    using Cons.prems by (intro Cons.IH) (auto simp: s1_def)
  moreover have "callees s1 ts = callees s ts"
    using Cons.prems(1) by (intro callees_cong) (auto simp: s1_def)
  moreover have "callees s (t # ts) = c @ callees s ts" by (simp add: c_def callees_def)
  moreover have "(nodes s1) |` (- set ts) = (nodes s) |` (- set (t # ts))"
    by (auto simp: s1_def restrict_map_def)
  ultimately show ?case by (simp add: s1_def)
qed (simp add: callees_def restrict_map_def)

definition later :: "int \<Rightarrow> (nat \<rightharpoonup> int) \<Rightarrow> (nat \<rightharpoonup> int)" where
  "later now m = (\<lambda>t. case m t of None \<Rightarrow> None | Some e \<Rightarrow> if e \<le> now then None else Some e)"

text \<open>A tick calls the timers that are due, in the order of their times, and keeps the others.\<close>

lemma tick_holds:
  assumes h: "holds_timers s xs m"
  shows "\<exists>s' ts. tick (\<lambda>c s. Some s) now s = Some s' \<and> holds_timers s' (not_due now s xs) (later now m) \<and>
    fired s' = fired s @ ts \<and> distinct ts \<and> set ts = dom m - dom (later now m) \<and>
    sorted (map (\<lambda>t. the (m t)) ts)"
proof -
  have tl: "timer_list s xs" and xs: "set xs = dom m" using h by (auto simp: holds_timers_def)
  have l: "linked s xs" and srt: "sorted (map (expire_at s) xs)" using tl by (simp_all add: timer_list_def)
  have exp: "expire_at s t = e" if "m t = Some e" for t e using holds_node(2) [OF h that] .
  define ds where "ds = due now s xs"
  have split: "ds @ not_due now s xs = xs" by (simp add: ds_def due_splits)
  have ds: "set ds = dom m - dom (later now m)"
    using due_set(1) [OF srt, of now] xs exp by (auto simp: ds_def later_def split: option.splits if_splits)
  have rest: "set (not_due now s xs) = dom (later now m)"
    using due_set(2) [OF srt, of now] xs exp by (auto simp: later_def split: option.splits if_splits)
  have dist: "distinct ds" using l split unfolding linked_def by (metis distinct_append)
  have order: "sorted (map (expire_at s) ds)" "sorted (map (expire_at s) (not_due now s xs))"
    using srt split by (metis map_append sorted_append)+
  obtain s1 where s1: "pop_expired now s = Some (ds, s1)" "linked s1 (not_due now s xs)"
    "\<forall>x. map_option payload (nodes s1 x) = map_option payload (nodes s x)" "fired s1 = fired s"
    "\<forall>c. timer_of s1 c = (if \<exists>t \<in> set ds. \<exists>nd. nodes s t = Some nd \<and> user_data nd = Some c then None else timer_of s c)"
    using pop_expired_linked [OF l, of now] unfolding ds_def by blast
  have "nodes s1 t \<noteq> None" if "t \<in> set ds" for t
    using spec [OF s1(3), of t] holds_node(5) [OF h, of t] that ds by fastforce
  then have run: "run_expired (\<lambda>c s. Some s) ds s1 =
      Some (s1\<lparr>nodes := (nodes s1) |` (- set ds), fired := fired s1 @ callees s1 ds\<rparr>)"
    using run_expired_quiet dist by blast
  define s' where "s' = s1\<lparr>nodes := (nodes s1) |` (- set ds), fired := fired s1 @ callees s1 ds\<rparr>"
  have tick: "tick (\<lambda>c s. Some s) now s = Some s'" using s1(1) run by (simp add: tick_def s'_def)
  have "callees s1 ds = callees s ds" by (rule callees_cong) (use s1(3) in blast)
  moreover have "callees s ds = ds" using ds by (intro holds_callees [OF h]) blast
  ultimately have fired: "fired s' = fired s @ ds" using s1(4) by (simp add: s'_def)
  have "\<exists>nd. nodes s t = Some nd \<and> user_data nd = Some t" if "t \<in> set ds" for t
  proof -
    obtain e where "m t = Some e" using ds \<open>t \<in> set ds\<close> by auto
    then show ?thesis using holds_node(5) [OF h] by blast
  qed
  then have "(\<exists>t \<in> set ds. \<exists>nd. nodes s t = Some nd \<and> user_data nd = Some c) \<longleftrightarrow> c \<in> set ds" for c
    by force
  then have timer: "timer_of s' c = (if later now m c = None then None else Some c)" for c
    using s1(5) ds h by (auto simp: s'_def holds_timers_def later_def)
  have pay: "map_option payload (nodes s' t) = map_option (\<lambda>e. (e, True, Some t)) (later now m t)" for t
  proof (cases "t \<in> set ds")
    case True
    then show ?thesis using ds by (auto simp: s'_def)
  next
    case False
    then have "later now m t = m t" using ds by (auto simp: later_def split: option.splits if_splits)
    then show ?thesis using False s1(3) h by (simp add: s'_def holds_timers_def)
  qed
  have "expire_at s' t = expire_at s t" if "t \<in> set (not_due now s xs)" for t
  proof (rule expire_at_payload)
    have "t \<notin> set ds" using that rest ds by auto
    then show "map_option payload (nodes s' t) = map_option payload (nodes s t)" using s1(3) by (simp add: s'_def)
  qed
  then have "map (expire_at s') (not_due now s xs) = map (expire_at s) (not_due now s xs)" by simp
  then have "sorted (map (expire_at s') (not_due now s xs))" using order(2) by (simp only:)
  moreover have "linked s' (not_due now s xs)"
    by (rule linked_cong [OF s1(2)]) (use ds rest in \<open>auto simp: s'_def\<close>)
  ultimately have "holds_timers s' (not_due now s xs) (later now m)"
    using rest pay timer by (simp add: holds_timers_def timer_list_def)
  moreover have "map (expire_at s) ds = map (\<lambda>t. the (m t)) ds" using ds exp by fastforce
  then have "sorted (map (\<lambda>t. the (m t)) ds)" using order(1) by (simp only:)
  ultimately show ?thesis using tick fired dist ds by blast
qed

text \<open>The client gives a timer another time and has the list put it in its place.\<close>

definition set_expire :: "int \<Rightarrow> timer_node \<Rightarrow> timer_node" where
  "set_expire e nd = nd\<lparr>expire := e\<rparr>"

lemma adjust_timer_holds:
  assumes h: "holds_timers s xs m" and t: "m t = Some e0"
  shows "\<exists>s' ys. Option.bind (update_node t (set_expire e) s) (adjust_timer (Some t)) = Some s' \<and>
    holds_timers s' ys (m(t \<mapsto> e)) \<and> fired s' = fired s"
proof -
  have tl: "timer_list s xs" and xs: "set xs = dom m" using h by (auto simp: holds_timers_def)
  have l: "linked s xs" and srt: "sorted (map (expire_at s) xs)" using tl by (simp_all add: timer_list_def)
  have tx: "t \<in> set xs" using holds_node(1) [OF h t] .
  obtain nd where nd: "nodes s t = Some nd" "has_cb nd" "user_data nd = Some t" using holds_node(5) [OF h t] by blast
  define s1 where "s1 = s\<lparr>nodes := (nodes s)(t \<mapsto> set_expire e nd)\<rparr>"
  have up: "update_node t (set_expire e) s = Some s1" using nd(1) by (simp add: update_node_Some s1_def)
  have "dll h p xs q \<Longrightarrow> h t = Some nd \<Longrightarrow> dll (h(t \<mapsto> set_expire e nd)) p xs q" for h p xs q
    by (induction xs arbitrary: p) (auto simp: set_expire_def)
  then have l1: "linked s1 xs" using l nd(1) by (simp add: linked_def s1_def)
  have "expire_at s1 x = expire_at s x" if "x \<in> set (remove1 t xs)" for x
    using that l by (auto simp: s1_def expire_at_def linked_def)
  then have "map (expire_at s1) (remove1 t xs) = map (expire_at s) (remove1 t xs)" by simp
  then have "sorted (map (expire_at s1) (remove1 t xs))" using srt by (metis sorted_remove1_map)
  from adjust_timer_reorders [OF l1 tx this] obtain s' ys where
    s': "adjust_timer (Some t) s1 = Some s'" "timer_list s' ys" "mset ys = mset xs"
    "\<forall>x. map_option payload (nodes s' x) = map_option payload (nodes s1 x)" "timer_of s' = timer_of s1" "fired s' = fired s1"
    by blast
  have "map_option payload (nodes s' x) = map_option (\<lambda>e. (e, True, Some x)) ((m(t \<mapsto> e)) x)" for x
    using s'(4) nd h by (simp add: s1_def holds_timers_def payload_def set_expire_def)
  moreover have "timer_of s' c = (if (m(t \<mapsto> e)) c = None then None else Some c)" for c
    using s'(5) h t by (simp add: s1_def holds_timers_def)
  moreover have "set ys = dom (m(t \<mapsto> e))" using xs t mset_eq_setD [OF s'(3)] by auto
  ultimately have "holds_timers s' ys (m(t \<mapsto> e))" using s'(2) by (simp add: holds_timers_def)
  then show ?thesis using up s'(1,6) by (auto simp: s1_def)
qed

end
