(* ===== verification/Timer_Agreement.thy ===== *)
theory Timer_Agreement
  imports Timer_Clients Timer_Queue
begin

text \<open>
  The repository has two timer implementations that do not share code: the sorted list of
  \<^verbatim>\<open>timer/timer.cc\<close> and the heap of \<^verbatim>\<open>TimerQueue.cpp\<close>. Here both are driven by the same client
  calls, the way \<^verbatim>\<open>timer/main.cpp\<close> drives the list, and shown to call the same timers back.
  Time stamps have the same unit on both sides, and all timers are one-shot, as the list has no
  others.
\<close>

section \<open>Driving both\<close>

text \<open>
  A call of the client: a new timer that is due at a time, with the queue's reading of the clock;
  giving up a timer; and the time's passing, with the readings at the start and the end.
\<close>

datatype timer_op = New_Timer int int | Give_Up nat | Pass int int

fun list_op :: "timer_op \<Rightarrow> nat \<Rightarrow> Timer_List.timers \<Rightarrow> Timer_List.timers option" where
  "list_op (New_Timer clk e) t s = client_add_timer t e s"
| "list_op (Give_Up c) t s = del_timer (timer_of s c) s"
| "list_op (Pass now clk) t s = tick (\<lambda>c s. Some s) now s"

fun queue_op :: "timer_op \<Rightarrow> timer_queue \<Rightarrow> timer_queue option" where
  "queue_op (New_Timer clk e) q = addTimer clk (Timer e 0 False) q"
| "queue_op (Give_Up c) q = Some (cancel c q)"
| "queue_op (Pass now clk) q = handleTimers (\<lambda>t. []) now clk q"

text \<open>What a client sees of a step: whose callbacks were called, and when they were due.\<close>

definition list_seen :: "Timer_List.timers \<Rightarrow> Timer_List.timers \<Rightarrow> nat list \<times> int list" where
  "list_seen s s' = (let ts = drop (length (fired s)) (fired s') in (ts, map (expire_at s) ts))"

definition queue_seen :: "timer_queue \<Rightarrow> timer_queue \<Rightarrow> nat list \<times> int list" where
  "queue_seen q q' = (let ts = drop (length (runs q)) (runs q') in (ts, map (key q) ts))"

fun list_run :: "timer_op list \<Rightarrow> nat \<Rightarrow> Timer_List.timers \<Rightarrow> (nat list \<times> int list) list option" where
  "list_run [] t s = Some []"
| "list_run (i # is) t s = do {
     s' \<leftarrow> list_op i t s;
     seen \<leftarrow> list_run is (case i of New_Timer _ _ \<Rightarrow> t + 1 | _ \<Rightarrow> t) s';
     Some (list_seen s s' # seen)
   }"

fun queue_run :: "timer_op list \<Rightarrow> timer_queue \<Rightarrow> (nat list \<times> int list) list option" where
  "queue_run [] q = Some []"
| "queue_run (i # is) q = do {
     q' \<leftarrow> queue_op i q;
     seen \<leftarrow> queue_run is q';
     Some (queue_seen q q' # seen)
   }"

text \<open>The same timers are called, each as often, and the times they were due come in the same order.\<close>

definition same_seen :: "nat list \<times> int list \<Rightarrow> nat list \<times> int list \<Rightarrow> bool" where
  "same_seen a b \<longleftrightarrow> mset (fst a) = mset (fst b) \<and> snd a = snd b"

fun op_after_epoch :: "timer_op \<Rightarrow> bool" where
  "op_after_epoch (Pass now clk) = (0 \<le> now)"
| "op_after_epoch _ = True"

section \<open>The simulation\<close>

text \<open>
  Node \<open>t\<close> of the list stands for the one-shot timer \<open>t\<close> of the queue: the list holds the times of
  the active timers.
\<close>

definition due_times :: "timer_queue \<Rightarrow> nat \<rightharpoonup> int" where
  "due_times q = (\<lambda>t. if t \<in> activeTimers q then Some (key q t) else None)"

definition one_shot :: "timer_queue \<Rightarrow> nat \<Rightarrow> bool" where
  "one_shot q t \<longleftrightarrow> (\<exists>tm. store q t = Some tm \<and> \<not> repeats tm)"

definition agree :: "Timer_List.timers \<Rightarrow> nat list \<Rightarrow> timer_queue \<Rightarrow> bool" where
  "agree s xs q \<longleftrightarrow> holds_timers s xs (due_times q) \<and> queue_ok q \<and> (\<forall>t \<in> activeTimers q. one_shot q t)"

lemma dom_due_times [simp]: "dom (due_times q) = activeTimers q"
  by (auto simp: due_times_def split: if_splits)

lemma key_same_timer: "store q' t = store q t \<Longrightarrow> key q' t = key q t"
  by (simp add: key_def)

lemma one_shot_cong: "store q' t = store q t \<Longrightarrow> one_shot q' t = one_shot q t"
  by (simp add: one_shot_def)

lemma new_timer_agrees:
  assumes a: "agree s xs q"
  defines "t \<equiv> numCreated q + 1"
  shows "\<exists>s' ys q'. client_add_timer t e s = Some s' \<and> addTimer clk (Timer e 0 False) q = Some q' \<and>
    agree s' ys q' \<and> numCreated q' = t \<and> fired s' = fired s \<and> runs q' = runs q"
proof -
  have ok: "queue_ok q" and h: "holds_timers s xs (due_times q)" and shots: "\<forall>t \<in> activeTimers q. one_shot q t"
    using a by (auto simp: agree_def)
  obtain q' where q': "addTimer clk (Timer e 0 False) q = Some q'" "queue_ok q'"
    "activeTimers q' = insert t (activeTimers q)" "store q' = (store q)(t \<mapsto> Timer e 0 False)"
    "runs q' = runs q" "numCreated q' = t"
    using addTimer_ok [OF ok, of clk "Timer e 0 False" 0] unfolding t_def by blast
  have "x \<le> numCreated q" if "x \<in> activeTimers q" for x using ok that unfolding queue_ok_def by blast
  then have t: "t \<notin> activeTimers q" unfolding t_def by fastforce
  then have "due_times q t = None" by (simp add: due_times_def)
  from add_timer_holds [OF h this, of e] obtain s' ys where
    s': "client_add_timer t e s = Some s'" "holds_timers s' ys ((due_times q)(t \<mapsto> e))" "fired s' = fired s" by blast
  have "(due_times q)(t \<mapsto> e) = due_times q'"
    using q'(3,4) by (auto simp: due_times_def key_def Timer_def)
  moreover have "\<forall>x \<in> activeTimers q'. one_shot q' x"
    using shots q'(3,4) by (auto simp: one_shot_def Timer_def)
  ultimately have "agree s' ys q'" using s'(2) q'(2) by (simp add: agree_def)
  then show ?thesis using s'(1,3) q'(1,5,6) by blast
qed

lemma give_up_agrees:
  assumes a: "agree s xs q"
  shows "\<exists>s' ys. del_timer (timer_of s c) s = Some s' \<and> agree s' ys (cancel c q) \<and> fired s' = fired s"
proof -
  have ok: "queue_ok q" and h: "holds_timers s xs (due_times q)" and shots: "\<forall>t \<in> activeTimers q. one_shot q t"
    using a by (auto simp: agree_def)
  show ?thesis
  proof (cases "c \<in> activeTimers q")
    case False
    then have "due_times q c = None" by (simp add: due_times_def)
    then have "timer_of s c = None" "cancel c q = q"
      using holds_no_node(3) [OF h] False by (auto simp: cancel_def)
    then show ?thesis using a by (auto simp: del_timer_def)
  next
    case True
    then have m: "due_times q c = Some (key q c)" by (simp add: due_times_def)
    from del_timer_holds [OF h this] obtain s' where
      s': "del_timer (Some c) s = Some s'" "holds_timers s' (remove1 c xs) ((due_times q)(c := None))" "fired s' = fired s"
      by blast
    have same: "store (cancel c q) x = store q x" if "x \<noteq> c" for x using cancel_ok(3) [OF ok, of c] that by simp
    have active: "activeTimers (cancel c q) = activeTimers q - {c}" using cancel_ok(2) [OF ok] .
    have "(due_times q)(c := None) = due_times (cancel c q)"
      using key_same_timer [OF same] by (auto simp: due_times_def active)
    moreover have "\<forall>x \<in> activeTimers (cancel c q). one_shot (cancel c q) x"
      using shots one_shot_cong [OF same] by (simp add: active)
    ultimately have "agree s' (remove1 c xs) (cancel c q)"
      using s'(2) cancel_ok(1) [OF ok, of c] by (simp add: agree_def)
    then show ?thesis using s'(1,3) holds_node(3) [OF h m] by auto
  qed
qed

text \<open>What the lists and the heap hand out differs at most in the order of equal expiries.\<close>

lemma same_order_up_to_ties:
  assumes "set ts = set es" "distinct ts" "distinct es" "sorted (map f ts)" "sorted (map f es)"
  shows "mset ts = mset es \<and> map f ts = map f es"
proof -
  have m: "mset ts = mset es" using assms(1-3) by (simp add: set_eq_iff_mset_eq_distinct)
  then have "mset (map f ts) = mset (map f es)" by simp
  then show ?thesis using m assms(4,5) by (metis sorted_list_of_multiset_mset sorted_sort_id)
qed

lemma pass_agrees:
  assumes a: "agree s xs q" and now: "0 \<le> now"
  shows "\<exists>s' ys q' ts es. tick (\<lambda>c s. Some s) now s = Some s' \<and> handleTimers (\<lambda>t. []) now clk q = Some q' \<and>
    agree s' ys q' \<and> numCreated q' = numCreated q \<and>
    fired s' = fired s @ ts \<and> runs q' = runs q @ es \<and> mset ts = mset es \<and>
    map (expire_at s) ts = map (key q) es"
proof -
  have ok: "queue_ok q" and h: "holds_timers s xs (due_times q)" and shots: "\<forall>t \<in> activeTimers q. one_shot q t"
    using a by (auto simp: agree_def)
  obtain es q' where q': "handleTimers (\<lambda>t. []) now clk q = Some q'" "queue_ok q'" "runs q' = runs q @ es"
    "numCreated q' = numCreated q" "distinct es" "set es = {t \<in> activeTimers q. key q t \<le> now}"
    "sorted (map (key q) es)"
    "activeTimers q' = {t \<in> activeTimers q. now < key q t} \<union> {t \<in> set es. \<exists>tm. store q t = Some tm \<and> repeats tm}"
    "\<forall>t. store q' t = (if t \<in> set es then
        (case store q t of None \<Rightarrow> None | Some tm \<Rightarrow> if repeats tm then Some (restart now tm) else None)
      else store q t)"
    using quiet_firing [OF ok now, of clk] by blast
  have "{t \<in> set es. \<exists>tm. store q t = Some tm \<and> repeats tm} = {}"
    using shots q'(6) by (fastforce simp: one_shot_def)
  then have active: "activeTimers q' = {t \<in> activeTimers q. now < key q t}" using q'(8) by blast
  have same: "store q' t = store q t" if "t \<in> activeTimers q'" for t
    using that q'(9) unfolding active q'(6) by auto
  have left: "later now (due_times q) = due_times q'"
    using key_same_timer [OF same] by (auto simp: later_def due_times_def active)
  from tick_holds [OF h, of now] obtain s' ts where
    s': "tick (\<lambda>c s. Some s) now s = Some s'" "holds_timers s' (not_due now s xs) (due_times q')"
      "fired s' = fired s @ ts" "distinct ts" "set ts = dom (due_times q) - dom (later now (due_times q))"
      "sorted (map (\<lambda>t. the (due_times q t)) ts)"
    unfolding left by blast
  have ts: "set ts = set es" using s'(5) q'(6) unfolding left by (auto simp: active)
  have sub: "t \<in> activeTimers q" if "t \<in> set ts" for t using that s'(5) by simp
  have "map (\<lambda>t. the (due_times q t)) ts = map (key q) ts" using sub by (simp add: due_times_def)
  then have "sorted (map (key q) ts)" using s'(6) by (simp only:)
  then have seen: "mset ts = mset es" "map (key q) ts = map (key q) es"
    using same_order_up_to_ties [OF ts s'(4) q'(5) _ q'(7)] by simp_all
  have "expire_at s t = key q t" if "t \<in> set ts" for t
    using holds_node(2) [OF h] sub [OF that] by (simp add: due_times_def)
  then have keys: "map (expire_at s) ts = map (key q) ts" by simp
  have "\<forall>t \<in> activeTimers q'. one_shot q' t"
    using shots one_shot_cong [OF same] by (simp add: active)
  then have "agree s' (not_due now s xs) q'" using s'(2) q'(2) by (simp add: agree_def)
  then show ?thesis using s'(1,3) q'(1,3,4) seen keys by (metis (no_types))
qed

section \<open>Whole runs\<close>

lemma step_agrees:
  assumes "agree s xs q" "op_after_epoch i"
  shows "\<exists>s' xs' q'. list_op i (numCreated q + 1) s = Some s' \<and> queue_op i q = Some q' \<and> agree s' xs' q' \<and>
    numCreated q' = (case i of New_Timer _ _ \<Rightarrow> numCreated q + 1 | _ \<Rightarrow> numCreated q) \<and>
    same_seen (list_seen s s') (queue_seen q q')"
proof (cases i)
  case (New_Timer clk e)
  then show ?thesis
    using new_timer_agrees [OF assms(1), of e clk]
    by (fastforce simp: same_seen_def list_seen_def queue_seen_def Let_def)
next
  case (Give_Up c)
  have "queue_ok q" using assms(1) by (simp add: agree_def)
  then have "runs (cancel c q) = runs q" "numCreated (cancel c q) = numCreated q" by (rule cancel_ok)+
  then show ?thesis
    using give_up_agrees [OF assms(1), of c] Give_Up
    by (fastforce simp: same_seen_def list_seen_def queue_seen_def Let_def)
next
  case (Pass now clk)
  then have "0 \<le> now" using assms(2) by simp
  from pass_agrees [OF assms(1) this, of clk] Pass show ?thesis
    by (fastforce simp: same_seen_def list_seen_def queue_seen_def Let_def)
qed

lemma runs_agree:
  assumes "agree s xs q" "\<forall>i \<in> set is. op_after_epoch i"
  shows "\<exists>ls qs. list_run is (numCreated q + 1) s = Some ls \<and> queue_run is q = Some qs \<and> list_all2 same_seen ls qs"
  using assms
proof (induction "is" arbitrary: s xs q)
  case (Cons i "is")
  have "op_after_epoch i" using Cons.prems(2) by simp
  from step_agrees [OF Cons.prems(1) this] obtain s' xs' q' where step:
    "list_op i (numCreated q + 1) s = Some s'" "queue_op i q = Some q'" "agree s' xs' q'"
    "numCreated q' = (case i of New_Timer _ _ \<Rightarrow> numCreated q + 1 | _ \<Rightarrow> numCreated q)"
    "same_seen (list_seen s s') (queue_seen q q')" by blast
  define n where "n = numCreated q + 1"
  have "numCreated q' + 1 = (case i of New_Timer _ _ \<Rightarrow> n + 1 | _ \<Rightarrow> n)"
    using step(4) by (simp add: n_def split: timer_op.split)
  moreover obtain ls qs where "list_run is (numCreated q' + 1) s' = Some ls" "queue_run is q' = Some qs"
    "list_all2 same_seen ls qs" using Cons.IH [OF step(3)] Cons.prems(2) by auto
  ultimately show ?case using step(1,2,5) unfolding n_def [symmetric] by simp
qed simp

lemma nothing_agrees: "agree no_timers [] TimerQueue"
proof -
  have "due_times TimerQueue = Map.empty" by (simp add: due_times_def TimerQueue_def)
  then show ?thesis using nothing_held by (simp add: agree_def queue_ok_def TimerQueue_def is_heap_Nil)
qed

text \<open>
  C21: The two timer implementations are interchangeable for one-shot timers: driven by the same
  calls, from the start, neither touches a freed timer, and at every passing of time both call back
  the same timers, in an order that differs at most among timers due at the same time.
\<close>

theorem timer_implementations_agree:
  assumes "\<forall>i \<in> set is. op_after_epoch i"
  shows "\<exists>ls qs. list_run is 1 no_timers = Some ls \<and> queue_run is TimerQueue = Some qs \<and>
    list_all2 same_seen ls qs"
  using runs_agree [OF nothing_agrees assms] by (simp add: TimerQueue_def)

definition tie_ops :: "timer_op list" where
  "tie_ops = [New_Timer 0 5, New_Timer 0 5, New_Timer 0 5, New_Timer 0 9, Give_Up 2, Pass 5 6]"

theorem timer_implementations_agree_witness:
  "\<exists>ls qs. list_run tie_ops 1 no_timers = Some ls \<and> queue_run tie_ops TimerQueue = Some qs \<and>
    list_all2 same_seen ls qs"
  by (rule timer_implementations_agree) (simp add: tie_ops_def)

text \<open>The order among equal times does differ: the list keeps the order of addition, the heap does not.\<close>

definition four_ops :: "timer_op list" where
  "four_ops = [New_Timer 0 5, New_Timer 0 5, New_Timer 0 5, New_Timer 0 5, Pass 5 6]"

lemma list_keeps_ties:
  "list_run four_ops 1 no_timers = Some [([], []), ([], []), ([], []), ([], []), ([1, 2, 3, 4], [5, 5, 5, 5])]"
  by code_simp

lemma queue_swaps_ties:
  "queue_run four_ops TimerQueue = Some [([], []), ([], []), ([], []), ([], []), ([1, 4, 3, 2], [5, 5, 5, 5])]"
  by code_simp

end
