(* ===== verification/Timer_Demo.thy ===== *)
theory Timer_Demo
  imports Timer_Clients
begin

text \<open>
  The program \<^verbatim>\<open>timer/main.cpp\<close>: timers are added out of order, run, deleted, moved, and the number
  of callbacks is printed beside the number that is expected. Every step is given its reading of the
  clock in seconds. A client's descriptor is only printed and left out.
\<close>

section \<open>The program\<close>

text \<open>
  A call of \<^verbatim>\<open>add_timer\<close> with a delay, of \<^verbatim>\<open>tick\<close> followed by the line with the count, of \<^verbatim>\<open>del_timer\<close>
  followed by the release of the client, and of \<^verbatim>\<open>adjust_timer\<close> with a time that is now.
\<close>

datatype demo_step = Add int | Tick | Delete nat | Hasten nat

record timer_demo =
  mgr :: timers
  made :: nat
  clients :: "nat set"
  fired_count :: nat
  calls :: "nat list list"
  printed :: "nat list"

text \<open>Deleting a client that is not allocated, or no longer, ends the run.\<close>

definition delete_client :: "nat \<Rightarrow> timer_demo \<Rightarrow> timer_demo option" where
  "delete_client c d = (if c \<in> clients d then Some (d\<lparr>clients := clients d - {c}\<rparr>) else None)"

definition on_expire :: "nat \<Rightarrow> timer_demo \<Rightarrow> timer_demo option" where
  "on_expire c d = delete_client c (d\<lparr>fired_count := fired_count d + 1\<rparr>)"

fun expire_all :: "nat list \<Rightarrow> timer_demo \<Rightarrow> timer_demo option" where
  "expire_all [] d = Some d"
| "expire_all (c # cs) d = Option.bind (on_expire c d) (expire_all cs)"

text \<open>
  \<^verbatim>\<open>on_expire\<close> touches nothing of the list, and the list has cleared the pointers of all clients it
  calls before it calls the first, so what the callbacks do to the clients can follow the tick.
\<close>

fun do_step :: "demo_step \<Rightarrow> int \<Rightarrow> timer_demo \<Rightarrow> timer_demo option" where
  "do_step (Add delay) now d = do {
     s \<leftarrow> client_add_timer (made d + 1) (now + delay) (mgr d);
     Some (d\<lparr>mgr := s, made := made d + 1, clients := insert (made d + 1) (clients d)\<rparr>)
   }"
| "do_step Tick now d = do {
     s \<leftarrow> tick (\<lambda>c s. Some s) now (mgr d);
     cs \<leftarrow> Some (drop (length (fired (mgr d))) (fired s));
     d \<leftarrow> expire_all cs (d\<lparr>mgr := s, calls := calls d @ [cs]\<rparr>);
     Some (d\<lparr>printed := printed d @ [fired_count d]\<rparr>)
   }"
| "do_step (Delete t) now d = do {
     nd \<leftarrow> nodes (mgr d) t;
     s \<leftarrow> del_timer (Some t) (mgr d);
     case user_data nd of None \<Rightarrow> Some (d\<lparr>mgr := s\<rparr>) | Some c \<Rightarrow> delete_client c (d\<lparr>mgr := s\<rparr>)
   }"
| "do_step (Hasten t) now d = do {
     s \<leftarrow> update_node t (set_expire now) (mgr d);
     s \<leftarrow> adjust_timer (Some t) s;
     Some (d\<lparr>mgr := s\<rparr>)
   }"

fun do_steps :: "(demo_step \<times> int) list \<Rightarrow> timer_demo \<Rightarrow> timer_demo option" where
  "do_steps [] d = Some d"
| "do_steps ((i, now) # is) d = Option.bind (do_step i now d) (do_steps is)"

definition demo_start :: timer_demo where
  "demo_start = \<lparr>mgr = no_timers, made = 0, clients = {}, fired_count = 0, calls = [], printed = []\<rparr>"

text \<open>
  The steps of \<^verbatim>\<open>main\<close>. The timers are numbered in the order of their creation: 3 is \<^verbatim>\<open>far\<close>, 4 \<^verbatim>\<open>mid\<close>,
  5 \<^verbatim>\<open>long_one\<close> and 6 \<^verbatim>\<open>soonest\<close>. At its end the destructor of the list runs.
\<close>

definition main_steps :: "demo_step list" where
  "main_steps = [Add 2, Add 1, Add 60, Tick, Tick, Add 60, Add 50, Add 100, Delete 4, Hasten 6, Tick, Tick,
     Delete 3, Delete 5]"

definition timer_main :: "int list \<Rightarrow> timer_demo option" where
  "timer_main clock = do {
     d \<leftarrow> do_steps (zip main_steps clock) demo_start;
     s \<leftarrow> destroy_timers (mgr d);
     Some (d\<lparr>mgr := s\<rparr>)
   }"

section \<open>What the steps mean\<close>

record timer_spec =
  due_at :: "nat \<rightharpoonup> int"
  handed :: nat
  rounds :: "nat set list"
  counts :: "nat list"

definition spec_start :: timer_spec where
  "spec_start = \<lparr>due_at = Map.empty, handed = 0, rounds = [], counts = []\<rparr>"

fun spec_step :: "demo_step \<Rightarrow> int \<Rightarrow> timer_spec \<Rightarrow> timer_spec option" where
  "spec_step (Add delay) now a =
     Some (a\<lparr>due_at := (due_at a)(handed a + 1 \<mapsto> now + delay), handed := handed a + 1\<rparr>)"
| "spec_step Tick now a =
     (let rs = rounds a @ [dom (due_at a) - dom (later now (due_at a))]
      in Some (a\<lparr>due_at := later now (due_at a), rounds := rs, counts := counts a @ [sum_list (map card rs)]\<rparr>))"
| "spec_step (Delete t) now a =
     (if due_at a t = None then None else Some (a\<lparr>due_at := (due_at a)(t := None)\<rparr>))"
| "spec_step (Hasten t) now a =
     (if due_at a t = None then None else Some (a\<lparr>due_at := (due_at a)(t \<mapsto> now)\<rparr>))"

fun spec_steps :: "(demo_step \<times> int) list \<Rightarrow> timer_spec \<Rightarrow> timer_spec option" where
  "spec_steps [] a = Some a"
| "spec_steps ((i, now) # is) a = Option.bind (spec_step i now a) (spec_steps is)"

text \<open>The clients that are allocated are those of the timers that are.\<close>

definition shows_spec :: "timer_demo \<Rightarrow> timer_spec \<Rightarrow> bool" where
  "shows_spec d a \<longleftrightarrow> (\<exists>xs. holds_timers (mgr d) xs (due_at a)) \<and> clients d = dom (due_at a) \<and> made d = handed a \<and>
     (\<forall>t \<in> dom (due_at a). t \<le> handed a) \<and> map set (calls d) = rounds a \<and> (\<forall>cs \<in> set (calls d). distinct cs) \<and>
     fired_count d = sum_list (map card (rounds a)) \<and> printed d = counts a"

lemma start_shows_spec: "shows_spec demo_start spec_start"
  using nothing_held by (auto simp: shows_spec_def demo_start_def spec_start_def)

lemma expire_all_distinct:
  "distinct cs \<Longrightarrow> set cs \<subseteq> clients d \<Longrightarrow> expire_all cs d =
     Some (d\<lparr>clients := clients d - set cs, fired_count := fired_count d + length cs\<rparr>)"
proof (induction cs arbitrary: d)
  case (Cons c cs)
  define d1 where "d1 = d\<lparr>fired_count := fired_count d + 1, clients := clients d - {c}\<rparr>"
  have "expire_all (c # cs) d = expire_all cs d1"
    using Cons.prems by (simp add: on_expire_def delete_client_def d1_def)
  also have "\<dots> = Some (d1\<lparr>clients := clients d1 - set cs, fired_count := fired_count d1 + length cs\<rparr>)"
    using Cons.prems by (intro Cons.IH) (auto simp: d1_def)
  also have "clients d1 - set cs = clients d - set (c # cs)" by (auto simp: d1_def)
  finally show ?case by (simp add: d1_def)
qed simp

lemma later_dom: "dom (later now m) \<subseteq> dom m"
  by (auto simp: later_def split: option.splits if_splits)

lemma tick_shows_spec:
  assumes "shows_spec d a"
  shows "\<exists>d' a'. do_step Tick now d = Some d' \<and> spec_step Tick now a = Some a' \<and> shows_spec d' a'"
proof -
  obtain xs where h: "holds_timers (mgr d) xs (due_at a)" using assms by (auto simp: shows_spec_def)
  define rest where "rest = later now (due_at a)"
  obtain s ts where s: "tick (\<lambda>c s. Some s) now (mgr d) = Some s" "holds_timers s (not_due now (mgr d) xs) rest"
    "fired s = fired (mgr d) @ ts" "distinct ts" "set ts = dom (due_at a) - dom rest"
    using tick_holds [OF h, of now] unfolding rest_def by blast
  have "set ts \<subseteq> clients d" using s(5) assms by (auto simp: shows_spec_def)
  then have run: "do_step Tick now d = Some (d\<lparr>mgr := s, calls := calls d @ [ts], clients := clients d - set ts,
      fired_count := fired_count d + length ts, printed := printed d @ [fired_count d + length ts]\<rparr>)"
    using s(1,3,4) by (simp add: expire_all_distinct)
  have "card (set ts) = length ts" using s(4) by (rule distinct_card)
  moreover have "clients d - set ts = dom rest" using s(5) assms later_dom [of now "due_at a"]
    by (auto simp: shows_spec_def rest_def)
  moreover have "\<forall>t \<in> dom rest. t \<le> handed a" using assms later_dom [of now "due_at a"]
    by (auto simp: shows_spec_def rest_def)
  ultimately show ?thesis
    unfolding run using assms s(2,4,5) by (auto simp: shows_spec_def Let_def rest_def [symmetric])
qed

text \<open>The program does what the steps mean, and nothing is used after it was freed.\<close>

lemma step_shows_spec:
  assumes d: "shows_spec d a" and "spec_step i now a \<noteq> None"
  shows "\<exists>d' a'. do_step i now d = Some d' \<and> spec_step i now a = Some a' \<and> shows_spec d' a'"
proof (cases i)
  case (Add delay)
  obtain xs where h: "holds_timers (mgr d) xs (due_at a)" using d by (auto simp: shows_spec_def)
  have made: "made d = handed a" and old: "\<forall>t \<in> dom (due_at a). t \<le> handed a" using d by (simp_all add: shows_spec_def)
  have new: "due_at a (made d + 1) = None"
  proof (cases "due_at a (made d + 1)")
    case (Some e)
    then show ?thesis using bspec [OF old, of "made d + 1"] made by auto
  qed
  obtain s ys where s: "client_add_timer (made d + 1) (now + delay) (mgr d) = Some s"
      "holds_timers s ys ((due_at a)(made d + 1 \<mapsto> now + delay))"
    using add_timer_holds [OF h new] by blast
  define m where "m = (due_at a)(made d + 1 \<mapsto> now + delay)"
  have "\<exists>ys. holds_timers s ys m" using s(2) m_def by blast
  moreover have "dom m = insert (made d + 1) (clients d)" using d by (simp add: m_def shows_spec_def)
  moreover have "\<forall>t \<in> dom m. t \<le> handed a + 1"
    using old made by (auto simp: m_def intro: le_SucI domI)
  ultimately show ?thesis
    using s(1) d Add made by (simp add: shows_spec_def m_def)
next
  case Tick
  then show ?thesis using tick_shows_spec [OF d] by simp
next
  case (Delete t)
  obtain xs where h: "holds_timers (mgr d) xs (due_at a)" using d by (auto simp: shows_spec_def)
  obtain e where t: "due_at a t = Some e" using assms(2) Delete by (auto split: if_splits)
  obtain nd where "nodes (mgr d) t = Some nd" "user_data nd = Some t" using holds_node(5) [OF h t] by blast
  moreover have "t \<in> clients d" using t d by (auto simp: shows_spec_def)
  ultimately show ?thesis
    using del_timer_holds [OF h t] t d Delete by (auto simp: shows_spec_def delete_client_def)
next
  case (Hasten t)
  obtain xs where h: "holds_timers (mgr d) xs (due_at a)" using d by (auto simp: shows_spec_def)
  obtain e where t: "due_at a t = Some e" using assms(2) Hasten by (auto split: if_splits)
  obtain s ys where "Option.bind (update_node t (set_expire now) (mgr d)) (adjust_timer (Some t)) = Some s"
      "holds_timers s ys ((due_at a)(t \<mapsto> now))" using adjust_timer_holds [OF h t] by blast
  then show ?thesis
    using t d Hasten by (cases "update_node t (set_expire now) (mgr d)") (auto simp: shows_spec_def)
qed

lemma steps_show_spec:
  "shows_spec d a \<Longrightarrow> spec_steps is a = Some a' \<Longrightarrow> \<exists>d'. do_steps is d = Some d' \<and> shows_spec d' a'"
proof (induction "is" arbitrary: d a)
  case (Cons i "is")
  obtain st now where i: "i = (st, now)" by (cases i)
  from Cons.prems(2) obtain a1 where "spec_step st now a = Some a1" "spec_steps is a1 = Some a'"
    by (cases "spec_step st now a") (auto simp: i)
  then show ?case using step_shows_spec [OF Cons.prems(1), of st now] Cons.IH i by fastforce
qed simp

section \<open>The numbers that are expected\<close>

lemma later_upd [simp]:
  "later now (m(t \<mapsto> e)) = (if e \<le> now then (later now m)(t := None) else (later now m)(t \<mapsto> e))"
  "later now Map.empty = Map.empty"
  by (auto simp: later_def)

lemma spec_steps_append: "spec_steps (is @ js) a = Option.bind (spec_steps is a) (spec_steps js)"
proof (induction "is" arbitrary: a)
  case (Cons i "is")
  then show ?case by (cases i; cases "spec_step (fst i) (snd i) a") simp_all
qed simp

lemma main_meaning:
  assumes "sorted [t1, t2, t3, c1]" "c1 < t1 + 2" "c1 < t2 + 1" "c1 + 3 \<le> c2" "sorted [c2, t4, t5, t6, n, c3, c4]"
    and "c4 < t3 + 60" "c4 < t5 + 50"
  shows "spec_steps (zip main_steps [t1, t2, t3, c1, c2, t4, t5, t6, x1, n, c3, c4, x2, x3]) spec_start =
    Some \<lparr>due_at = Map.empty, handed = 6, rounds = [{}, {1, 2}, {6}, {}], counts = [0, 2, 3, 3]\<rparr>"
proof -
  let ?a3 = "\<lparr>due_at = [1 \<mapsto> t1 + 2, 2 \<mapsto> t2 + 1, 3 \<mapsto> t3 + 60], handed = 3, rounds = [{}], counts = [0]\<rparr>"
  let ?a4 = "\<lparr>due_at = [3 \<mapsto> t3 + 60], handed = 3, rounds = [{}, {1, 2}], counts = [0, 2]\<rparr>"
  let ?a8 = "\<lparr>due_at = [3 \<mapsto> t3 + 60, 5 \<mapsto> t5 + 50, 6 \<mapsto> n], handed = 6, rounds = [{}, {1, 2}], counts = [0, 2]\<rparr>"
  let ?a9 = "\<lparr>due_at = [3 \<mapsto> t3 + 60, 5 \<mapsto> t5 + 50], handed = 6, rounds = [{}, {1, 2}, {6}], counts = [0, 2, 3]\<rparr>"
  have one: "spec_steps [(Add 2, t1), (Add 1, t2), (Add 60, t3), (Tick, c1)] spec_start = Some ?a3"
    using assms by (simp add: spec_start_def Let_def eval_nat_numeral)
  have two: "spec_steps [(Tick, c2)] ?a3 = Some ?a4"
    using assms by (auto simp: Let_def)
  have three: "spec_steps [(Add 60, t4), (Add 50, t5), (Add 100, t6), (Delete 4, x1), (Hasten 6, n)] ?a4 = Some ?a8"
    by (simp add: eval_nat_numeral)
  have four: "spec_steps [(Tick, c3)] ?a8 = Some ?a9"
    using assms by (auto simp: Let_def)
  have five: "spec_steps [(Tick, c4), (Delete 3, x2), (Delete 5, x3)] ?a9 =
    Some \<lparr>due_at = Map.empty, handed = 6, rounds = [{}, {1, 2}, {6}, {}], counts = [0, 2, 3, 3]\<rparr>"
    using assms by (simp add: Let_def)
  have "zip main_steps [t1, t2, t3, c1, c2, t4, t5, t6, x1, n, c3, c4, x2, x3] =
      [(Add 2, t1), (Add 1, t2), (Add 60, t3), (Tick, c1)] @ [(Tick, c2)] @
      [(Add 60, t4), (Add 50, t5), (Add 100, t6), (Delete 4, x1), (Hasten 6, n)] @ [(Tick, c3)] @
      [(Tick, c4), (Delete 3, x2), (Delete 5, x3)]" by (simp add: main_steps_def)
  then show ?thesis using one two three four five by (simp only: spec_steps_append Option.bind.simps)
qed



section \<open>Observations\<close>

text \<open>
  The first number depends on the clock: when the second turns between an \<^verbatim>\<open>add_timer\<close> and the tick
  that follows at once, the timer of one second is due and \<^verbatim>\<open>1\<close> is printed where \<^verbatim>\<open>0\<close> is expected.
\<close>

lemma first_tick_may_call:
  "map_option printed (do_steps (zip main_steps [100, 100, 100, 101]) demo_start) = Some [1]"
  by code_simp

text \<open>
  The list that step 5 prints as \<^verbatim>\<open>2004 -> 2003 -> 2005\<close> has four timers, the one that waits for the
  last step among them.
\<close>

fun forward :: "nat \<Rightarrow> nat option \<Rightarrow> timers \<Rightarrow> nat list" where
  "forward 0 p s = []"
| "forward (Suc k) p s = (case p of None \<Rightarrow> []
     | Some t \<Rightarrow> t # (case nodes s t of None \<Rightarrow> [] | Some nd \<Rightarrow> forward k (nxt nd) s))"

lemma list_in_step_5:
  "map_option (\<lambda>d. forward 9 (head (mgr d)) (mgr d))
     (do_steps (zip main_steps [100, 100, 100, 100, 103, 103, 103, 103]) demo_start) = Some [5, 3, 4, 6]"
  by code_simp

end
