(* ===== verification/Thread_Pool.thy ===== *)
theory Thread_Pool
  imports Std_Heap
begin

text \<open>
  \<^verbatim>\<open>thread_pool/ThreadPool.h\<close>: the pool of worker threads with a priority queue of tasks. Threads
  and tasks are numbers, in the order of creation and submission. The worker threads and the
  users of the pool interleave at the sections of code that hold the mutex; a task runs between
  two of them. A thread that waits on the condition variable may go on whenever its condition
  holds (by a notification or spuriously), or when its second is over. A task's exception stays in
  its \<^verbatim>\<open>packaged_task\<close> and does not reach the pool.
\<close>

section \<open>State\<close>

datatype worker = Looping | Waiting | Busy nat | Exited

text \<open>
  How far a call of \<^verbatim>\<open>wait_and_stop\<close> or \<^verbatim>\<open>stop_immediately\<close> is: the flags are set, the workers have
  been swapped out and are joined one after the other (done, still to do), or all are joined.
\<close>

datatype stopper = No_Stop | Marked | Joining "nat list" "nat list" | Stopped

record pool =
  core_threads :: nat
  max_threads :: nat
  workers :: "nat list"
  tasks :: "(int \<times> nat) list"
  stop :: bool
  accepting :: bool
  status :: "nat \<Rightarrow> worker"
  spawned :: nat
  stopper :: stopper
  submitted :: "nat list"
  executed :: "nat list"
  dropped :: "nat list"

text \<open>The last three fields are history: the tasks accepted, finished and thrown away.\<close>

section \<open>Operations\<close>

definition add_thread :: "pool \<Rightarrow> pool" where
  "add_thread p = p\<lparr>workers := workers p @ [spawned p],
     status := (status p)(spawned p := Looping), spawned := spawned p + 1\<rparr>"

definition pool_members :: "nat \<Rightarrow> nat \<Rightarrow> pool" where
  "pool_members coreThreads maxThreads =
     \<lparr>core_threads = coreThreads, max_threads = (if maxThreads > 0 then maxThreads else coreThreads),
      workers = [], tasks = [], stop = False, accepting = True, status = (\<lambda>_. Exited), spawned = 0,
      stopper = No_Stop, submitted = [], executed = [], dropped = []\<rparr>"

text \<open>The constructor; \<^term>\<open>None\<close> is its exception \<^verbatim>\<open>std::invalid_argument\<close>.\<close>

definition ThreadPool :: "nat \<Rightarrow> nat \<Rightarrow> pool option" where
  "ThreadPool coreThreads maxThreads =
     (if coreThreads = 0 then None
      else Some ((add_thread ^^ coreThreads) (pool_members coreThreads maxThreads)))"

definition default_priority :: int where
  "default_priority = 2147483647"

text \<open>\<^verbatim>\<open>submit_impl\<close>; \<^term>\<open>None\<close> is its exception \<^verbatim>\<open>std::runtime_error\<close>.\<close>

definition submit_impl :: "int \<Rightarrow> pool \<Rightarrow> pool option" where
  "submit_impl priority p =
     (if \<not> accepting p then None
      else
        let p = p\<lparr>tasks := push_heap fst (tasks p @ [(priority, length (submitted p))]),
                  submitted := submitted p @ [length (submitted p)]\<rparr>
        in Some (if length (tasks p) > length (workers p) \<and> length (workers p) < max_threads p
                 then add_thread p else p))"

definition submit :: "pool \<Rightarrow> pool option" where
  "submit p = submit_impl default_priority p"

definition active_threads :: "pool \<Rightarrow> nat" where
  "active_threads p = length (workers p)"

definition pending_tasks :: "pool \<Rightarrow> nat" where
  "pending_tasks p = length (tasks p)"

section \<open>Worker threads\<close>

definition set_status :: "nat \<Rightarrow> worker \<Rightarrow> pool \<Rightarrow> pool" where
  "set_status w st p = p\<lparr>status := (status p)(w := st)\<rparr>"

text \<open>After the wait: leave when stopped and empty, else take the task at the top.\<close>

definition leave_or_take :: "nat \<Rightarrow> pool \<Rightarrow> pool" where
  "leave_or_take w p =
     (if stop p \<and> tasks p = [] then set_status w Exited p
      else set_status w (Busy (snd (hd (tasks p)))) (p\<lparr>tasks := butlast (pop_heap fst (tasks p))\<rparr>))"

definition enter_loop :: "nat \<Rightarrow> pool \<Rightarrow> pool" where
  "enter_loop w p = (if tasks p = [] \<and> \<not> stop p then set_status w Waiting p else leave_or_take w p)"

definition wait_over :: "pool \<Rightarrow> bool" where
  "wait_over p \<longleftrightarrow> stop p \<or> tasks p \<noteq> []"

text \<open>A second has passed and the condition does not hold: one thread fewer, or once more round.\<close>

definition remove_this_thread :: "nat \<Rightarrow> pool \<Rightarrow> pool" where
  "remove_this_thread w p = p\<lparr>workers := remove1 w (workers p)\<rparr>"

definition wait_timed_out :: "nat \<Rightarrow> pool \<Rightarrow> pool" where
  "wait_timed_out w p =
     (if length (workers p) > core_threads p then set_status w Exited (remove_this_thread w p)
      else set_status w Looping p)"

definition finish_task :: "nat \<Rightarrow> nat \<Rightarrow> pool \<Rightarrow> pool" where
  "finish_task w t p = set_status w Looping (p\<lparr>executed := executed p @ [t]\<rparr>)"

section \<open>Stopping\<close>

text \<open>The locked part of the two; \<^term>\<open>None\<close> is the early return.\<close>

definition wait_and_stop :: "pool \<Rightarrow> pool option" where
  "wait_and_stop p =
     (if \<not> accepting p then None else Some (p\<lparr>accepting := False, stop := True, stopper := Marked\<rparr>))"

definition stop_immediately :: "pool \<Rightarrow> pool option" where
  "stop_immediately p =
     (if \<not> accepting p \<and> stop p then None
      else Some (p\<lparr>accepting := False, dropped := dropped p @ map snd (tasks p), tasks := [], stop := True,
             stopper := Marked\<rparr>))"

text \<open>\<^verbatim>\<open>join_all_workers\<close>: swap the threads out under the lock, then join them in turn.\<close>

definition swap_workers :: "pool \<Rightarrow> pool" where
  "swap_workers p = p\<lparr>stopper := Joining [] (workers p), workers := []\<rparr>"

fun join_next :: "pool \<Rightarrow> pool option" where
  "join_next p =
     (case stopper p of
        Joining done [] \<Rightarrow> Some (p\<lparr>stopper := Stopped\<rparr>)
      | Joining done (w # ws) \<Rightarrow>
          if status p w = Exited then Some (p\<lparr>stopper := Joining (done @ [w]) ws\<rparr>) else None
      | _ \<Rightarrow> None)"

section \<open>Interleaving\<close>

text \<open>The argument says whether \<^verbatim>\<open>stop_immediately\<close> may be called.\<close>

inductive pool_step :: "bool \<Rightarrow> pool \<Rightarrow> pool \<Rightarrow> bool" for now where
  submit_task: "submit_impl priority p = Some p' \<Longrightarrow> pool_step now p p'"
| enter: "w < spawned p \<Longrightarrow> status p w = Looping \<Longrightarrow> pool_step now p (enter_loop w p)"
| woken: "w < spawned p \<Longrightarrow> status p w = Waiting \<Longrightarrow> wait_over p \<Longrightarrow> pool_step now p (leave_or_take w p)"
| timed_out: "w < spawned p \<Longrightarrow> status p w = Waiting \<Longrightarrow> \<not> wait_over p \<Longrightarrow>
    max_threads p > core_threads p \<Longrightarrow> pool_step now p (wait_timed_out w p)"
| finished: "w < spawned p \<Longrightarrow> status p w = Busy t \<Longrightarrow> pool_step now p (finish_task w t p)"
| graceful: "wait_and_stop p = Some p' \<Longrightarrow> pool_step now p p'"
| immediate: "now \<Longrightarrow> stop_immediately p = Some p' \<Longrightarrow> pool_step now p p'"
| swap: "stopper p = Marked \<Longrightarrow> pool_step now p (swap_workers p)"
| join: "join_next p = Some p' \<Longrightarrow> pool_step now p p'"

inductive pool_reaches :: "bool \<Rightarrow> nat \<Rightarrow> nat \<Rightarrow> pool \<Rightarrow> bool" for now c m where
  pool_new: "ThreadPool c m = Some p \<Longrightarrow> pool_reaches now c m p"
| pool_next: "pool_reaches now c m p \<Longrightarrow> pool_step now p p' \<Longrightarrow> pool_reaches now c m p'"

inductive_cases pool_stepE: "pool_step now p p'"

section \<open>Invariant\<close>

definition task_of :: "worker \<Rightarrow> nat multiset" where
  "task_of st = (case st of Busy t \<Rightarrow> {#t#} | _ \<Rightarrow> {#})"

definition busy :: "pool \<Rightarrow> nat multiset" where
  "busy p = sum (\<lambda>w. task_of (status p w)) {..<spawned p}"

text \<open>The threads that the pool, or a call that stops it, still has a handle for.\<close>

definition held :: "pool \<Rightarrow> nat list" where
  "held p = (case stopper p of Joining done rest \<Rightarrow> rest | _ \<Rightarrow> workers p)"

definition threads_ok :: "pool \<Rightarrow> bool" where
  "threads_ok p \<longleftrightarrow> distinct (held p) \<and> (\<forall>w \<in> set (held p). w < spawned p) \<and>
     (\<forall>w < spawned p. status p w \<noteq> Exited \<longrightarrow> w \<in> set (held p)) \<and>
     (\<forall>w \<ge> spawned p. status p w = Exited) \<and> 0 < core_threads p"

definition stop_ok :: "pool \<Rightarrow> bool" where
  "stop_ok p \<longleftrightarrow> (stop p \<longleftrightarrow> \<not> accepting p) \<and> (stop p \<longleftrightarrow> stopper p \<noteq> No_Stop) \<and>
     (case stopper p of
        No_Stop \<Rightarrow> core_threads p \<le> length (workers p) \<and>
          length (workers p) \<le> max (core_threads p) (max_threads p) \<and>
          (\<forall>w \<in> set (workers p). status p w \<noteq> Exited)
      | Marked \<Rightarrow> core_threads p \<le> length (workers p) \<and>
          length (workers p) \<le> max (core_threads p) (max_threads p) \<and>
          ((\<exists>w \<in> set (workers p). status p w = Exited) \<longrightarrow> tasks p = [])
      | Joining done rest \<Rightarrow> workers p = [] \<and> done @ rest \<noteq> [] \<and>
          ((done \<noteq> [] \<or> (\<exists>w \<in> set rest. status p w = Exited)) \<longrightarrow> tasks p = [])
      | Stopped \<Rightarrow> workers p = [] \<and> tasks p = [])"

definition tasks_ok :: "pool \<Rightarrow> bool" where
  "tasks_ok p \<longleftrightarrow> is_heap fst (tasks p) \<and>
     mset (submitted p) = mset (map snd (tasks p)) + busy p + mset (executed p) + mset (dropped p) \<and>
     submitted p = [0..<length (submitted p)]"

definition pool_ok :: "pool \<Rightarrow> bool" where
  "pool_ok p \<longleftrightarrow> threads_ok p \<and> stop_ok p \<and> tasks_ok p"

lemma task_of_simps [simp]:
  "task_of (Busy t) = {#t#}" "task_of Looping = {#}" "task_of Waiting = {#}" "task_of Exited = {#}"
  by (simp_all add: task_of_def)

lemma busy_set_status:
  assumes "w < spawned p"
  shows "busy (set_status w st p) + task_of (status p w) = busy p + task_of st"
proof -
  have fin: "finite {..<spawned p}" "w \<in> {..<spawned p}" using assms by simp_all
  have "sum (\<lambda>x. task_of (((status p)(w := st)) x)) ({..<spawned p} - {w}) =
      sum (\<lambda>x. task_of (status p x)) ({..<spawned p} - {w})"
    by (rule sum.cong) auto
  then show ?thesis
    using sum.remove [OF fin, of "\<lambda>x. task_of (((status p)(w := st)) x)"]
      sum.remove [OF fin, of "\<lambda>x. task_of (status p x)"]
    by (simp add: busy_def set_status_def)
qed

lemma busy_cong: "status p' = status p \<Longrightarrow> spawned p' = spawned p \<Longrightarrow> busy p' = busy p"
  by (simp add: busy_def)

lemma set_status_simps [simp]:
  "workers (set_status w st p) = workers p" "tasks (set_status w st p) = tasks p"
  "stop (set_status w st p) = stop p" "accepting (set_status w st p) = accepting p"
  "spawned (set_status w st p) = spawned p" "stopper (set_status w st p) = stopper p"
  "submitted (set_status w st p) = submitted p" "executed (set_status w st p) = executed p"
  "dropped (set_status w st p) = dropped p" "core_threads (set_status w st p) = core_threads p"
  "max_threads (set_status w st p) = max_threads p"
  "status (set_status w st p) x = (if x = w then st else status p x)"
  "held (set_status w st p) = held p"
  by (simp_all add: set_status_def held_def split: stopper.split)

lemma held_cong: "stopper p' = stopper p \<Longrightarrow> workers p' = workers p \<Longrightarrow> held p' = held p"
  by (simp add: held_def split: stopper.split)

lemma threads_ok_cong:
  assumes "threads_ok p" "held p' = held p" "spawned p' = spawned p" "status p' = status p"
    "core_threads p' = core_threads p"
  shows "threads_ok p'"
  using assms by (simp add: threads_ok_def)

lemma threads_ok_set_status:
  "threads_ok p \<Longrightarrow> w < spawned p \<Longrightarrow> w \<in> set (held p) \<or> st = Exited \<Longrightarrow> threads_ok (set_status w st p)"
  by (auto simp: threads_ok_def)

lemma held_workers: "stopper p \<in> {No_Stop, Marked} \<Longrightarrow> held p = workers p"
  by (auto simp: held_def)

text \<open>A new thread.\<close>

lemma add_thread_ok:
  assumes "threads_ok p" "stopper p = No_Stop"
  shows "threads_ok (add_thread p)" "busy (add_thread p) = busy p"
proof -
  have h: "held (add_thread p) = workers p @ [spawned p]" "held p = workers p"
    using assms(2) by (simp_all add: held_def add_thread_def)
  show "threads_ok (add_thread p)"
    using assms(1) unfolding threads_ok_def h by (auto simp: add_thread_def less_Suc_eq)
  show "busy (add_thread p) = busy p"
    by (simp add: busy_def add_thread_def lessThan_Suc)
qed

lemma add_thread_simps [simp]:
  "tasks (add_thread p) = tasks p" "stop (add_thread p) = stop p" "accepting (add_thread p) = accepting p"
  "stopper (add_thread p) = stopper p" "submitted (add_thread p) = submitted p"
  "executed (add_thread p) = executed p" "dropped (add_thread p) = dropped p"
  "core_threads (add_thread p) = core_threads p" "max_threads (add_thread p) = max_threads p"
  "workers (add_thread p) = workers p @ [spawned p]" "spawned (add_thread p) = spawned p + 1"
  "status (add_thread p) x = (if x = spawned p then Looping else status p x)"
  by (simp_all add: add_thread_def)

lemma spawned_exited: "threads_ok p \<Longrightarrow> status p (spawned p) = Exited"
  by (simp add: threads_ok_def)

lemma ThreadPool_ok:
  assumes "ThreadPool c m = Some p"
  shows "pool_ok p \<and> core_threads p = c \<and> max_threads p = (if 0 < m then m else c) \<and> dropped p = []"
proof -
  have c: "0 < c" and p: "p = (add_thread ^^ c) (pool_members c m)"
    using assms by (auto simp: ThreadPool_def split: if_splits)
  have "threads_ok ((add_thread ^^ n) (pool_members c m)) \<and> busy ((add_thread ^^ n) (pool_members c m)) = {#} \<and>
      length (workers ((add_thread ^^ n) (pool_members c m))) = n \<and>
      (\<forall>w \<in> set (workers ((add_thread ^^ n) (pool_members c m))). status ((add_thread ^^ n) (pool_members c m)) w = Looping) \<and>
      tasks ((add_thread ^^ n) (pool_members c m)) = [] \<and> stop ((add_thread ^^ n) (pool_members c m)) = False \<and>
      accepting ((add_thread ^^ n) (pool_members c m)) \<and> stopper ((add_thread ^^ n) (pool_members c m)) = No_Stop \<and>
      core_threads ((add_thread ^^ n) (pool_members c m)) = c \<and>
      max_threads ((add_thread ^^ n) (pool_members c m)) = (if 0 < m then m else c) \<and>
      submitted ((add_thread ^^ n) (pool_members c m)) = [] \<and> executed ((add_thread ^^ n) (pool_members c m)) = [] \<and>
      dropped ((add_thread ^^ n) (pool_members c m)) = []" for n
  proof (induction n)
    case 0
    then show ?case using c by (simp add: pool_members_def threads_ok_def held_def busy_def)
  next
    case (Suc n)
    then show ?case using add_thread_ok [of "(add_thread ^^ n) (pool_members c m)"] by auto
  qed
  from this [of c] show ?thesis
    unfolding p [symmetric] using c by (simp add: pool_ok_def stop_ok_def tasks_ok_def is_heap_Nil)
qed

text \<open>Taking a task, or leaving.\<close>

lemma leave_or_take_ok:
  assumes ok: "pool_ok p" and w: "w < spawned p" "status p w = Looping \<or> status p w = Waiting"
    and go: "stop p \<or> tasks p \<noteq> []"
  shows "pool_ok (leave_or_take w p)"
proof -
  have th: "threads_ok p" and st: "stop_ok p" and ta: "tasks_ok p" using ok by (auto simp: pool_ok_def)
  have held: "w \<in> set (held p)" using th w by (auto simp: threads_ok_def)
  have none: "task_of (status p w) = {#}" using w(2) by auto
  show ?thesis
  proof (cases "stop p \<and> tasks p = []")
    case True
    then have p': "leave_or_take w p = set_status w Exited p" by (simp add: leave_or_take_def)
    have "threads_ok (set_status w Exited p)" by (rule threads_ok_set_status [OF th w(1)]) simp
    moreover have "stop_ok (set_status w Exited p)"
      using st True by (auto simp: stop_ok_def split: stopper.splits)
    moreover have "busy (set_status w Exited p) = busy p" using busy_set_status [OF w(1), of Exited] none by simp
    then have "tasks_ok (set_status w Exited p)" using ta by (simp add: tasks_ok_def)
    ultimately show ?thesis by (simp add: p' pool_ok_def)
  next
    case False
    then have ne: "tasks p \<noteq> []" using go by auto
    obtain a t where top: "hd (tasks p) = (a, t)" by (cases "hd (tasks p)")
    define p1 where "p1 = p\<lparr>tasks := butlast (pop_heap fst (tasks p))\<rparr>"
    have p': "leave_or_take w p = set_status w (Busy t) p1" using False top by (auto simp: leave_or_take_def p1_def)
    have heap: "is_heap fst (tasks p)" using ta by (simp add: tasks_ok_def)
    note pop = vec.pop_front [OF heap ne]
    have h1: "held p1 = held p" by (rule held_cong) (simp_all add: p1_def)
    have th1: "threads_ok p1" by (rule threads_ok_cong [OF th h1]) (simp_all add: p1_def)
    have "threads_ok (set_status w (Busy t) p1)"
      by (rule threads_ok_set_status [OF th1]) (use w(1) held h1 in \<open>auto simp: p1_def\<close>)
    moreover have "stop_ok (set_status w (Busy t) p1)"
      using st ne by (auto simp: stop_ok_def p1_def split: stopper.splits)
    moreover have "tasks_ok (set_status w (Busy t) p1)"
    proof -
      have b1: "busy p1 = busy p" by (simp add: busy_def p1_def)
      have "status p1 w = status p w" "w < spawned p1" using w(1) by (simp_all add: p1_def)
      then have "busy (set_status w (Busy t) p1) = add_mset t (busy p)"
        using busy_set_status [of w p1 "Busy t"] none b1 by simp
      moreover have "mset (map snd (tasks p)) = add_mset t (mset (map snd (tasks p1)))"
        using pop top by (simp add: p1_def)
      ultimately show ?thesis using ta pop by (simp add: tasks_ok_def) (simp add: p1_def)
    qed
    ultimately show ?thesis by (simp add: p' pool_ok_def)
  qed
qed

lemma pool_ok_idle:
  assumes ok: "pool_ok p" and w: "w < spawned p" "status p w \<noteq> Exited" "task_of (status p w) = {#}"
    and st: "st = Looping \<or> st = Waiting"
  shows "pool_ok (set_status w st p)"
proof -
  have held: "w \<in> set (held p)" using ok w by (auto simp: pool_ok_def threads_ok_def)
  have "threads_ok (set_status w st p)"
    by (rule threads_ok_set_status) (use ok w(1) held in \<open>auto simp: pool_ok_def\<close>)
  moreover have "stop_ok (set_status w st p)"
    using ok st unfolding pool_ok_def stop_ok_def by (auto split: stopper.splits)
  moreover have "busy (set_status w st p) = busy p" using busy_set_status [OF w(1), of st] w(3) st by auto
  then have "tasks_ok (set_status w st p)" using ok by (simp add: pool_ok_def tasks_ok_def)
  ultimately show ?thesis by (simp add: pool_ok_def)
qed

lemma enter_loop_ok:
  "pool_ok p \<Longrightarrow> w < spawned p \<Longrightarrow> status p w = Looping \<Longrightarrow> pool_ok (enter_loop w p)"
  by (auto simp: enter_loop_def intro!: leave_or_take_ok pool_ok_idle)

lemma wait_timed_out_ok:
  assumes ok: "pool_ok p" and w: "w < spawned p" "status p w = Waiting" and out: "\<not> wait_over p"
  shows "pool_ok (wait_timed_out w p)"
proof (cases "length (workers p) > core_threads p")
  case False
  then show ?thesis using pool_ok_idle [OF ok w(1)] w(2) by (simp add: wait_timed_out_def)
next
  case True
  have th: "threads_ok p" and st: "stop_ok p" and ta: "tasks_ok p" using ok by (auto simp: pool_ok_def)
  have run: "stopper p = No_Stop" using out st by (auto simp: wait_over_def stop_ok_def)
  then have h: "held p = workers p" by (simp add: held_def)
  then have mem: "w \<in> set (workers p)" and dist: "distinct (workers p)" using th w by (auto simp: threads_ok_def)
  define p1 where "p1 = remove_this_thread w p"
  have h1: "held p1 = remove1 w (workers p)" using run by (simp add: held_def p1_def remove_this_thread_def)
  have "threads_ok (set_status w Exited p1)"
    using th w(1) dist unfolding threads_ok_def
    by (auto simp: h h1 set_status_def held_def p1_def remove_this_thread_def run)
  moreover have "stop_ok (set_status w Exited p1)"
    using st True mem dist run by (auto simp: stop_ok_def p1_def remove_this_thread_def length_remove1)
  moreover have "tasks_ok (set_status w Exited p1)"
  proof -
    have "busy (set_status w Exited p1) = busy p1"
      using busy_set_status [of w p1 Exited] w by (simp add: p1_def remove_this_thread_def)
    moreover have "busy p1 = busy p" by (simp add: busy_def p1_def remove_this_thread_def)
    ultimately show ?thesis using ta by (simp add: tasks_ok_def p1_def remove_this_thread_def)
  qed
  ultimately show ?thesis using True by (simp add: wait_timed_out_def p1_def pool_ok_def)
qed

lemma finish_task_ok:
  assumes ok: "pool_ok p" and w: "w < spawned p" "status p w = Busy t"
  shows "pool_ok (finish_task w t p)"
proof -
  define p1 where "p1 = p\<lparr>executed := executed p @ [t]\<rparr>"
  have h1: "held p1 = held p" by (rule held_cong) (simp_all add: p1_def)
  have held: "w \<in> set (held p)" using ok w by (auto simp: pool_ok_def threads_ok_def)
  have th1: "threads_ok p1" by (rule threads_ok_cong [of p]) (use ok h1 in \<open>auto simp: pool_ok_def p1_def\<close>)
  have "threads_ok (set_status w Looping p1)"
    by (rule threads_ok_set_status [OF th1]) (use w(1) held h1 in \<open>auto simp: p1_def\<close>)
  moreover have "stop_ok (set_status w Looping p1)"
    using ok unfolding pool_ok_def stop_ok_def by (auto simp: p1_def split: stopper.splits)
  moreover have "tasks_ok (set_status w Looping p1)"
  proof -
    have "add_mset t (busy (set_status w Looping p1)) = busy p1"
      using busy_set_status [of w p1 Looping] w by (simp add: p1_def)
    moreover have "busy p1 = busy p" by (simp add: busy_def p1_def)
    ultimately have "busy p = add_mset t (busy (set_status w Looping p1))" by simp
    then show ?thesis using ok by (simp add: pool_ok_def tasks_ok_def) (simp add: p1_def)
  qed
  ultimately show ?thesis by (simp add: finish_task_def p1_def pool_ok_def)
qed

lemma submit_impl_ok:
  assumes ok: "pool_ok p" and sub: "submit_impl a p = Some p'"
  shows "pool_ok p' \<and> dropped p' = dropped p"
proof -
  have acc: "accepting p" using sub by (auto simp: submit_impl_def split: if_splits)
  define t where "t = length (submitted p)"
  define p1 where "p1 = p\<lparr>tasks := push_heap fst (tasks p @ [(a, t)]), submitted := submitted p @ [t]\<rparr>"
  have p': "p' = (if length (tasks p1) > length (workers p1) \<and> length (workers p1) < max_threads p1 then add_thread p1 else p1)"
    using sub acc unfolding submit_impl_def Let_def p1_def t_def by (simp split: if_splits)
  have th: "threads_ok p" and st: "stop_ok p" and ta: "tasks_ok p" using ok by (auto simp: pool_ok_def)
  have run: "stopper p1 = No_Stop" "stop p1 = False" using acc st by (auto simp: stop_ok_def p1_def)
  have th1: "threads_ok p1"
    by (rule threads_ok_cong [OF th]) (auto simp: p1_def intro: held_cong)
  have st1: "stop_ok p1" using st run by (simp add: stop_ok_def p1_def)
  have heap: "is_heap fst (tasks p1)" using is_heap_push [of "fst :: int \<times> nat \<Rightarrow> int" "tasks p" "(a, t)"] ta
    by (simp add: p1_def tasks_ok_def)
  have "mset (map snd (tasks p1)) = add_mset t (mset (map snd (tasks p)))"
    by (simp add: p1_def mset_map [symmetric] del: mset_map) (simp add: mset_push_heap)
  moreover have "busy p1 = busy p" by (simp add: busy_def p1_def)
  moreover have "submitted p1 = [0..<length (submitted p1)]" using ta by (simp add: tasks_ok_def p1_def t_def)
  ultimately have ta1: "tasks_ok p1" using ta heap by (simp add: tasks_ok_def) (simp add: p1_def)
  have "stop_ok (add_thread p1)" if "length (workers p1) < max_threads p1"
    using st1 run that by (auto simp: stop_ok_def)
  moreover have "tasks_ok (add_thread p1)"
    using ta1 add_thread_ok [OF th1 run(1)] by (simp add: tasks_ok_def)
  moreover have "dropped p1 = dropped p" by (simp add: p1_def)
  ultimately show ?thesis
    using th1 st1 ta1 add_thread_ok [OF th1 run(1)] by (auto simp: p' pool_ok_def)
qed

lemma stopping_ok:
  assumes ok: "pool_ok p" and st: "stopper p = No_Stop"
    and q: "q = p\<lparr>accepting := False, dropped := dropped p @ map snd ds, tasks := ts, stop := True, stopper := Marked\<rparr>"
    and ts: "mset (map snd (tasks p)) = mset (map snd ds) + mset (map snd ts)" "is_heap fst ts"
  shows "pool_ok q"
proof -
  have "held q = held p" using st by (simp add: held_def q)
  then have "threads_ok q" using ok by (simp add: pool_ok_def threads_ok_def q)
  moreover have "stop_ok q" using ok st by (auto simp: pool_ok_def stop_ok_def q)
  moreover have "busy q = busy p" by (simp add: busy_def q)
  then have "tasks_ok q" using ok ts by (simp add: pool_ok_def tasks_ok_def q ac_simps)
  ultimately show ?thesis by (simp add: pool_ok_def)
qed

lemma accepting_runs: "pool_ok p \<Longrightarrow> accepting p \<Longrightarrow> stopper p = No_Stop"
  by (auto simp: pool_ok_def stop_ok_def)

lemma swap_workers_ok:
  assumes ok: "pool_ok p" and st: "stopper p = Marked"
  shows "pool_ok (swap_workers p)"
proof -
  have "held (swap_workers p) = held p" using st by (simp add: held_def swap_workers_def)
  then have "threads_ok (swap_workers p)" using ok by (simp add: pool_ok_def threads_ok_def swap_workers_def)
  moreover have "0 < core_threads p" using ok by (simp add: pool_ok_def threads_ok_def)
  then have "stop_ok (swap_workers p)"
    using ok st by (fastforce simp: pool_ok_def stop_ok_def swap_workers_def)
  moreover have "tasks_ok (swap_workers p)" using ok by (simp add: pool_ok_def tasks_ok_def swap_workers_def busy_def)
  ultimately show ?thesis by (simp add: pool_ok_def)
qed

lemma join_next_ok:
  assumes ok: "pool_ok p" and j: "join_next p = Some p'"
  shows "pool_ok p' \<and> dropped p' = dropped p"
proof -
  obtain ds rs where st: "stopper p = Joining ds rs" using j by (auto split: stopper.splits)
  have th: "threads_ok p" and so: "stop_ok p" and ta: "tasks_ok p" using ok by (auto simp: pool_ok_def)
  show ?thesis
  proof (cases rs)
    case Nil
    then have p': "p' = p\<lparr>stopper := Stopped\<rparr>" using j st by simp
    have "threads_ok p'" using th so st Nil by (auto simp: threads_ok_def held_def p' stop_ok_def)
    moreover have "stop_ok p'" using so st Nil by (auto simp: stop_ok_def p')
    moreover have "tasks_ok p'" using ta by (simp add: tasks_ok_def p' busy_def)
    ultimately show ?thesis by (simp add: pool_ok_def p')
  next
    case (Cons w ws)
    then have ex: "status p w = Exited" and p': "p' = p\<lparr>stopper := Joining (ds @ [w]) ws\<rparr>"
      using j st by (auto split: if_splits)
    have "threads_ok p'" using th st Cons ex by (auto simp: threads_ok_def held_def p')
    moreover have "stop_ok p'" using so st Cons ex by (auto simp: stop_ok_def p')
    moreover have "tasks_ok p'" using ta by (simp add: tasks_ok_def p' busy_def)
    ultimately show ?thesis by (simp add: pool_ok_def p')
  qed
qed

lemma wait_and_stop_ok:
  assumes ok: "pool_ok p" and s: "wait_and_stop p = Some p'"
  shows "pool_ok p' \<and> dropped p' = dropped p"
proof -
  have acc: "accepting p" using s by (auto simp: wait_and_stop_def split: if_splits)
  have "pool_ok p'"
    by (rule stopping_ok [OF ok accepting_runs [OF ok acc], of _ "tasks p" "[]"])
      (use s acc ok in \<open>auto simp: wait_and_stop_def pool_ok_def tasks_ok_def\<close>)
  then show ?thesis using s acc by (auto simp: wait_and_stop_def)
qed

lemma stop_immediately_ok:
  assumes ok: "pool_ok p" and s: "stop_immediately p = Some p'"
  shows "pool_ok p'"
proof -
  have acc: "accepting p" using ok s by (auto simp: stop_immediately_def pool_ok_def stop_ok_def split: if_splits)
  show ?thesis
    by (rule stopping_ok [OF ok accepting_runs [OF ok acc], of _ "[]" "tasks p"])
      (use s acc in \<open>auto simp: stop_immediately_def is_heap_Nil\<close>)
qed

lemma pool_step_ok:
  assumes ok: "pool_ok p" and step: "pool_step now p p'"
  shows "pool_ok p'"
  using step
proof cases
  case (woken w)
  then show ?thesis using leave_or_take_ok [OF ok, of w] by (simp add: wait_over_def)
qed (use submit_impl_ok [OF ok] enter_loop_ok [OF ok] wait_timed_out_ok [OF ok] finish_task_ok [OF ok]
    wait_and_stop_ok [OF ok] stop_immediately_ok [OF ok] swap_workers_ok [OF ok] join_next_ok [OF ok] in blast)+

lemmas pool_op_defs = submit_impl_def enter_loop_def leave_or_take_def wait_timed_out_def
  remove_this_thread_def finish_task_def wait_and_stop_def stop_immediately_def swap_workers_def Let_def

lemma pool_step_keeps:
  assumes "pool_step now p p'"
  shows "core_threads p' = core_threads p \<and> max_threads p' = max_threads p \<and>
    (now \<or> dropped p' = dropped p) \<and>
    (accepting p \<or> \<not> accepting p' \<and> submitted p' = submitted p)"
  using assms by cases (auto simp: pool_op_defs split: if_splits stopper.splits list.splits)

lemma pool_reaches_ok:
  assumes "pool_reaches now c m p"
  shows "pool_ok p \<and> core_threads p = c \<and> max_threads p = (if 0 < m then m else c) \<and> (now \<or> dropped p = [])"
  using assms
proof induction
  case (pool_new p)
  then show ?case using ThreadPool_ok by blast
next
  case (pool_next p p')
  then show ?case using pool_step_ok pool_step_keeps by metis
qed

section \<open>Executable schedules\<close>

text \<open>A schedule as a list of actions; \<^term>\<open>None\<close> when an action is not possible.\<close>

datatype pool_action = Submit int | Enter nat | Wake nat | Time_Out nat | Finish nat
  | Stop_Gracefully | Stop_Now | Swap_Out | Join_Next

fun perform :: "pool_action \<Rightarrow> pool \<Rightarrow> pool option" where
  "perform (Submit a) p = submit_impl a p"
| "perform (Enter w) p = (if w < spawned p \<and> status p w = Looping then Some (enter_loop w p) else None)"
| "perform (Wake w) p =
    (if w < spawned p \<and> status p w = Waiting \<and> wait_over p then Some (leave_or_take w p) else None)"
| "perform (Time_Out w) p =
    (if w < spawned p \<and> status p w = Waiting \<and> \<not> wait_over p \<and> max_threads p > core_threads p
     then Some (wait_timed_out w p) else None)"
| "perform (Finish w) p =
    (case status p w of Busy t \<Rightarrow> if w < spawned p then Some (finish_task w t p) else None | _ \<Rightarrow> None)"
| "perform Stop_Gracefully p = wait_and_stop p"
| "perform Stop_Now p = stop_immediately p"
| "perform Swap_Out p = (if stopper p = Marked then Some (swap_workers p) else None)"
| "perform Join_Next p = join_next p"

fun schedule :: "pool_action list \<Rightarrow> pool option \<Rightarrow> pool option" where
  "schedule [] p = p"
| "schedule (a # as) p = (case p of None \<Rightarrow> None | Some q \<Rightarrow> schedule as (perform a q))"

lemma perform_step:
  assumes "perform a p = Some p'" "a \<noteq> Stop_Now \<or> now"
  shows "pool_step now p p'"
proof (cases a)
  case (Finish w)
  then show ?thesis using assms by (auto intro: pool_step.finished split: if_splits worker.splits)
qed (use assms in \<open>auto intro: pool_step.intros split: if_splits simp del: join_next.simps\<close>)

lemma schedule_None: "schedule as None = None"
  by (cases as) simp_all

lemma schedule_reaches:
  "schedule as (Some p) = Some q \<Longrightarrow> Stop_Now \<notin> set as \<or> now \<Longrightarrow> pool_reaches now c m p \<Longrightarrow>
    pool_reaches now c m q"
proof (induction as arbitrary: p)
  case (Cons a as)
  then obtain r where r: "perform a p = Some r" "schedule as (Some r) = Some q"
    by (cases "perform a p") (simp_all add: schedule_None del: perform.simps)
  have "pool_step now p r" by (rule perform_step [OF r(1)]) (use Cons.prems(2) in auto)
  then have "pool_reaches now c m r" by (rule pool_next [OF Cons.prems(3)])
  then show ?case using Cons.IH [OF r(2)] Cons.prems(2) by auto
qed simp

lemma schedule_new:
  assumes "schedule as (ThreadPool c m) = Some q" "Stop_Now \<notin> set as \<or> now"
  shows "pool_reaches now c m q"
proof -
  obtain p where p: "ThreadPool c m = Some p" using assms(1) by (cases "ThreadPool c m") (simp_all add: schedule_None)
  show ?thesis by (rule schedule_reaches [OF _ assms(2) pool_new [OF p]]) (use assms(1) p in simp)
qed

text \<open>The destructor: stop at once unless stopped and joined; \<^term>\<open>None\<close>, nothing is left to do.\<close>

definition destroy_pool :: "pool \<Rightarrow> pool option" where
  "destroy_pool p = (if \<not> stop p \<or> workers p \<noteq> [] then stop_immediately p else None)"

lemma destroy_after_stop: "pool_reaches now c m p \<Longrightarrow> stopper p = Stopped \<Longrightarrow> destroy_pool p = None"
  using pool_reaches_ok by (fastforce simp: destroy_pool_def pool_ok_def stop_ok_def)

lemma destroy_running: "pool_reaches now c m p \<Longrightarrow> accepting p \<Longrightarrow> destroy_pool p = stop_immediately p"
  using pool_reaches_ok by (fastforce simp: destroy_pool_def pool_ok_def stop_ok_def)

section \<open>Properties\<close>

text \<open>
  C38: Until it is stopped the pool keeps at least its core threads and never more than the larger of
  its core and its maximum: submissions add threads up to the bound, and a thread that idles for a
  second leaves only while there are more than the core ones. Every thread it counts is running, and
  every thread that runs is counted.\<close>

theorem thread_count_stays_within_bounds:
  assumes "pool_reaches now c m p" "\<not> stop p"
  shows "c \<le> active_threads p \<and> active_threads p \<le> max c m \<and> distinct (workers p) \<and>
    set (workers p) = {w. status p w \<noteq> Exited}"
proof -
  have ok: "pool_ok p" and c: "core_threads p = c" and m: "max_threads p = (if 0 < m then m else c)"
    using pool_reaches_ok [OF assms(1)] by auto
  have run: "stopper p = No_Stop" using ok assms(2) by (auto simp: pool_ok_def stop_ok_def)
  have so: "stop_ok p" and th: "threads_ok p" using ok by (auto simp: pool_ok_def)
  have "c \<le> length (workers p) \<and> length (workers p) \<le> max c m"
    using so run c m by (auto simp: stop_ok_def split: if_splits)
  moreover have "distinct (workers p)" using th run by (simp add: threads_ok_def held_def)
  moreover have "set (workers p) = {w. status p w \<noteq> Exited}"
  proof (intro set_eqI iffI)
    fix w assume "w \<in> {w. status p w \<noteq> Exited}"
    then show "w \<in> set (workers p)" using th run by (cases "w < spawned p") (auto simp: threads_ok_def held_def)
  qed (use so run in \<open>auto simp: stop_ok_def\<close>)
  ultimately show ?thesis by (simp add: active_threads_def)
qed

text \<open>
  C39: A worker that enters its loop while tasks are waiting takes one with the smallest priority
  number, and takes exactly that one out of the queue.\<close>

theorem most_urgent_task_first:
  assumes "pool_reaches now c m p" "status p w = Looping" "tasks p \<noteq> []"
  shows "\<exists>a t. status (enter_loop w p) w = Busy t \<and>
    mset (tasks p) = add_mset (a, t) (mset (tasks (enter_loop w p))) \<and> (\<forall>(b, u) \<in> set (tasks p). a \<le> b)"
proof -
  have heap: "is_heap fst (tasks p)" using pool_reaches_ok [OF assms(1)] by (auto simp: pool_ok_def tasks_ok_def)
  obtain a t where top: "hd (tasks p) = (a, t)" by (cases "hd (tasks p)")
  have "status (enter_loop w p) w = Busy t" "tasks (enter_loop w p) = butlast (pop_heap fst (tasks p))"
    using assms(3) top by (simp_all add: enter_loop_def leave_or_take_def)
  moreover have "\<forall>(b, u) \<in> set (tasks p). a \<le> b"
    using vec.heap_front [OF heap] top by force
  ultimately show ?thesis using vec.pop_front [OF heap assms(3)] top by auto
qed

text \<open>The tasks that are queued, running, finished or dropped are those submitted, each once.\<close>

lemma all_exited_idle: "(\<And>w. w < spawned p \<Longrightarrow> status p w = Exited) \<Longrightarrow> busy p = {#}"
  by (simp add: busy_def)

text \<open>
  C6: When a call that stops the pool returns, every thread has ended, no task is queued, and every
  accepted task was either finished or dropped, exactly once. If only \<^verbatim>\<open>wait_and_stop\<close> was used,
  nothing was dropped: every accepted task has been run.\<close>

theorem stopped_pool_has_run_everything:
  assumes "pool_reaches now c m p" "stopper p = Stopped"
  shows "(\<forall>w. status p w = Exited) \<and> pending_tasks p = 0 \<and> active_threads p = 0 \<and>
    mset (executed p) + mset (dropped p) = mset (submitted p) \<and> distinct (submitted p) \<and>
    (now \<or> mset (executed p) = mset (submitted p))"
proof -
  have ok: "pool_ok p" and drop: "now \<or> dropped p = []" using pool_reaches_ok [OF assms(1)] by auto
  then have so: "stop_ok p" and th: "threads_ok p" and ta: "tasks_ok p" by (auto simp: pool_ok_def)
  have none: "workers p = []" "tasks p = []" using so assms(2) by (auto simp: stop_ok_def)
  have ex: "status p w = Exited" for w
    using th none assms(2) by (cases "w < spawned p") (auto simp: threads_ok_def held_def)
  then have "mset (submitted p) = mset (executed p) + mset (dropped p)"
    using ta none all_exited_idle by (simp add: tasks_ok_def)
  moreover have "distinct (submitted p)" using ta by (metis distinct_upt tasks_ok_def)
  ultimately show ?thesis using ex none drop by (auto simp: pending_tasks_def active_threads_def)
qed

text \<open>
  Once the pool is stopped it accepts nothing any more, whatever happens next: every later
  submission is refused with an exception, and both ways to stop return without doing anything.\<close>

theorem stopped_pool_refuses_tasks:
  assumes "pool_reaches now c m p" "stop p" "(pool_step now)\<^sup>*\<^sup>* p q"
  shows "submit_impl a q = None \<and> submitted q = submitted p \<and> wait_and_stop q = None \<and>
    stop_immediately q = None"
proof -
  have "pool_ok p" using pool_reaches_ok [OF assms(1)] by simp
  then have "\<not> accepting p" using assms(2) by (simp add: pool_ok_def stop_ok_def)
  with assms(3) have "\<not> accepting q \<and> submitted q = submitted p"
  proof (induction rule: rtranclp_induct)
    case (step q r)
    then show ?case using pool_step_keeps [OF step(2)] by auto
  qed simp
  moreover have "pool_reaches now c m q"
    using assms(3,1) by (induction rule: rtranclp_induct) (auto intro: pool_next)
  then have "stop_ok q" using pool_reaches_ok by (auto simp: pool_ok_def)
  ultimately show ?thesis
    by (auto simp: submit_impl_def wait_and_stop_def stop_immediately_def stop_ok_def)
qed

section \<open>Shutting down ends\<close>

text \<open>
  A number that every step of a stopped pool makes smaller: a waiting task counts two, a running
  one too, a thread that still has to leave one more, a thread to be joined one.
\<close>

definition weight :: "worker \<Rightarrow> nat" where
  "weight st = (case st of Exited \<Rightarrow> 0 | Busy t \<Rightarrow> 2 | _ \<Rightarrow> 1)"

definition to_join :: "pool \<Rightarrow> nat" where
  "to_join p = (case stopper p of Marked \<Rightarrow> length (workers p) + 2 | Joining done rest \<Rightarrow> length rest + 1 | _ \<Rightarrow> 0)"

definition shutdown_steps :: "pool \<Rightarrow> nat" where
  "shutdown_steps p = 2 * length (tasks p) + (\<Sum>w < spawned p. weight (status p w)) + to_join p"

lemma to_join_cong: "stopper p' = stopper p \<Longrightarrow> workers p' = workers p \<Longrightarrow> to_join p' = to_join p"
  by (simp add: to_join_def split: stopper.split)

lemma status_sum_update:
  fixes f :: "worker \<Rightarrow> nat"
  assumes "w < spawned p"
  shows "(\<Sum>x < spawned p. f (status (set_status w st p) x)) + f (status p w) = (\<Sum>x < spawned p. f (status p x)) + f st"
proof -
  have fin: "finite {..<spawned p}" "w \<in> {..<spawned p}" using assms by simp_all
  have "sum (\<lambda>x. f (status (set_status w st p) x)) ({..<spawned p} - {w}) =
      sum (\<lambda>x. f (status p x)) ({..<spawned p} - {w})"
    by (rule sum.cong) auto
  then show ?thesis
    using sum.remove [OF fin, of "\<lambda>x. f (status (set_status w st p) x)"]
      sum.remove [OF fin, of "\<lambda>x. f (status p x)"] by simp
qed

lemmas weight_set_status = status_sum_update [where f = weight]

lemma shutdown_set_status:
  assumes "w < spawned p" "weight st < weight (status p w)"
  shows "shutdown_steps (set_status w st p) < shutdown_steps p"
proof -
  have "to_join (set_status w st p) = to_join p" by (rule to_join_cong) simp_all
  then show ?thesis
    using weight_set_status [OF assms(1), of st] assms(2)
    by (simp add: shutdown_steps_def)
qed

lemma leave_or_take_shrinks:
  assumes "w < spawned p" "weight (status p w) = 1" "stop p" "is_heap fst (tasks p)"
  shows "shutdown_steps (leave_or_take w p) < shutdown_steps p"
proof (cases "tasks p = []")
  case True
  then show ?thesis using shutdown_set_status [OF assms(1), of Exited] assms by (simp add: leave_or_take_def weight_def)
next
  case False
  define p1 where "p1 = p\<lparr>tasks := butlast (pop_heap fst (tasks p))\<rparr>"
  define t where "t = snd (hd (tasks p))"
  have p': "leave_or_take w p = set_status w (Busy t) p1" using False by (simp add: leave_or_take_def p1_def t_def)
  have "mset (tasks p) = add_mset (hd (tasks p)) (mset (tasks p1))"
    using vec.pop_front [OF assms(4) False] by (simp add: p1_def)
  then have "length (tasks p) = length (tasks p1) + 1"
    by (metis Suc_eq_plus1 size_add_mset size_mset)
  moreover have "to_join (set_status w (Busy t) p1) = to_join p"
    by (rule to_join_cong) (simp_all add: p1_def)
  moreover have "(\<Sum>x < spawned p. weight (status (set_status w (Busy t) p1) x)) + 1 =
      (\<Sum>x < spawned p. weight (status p x)) + 2"
    using weight_set_status [of w p1 "Busy t"] assms(1,2) by (simp add: weight_def p1_def)
  moreover have "spawned p1 = spawned p" by (simp add: p1_def)
  ultimately have "shutdown_steps (set_status w (Busy t) p1) < shutdown_steps p"
    by (simp add: shutdown_steps_def del: set_status_simps(12))
  then show ?thesis by (simp add: p')
qed

lemma stopped_step_shrinks:
  assumes ok: "pool_ok p" and stop: "stop p" and step: "pool_step now p p'"
  shows "shutdown_steps p' < shutdown_steps p"
proof -
  have acc: "\<not> accepting p" and heap: "is_heap fst (tasks p)" and so: "stop_ok p"
    using ok stop by (auto simp: pool_ok_def stop_ok_def tasks_ok_def)
  from step show ?thesis
  proof cases
    case (enter w)
    then show ?thesis
      using leave_or_take_shrinks [of w p] stop heap by (simp add: enter_loop_def weight_def)
  next
    case (woken w)
    then show ?thesis using leave_or_take_shrinks [of w p] stop heap by (simp add: weight_def)
  next
    case (finished w t)
    define p1 where "p1 = p\<lparr>executed := executed p @ [t]\<rparr>"
    have "shutdown_steps (set_status w Looping p1) < shutdown_steps p1"
      by (rule shutdown_set_status) (use finished in \<open>simp_all add: p1_def weight_def\<close>)
    moreover have "to_join p1 = to_join p" by (rule to_join_cong) (simp_all add: p1_def)
    then have "shutdown_steps p1 = shutdown_steps p" by (simp add: shutdown_steps_def p1_def)
    ultimately show ?thesis using finished by (simp add: finish_task_def p1_def)
  next
    case swap
    then show ?thesis by (simp add: shutdown_steps_def to_join_def swap_workers_def)
  next
    case join
    then show ?thesis
      by (auto simp: shutdown_steps_def to_join_def split: stopper.splits list.splits if_splits)
  qed (use acc stop in \<open>auto simp: submit_impl_def wait_over_def wait_and_stop_def stop_immediately_def\<close>)
qed

lemma stopped_pool_progress:
  assumes ok: "pool_ok p" and stop: "stop p" and open': "stopper p \<noteq> Stopped"
  shows "\<exists>p'. pool_step now p p'"
proof (cases "stopper p")
  case Marked
  then show ?thesis using pool_step.swap by blast
next
  case (Joining ds rs)
  have th: "threads_ok p" using ok by (simp add: pool_ok_def)
  show ?thesis
  proof (cases rs)
    case Nil
    then have "join_next p = Some (p\<lparr>stopper := Stopped\<rparr>)" using Joining by simp
    then show ?thesis using pool_step.join by blast
  next
    case (Cons w ws)
    have w: "w < spawned p" using th Joining Cons by (auto simp: threads_ok_def held_def)
    show ?thesis
    proof (cases "status p w")
      case Exited
      then have "join_next p = Some (p\<lparr>stopper := Joining (ds @ [w]) ws\<rparr>)" using Joining Cons by simp
      then show ?thesis using pool_step.join by blast
    next
      case Waiting
      then show ?thesis using w stop pool_step.woken [of w p now] by (auto simp: wait_over_def)
    qed (use w in \<open>auto intro: pool_step.enter pool_step.finished\<close>)
  qed
qed (use ok stop open' in \<open>auto simp: pool_ok_def stop_ok_def\<close>)

lemma stopped_step:
  "pool_reaches now c m p \<Longrightarrow> stop p \<Longrightarrow> pool_step now p q \<Longrightarrow> pool_reaches now c m q \<and> stop q"
  using pool_reaches_ok [of now c m p] pool_reaches_ok [of now c m q] pool_step_keeps [of now p q]
  by (auto simp: pool_ok_def stop_ok_def intro: pool_next)

lemma shutdown_bounded:
  "(pool_step now ^^ n) p q \<Longrightarrow> pool_reaches now c m p \<Longrightarrow> stop p \<Longrightarrow>
    n + shutdown_steps q \<le> shutdown_steps p \<and> pool_reaches now c m q \<and> stop q"
proof (induction n arbitrary: q)
  case (Suc n)
  then obtain r where r: "(pool_step now ^^ n) p r" "pool_step now r q" by (auto elim: relpowp_Suc_E)
  have ih: "n + shutdown_steps r \<le> shutdown_steps p" "pool_reaches now c m r" "stop r"
    using Suc.IH [OF r(1)] Suc.prems(2,3) by auto
  have "shutdown_steps q < shutdown_steps r"
    using stopped_step_shrinks r(2) ih(2,3) pool_reaches_ok by blast
  then show ?case using ih stopped_step [OF ih(2,3) r(2)] by simp
qed simp


section \<open>Runs\<close>

text \<open>A pool of one thread that may grow to two, three tasks, and a graceful stop.\<close>

definition example_pool :: "pool option" where
  "example_pool = schedule [Submit 5, Submit 1, Enter 0, Submit 3, Enter 1] (ThreadPool 1 2)"

definition example_stop :: "pool option" where
  "example_stop = schedule [Stop_Gracefully, Finish 0, Swap_Out, Enter 0, Finish 1, Finish 0, Enter 0, Enter 1,
     Join_Next, Join_Next, Join_Next] example_pool"

lemma some_the: "\<not> Option.is_none x \<Longrightarrow> x = Some (the x)"
  by (cases x) simp_all

lemma example_reaches: "pool_reaches False 1 2 (the example_pool)"
proof -
  have "schedule [Submit 5, Submit 1, Enter 0, Submit 3, Enter 1] (ThreadPool 1 2) = Some (the example_pool)"
    unfolding example_pool_def by (rule some_the) code_simp
  then show ?thesis by (rule schedule_new) simp
qed

lemma example_stop_reaches: "pool_reaches False 1 2 (the example_stop)"
proof -
  have "Some (the example_pool) = example_pool" by (rule some_the [symmetric]) code_simp
  moreover have "example_stop = Some (the example_stop)" by (rule some_the) code_simp
  ultimately have "schedule [Stop_Gracefully, Finish 0, Swap_Out, Enter 0, Finish 1, Finish 0, Enter 0, Enter 1,
      Join_Next, Join_Next, Join_Next] (Some (the example_pool)) = Some (the example_stop)"
    unfolding example_stop_def by simp
  then show ?thesis by (rule schedule_reaches [OF _ _ example_reaches]) simp
qed

theorem thread_count_stays_within_bounds_witness: "1 \<le> active_threads (the example_pool) \<and> active_threads (the example_pool) \<le> 2"
proof -
  have "\<not> stop (the example_pool)" by code_simp
  then show ?thesis using thread_count_stays_within_bounds [OF example_reaches] by simp
qed

theorem stopped_pool_has_run_everything_witness:
  "mset (executed (the example_stop)) = mset (submitted (the example_stop)) \<and> submitted (the example_stop) = [0, 1, 2]"
proof -
  have "stopper (the example_stop) = Stopped" "submitted (the example_stop) = [0, 1, 2]" by code_simp+
  then show ?thesis using stopped_pool_has_run_everything [OF example_stop_reaches] by simp
qed

theorem stopped_pool_refuses_tasks_witness:
  "submit_impl 0 (the example_stop) = None \<and> stop_immediately (the example_stop) = None"
proof -
  have "stop (the example_stop)" by code_simp
  then show ?thesis using stopped_pool_refuses_tasks [OF example_stop_reaches] by blast
qed

theorem most_urgent_task_first_witness:
  "\<exists>p. pool_reaches False 1 2 p \<and> (\<exists>a t. status (enter_loop 0 p) 0 = Busy t \<and> (\<forall>(b, u) \<in> set (tasks p). a \<le> b))"
proof -
  define p where "p = the (schedule [Submit 5, Submit 1] (ThreadPool 1 2))"
  have s: "schedule [Submit 5, Submit 1] (ThreadPool 1 2) = Some p"
    unfolding p_def by (rule some_the) code_simp
  have r: "pool_reaches False 1 2 p" by (rule schedule_new [OF s]) simp
  have "status p 0 = Looping" "tasks p \<noteq> []" unfolding p_def by code_simp+
  then show ?thesis using r most_urgent_task_first [OF r] by blast
qed


section \<open>Observations\<close>

text \<open>
  Priorities are any integers and the smallest comes first, so a negative one overtakes priority 0,
  which the documentation of \<^verbatim>\<open>submit\<close> calls the highest.
\<close>

lemma negative_priority_overtakes_zero:
  "map_option (\<lambda>p. snd (hd (tasks p))) (schedule [Submit 0, Submit (- 1)] (ThreadPool 1 1)) = Some 1"
  by code_simp

text \<open>
  The test of the priorities submits tasks of priority 10, 0 and 5 to a pool of one thread, waits
  for all and checks that they ran in the order of urgency. It passes when the thread is late, but
  when the thread takes the first task before the others are there, it fails.
\<close>

definition test_priority_ordering :: "pool \<Rightarrow> bool" where
  "test_priority_ordering p \<longleftrightarrow> executed p = [1, 2, 0]"

lemma priority_test_passes:
  "map_option test_priority_ordering (schedule
     [Submit 10, Submit 0, Submit 5, Enter 0, Finish 0, Enter 0, Finish 0, Enter 0, Finish 0] (ThreadPool 1 1)) = Some True"
  by code_simp

lemma priority_test_may_fail:
  "map_option test_priority_ordering (schedule
     [Submit 10, Enter 0, Submit 0, Submit 5, Finish 0, Enter 0, Finish 0, Enter 0, Finish 0] (ThreadPool 1 1)) = Some False"
  by code_simp

end
