(* ===== verification/Pool_Futures.thy ===== *)
theory Pool_Futures
  imports Thread_Pool Multiset_Facts
begin

text \<open>
  The part of \<^verbatim>\<open>thread_pool/ThreadPool.h\<close> that the users of the pool see: a task is a
  \<^verbatim>\<open>std::packaged_task\<close> around a call, and \<^verbatim>\<open>submit\<close> returns the \<^verbatim>\<open>std::future\<close> of its result. The pool
  is that of \<^theory_text>\<open>Thread_Pool\<close>; here its tasks have bodies that work on a shared memory, its futures are
  states of their own, and the threads that use the pool run programs: the commands that the tests
  of \<^verbatim>\<open>thread_pool/main.cpp\<close> consist of. A body takes effect at one point between the moment a worker
  takes its task and the moment it is done with it, which is all that the bodies of the tests need:
  each has one atomic operation or one section under a mutex.
\<close>

section \<open>Tasks and futures\<close>

datatype ret = Void | Number int | Text string

datatype exn = Runtime_Error string | Broken_Promise

datatype outcome = Return ret | Throw exn

text \<open>The shared state of a future and its \<^verbatim>\<open>packaged_task\<close>.\<close>

datatype shared_state = Pending | Ready outcome

record memory =
  counter :: int
  order :: "int list"

type_synonym body = "memory \<Rightarrow> outcome \<times> memory"

text \<open>
  The variables of a thread that uses the pool: the futures it keeps, the tasks whose future it
  threw away, what its calls of \<^verbatim>\<open>get\<close> returned or threw, the refused submissions it caught, and
  the numbers it read.
\<close>

record locals =
  handles :: "nat list"
  discarded :: "nat list"
  replies :: "outcome list"
  caught :: "exn list"
  seen :: "nat list"

datatype command =
    Submit_Task int body
  | Try_Submit int body
  | Get_Future nat
  | Try_Get nat
  | Start_Thread "command list"
  | Join_Thread nat
  | Stop_Waiting
  | Stop_At_Once
  | Destroy
  | Sleep
  | Query "pool \<Rightarrow> memory \<Rightarrow> nat"
  | Check "pool \<Rightarrow> memory \<Rightarrow> locals \<Rightarrow> bool"

text \<open>
  A thread of the program: \<open>pc\<close> counts the commands it has completed, and \<open>joining\<close> says that it is
  inside a call that stops the pool, past the locked section.
\<close>

record client =
  program :: "command list"
  pc :: nat
  joining :: bool
  vars :: locals

record world =
  threadpool :: pool
  bodies :: "body list"
  future :: "nat \<Rightarrow> shared_state"
  memory :: memory
  clients :: "client list"
  test_ok :: bool
  aborted :: bool

text \<open>\<open>aborted\<close>: an exception left a thread's function and \<^verbatim>\<open>std::terminate\<close> ended the program.\<close>

section \<open>Operations\<close>

definition no_locals :: locals where
  "no_locals = \<lparr>handles = [], discarded = [], replies = [], caught = [], seen = []\<rparr>"

definition new_client :: "command list \<Rightarrow> client" where
  "new_client cs = \<lparr>program = cs, pc = 0, joining = False, vars = no_locals\<rparr>"

text \<open>The command is complete: the thread's variables change by \<open>f\<close>.\<close>

definition complete :: "nat \<Rightarrow> (locals \<Rightarrow> locals) \<Rightarrow> world \<Rightarrow> world" where
  "complete i f w = w\<lparr>clients := (clients w)[i := (clients w ! i)
     \<lparr>pc := pc (clients w ! i) + 1, joining := False, vars := f (vars (clients w ! i))\<rparr>]\<rparr>"

definition enter_stop :: "nat \<Rightarrow> world \<Rightarrow> world" where
  "enter_stop i w = w\<lparr>clients := (clients w)[i := (clients w ! i)\<lparr>joining := True\<rparr>]\<rparr>"

text \<open>\<^verbatim>\<open>submit_impl\<close> with the task it wraps; \<^term>\<open>None\<close> is its exception.\<close>

definition submit_body :: "int \<Rightarrow> body \<Rightarrow> world \<Rightarrow> (nat \<times> world) option" where
  "submit_body a b w =
     (case submit_impl a (threadpool w) of
        None \<Rightarrow> None
      | Some p \<Rightarrow> Some (length (submitted (threadpool w)),
          w\<lparr>threadpool := p, bodies := bodies w @ [b],
            future := (future w)(length (submitted (threadpool w)) := Pending)\<rparr>))"

definition shutting_down :: string where
  "shutting_down = ''ThreadPool: cannot submit '' @ [CHR 0xE2, CHR 0x80, CHR 0x94] @ '' pool is shutting down''"

text \<open>
  The locked sections of the three ways to stop. A task that is dropped takes its promise with it:
  its future becomes ready with a broken promise.
\<close>

definition break_promises :: "(int \<times> nat) list \<Rightarrow> (nat \<Rightarrow> shared_state) \<Rightarrow> nat \<Rightarrow> shared_state" where
  "break_promises ts fut = (\<lambda>t. if t \<in> set (map snd ts) then Ready (Throw Broken_Promise) else fut t)"

fun stop_call :: "command \<Rightarrow> pool \<Rightarrow> pool option" where
  "stop_call Stop_Waiting p = wait_and_stop p"
| "stop_call Stop_At_Once p = stop_immediately p"
| "stop_call Destroy p = destroy_pool p"
| "stop_call _ p = None"

definition stop_futures :: "command \<Rightarrow> (int \<times> nat) list \<Rightarrow> (nat \<Rightarrow> shared_state) \<Rightarrow> nat \<Rightarrow> shared_state" where
  "stop_futures cmd ts fut = (case cmd of Stop_Waiting \<Rightarrow> fut | _ \<Rightarrow> break_promises ts fut)"

definition stop_world :: "command \<Rightarrow> world \<Rightarrow> world option" where
  "stop_world cmd w =
     (case stop_call cmd (threadpool w) of
        None \<Rightarrow> None
      | Some p \<Rightarrow> Some (w\<lparr>threadpool := p,
          future := stop_futures cmd (tasks (threadpool w)) (future w)\<rparr>))"

text \<open>\<^verbatim>\<open>future::get\<close>: \<^term>\<open>None\<close> while it waits, or for a future that the thread does not have.\<close>

definition get_future :: "world \<Rightarrow> client \<Rightarrow> nat \<Rightarrow> outcome option" where
  "get_future w c k =
     (if k < length (handles (vars c)) then
        (case future w (handles (vars c) ! k) of Pending \<Rightarrow> None | Ready r \<Rightarrow> Some r)
      else None)"

definition finished :: "client \<Rightarrow> bool" where
  "finished c \<longleftrightarrow> pc c = length (program c)"

fun run_command :: "nat \<Rightarrow> command \<Rightarrow> world \<Rightarrow> world option" where
  "run_command i (Submit_Task a b) w =
     (case submit_body a b w of
        None \<Rightarrow> Some (w\<lparr>aborted := True\<rparr>)
      | Some (t, w') \<Rightarrow> Some (complete i (\<lambda>v. v\<lparr>handles := handles v @ [t]\<rparr>) w'))"
| "run_command i (Try_Submit a b) w =
     (case submit_body a b w of
        None \<Rightarrow> Some (complete i (\<lambda>v. v\<lparr>caught := caught v @ [Runtime_Error shutting_down]\<rparr>) w)
      | Some (t, w') \<Rightarrow> Some (complete i (\<lambda>v. v\<lparr>discarded := discarded v @ [t]\<rparr>) w'))"
| "run_command i (Get_Future k) w =
     (case get_future w (clients w ! i) k of
        None \<Rightarrow> None
      | Some (Throw e) \<Rightarrow> Some (w\<lparr>aborted := True\<rparr>)
      | Some r \<Rightarrow> Some (complete i (\<lambda>v. v\<lparr>replies := replies v @ [r]\<rparr>) w))"
| "run_command i (Try_Get k) w =
     (case get_future w (clients w ! i) k of
        None \<Rightarrow> None
      | Some r \<Rightarrow> Some (complete i (\<lambda>v. v\<lparr>replies := replies v @ [r]\<rparr>) w))"
| "run_command i (Start_Thread cs) w =
     Some (let w' = complete i id w in w'\<lparr>clients := clients w' @ [new_client cs]\<rparr>)"
| "run_command i (Join_Thread j) w =
     (if j < length (clients w) \<and> finished (clients w ! j) then Some (complete i id w) else None)"
| "run_command i Sleep w = Some (complete i id w)"
| "run_command i (Query q) w =
     Some (complete i (\<lambda>v. v\<lparr>seen := seen v @ [q (threadpool w) (memory w)]\<rparr>) w)"
| "run_command i (Check ok) w =
     Some (complete i id
       (if ok (threadpool w) (memory w) (vars (clients w ! i)) then w else w\<lparr>test_ok := False\<rparr>))"
| "run_command i cmd w =
     (if joining (clients w ! i) then
        if stopper (threadpool w) = Stopped then Some (complete i id w) else None
      else
        case stop_world cmd w of None \<Rightarrow> Some (complete i id w) | Some w' \<Rightarrow> Some (enter_stop i w'))"

text \<open>A worker is done with the task it took: the body has run and its future is ready.\<close>

definition run_body :: "nat \<Rightarrow> nat \<Rightarrow> world \<Rightarrow> world" where
  "run_body x t w =
     (let (r, m) = (bodies w ! t) (memory w) in
      w\<lparr>threadpool := finish_task x t (threadpool w), future := (future w)(t := Ready r), memory := m\<rparr>)"

section \<open>Interleaving\<close>

text \<open>
  What happens next: a thread runs its next command, a worker's body completes, or the pool makes a
  step that belongs to no command (a worker at its loop, or the joins of a call that stops it).
\<close>

datatype choice = Client nat | Body nat | Worker pool_action

definition background :: "pool_action \<Rightarrow> bool" where
  "background a = (case a of Enter x \<Rightarrow> True | Wake x \<Rightarrow> True | Time_Out x \<Rightarrow> True
     | Swap_Out \<Rightarrow> True | Join_Next \<Rightarrow> True | _ \<Rightarrow> False)"

fun world_do :: "choice \<Rightarrow> world \<Rightarrow> world option" where
  "world_do ch w =
     (if aborted w then None
      else case ch of
        Client i \<Rightarrow>
          if i < length (clients w) \<and> \<not> finished (clients w ! i)
          then run_command i (program (clients w ! i) ! pc (clients w ! i)) w else None
      | Body x \<Rightarrow>
          (case status (threadpool w) x of
             Busy t \<Rightarrow> if x < spawned (threadpool w) then Some (run_body x t w) else None
           | _ \<Rightarrow> None)
      | Worker a \<Rightarrow>
          if background a then map_option (\<lambda>p. w\<lparr>threadpool := p\<rparr>) (perform a (threadpool w)) else None)"

definition world_step :: "world \<Rightarrow> world \<Rightarrow> bool" where
  "world_step w w' \<longleftrightarrow> (\<exists>ch. world_do ch w = Some w')"

definition start_test :: "pool \<Rightarrow> command list \<Rightarrow> world" where
  "start_test p cs = \<lparr>threadpool = p, bodies = [], future = (\<lambda>_. Pending),
     memory = \<lparr>counter = 0, order = []\<rparr>, clients = [new_client cs], test_ok = True, aborted = False\<rparr>"

inductive test_reaches :: "nat \<Rightarrow> nat \<Rightarrow> command list \<Rightarrow> world \<Rightarrow> bool" for c m cs where
  test_new: "ThreadPool c m = Some p \<Longrightarrow> test_reaches c m cs (start_test p cs)"
| test_next: "test_reaches c m cs w \<Longrightarrow> world_step w w' \<Longrightarrow> test_reaches c m cs w'"

fun world_run :: "choice list \<Rightarrow> world \<Rightarrow> world option" where
  "world_run [] w = Some w"
| "world_run (ch # chs) w = (case world_do ch w of None \<Rightarrow> None | Some w' \<Rightarrow> world_run chs w')"

lemma world_run_reaches:
  "world_run chs w = Some w' \<Longrightarrow> test_reaches c m cs w \<Longrightarrow> test_reaches c m cs w'"
proof (induction chs arbitrary: w)
  case (Cons ch chs)
  then obtain v where v: "world_do ch w = Some v" "world_run chs v = Some w'"
    by (cases "world_do ch w") (simp_all del: world_do.simps)
  then have "world_step w v" unfolding world_step_def by blast
  then show ?case using Cons.IH [OF v(2)] Cons.prems(2) test_next by blast
qed simp

section \<open>What a step does to the tasks\<close>

definition task_side :: "world \<Rightarrow> pool \<times> body list \<times> (nat \<Rightarrow> shared_state) \<times> memory" where
  "task_side w = (threadpool w, bodies w, future w, memory w)"

lemma complete_simps [simp]:
  "threadpool (complete i f w) = threadpool w" "bodies (complete i f w) = bodies w"
  "future (complete i f w) = future w" "memory (complete i f w) = memory w"
  "test_ok (complete i f w) = test_ok w" "aborted (complete i f w) = aborted w"
  "length (clients (complete i f w)) = length (clients w)"
  "threadpool (enter_stop i w) = threadpool w" "bodies (enter_stop i w) = bodies w"
  "future (enter_stop i w) = future w" "memory (enter_stop i w) = memory w"
  "test_ok (enter_stop i w) = test_ok w" "aborted (enter_stop i w) = aborted w"
  "length (clients (enter_stop i w)) = length (clients w)"
  by (simp_all add: complete_def enter_stop_def)

text \<open>The three commands that stop the pool share one rule.\<close>

definition stops :: "command \<Rightarrow> bool" where
  "stops cmd = (case cmd of Stop_Waiting \<Rightarrow> True | Stop_At_Once \<Rightarrow> True | Destroy \<Rightarrow> True | _ \<Rightarrow> False)"

lemma run_stop:
  "stops cmd \<Longrightarrow> run_command i cmd w =
    (if joining (clients w ! i) then
       if stopper (threadpool w) = Stopped then Some (complete i id w) else None
     else case stop_world cmd w of None \<Rightarrow> Some (complete i id w) | Some w' \<Rightarrow> Some (enter_stop i w'))"
  by (cases cmd) (simp_all add: stops_def)

lemma stop_callD:
  assumes "stop_call cmd p = Some q"
  shows "stops cmd \<and> (cmd = Stop_Waiting \<and> wait_and_stop p = Some q \<or> cmd \<noteq> Stop_Waiting \<and> stop_immediately p = Some q)"
  using assms by (cases cmd) (auto simp: stops_def destroy_pool_def split: if_splits)

lemma task_side_complete [simp]:
  "task_side (complete i f w) = task_side w" "task_side (enter_stop i w) = task_side w"
  "task_side (w\<lparr>clients := cs\<rparr>) = task_side w" "task_side (w\<lparr>test_ok := b\<rparr>) = task_side w"
  by (simp_all add: task_side_def)

lemma run_command_quiet:
  assumes "run_command i cmd w = Some w'" "\<not> stops cmd"
    "\<And>a b. cmd \<noteq> Submit_Task a b" "\<And>a b. cmd \<noteq> Try_Submit a b"
  shows "task_side w' = task_side w"
  using assms
  by (cases cmd) (auto simp: stops_def task_side_def Let_def split: if_splits option.splits outcome.splits)

lemma run_submit:
  assumes "run_command i cmd w = Some w'" "cmd = Submit_Task a b \<or> cmd = Try_Submit a b"
  shows "(\<exists>t v. submit_body a b w = Some (t, v) \<and> task_side w' = task_side v) \<or> task_side w' = task_side w"
  using assms by (cases "submit_body a b w") (auto simp: task_side_def)

lemma run_command_tasks:
  assumes "run_command i cmd w = Some w'"
  obtains (submit) a b t v where "submit_body a b w = Some (t, v)" "task_side w' = task_side v"
    | (stop) v where "stop_world cmd w = Some v" "task_side w' = task_side v"
    | (same) "task_side w' = task_side w"
proof (cases "stops cmd")
  case True
  note r = run_stop [OF True, of i w]
  show ?thesis
  proof (cases "joining (clients w ! i)")
    case True
    then show ?thesis using assms r by (intro same) (auto split: if_splits)
  next
    case False
    show ?thesis
    proof (cases "stop_world cmd w")
      case None
      then show ?thesis using assms r False by (intro same) auto
    next
      case (Some v)
      show ?thesis by (rule stop [OF Some]) (use assms r False Some in auto)
    qed
  qed
next
  case False
  show ?thesis
  proof (cases "\<exists>a b. cmd = Submit_Task a b \<or> cmd = Try_Submit a b")
    case True
    then show ?thesis using run_submit [OF assms] submit same by blast
  next
    case none: False
    show ?thesis by (rule same, rule run_command_quiet [OF assms False]) (use none in auto)
  qed
qed

lemma world_do_tasks:
  assumes "world_do ch w = Some w'"
  obtains (submit) a b t v where "submit_body a b w = Some (t, v)" "task_side w' = task_side v"
    | (stop) cmd v where "stop_world cmd w = Some v" "task_side w' = task_side v"
    | (run) x t where "x < spawned (threadpool w)" "status (threadpool w) x = Busy t" "w' = run_body x t w"
    | (worker) a p where "background a" "perform a (threadpool w) = Some p" "w' = w\<lparr>threadpool := p\<rparr>"
    | (same) "task_side w' = task_side w"
proof (cases ch)
  case (Client i)
  then have "run_command i (program (clients w ! i) ! pc (clients w ! i)) w = Some w'"
    using assms by (auto split: if_splits)
  then show ?thesis
    by (rule run_command_tasks) ((erule (1) submit | erule (1) stop | erule same)+)
next
  case (Body x)
  then show ?thesis using assms run by (auto split: if_splits worker.splits)
next
  case (Worker a)
  then show ?thesis using assms worker by (auto split: if_splits)
qed

lemma stop_futures_if:
  "stop_futures cmd ts fut = (if cmd = Stop_Waiting then fut else break_promises ts fut)"
  by (cases cmd) (simp_all add: stop_futures_def)

lemma submit_bodyD:
  assumes "submit_body a b w = Some (t, v)"
  obtains p where "submit_impl a (threadpool w) = Some p" "t = length (submitted (threadpool w))"
    "v = w\<lparr>threadpool := p, bodies := bodies w @ [b], future := (future w)(t := Pending)\<rparr>"
proof (cases "submit_impl a (threadpool w)")
  case (Some p)
  show ?thesis by (rule that [OF Some]) (use assms Some in \<open>auto simp: submit_body_def\<close>)
qed (use assms in \<open>simp add: submit_body_def\<close>)

lemma stop_worldD:
  assumes "stop_world cmd w = Some v"
  obtains p where "stop_call cmd (threadpool w) = Some p"
    "v = w\<lparr>threadpool := p, future := stop_futures cmd (tasks (threadpool w)) (future w)\<rparr>"
proof (cases "stop_call cmd (threadpool w)")
  case (Some p)
  show ?thesis by (rule that [OF Some]) (use assms Some in \<open>auto simp: stop_world_def\<close>)
qed (use assms in \<open>simp add: stop_world_def\<close>)

lemma run_body_simps [simp]:
  "threadpool (run_body x t w) = finish_task x t (threadpool w)" "bodies (run_body x t w) = bodies w"
  "future (run_body x t w) = (future w)(t := Ready (fst ((bodies w ! t) (memory w))))"
  "memory (run_body x t w) = snd ((bodies w ! t) (memory w))"
  "clients (run_body x t w) = clients w" "test_ok (run_body x t w) = test_ok w"
  "aborted (run_body x t w) = aborted w"
  by (simp_all add: run_body_def split_beta Let_def)

lemma world_do_pool:
  assumes "world_do ch w = Some w'"
  shows "threadpool w' = threadpool w \<or> pool_step True (threadpool w) (threadpool w')"
  using assms
proof (cases rule: world_do_tasks)
  case (submit a b t v)
  obtain p where "submit_impl a (threadpool w) = Some p" "threadpool v = p"
    by (rule submit_bodyD [OF submit(1)]) simp
  then show ?thesis using submit(2) pool_step.submit_task [of a "threadpool w" p True] by (simp add: task_side_def)
next
  case (stop cmd v)
  obtain p where "stop_call cmd (threadpool w) = Some p" "threadpool v = p"
    by (rule stop_worldD [OF stop(1)]) simp
  moreover have "threadpool w' = threadpool v" using stop(2) by (simp add: task_side_def)
  moreover have "pool_step True (threadpool w) p" if "stop_call cmd (threadpool w) = Some p"
    using stop_callD [OF that] by (auto intro: pool_step.graceful pool_step.immediate)
  ultimately show ?thesis by simp
next
  case (run x t)
  then show ?thesis using pool_step.finished [of x "threadpool w" t True] by simp
next
  case (worker a p)
  then show ?thesis using perform_step [of a "threadpool w" p True] by simp
qed (simp add: task_side_def)

lemma test_reaches_pool: "test_reaches c m cs w \<Longrightarrow> pool_reaches True c m (threadpool w)"
proof (induction rule: test_reaches.induct)
  case (test_new p)
  then show ?case by (simp add: start_test_def pool_new)
next
  case (test_next w w')
  then show ?case using world_do_pool unfolding world_step_def by (metis pool_next)
qed

lemma test_pool_ok: "test_reaches c m cs w \<Longrightarrow> pool_ok (threadpool w)"
  using test_reaches_pool pool_reaches_ok by blast

section \<open>The results of the tasks\<close>

text \<open>
  The reference: the bodies run one after the other, in the order in which the pool finished them.
\<close>

fun outcomes :: "body list \<Rightarrow> nat list \<Rightarrow> memory \<Rightarrow> (nat \<times> outcome) list" where
  "outcomes bs [] m = []"
| "outcomes bs (t # ts) m = (t, fst ((bs ! t) m)) # outcomes bs ts (snd ((bs ! t) m))"

fun final_memory :: "body list \<Rightarrow> nat list \<Rightarrow> memory \<Rightarrow> memory" where
  "final_memory bs [] m = m"
| "final_memory bs (t # ts) m = final_memory bs ts (snd ((bs ! t) m))"

definition empty_memory :: memory where
  "empty_memory = \<lparr>counter = 0, order = []\<rparr>"

text \<open>What the future of a task has to be, from the history of the pool.\<close>

definition expected_future :: "body list \<Rightarrow> pool \<Rightarrow> nat \<Rightarrow> shared_state" where
  "expected_future bs p t =
     (case map_of (outcomes bs (executed p) empty_memory) t of
        Some r \<Rightarrow> Ready r
      | None \<Rightarrow> if t \<in> set (dropped p) then Ready (Throw Broken_Promise) else Pending)"

definition tasks_match :: "world \<Rightarrow> bool" where
  "tasks_match w \<longleftrightarrow> length (bodies w) = length (submitted (threadpool w)) \<and>
     memory w = final_memory (bodies w) (executed (threadpool w)) empty_memory \<and>
     future w = expected_future (bodies w) (threadpool w)"

lemma final_memory_append [simp]:
  "final_memory bs (ts @ us) m = final_memory bs us (final_memory bs ts m)"
  by (induction ts arbitrary: m) simp_all

lemma outcomes_append [simp]:
  "outcomes bs (ts @ us) m = outcomes bs ts m @ outcomes bs us (final_memory bs ts m)"
  by (induction ts arbitrary: m) simp_all

lemma dom_outcomes [simp]: "fst ` set (outcomes bs ts m) = set ts"
  by (induction ts arbitrary: m) auto

lemma map_of_outcomes_None: "map_of (outcomes bs ts m) t = None \<longleftrightarrow> t \<notin> set ts"
  by (simp add: map_of_eq_None_iff)

lemma outcome_of_unexecuted [simp]: "t \<notin> set ts \<Longrightarrow> map_of (outcomes bs ts m) t = None"
  by (simp add: map_of_eq_None_iff)

lemma new_body_unused:
  "\<forall>t \<in> set ts. t < length bs \<Longrightarrow> outcomes (bs @ [b]) ts m = outcomes bs ts m \<and>
    final_memory (bs @ [b]) ts m = final_memory bs ts m"
  by (induction ts arbitrary: m) (simp_all add: nth_append)

text \<open>Where a submitted task is: queued, running, finished or dropped, exactly one of them.\<close>

lemma task_places:
  assumes "pool_ok p"
  shows "count (mset (map snd (tasks p))) t + count (busy p) t + count (mset (executed p)) t +
      count (mset (dropped p)) t = (if t < length (submitted p) then 1 else 0)"
proof -
  define n where "n = length (submitted p)"
  have eq: "submitted p = [0..<n]"
    and ms: "mset (submitted p) = mset (map snd (tasks p)) + busy p + mset (executed p) + mset (dropped p)"
    using assms by (auto simp: pool_ok_def tasks_ok_def n_def)
  have "count (mset (map snd (tasks p)) + busy p + mset (executed p) + mset (dropped p)) t = count (mset [0..<n]) t"
    using ms eq by simp
  moreover have "count (mset [0..<n]) t = (if t < n then 1 else 0)"
    using distinct_count_atmost_1 [of "[0..<n]"] by simp
  ultimately show ?thesis by (simp add: n_def)
qed

lemma busy_count: "x < spawned p \<Longrightarrow> status p x = Busy t \<Longrightarrow> 0 < count (busy p) t"
proof -
  assume a: "x < spawned p" "status p x = Busy t"
  have "busy p = task_of (status p x) + sum (\<lambda>w. task_of (status p w)) ({..<spawned p} - {x})"
    unfolding busy_def by (rule sum.remove) (use a(1) in auto)
  then show ?thesis using a(2) by simp
qed

lemma one_of_four:
  assumes "(a :: nat) + b + c + d = (if P then 1 else 0)"
  shows "0 < a \<Longrightarrow> P \<and> c = 0 \<and> d = 0" "0 < b \<Longrightarrow> P \<and> c = 0 \<and> d = 0" "0 < c \<Longrightarrow> P \<and> d = 0" "0 < d \<Longrightarrow> P"
  using assms by (auto split: if_splits)

lemmas place = one_of_four [OF task_places]

lemma executed_submitted: "pool_ok p \<Longrightarrow> t \<in> set (executed p) \<Longrightarrow> t < length (submitted p) \<and> t \<notin> set (dropped p)"
  using place(3) [of p t] by simp

lemma dropped_submitted: "pool_ok p \<Longrightarrow> t \<in> set (dropped p) \<Longrightarrow> t < length (submitted p)"
  using place(4) [of p t] by simp

lemma busy_fresh:
  assumes "pool_ok p" "x < spawned p" "status p x = Busy t"
  shows "t \<notin> set (executed p) \<and> t \<notin> set (dropped p) \<and> t < length (submitted p)"
  using place(2) [OF assms(1), of t] busy_count [OF assms(2,3)] by simp

lemma queued_fresh:
  assumes "pool_ok p" "t \<in> set (map snd (tasks p))"
  shows "t \<notin> set (executed p) \<and> t \<notin> set (dropped p) \<and> t < length (submitted p)"
proof -
  have "0 < count (mset (map snd (tasks p))) t" using assms(2) by (simp only: count_greater_zero_iff set_mset_mset)
  then show ?thesis using place(1) [OF assms(1), of t] by simp
qed

text \<open>What the steps do to the history of the pool.\<close>

lemma submit_history:
  assumes "submit_impl a p = Some q"
  shows "submitted q = submitted p @ [length (submitted p)]" "executed q = executed p" "dropped q = dropped p"
    "accepting p" "accepting q = accepting p" "stop q = stop p" "stopper q = stopper p"
  using assms by (auto simp: submit_impl_def Let_def split: if_splits)

lemma background_keeps:
  assumes "background a" "perform a p = Some q"
  shows "submitted q = submitted p" "executed q = executed p" "dropped q = dropped p"
    "accepting q = accepting p" "stop q = stop p"
  using assms
  by (cases a; auto simp: background_def pool_op_defs split: if_splits stopper.splits list.splits)+

lemma finish_history [simp]:
  "submitted (finish_task x t p) = submitted p" "executed (finish_task x t p) = executed p @ [t]"
  "dropped (finish_task x t p) = dropped p" "accepting (finish_task x t p) = accepting p"
  "stop (finish_task x t p) = stop p" "stopper (finish_task x t p) = stopper p"
  "tasks (finish_task x t p) = tasks p"
  by (simp_all add: finish_task_def)

lemma stop_history:
  assumes "stop_call cmd p = Some q"
  shows "submitted q = submitted p" "executed q = executed p"
    "dropped q = dropped p @ (if cmd = Stop_Waiting then [] else map snd (tasks p))"
    "\<not> accepting q" "stop q" "stopper q = Marked" "workers q = workers p"
  using stop_callD [OF assms]
  by (force simp: wait_and_stop_def stop_immediately_def split: if_splits)+

lemma expected_cong:
  "executed q = executed p \<Longrightarrow> dropped q = dropped p \<Longrightarrow> expected_future bs q = expected_future bs p"
  by (simp add: expected_future_def fun_eq_iff)

lemma outcome_of_executed:
  assumes "t \<in> set ts"
  obtains r where "map_of (outcomes bs ts m) t = Some r"
  using assms map_of_outcomes_None [of bs ts m t] by (cases "map_of (outcomes bs ts m) t") auto

lemma expected_unfinished:
  "t \<notin> set (executed p) \<Longrightarrow> expected_future bs p t = (if t \<in> set (dropped p) then Ready (Throw Broken_Promise) else Pending)"
  by (simp add: expected_future_def)

lemma expected_pending: "expected_future bs p t = Pending \<longleftrightarrow> t \<notin> set (executed p) \<and> t \<notin> set (dropped p)"
proof (cases "t \<in> set (executed p)")
  case True
  then show ?thesis
    by (elim outcome_of_executed [of t "executed p" bs empty_memory]) (simp add: expected_future_def True)
qed (simp add: expected_unfinished)

lemma tasks_match_side: "task_side w' = task_side w \<Longrightarrow> tasks_match w' = tasks_match w"
  by (simp add: task_side_def tasks_match_def)

lemma expected_finish:
  assumes "pool_ok p" "x < spawned p" "status p x = Busy t"
  shows "expected_future bs (finish_task x t p) =
    (expected_future bs p)(t := Ready (fst ((bs ! t) (final_memory bs (executed p) empty_memory))))"
proof
  fix u
  have out: "outcomes bs (executed p @ [t]) empty_memory = outcomes bs (executed p) empty_memory @
      [(t, fst ((bs ! t) (final_memory bs (executed p) empty_memory)))]" by simp
  show "expected_future bs (finish_task x t p) u =
    ((expected_future bs p)(t := Ready (fst ((bs ! t) (final_memory bs (executed p) empty_memory))))) u"
  proof (cases "u \<in> set (executed p)")
    case True
    then obtain r where "map_of (outcomes bs (executed p) empty_memory) u = Some r" by (rule outcome_of_executed)
    then show ?thesis using busy_fresh [OF assms] True by (auto simp: expected_future_def out map_add_Some_iff)
  next
    case False
    then show ?thesis using expected_unfinished [OF False, of bs]
      expected_unfinished [of u "finish_task x t p" bs]
      by (cases "u = t") (simp_all add: expected_future_def out map_add_def)
  qed
qed

lemma expected_drop:
  assumes "pool_ok p" "executed q = executed p" "dropped q = dropped p @ map snd (tasks p)"
  shows "expected_future bs q = break_promises (tasks p) (expected_future bs p)"
proof
  fix u
  show "expected_future bs q u = break_promises (tasks p) (expected_future bs p) u"
  proof (cases "u \<in> set (executed p)")
    case True
    then have "u \<notin> set (map snd (tasks p))" using queued_fresh [OF assms(1)] by blast
    with True show ?thesis
      by (elim outcome_of_executed [of u "executed p" bs empty_memory])
        (simp add: expected_future_def break_promises_def assms(2))
  next
    case False
    then show ?thesis
      using expected_unfinished [OF False, of bs] expected_unfinished [of u q bs] assms(2,3)
      by (simp add: break_promises_def)
  qed
qed

lemma expected_submit:
  assumes ok: "pool_ok p" and len: "length bs = length (submitted p)" and sub: "submit_impl a p = Some q"
  shows "expected_future (bs @ [b]) q = (expected_future bs p)(length bs := Pending)"
    "final_memory (bs @ [b]) (executed q) empty_memory = final_memory bs (executed p) empty_memory"
proof -
  have ex: "\<forall>t \<in> set (executed p). t < length bs" using executed_submitted [OF ok] len by simp
  have new: "length bs \<notin> set (executed p)" "length bs \<notin> set (dropped p)"
    using ex dropped_submitted [OF ok] len by auto
  note h = submit_history [OF sub] and eq = new_body_unused [OF ex, of b empty_memory]
  show "expected_future (bs @ [b]) q = (expected_future bs p)(length bs := Pending)"
    using new eq h by (auto simp: expected_future_def fun_eq_iff split: option.splits)
  show "final_memory (bs @ [b]) (executed q) empty_memory = final_memory bs (executed p) empty_memory"
    using eq h by simp
qed

lemma tasks_match_step:
  assumes ok: "pool_ok (threadpool w)" and tm: "tasks_match w" and step: "world_do ch w = Some w'"
  shows "tasks_match w'"
  using step
proof (cases rule: world_do_tasks)
  case (submit a b t v)
  obtain p where p: "submit_impl a (threadpool w) = Some p" "t = length (submitted (threadpool w))"
    and v: "v = w\<lparr>threadpool := p, bodies := bodies w @ [b], future := (future w)(t := Pending)\<rparr>"
    by (rule submit_bodyD [OF submit(1)])
  have len: "length (bodies w) = length (submitted (threadpool w))" using tm by (simp add: tasks_match_def)
  have "tasks_match v"
    using expected_submit [OF ok len p(1), of b] tm len submit_history [OF p(1)]
    unfolding tasks_match_def v p(2) by simp
  then show ?thesis using tasks_match_side [OF submit(2)] by simp
next
  case (stop cmd v)
  obtain p where p: "stop_call cmd (threadpool w) = Some p"
    and v: "v = w\<lparr>threadpool := p, future := stop_futures cmd (tasks (threadpool w)) (future w)\<rparr>"
    by (rule stop_worldD [OF stop(1)])
  have "tasks_match v"
    using tm stop_history [OF p] expected_drop [OF ok, of p "bodies w"] expected_cong [of p "threadpool w"]
    unfolding tasks_match_def v stop_futures_if by (cases "cmd = Stop_Waiting") simp_all
  then show ?thesis using tasks_match_side [OF stop(2)] by simp
next
  case (run x t)
  then show ?thesis using tm expected_finish [OF ok run(1,2), of "bodies w"]
    unfolding tasks_match_def by simp
next
  case (worker a p)
  then show ?thesis
    using tm background_keeps [OF worker(1,2)] expected_cong [of p "threadpool w"]
    unfolding tasks_match_def by simp
next
  case same
  then show ?thesis using tm tasks_match_side [OF same] by simp
qed

lemma pool_new_history:
  assumes "ThreadPool c m = Some p"
  shows "submitted p = []" "executed p = []" "dropped p = []" "tasks p = []" "accepting p" "length (workers p) = c"
    "core_threads p = c" "\<forall>x < spawned p. status p x = Looping" "spawned p = c"
proof -
  have p: "p = (add_thread ^^ c) (pool_members c m)" using assms by (auto simp: ThreadPool_def split: if_splits)
  have "submitted ((add_thread ^^ n) (pool_members c m)) = [] \<and> executed ((add_thread ^^ n) (pool_members c m)) = [] \<and>
      dropped ((add_thread ^^ n) (pool_members c m)) = [] \<and> tasks ((add_thread ^^ n) (pool_members c m)) = [] \<and>
      accepting ((add_thread ^^ n) (pool_members c m)) \<and> length (workers ((add_thread ^^ n) (pool_members c m))) = n \<and>
      core_threads ((add_thread ^^ n) (pool_members c m)) = c \<and> spawned ((add_thread ^^ n) (pool_members c m)) = n \<and>
      (\<forall>x < n. status ((add_thread ^^ n) (pool_members c m)) x = Looping)" for n
    by (induction n) (auto simp: pool_members_def less_Suc_eq)
  from this [of c] show "submitted p = []" "executed p = []" "dropped p = []" "tasks p = []" "accepting p"
    "length (workers p) = c" "core_threads p = c" "\<forall>x < spawned p. status p x = Looping" "spawned p = c"
    unfolding p [symmetric] by auto
qed

lemma test_tasks_match: "test_reaches c m cs w \<Longrightarrow> tasks_match w"
proof (induction rule: test_reaches.induct)
  case (test_new p)
  then have "submitted p = []" "executed p = []" "dropped p = []"
    by (rule pool_new_history)+
  then show ?case
    by (simp add: tasks_match_def start_test_def empty_memory_def expected_future_def fun_eq_iff)
next
  case (test_next w w')
  then show ?case using tasks_match_step test_pool_ok unfolding world_step_def by blast
qed

section \<open>Steps only add to what is known\<close>

definition world_le :: "world \<Rightarrow> world \<Rightarrow> bool" where
  "world_le w w' \<longleftrightarrow> (\<exists>bs. bodies w' = bodies w @ bs) \<and>
     (\<forall>t < length (bodies w). future w t \<noteq> Pending \<longrightarrow> future w' t = future w t) \<and>
     (stop (threadpool w) \<longrightarrow> stop (threadpool w'))"

lemma queued_pending:
  assumes "pool_ok (threadpool w)" "tasks_match w" "t \<in> set (map snd (tasks (threadpool w)))"
  shows "future w t = Pending"
  using queued_fresh [OF assms(1,3)] assms(2) expected_unfinished by (simp add: tasks_match_def)

lemma busy_pending:
  assumes "pool_ok (threadpool w)" "tasks_match w" "x < spawned (threadpool w)" "status (threadpool w) x = Busy t"
  shows "future w t = Pending"
  using busy_fresh [OF assms(1,3,4)] assms(2) expected_unfinished by (simp add: tasks_match_def)

lemma world_le_side:
  "world_le w v \<Longrightarrow> task_side w' = task_side v \<Longrightarrow> world_le w w'"
  by (simp add: world_le_def task_side_def)

lemma world_do_le:
  assumes ok: "pool_ok (threadpool w)" and tm: "tasks_match w" and step: "world_do ch w = Some w'"
  shows "world_le w w'"
  using step
proof (cases rule: world_do_tasks)
  case (submit a b t v)
  obtain p where p: "submit_impl a (threadpool w) = Some p" "t = length (submitted (threadpool w))"
    and v: "v = w\<lparr>threadpool := p, bodies := bodies w @ [b], future := (future w)(t := Pending)\<rparr>"
    by (rule submit_bodyD [OF submit(1)])
  have "world_le w v" using tm submit_history [OF p(1)] unfolding v world_le_def tasks_match_def p(2) by simp
  then show ?thesis using submit(2) by (rule world_le_side)
next
  case (stop cmd v)
  obtain p where p: "stop_call cmd (threadpool w) = Some p"
    and v: "v = w\<lparr>threadpool := p, future := stop_futures cmd (tasks (threadpool w)) (future w)\<rparr>"
    by (rule stop_worldD [OF stop(1)])
  have "world_le w v" using queued_pending [OF ok tm] stop_history [OF p]
    unfolding v world_le_def stop_futures_if break_promises_def by auto
  then show ?thesis using stop(2) by (rule world_le_side)
next
  case (run x t)
  then show ?thesis using busy_pending [OF ok tm run(1,2)] by (auto simp: world_le_def)
next
  case (worker a p)
  then show ?thesis using background_keeps [OF worker(1,2)] by (simp add: world_le_def)
next
  case same
  then show ?thesis by (simp add: world_le_def task_side_def)
qed

section \<open>The programs of the threads\<close>

fun task_bodies :: "command list \<Rightarrow> body list" where
  "task_bodies [] = []"
| "task_bodies (Submit_Task a b # cs) = b # task_bodies cs"
| "task_bodies (_ # cs) = task_bodies cs"

fun gets :: "command list \<Rightarrow> nat list" where
  "gets [] = []"
| "gets (Get_Future k # cs) = k # gets cs"
| "gets (Try_Get k # cs) = k # gets cs"
| "gets (_ # cs) = gets cs"

fun started :: "command list \<Rightarrow> command list list" where
  "started [] = []"
| "started (Start_Thread d # cs) = d # started cs"
| "started (_ # cs) = started cs"

fun tries :: "command list \<Rightarrow> nat" where
  "tries [] = 0"
| "tries (Try_Submit a b # cs) = Suc (tries cs)"
| "tries (_ # cs) = tries cs"

lemma tries_append [simp]: "tries (cs @ ds) = tries cs + tries ds"
  by (induction cs rule: tries.induct) simp_all

lemma task_bodies_append [simp]: "task_bodies (cs @ ds) = task_bodies cs @ task_bodies ds"
  by (induction cs rule: task_bodies.induct) simp_all

lemma gets_append [simp]: "gets (cs @ ds) = gets cs @ gets ds"
  by (induction cs rule: gets.induct) simp_all

lemma started_append [simp]: "started (cs @ ds) = started cs @ started ds"
  by (induction cs rule: started.induct) simp_all

text \<open>What a thread has done, and what it has begun: also the call that it is in.\<close>

definition past :: "client \<Rightarrow> command list" where
  "past c = take (pc c) (program c)"

definition begun :: "client \<Rightarrow> command list" where
  "begun c = take (pc c + (if joining c then 1 else 0)) (program c)"

definition client_ok :: "world \<Rightarrow> client \<Rightarrow> bool" where
  "client_ok w c \<longleftrightarrow> pc c \<le> length (program c) \<and>
     (joining c \<longrightarrow> pc c < length (program c) \<and> stops (program c ! pc c) \<and> stop (threadpool w)) \<and>
     set (handles (vars c)) \<subseteq> {..<length (bodies w)} \<and>
     map (\<lambda>t. bodies w ! t) (handles (vars c)) = task_bodies (past c) \<and>
     length (discarded (vars c)) + length (caught (vars c)) = tries (past c) \<and>
     list_all2 (\<lambda>k r. k < length (handles (vars c)) \<and> future w (handles (vars c) ! k) = Ready r)
       (gets (past c)) (replies (vars c))"

lemma client_ok_le:
  assumes ok: "client_ok w c" and le: "world_le w w'"
  shows "client_ok w' c"
proof -
  obtain bs where bs: "bodies w' = bodies w @ bs" using le by (auto simp: world_le_def)
  have h: "set (handles (vars c)) \<subseteq> {..<length (bodies w)}" using ok by (simp add: client_ok_def)
  then have "map (\<lambda>t. bodies w' ! t) (handles (vars c)) = map (\<lambda>t. bodies w ! t) (handles (vars c))"
    by (intro map_cong) (auto simp: bs nth_append)
  moreover have "map (\<lambda>t. bodies w ! t) (handles (vars c)) = task_bodies (past c)"
    using ok by (simp add: client_ok_def)
  ultimately have "map (\<lambda>t. bodies w' ! t) (handles (vars c)) = task_bodies (past c)" by (rule trans)
  moreover have "list_all2 (\<lambda>k r. k < length (handles (vars c)) \<and> future w' (handles (vars c) ! k) = Ready r)
       (gets (past c)) (replies (vars c))"
  proof (rule list_all2_mono)
    show "list_all2 (\<lambda>k r. k < length (handles (vars c)) \<and> future w (handles (vars c) ! k) = Ready r)
       (gets (past c)) (replies (vars c))" using ok by (simp add: client_ok_def)
    fix k r
    assume a: "k < length (handles (vars c)) \<and> future w (handles (vars c) ! k) = Ready r"
    then have "handles (vars c) ! k < length (bodies w)" using h nth_mem by blast
    then show "k < length (handles (vars c)) \<and> future w' (handles (vars c) ! k) = Ready r"
      using a le by (simp add: world_le_def)
  qed
  moreover have "set (handles (vars c)) \<subseteq> {..<length (bodies w')}" using h bs by auto
  moreover have "stop (threadpool w) \<longrightarrow> stop (threadpool w')" using le by (simp add: world_le_def)
  ultimately show ?thesis using ok unfolding client_ok_def by blast
qed

lemma new_client_ok: "client_ok w (new_client cs)"
  by (simp add: client_ok_def new_client_def no_locals_def past_def)

section \<open>What a command does to its thread\<close>

text \<open>The thread after its command: \<open>v\<close> are its variables.\<close>

definition next_client :: "client \<Rightarrow> locals \<Rightarrow> client" where
  "next_client c v = c\<lparr>pc := pc c + 1, joining := False, vars := v\<rparr>"

lemma next_client_simps [simp]:
  "program (next_client c v) = program c" "pc (next_client c v) = pc c + 1"
  "joining (next_client c v) = False" "vars (next_client c v) = v"
  by (simp_all add: next_client_def)

lemma clients_complete [simp]:
  "clients (complete i f w) = (clients w)[i := next_client (clients w ! i) (f (vars (clients w ! i)))]"
  "clients (enter_stop i w) = (clients w)[i := (clients w ! i)\<lparr>joining := True\<rparr>]"
  by (simp_all add: complete_def enter_stop_def next_client_def)

lemma submit_body_keeps:
  assumes "submit_body a b w = Some (t, v)"
  shows "clients v = clients w" "test_ok v = test_ok w" "aborted v = aborted w"
    "bodies v = bodies w @ [b]" "t = length (submitted (threadpool w))"
    "submitted (threadpool v) = submitted (threadpool w) @ [t]"
  using assms submit_history by (auto elim!: submit_bodyD)

lemma stop_world_keeps:
  assumes "stop_world cmd w = Some v"
  shows "clients v = clients w" "test_ok v = test_ok w" "aborted v = aborted w" "bodies v = bodies w"
    "stop (threadpool v)" "\<not> accepting (threadpool v)" "submitted (threadpool v) = submitted (threadpool w)"
  using assms stop_history by (auto elim!: stop_worldD)

text \<open>
  The ways a command ends: the program is aborted, the thread enters a call that stops the pool, or
  the command is complete, with the variables it leaves.
\<close>

inductive command_ends :: "world \<Rightarrow> client \<Rightarrow> world \<Rightarrow> command \<Rightarrow> client \<Rightarrow> bool" for w c w' where
  ends_abort: "w' = w\<lparr>aborted := True\<rparr> \<Longrightarrow>
    (\<exists>a b. cmd = Submit_Task a b \<and> \<not> accepting (threadpool w)) \<or>
      (\<exists>k e. cmd = Get_Future k \<and> get_future w c k = Some (Throw e)) \<Longrightarrow> command_ends w c w' cmd c"
| ends_enter: "stop_world cmd w = Some v \<Longrightarrow> w' = enter_stop i v \<Longrightarrow> stops cmd \<Longrightarrow> \<not> joining c \<Longrightarrow>
    command_ends w c w' cmd (c\<lparr>joining := True\<rparr>)"
| ends_submit: "bodies w' = bodies w @ [b] \<Longrightarrow> submitted (threadpool w') = submitted (threadpool w) @ [length (submitted (threadpool w))] \<Longrightarrow>
    accepting (threadpool w) \<Longrightarrow> accepting (threadpool w') \<Longrightarrow> dropped (threadpool w') = dropped (threadpool w) \<Longrightarrow>
    cmd = Submit_Task a b \<and> v = (vars c)\<lparr>handles := handles (vars c) @ [length (submitted (threadpool w))]\<rparr> \<or>
    cmd = Try_Submit a b \<and> v = (vars c)\<lparr>discarded := discarded (vars c) @ [length (submitted (threadpool w))]\<rparr> \<Longrightarrow>
    test_ok w' = test_ok w \<Longrightarrow> submit_impl a (threadpool w) = Some (threadpool w') \<Longrightarrow>
    aborted w' = aborted w \<Longrightarrow> command_ends w c w' cmd (next_client c v)"
| ends_get: "task_side w' = task_side w \<Longrightarrow> cmd = Get_Future k \<or> cmd = Try_Get k \<Longrightarrow>
    get_future w c k = Some r \<Longrightarrow> v = (vars c)\<lparr>replies := replies (vars c) @ [r]\<rparr> \<Longrightarrow>
    test_ok w' = test_ok w \<Longrightarrow> aborted w' = aborted w \<Longrightarrow> command_ends w c w' cmd (next_client c v)"
| ends_quiet: "task_side w' = task_side w \<Longrightarrow> task_bodies [cmd] = [] \<Longrightarrow> gets [cmd] = [] \<Longrightarrow>
    handles v = handles (vars c) \<Longrightarrow> discarded v = discarded (vars c) \<Longrightarrow> replies v = replies (vars c) \<Longrightarrow>
    length (caught v) = length (caught (vars c)) + tries [cmd] \<Longrightarrow>
    test_ok w' = (test_ok w \<and> (case cmd of Check ok \<Rightarrow> ok (threadpool w) (memory w) (vars c) | _ \<Rightarrow> True)) \<Longrightarrow>
    (stops cmd \<Longrightarrow> if joining c then stopper (threadpool w) = Stopped else stop_world cmd w = None) \<Longrightarrow>
    (\<And>j. cmd = Join_Thread j \<Longrightarrow> j < length (clients w) \<and> finished (clients w ! j)) \<Longrightarrow>
    seen v = seen (vars c) @ (case cmd of Query q \<Rightarrow> [q (threadpool w) (memory w)] | _ \<Rightarrow> []) \<Longrightarrow>
    aborted w' = aborted w \<Longrightarrow> command_ends w c w' cmd (next_client c v)"

lemma run_command_ends:
  assumes run: "run_command i cmd w = Some w'" and i: "i < length (clients w)"
  shows "command_ends w (clients w ! i) w' cmd (clients w' ! i) \<and>
    clients w' = (clients w)[i := clients w' ! i] @ map new_client (started [cmd])"
proof (cases "stops cmd")
  case True
  note r = run_stop [OF True, of i w]
  have quiet: "task_bodies [cmd] = []" "gets [cmd] = []" "started [cmd] = []" "tries [cmd] = 0" "(case cmd of Check ok \<Rightarrow> P ok | _ \<Rightarrow> True)"
    "cmd \<noteq> Join_Thread j" "(case cmd of Query q \<Rightarrow> F q | _ \<Rightarrow> []) = ([] :: nat list)" for P j F
    using True by (cases cmd; simp add: stops_def)+
  show ?thesis
  proof (cases "joining (clients w ! i) \<or> stop_world cmd w = None")
    case True
    then have w': "w' = complete i id w"
      "if joining (clients w ! i) then stopper (threadpool w) = Stopped else stop_world cmd w = None"
      using run r by (auto split: if_splits)
    then show ?thesis using i quiet
      by (auto intro!: ends_quiet)
  next
    case False
    then obtain v where v: "stop_world cmd w = Some v" "w' = enter_stop i v" using run r by auto
    then show ?thesis using i quiet(3) True False stop_world_keeps(1) [OF v(1)]
      by (auto intro!: ends_enter [of cmd w v])
  qed
next
  case False
  show ?thesis
  proof (cases cmd)
    case (Submit_Task a b)
    show ?thesis
    proof (cases "submit_body a b w")
      case None
      then have "\<not> accepting (threadpool w)" by (auto simp: submit_body_def submit_impl_def Let_def split: option.splits if_splits)
      then show ?thesis using run Submit_Task None by (auto intro!: ends_abort)
    next
      case (Some y)
      then obtain t v where y: "submit_body a b w = Some (t, v)" by (cases y) auto
      obtain p where p: "submit_impl a (threadpool w) = Some p" "threadpool v = p" by (rule submit_bodyD [OF y]) simp
      show ?thesis using run Submit_Task y i submit_body_keeps [OF y] submit_history [OF p(1)] p
        by (auto intro!: ends_submit [where a = a and b = b])
    qed
  next
    case (Try_Submit a b)
    show ?thesis
    proof (cases "submit_body a b w")
      case None
      then show ?thesis using run Try_Submit i False by (auto intro!: ends_quiet)
    next
      case (Some y)
      then obtain t v where y: "submit_body a b w = Some (t, v)" by (cases y) auto
      obtain p where p: "submit_impl a (threadpool w) = Some p" "threadpool v = p" by (rule submit_bodyD [OF y]) simp
      show ?thesis using run Try_Submit y i submit_body_keeps [OF y] submit_history [OF p(1)] p
        by (auto intro!: ends_submit [where a = a and b = b])
    qed
  next
    case (Get_Future k)
    then obtain r where r: "get_future w (clients w ! i) k = Some r"
      using run by (cases "get_future w (clients w ! i) k") auto
    show ?thesis
    proof (cases r)
      case (Return u)
      then show ?thesis using run r Get_Future i by (auto intro!: ends_get)
    next
      case (Throw e)
      then show ?thesis using run r Get_Future i by (auto intro!: ends_abort)
    qed
  next
    case (Try_Get k)
    then obtain r where r: "get_future w (clients w ! i) k = Some r"
      using run by (cases "get_future w (clients w ! i) k") auto
    then show ?thesis using run Try_Get i by (auto intro!: ends_get)
  qed (use run i False in \<open>auto simp: stops_def Let_def nth_append split: if_splits intro!: ends_quiet\<close>)
qed

section \<open>Invariant of the threads\<close>

lemma past_next: "pc c < length (program c) \<Longrightarrow> past (next_client c v) = past c @ [program c ! pc c]"
  by (simp add: past_def take_Suc_conv_app_nth)

lemma stops_neutral: "stops cmd \<Longrightarrow> task_bodies [cmd] = [] \<and> gets [cmd] = [] \<and> started [cmd] = [] \<and> tries [cmd] = 0"
  by (cases cmd) (simp_all add: stops_def)

lemma get_future_Some:
  "get_future w c k = Some r \<longleftrightarrow> k < length (handles (vars c)) \<and> future w (handles (vars c) ! k) = Ready r"
  by (auto simp: get_future_def split: shared_state.splits)

lemma client_ok_ends:
  assumes ends: "command_ends w c w' (program c ! pc c) c'" and ok: "client_ok w' c"
    and pc: "pc c < length (program c)" and tm: "tasks_match w"
  shows "client_ok w' c'"
  using ends
proof cases
  case (ends_enter v i)
  then show ?thesis using ok pc stop_world_keeps(5) [OF ends_enter(2)] by (simp add: client_ok_def past_def)
next
  case (ends_submit b a v)
  have len: "length (submitted (threadpool w)) = length (bodies w)" using tm by (simp add: tasks_match_def)
  show ?thesis
  proof (cases "program c ! pc c = Submit_Task a b")
    case True
    then have v: "v = (vars c)\<lparr>handles := handles (vars c) @ [length (bodies w)]\<rparr>"
      using ends_submit len by auto
    have "list_all2 (\<lambda>k r. k < length (handles v) \<and> future w' (handles v ! k) = Ready r) (gets (past c)) (replies v)"
      using ok unfolding client_ok_def v by (auto simp: nth_append elim!: list_all2_mono)
    then show ?thesis
      using ok pc True ends_submit(1,2) v by (simp add: client_ok_def past_next)
  next
    case False
    then have v: "v = (vars c)\<lparr>discarded := discarded (vars c) @ [length (bodies w)]\<rparr>" "program c ! pc c = Try_Submit a b"
      using ends_submit len by auto
    then show ?thesis using ok pc ends_submit(1,2) by (simp add: client_ok_def past_next)
  qed
next
  case (ends_get k r v)
  have "future w' = future w" using ends_get(2) by (simp add: task_side_def)
  then have "k < length (handles (vars c)) \<and> future w' (handles (vars c) ! k) = Ready r"
    using ends_get(4) by (simp add: get_future_Some)
  then show ?thesis using ok pc ends_get
    by (auto simp: client_ok_def past_next intro!: list_all2_appendI)
next
  case (ends_quiet v)
  then show ?thesis using ok pc by (simp add: client_ok_def past_next)
qed (use ok in simp)

lemma ends_program:
  assumes "command_ends w c w' cmd c'" "pc c < length (program c)" "cmd = program c ! pc c"
  shows "program c' = program c" "started (past c') = started (past c) @ started [cmd]"
    "set (begun c) \<subseteq> set (begun c')"
proof -
  have take: "take (Suc (pc c)) (program c) = past c @ [cmd]"
    using assms(2,3) by (simp add: past_def take_Suc_conv_app_nth)
  show "program c' = program c" using assms(1) by cases simp_all
  show "started (past c') = started (past c) @ started [cmd]"
    using assms(1) by cases (use assms(2,3) in \<open>auto simp: past_next stops_neutral\<close>, auto simp: past_def stops_neutral)
  show "set (begun c) \<subseteq> set (begun c')"
    using assms(1) by cases (use take in \<open>auto simp: begun_def past_def\<close>)
qed

text \<open>The tasks a thread has submitted: those whose futures it keeps, and those it threw away.\<close>

definition handed :: "client \<Rightarrow> nat list" where
  "handed c = handles (vars c) @ discarded (vars c)"

lemma task_side_eqs:
  assumes "task_side w' = task_side w"
  shows "threadpool w' = threadpool w" "bodies w' = bodies w" "future w' = future w" "memory w' = memory w"
  using assms by (simp_all add: task_side_def)

lemma ends_handed:
  assumes "command_ends w c w' cmd c'"
  shows "mset (handed c') + mset (submitted (threadpool w)) = mset (handed c) + mset (submitted (threadpool w'))"
  using assms
proof cases
  case (ends_enter v i)
  then show ?thesis using stop_world_keeps [OF ends_enter(2)] by (simp add: handed_def)
next
  case (ends_submit b a v)
  then show ?thesis by (auto simp: handed_def)
next
  case (ends_get k r v)
  then show ?thesis using task_side_eqs [OF ends_get(2)] by (simp add: handed_def)
next
  case (ends_quiet v)
  then show ?thesis using task_side_eqs [OF ends_quiet(2)] by (simp add: handed_def)
qed simp

lemma ends_enter_begun:
  assumes "stop_world cmd w = Some v" "\<not> joining c" "pc c < length (program c)" "cmd = program c ! pc c"
  shows "cmd \<in> set (begun (c\<lparr>joining := True\<rparr>))"
  using assms by (simp add: begun_def take_Suc_conv_app_nth)

lemma ends_accepting:
  assumes "command_ends w c w' cmd c'" "pc c < length (program c)" "cmd = program c ! pc c"
    "accepting (threadpool w)" "\<not> accepting (threadpool w')"
  shows "\<exists>x \<in> set (begun c'). stops x"
  using assms(1)
proof cases
  case (ends_enter v i)
  then show ?thesis using ends_enter_begun [OF ends_enter(2,5) assms(2,3)] by blast
next
  case (ends_get k r v)
  then show ?thesis using task_side_eqs [OF ends_get(2)] assms by simp
next
  case (ends_quiet v)
  then show ?thesis using task_side_eqs [OF ends_quiet(2)] assms by simp
qed (use assms in simp_all)

lemma ends_dropped:
  assumes "command_ends w c w' cmd c'" "pc c < length (program c)" "cmd = program c ! pc c"
    "dropped (threadpool w) = []" "dropped (threadpool w') \<noteq> []"
  shows "\<exists>x \<in> set (begun c'). stops x \<and> x \<noteq> Stop_Waiting"
  using assms(1)
proof cases
  case (ends_enter v i)
  obtain p where p: "stop_call cmd (threadpool w) = Some p" "threadpool v = p"
    by (rule stop_worldD [OF ends_enter(2)]) simp
  then have "cmd \<noteq> Stop_Waiting" using assms(4,5) stop_history(3) [OF p(1)] ends_enter(3) by auto
  then show ?thesis using ends_enter_begun [OF ends_enter(2,5) assms(2,3)] ends_enter by blast
next
  case (ends_get k r v)
  then show ?thesis using task_side_eqs [OF ends_get(2)] assms by simp
next
  case (ends_quiet v)
  then show ?thesis using task_side_eqs [OF ends_quiet(2)] assms by simp
qed (use assms in simp_all)

text \<open>
  The first thread runs the test; the others are those it has started, which start none. Every
  submitted task belongs to one thread. A pool that does not accept tasks was stopped by a thread.
\<close>

definition world_ok :: "command list \<Rightarrow> world \<Rightarrow> bool" where
  "world_ok cs w \<longleftrightarrow> clients w \<noteq> [] \<and>
     map program (clients w) = cs # started (past (clients w ! 0)) \<and>
     (\<forall>c \<in> set (clients w). client_ok w c) \<and>
     mset (concat (map handed (clients w))) = mset (submitted (threadpool w)) \<and>
     (accepting (threadpool w) \<or> (\<exists>c \<in> set (clients w). \<exists>x \<in> set (begun c). stops x)) \<and>
     (dropped (threadpool w) = [] \<or>
       (\<exists>c \<in> set (clients w). \<exists>x \<in> set (begun c). stops x \<and> x \<noteq> Stop_Waiting))"

definition flat :: "command list \<Rightarrow> bool" where
  "flat cs \<longleftrightarrow> (\<forall>d \<in> set (started cs). started d = [])"

text \<open>A fact about some thread survives a step that changes one thread.\<close>

lemma some_client:
  assumes "\<exists>c \<in> set xs. \<exists>x \<in> set (begun c). P x" "i < length xs" "set (begun (xs ! i)) \<subseteq> set (begun c')"
  shows "\<exists>c \<in> set (xs[i := c'] @ ys). \<exists>x \<in> set (begun c). P x"
proof -
  obtain c x where c: "c \<in> set xs" "x \<in> set (begun c)" "P x" using assms(1) by blast
  then obtain j where j: "j < length xs" "x \<in> set (begun (xs ! j))" "P x" by (auto simp: in_set_conv_nth [of c])
  have "x \<in> set (begun (xs[i := c'] ! j))" using j assms(2,3) by (cases "i = j") auto
  moreover have "xs[i := c'] ! j \<in> set (xs[i := c'] @ ys)" using j by simp
  ultimately show ?thesis using j(3) by blast
qed

lemma changed_client:
  assumes "\<exists>x \<in> set (begun c'). P x" "i < length xs"
  shows "\<exists>c \<in> set (xs[i := c'] @ ys). \<exists>x \<in> set (begun c). P x"
  using assms by (auto simp: set_update_memI intro!: bexI [of _ c'])

lemma started_nth: "x \<in> set (started (take n xs)) \<Longrightarrow> x \<in> set (started xs)"
  using started_append [of "take n xs" "drop n xs"] by simp

lemma started_one: "started [x] \<noteq> [] \<Longrightarrow> x \<in> set xs \<Longrightarrow> started xs \<noteq> []"
proof -
  assume a: "started [x] \<noteq> []" "x \<in> set xs"
  then obtain us vs where "xs = us @ [x] @ vs" by (metis append_Cons append_Nil split_list)
  then show ?thesis using a(1) by (simp only: started_append) simp
qed

lemma client_step_programs:
  assumes wo: "world_ok cs w" and fl: "flat cs" and i: "i < length (clients w)"
    and ends: "command_ends w (clients w ! i) w' (program (clients w ! i) ! pc (clients w ! i)) c'"
    and pc: "pc (clients w ! i) < length (program (clients w ! i))"
    and cl: "clients w' = (clients w)[i := c'] @ map new_client (started [program (clients w ! i) ! pc (clients w ! i)])"
  shows "map program (clients w') = cs # started (past (clients w' ! 0))"
proof -
  define cmd where "cmd = program (clients w ! i) ! pc (clients w ! i)"
  note ep = ends_program [OF ends pc refl, folded cmd_def]
  have progs: "map program (clients w) = cs # started (past (clients w ! 0))" using wo by (simp add: world_ok_def)
  have "map program (clients w') = (map program (clients w))[i := program c'] @ started [cmd]"
    by (simp add: cl cmd_def [symmetric] map_update comp_def new_client_def)
  also have "(map program (clients w))[i := program c'] = map program (clients w)"
    using i by (simp add: ep(1) list_update_same_conv)
  finally have all: "map program (clients w') = cs # started (past (clients w ! 0)) @ started [cmd]"
    using progs by simp
  show ?thesis
  proof (cases i)
    case 0
    then have "clients w' ! 0 = c'" using i by (simp add: cl nth_append)
    then show ?thesis using all ep(2) 0 by simp
  next
    case (Suc k)
    have "program (clients w ! i) = started (past (clients w ! 0)) ! k"
      using progs i Suc by (metis length_map nth_Cons_Suc nth_map)
    moreover have "k < length (started (past (clients w ! 0)))"
      using progs i Suc by (metis length_Cons length_map not_less_eq)
    moreover have p0: "program (clients w ! 0) = cs"
      using progs i by (metis length_greater_0_conv list.size(3) not_less_zero nth_Cons_0 nth_map)
    ultimately have "program (clients w ! i) \<in> set (started cs)"
      using nth_mem started_nth unfolding past_def by metis
    then have "started (program (clients w ! i)) = []" using fl by (simp add: flat_def)
    moreover have "cmd \<in> set (program (clients w ! i))" using pc by (simp add: cmd_def)
    ultimately have "started [cmd] = []" using started_one by blast
    moreover have "0 < length (clients w)" using i by linarith
    then have "clients w' ! 0 = clients w ! 0" unfolding cl using Suc by (subst nth_append) simp
    ultimately show ?thesis using all by simp
  qed
qed

lemma world_ok_client:
  assumes ok: "pool_ok (threadpool w)" and tm: "tasks_match w" and wo: "world_ok cs w" and fl: "flat cs"
    and step: "world_do (Client i) w = Some w'"
  shows "world_ok cs w'"
proof -
  define c where "c = clients w ! i"
  define c' where "c' = clients w' ! i"
  define cmd where "cmd = program c ! pc c"
  have i: "i < length (clients w)" and nf: "\<not> finished c" and run: "run_command i cmd w = Some w'"
    using step by (auto simp: c_def cmd_def split: if_splits)
  have cok: "client_ok w c" using wo i by (simp add: world_ok_def c_def)
  then have pc: "pc c < length (program c)" using nf by (auto simp: finished_def client_ok_def)
  have ends: "command_ends w c w' cmd c'" and cl: "clients w' = (clients w)[i := c'] @ map new_client (started [cmd])"
    using run_command_ends [OF run i] by (simp_all add: c_def c'_def)
  have le: "world_le w w'" by (rule world_do_le [OF ok tm step])
  note ep = ends_program [OF ends pc cmd_def]
  have "clients w' \<noteq> []" using i by (auto simp: cl)
  moreover have "map program (clients w') = cs # started (past (clients w' ! 0))"
    by (rule client_step_programs [OF wo fl i]) (use ends pc cl in \<open>simp_all add: c_def cmd_def\<close>)
  moreover have "client_ok w' c'"
    using client_ok_ends [of w c w' c'] ends cok client_ok_le [OF cok le] pc tm by (simp add: cmd_def)
  then have "\<forall>c \<in> set (clients w'). client_ok w' c"
    using wo client_ok_le [OF _ le] new_client_ok unfolding cl world_ok_def
    by (auto dest!: set_update_subset_insert [THEN subsetD])
  moreover have "mset (concat (map handed (clients w'))) = mset (submitted (threadpool w'))"
  proof -
    have "concat (map handed (map new_client ds)) = []" for ds
      by (induction ds) (simp_all add: handed_def new_client_def no_locals_def)
    then have "mset (concat (map handed (clients w'))) = mset (concat (map handed ((clients w)[i := c'])))"
      by (simp add: cl del: map_map)
    moreover have "mset (concat (map handed ((clients w)[i := c']))) + mset (handed c) =
        mset (concat (map handed (clients w))) + mset (handed c')"
      using mset_concat_update [OF i, of handed c'] by (simp add: c_def)
    moreover have "mset (concat (map handed (clients w))) = mset (submitted (threadpool w))"
      using wo by (simp add: world_ok_def)
    ultimately have "mset (concat (map handed (clients w'))) + mset (handed c) = mset (submitted (threadpool w')) + mset (handed c)"
      using ends_handed [OF ends] by (simp add: ac_simps)
    then show ?thesis by simp
  qed
  moreover have "accepting (threadpool w') \<or> (\<exists>c \<in> set (clients w'). \<exists>x \<in> set (begun c). stops x)"
  proof (cases "accepting (threadpool w)")
    case True
    then show ?thesis
      using changed_client [OF ends_accepting [OF ends pc cmd_def True] i] unfolding cl by blast
  next
    case False
    then have "\<exists>c \<in> set (clients w). \<exists>x \<in> set (begun c). stops x" using wo by (simp add: world_ok_def)
    then show ?thesis unfolding cl using some_client i ep(3) by (metis c_def)
  qed
  moreover have "dropped (threadpool w') = [] \<or>
      (\<exists>c \<in> set (clients w'). \<exists>x \<in> set (begun c). stops x \<and> x \<noteq> Stop_Waiting)"
  proof (cases "dropped (threadpool w) = []")
    case True
    then show ?thesis
      using changed_client [OF ends_dropped [OF ends pc cmd_def True] i] unfolding cl by blast
  next
    case False
    then have "\<exists>c \<in> set (clients w). \<exists>x \<in> set (begun c). stops x \<and> x \<noteq> Stop_Waiting" using wo by (simp add: world_ok_def)
    then show ?thesis unfolding cl using some_client [of _ "\<lambda>x. stops x \<and> x \<noteq> Stop_Waiting"] i ep(3) by (metis c_def)
  qed
  ultimately show ?thesis by (simp add: world_ok_def)
qed

lemma world_ok_pool:
  assumes wo: "world_ok cs w" and cl: "clients w' = clients w"
    and keep: "submitted (threadpool w') = submitted (threadpool w)"
      "accepting (threadpool w') = accepting (threadpool w)" "dropped (threadpool w') = dropped (threadpool w)"
    and le: "world_le w w'"
  shows "world_ok cs w'"
  using wo client_ok_le [OF _ le] unfolding world_ok_def cl keep by blast

lemma world_ok_step:
  assumes ok: "pool_ok (threadpool w)" and tm: "tasks_match w" and wo: "world_ok cs w" and fl: "flat cs"
    and step: "world_do ch w = Some w'"
  shows "world_ok cs w'"
proof (cases ch)
  case (Client i)
  then show ?thesis using world_ok_client [OF ok tm wo fl] step by blast
next
  case (Body x)
  then obtain t where "w' = run_body x t w" using step by (auto split: if_splits worker.splits)
  then show ?thesis using world_ok_pool [OF wo] world_do_le [OF ok tm step] by simp
next
  case (Worker a)
  then obtain p where a: "background a" "perform a (threadpool w) = Some p" "w' = w\<lparr>threadpool := p\<rparr>"
    using step by (auto split: if_splits)
  then show ?thesis
    using world_ok_pool [OF wo] world_do_le [OF ok tm step] background_keeps [OF a(1,2)] by simp
qed

lemma world_ok_start: "ThreadPool c m = Some p \<Longrightarrow> world_ok cs (start_test p cs)"
  using new_client_ok pool_new_history [of c m p]
  by (simp add: world_ok_def start_test_def handed_def past_def) (simp add: new_client_def no_locals_def)

lemma test_world_ok:
  assumes "test_reaches c m cs w" "flat cs"
  shows "world_ok cs w"
  using assms(1)
proof (induction rule: test_reaches.induct)
  case (test_new p)
  then show ?case by (rule world_ok_start)
next
  case (test_next w w')
  then obtain ch where "world_do ch w = Some w'" by (auto simp: world_step_def simp del: world_do.simps)
  then show ?case
    using world_ok_step [OF _ _ test_next(3) assms(2)] test_pool_ok [OF test_next(1)] test_tasks_match [OF test_next(1)]
    by blast
qed

section \<open>Progress\<close>

text \<open>
  A program in which every \<^verbatim>\<open>get\<close> is on a future that the thread has by then, every join on a thread
  that was started, and the started threads start and join none. The numbers count both so far.
\<close>

fun well_formed :: "nat \<Rightarrow> nat \<Rightarrow> command list \<Rightarrow> bool" where
  "well_formed h s [] = True"
| "well_formed h s (Submit_Task a b # cs) = well_formed (h + 1) s cs"
| "well_formed h s (Get_Future k # cs) = (k < h \<and> well_formed h s cs)"
| "well_formed h s (Try_Get k # cs) = (k < h \<and> well_formed h s cs)"
| "well_formed h s (Start_Thread d # cs) = (started d = [] \<and> well_formed 0 0 d \<and> well_formed h (s + 1) cs)"
| "well_formed h s (Join_Thread j # cs) = (0 < j \<and> j \<le> s \<and> well_formed h s cs)"
| "well_formed h s (_ # cs) = well_formed h s cs"

lemma well_formed_append:
  "well_formed h s (us @ vs) \<longleftrightarrow>
    well_formed h s us \<and> well_formed (h + length (task_bodies us)) (s + length (started us)) vs"
  by (induction h s us rule: well_formed.induct) simp_all

lemma well_formed_started: "well_formed h s cs \<Longrightarrow> d \<in> set (started cs) \<Longrightarrow> started d = [] \<and> well_formed 0 0 d"
  by (induction h s cs rule: well_formed.induct) auto

lemma well_formed_flat: "well_formed h s cs \<Longrightarrow> flat cs"
  using well_formed_started by (auto simp: flat_def)

lemma well_formed_next:
  assumes "well_formed 0 0 (program c)" "pc c < length (program c)"
  shows "well_formed (length (task_bodies (past c))) (length (started (past c))) [program c ! pc c]"
proof -
  have "program c = past c @ [program c ! pc c] @ drop (Suc (pc c)) (program c)"
    using assms(2) by (simp add: past_def Cons_nth_drop_Suc)
  then show ?thesis using assms(1) well_formed_append by (metis add_0)
qed

lemma worker_progress:
  assumes "\<not> aborted w" "x < spawned (threadpool w)" "status (threadpool w) x \<noteq> Exited"
    "status (threadpool w) x = Waiting \<Longrightarrow> wait_over (threadpool w)"
  shows "\<exists>w'. world_step w w'"
proof (cases "status (threadpool w) x")
  case Looping
  then have "world_do (Worker (Enter x)) w \<noteq> None" using assms by (simp add: background_def)
  then show ?thesis unfolding world_step_def by blast
next
  case Waiting
  then have "world_do (Worker (Wake x)) w \<noteq> None" using assms by (simp add: background_def)
  then show ?thesis unfolding world_step_def by blast
next
  case (Busy t)
  then have "world_do (Body x) w \<noteq> None" using assms by simp
  then show ?thesis unfolding world_step_def by blast
qed (use assms in simp)

lemma stopping_progress:
  assumes ok: "pool_ok (threadpool w)" and na: "\<not> aborted w"
    and st: "stop (threadpool w)" "stopper (threadpool w) \<noteq> Stopped"
  shows "\<exists>w'. world_step w w'"
proof -
  obtain q where step: "pool_step True (threadpool w) q" using stopped_pool_progress [OF ok st] by blast
  have acc: "\<not> accepting (threadpool w)" using ok st(1) by (simp add: pool_ok_def stop_ok_def)
  from step show ?thesis
  proof cases
    case swap
    then have "world_do (Worker Swap_Out) w \<noteq> None" using na by (simp add: background_def)
    then show ?thesis unfolding world_step_def by blast
  next
    case join
    then have "world_do (Worker Join_Next) w \<noteq> None" using na by (simp add: background_def del: join_next.simps)
    then show ?thesis unfolding world_step_def by blast
  next
    case (enter x)
    then show ?thesis using worker_progress [OF na, of x] by simp
  next
    case (woken x)
    then show ?thesis using worker_progress [OF na, of x] by simp
  next
    case (finished x t)
    then show ?thesis using worker_progress [OF na, of x] by simp
  qed (use acc st in \<open>auto simp: submit_impl_def wait_and_stop_def stop_immediately_def wait_over_def\<close>)
qed

lemma queued_worker:
  assumes ok: "pool_ok p" and ne: "tasks p \<noteq> []"
  obtains x where "x < spawned p" "status p x \<noteq> Exited"
proof -
  have th: "threads_ok p" and so: "stop_ok p" using ok by (auto simp: pool_ok_def)
  have core: "0 < core_threads p" using th by (simp add: threads_ok_def)
  have "\<exists>x \<in> set (held p). status p x \<noteq> Exited"
  proof (cases "stopper p")
    case (Joining ds rs)
    then have "rs \<noteq> []" "\<forall>x \<in> set rs. status p x \<noteq> Exited" using so ne by (auto simp: stop_ok_def)
    then show ?thesis using Joining by (cases rs) (auto simp: held_def)
  next
    case Stopped
    then show ?thesis using so ne by (simp add: stop_ok_def)
  next
    case Marked
    then have "workers p \<noteq> []" "\<forall>x \<in> set (workers p). status p x \<noteq> Exited"
      using so ne core by (auto simp: stop_ok_def)
    then show ?thesis using Marked by (cases "workers p") (auto simp: held_def)
  next
    case No_Stop
    then have "workers p \<noteq> []" "\<forall>x \<in> set (workers p). status p x \<noteq> Exited"
      using so core by (auto simp: stop_ok_def)
    then show ?thesis using No_Stop by (cases "workers p") (auto simp: held_def)
  qed
  then show ?thesis using th that by (auto simp: threads_ok_def)
qed

lemma pending_progress:
  assumes ok: "pool_ok (threadpool w)" and tm: "tasks_match w" and na: "\<not> aborted w"
    and t: "t < length (bodies w)" "future w t = Pending"
  shows "\<exists>w'. world_step w w'"
proof -
  define p where "p = threadpool w"
  have t': "t < length (submitted p)" and "future w t = expected_future (bodies w) p t"
    using tm t(1) by (auto simp: tasks_match_def p_def)
  then have "t \<notin> set (executed p)" "t \<notin> set (dropped p)"
    using t(2) expected_pending [of "bodies w" p t] by simp_all
  then have "count (mset (executed p)) t = 0" "count (mset (dropped p)) t = 0" by simp_all
  then have "0 < count (mset (map snd (tasks p))) t \<or> 0 < count (busy p) t"
    using task_places [OF ok, of t] t' unfolding p_def by presburger
  then show ?thesis
  proof
    assume "0 < count (mset (map snd (tasks p))) t"
    then have ne: "tasks p \<noteq> []" by auto
    obtain x where "x < spawned p" "status p x \<noteq> Exited"
      by (rule queued_worker [of p]) (use ok ne in \<open>simp_all add: p_def\<close>)
    then show ?thesis using worker_progress [OF na, of x] ne by (simp add: wait_over_def p_def)
  next
    assume "0 < count (busy p) t"
    then have "busy p \<noteq> {#}" by auto
    then have "\<exists>x < spawned p. task_of (status p x) \<noteq> {#}" unfolding busy_def by (meson lessThan_iff sum.neutral)
    then obtain x where x: "x < spawned p" "task_of (status p x) \<noteq> {#}" by blast
    then have "status p x \<noteq> Exited" "status p x \<noteq> Waiting" by auto
    then show ?thesis using worker_progress [OF na, of x] x(1) by (simp add: p_def)
  qed
qed

lemma client_progress:
  assumes ok: "pool_ok (threadpool w)" and tm: "tasks_match w" and na: "\<not> aborted w"
    and i: "i < length (clients w)" and c: "c = clients w ! i" and cok: "client_ok w c"
    and wf: "well_formed 0 0 (program c)" and nf: "\<not> finished c"
  shows "(\<exists>w'. world_step w w') \<or>
    (\<exists>j. program c ! pc c = Join_Thread j \<and> \<not> (j < length (clients w) \<and> finished (clients w ! j)))"
proof -
  define cmd where "cmd = program c ! pc c"
  have pc: "pc c < length (program c)" using cok nf by (auto simp: client_ok_def finished_def)
  have here: "well_formed (length (task_bodies (past c))) (length (started (past c))) [cmd]"
    using well_formed_next [OF wf pc] by (simp add: cmd_def)
  have do_cmd: "\<exists>w'. world_step w w'" if "run_command i cmd w \<noteq> None"
  proof -
    have "world_do (Client i) w \<noteq> None" using that na i nf by (simp add: cmd_def c)
    then show ?thesis unfolding world_step_def by blast
  qed
  have get: "\<exists>w'. world_step w w'" if k: "cmd = Get_Future k \<or> cmd = Try_Get k" for k
  proof (cases "get_future w c k")
    case None
    have hs: "length (handles (vars c)) = length (task_bodies (past c))"
      using cok by (simp add: client_ok_def) (metis length_map)
    then have "k < length (handles (vars c))" using here k by auto
    moreover have "handles (vars c) ! k \<in> set (handles (vars c))" using calculation by simp
    then have "handles (vars c) ! k < length (bodies w)" using cok by (auto simp: client_ok_def)
    moreover have "future w (handles (vars c) ! k) = Pending"
      using None calculation by (simp add: get_future_def split: shared_state.splits)
    ultimately show ?thesis using pending_progress [OF ok tm na] by blast
  next
    case (Some r)
    then have "run_command i cmd w \<noteq> None" using k c by (auto split: outcome.splits)
    then show ?thesis by (rule do_cmd)
  qed
  show ?thesis
  proof (cases "stops cmd")
    case True
    show ?thesis
    proof (cases "joining c \<and> stopper (threadpool w) \<noteq> Stopped")
      case True
      then have "stop (threadpool w)" using cok by (simp add: client_ok_def)
      then show ?thesis using stopping_progress [OF ok na] True by blast
    next
      case False
      then have "run_command i cmd w \<noteq> None" using run_stop [OF True, of i w] c by (auto split: option.splits)
      then show ?thesis using do_cmd by blast
    qed
  next
    case False
    show ?thesis
    proof (cases "\<exists>j. cmd = Join_Thread j")
      case True
      then show ?thesis using do_cmd by (auto simp: cmd_def)
    next
      case nojoin: False
      show ?thesis
      proof (cases "\<exists>k. cmd = Get_Future k \<or> cmd = Try_Get k")
        case True
        then show ?thesis using get by blast
      next
        case noget: False
        have "run_command i cmd w \<noteq> None"
          using False nojoin noget by (cases cmd) (auto simp: stops_def split: option.splits)
        then show ?thesis using do_cmd by blast
      qed
    qed
  qed
qed

lemma thread_program:
  assumes wo: "world_ok cs w" and i: "i < length (clients w)" and wf: "well_formed 0 0 cs"
  shows "well_formed 0 0 (program (clients w ! i))"
    "i \<noteq> 0 \<Longrightarrow> started (program (clients w ! i)) = []"
    "program (clients w ! 0) = cs"
    "length (clients w) = Suc (length (started (past (clients w ! 0))))"
    "i \<noteq> 0 \<Longrightarrow> program (clients w ! i) \<in> set (started cs)"
proof -
  define ps where "ps = started (past (clients w ! 0))"
  have progs: "map program (clients w) = cs # ps" using wo by (simp add: world_ok_def ps_def)
  then show len: "length (clients w) = Suc (length (started (past (clients w ! 0))))"
    by (metis length_Cons length_map ps_def)
  have nth: "program (clients w ! i) = (cs # ps) ! i" using progs i by (metis nth_map)
  have "0 < length (clients w)" using i by linarith
  then show p0: "program (clients w ! 0) = cs" using progs by (metis nth_Cons_0 nth_map)
  show in_cs: "program (clients w ! i) \<in> set (started cs)" if "i \<noteq> 0"
  proof -
    have "(cs # ps) ! i = ps ! (i - 1)" using that by (simp add: nth_Cons')
    moreover have "i - 1 < length ps" using that i len by (simp add: ps_def)
    ultimately have "program (clients w ! i) \<in> set ps" using nth nth_mem by metis
    then have "program (clients w ! i) \<in> set (started (take (pc (clients w ! 0)) cs))"
      unfolding ps_def past_def p0 .
    then show ?thesis by (rule started_nth)
  qed
  show "well_formed 0 0 (program (clients w ! i))"
    using in_cs p0 wf well_formed_started by (cases "i = 0") auto
  show "started (program (clients w ! i)) = []" if "i \<noteq> 0"
    using in_cs [OF that] wf well_formed_started by blast
qed

lemma test_progress:
  assumes r: "test_reaches c m cs w" and wf: "well_formed 0 0 cs" and na: "\<not> aborted w"
    and nf: "\<not> finished (clients w ! 0)"
  shows "\<exists>w'. world_step w w'"
proof -
  note ok = test_pool_ok [OF r] and tm = test_tasks_match [OF r]
    and wo = test_world_ok [OF r well_formed_flat [OF wf]]
  have z: "0 < length (clients w)" using wo by (simp add: world_ok_def)
  have go: "(\<exists>w'. world_step w w') \<or> (\<exists>j. program (clients w ! i) ! pc (clients w ! i) = Join_Thread j \<and>
      \<not> (j < length (clients w) \<and> finished (clients w ! j)))"
    if "i < length (clients w)" "\<not> finished (clients w ! i)" for i
    using client_progress [OF ok tm na that(1) refl _ thread_program(1) [OF wo that(1) wf] that(2)] wo that(1)
    by (simp add: world_ok_def)
  have joins: "0 < j \<and> j \<le> length (started (past (clients w ! i)))"
    if "i < length (clients w)" "\<not> finished (clients w ! i)"
      "program (clients w ! i) ! pc (clients w ! i) = Join_Thread j" for i j
  proof -
    have "client_ok w (clients w ! i)" using wo that(1) by (simp add: world_ok_def)
    then have "pc (clients w ! i) < length (program (clients w ! i))" using that(2) by (auto simp: client_ok_def finished_def)
    then show ?thesis using well_formed_next [OF thread_program(1) [OF wo that(1) wf]] that(3) by simp
  qed
  from go [OF z nf] show ?thesis
  proof
    assume "\<exists>j. program (clients w ! 0) ! pc (clients w ! 0) = Join_Thread j \<and>
      \<not> (j < length (clients w) \<and> finished (clients w ! j))"
    then obtain j where j: "program (clients w ! 0) ! pc (clients w ! 0) = Join_Thread j"
      "\<not> (j < length (clients w) \<and> finished (clients w ! j))" by blast
    have jl: "0 < j" "j < length (clients w)" using joins [OF z nf j(1)] thread_program(4) [OF wo z wf] by auto
    then have "\<not> finished (clients w ! j)" using j(2) by blast
    from go [OF jl(2) this] show ?thesis
    proof
      assume "\<exists>k. program (clients w ! j) ! pc (clients w ! j) = Join_Thread k \<and>
        \<not> (k < length (clients w) \<and> finished (clients w ! k))"
      then obtain k where "0 < k \<and> k \<le> length (started (past (clients w ! j)))"
        using joins [OF jl(2) \<open>\<not> finished (clients w ! j)\<close>] by blast
      moreover have "started (past (clients w ! j)) = []"
        using thread_program(2) [OF wo jl(2) wf] jl(1) started_nth by (metis ex_in_conv neq0_conv past_def set_empty)
      ultimately show ?thesis by (metis le_zero_eq list.size(3) less_irrefl)
    qed
  qed
qed

section \<open>Futures hold the results of the tasks\<close>

lemma outcome_split:
  assumes "t \<in> set ts"
  shows "\<exists>us vs. ts = us @ t # vs \<and> map_of (outcomes bs ts m) t = Some (fst ((bs ! t) (final_memory bs us m)))"
  using assms
proof (induction ts arbitrary: m)
  case (Cons u ts)
  show ?case
  proof (cases "t = u")
    case True
    then show ?thesis by (intro exI [of _ "[]"] exI [of _ ts]) simp
  next
    case False
    then obtain us vs where "ts = us @ t # vs"
      "map_of (outcomes bs ts (snd ((bs ! u) m))) t = Some (fst ((bs ! t) (final_memory bs us (snd ((bs ! u) m)))))"
      using Cons.IH [of "snd ((bs ! u) m)"] Cons.prems by (auto simp del: outcomes_append)
    then show ?thesis using False by (intro exI [of _ "u # us"] exI [of _ vs]) (simp del: outcomes_append)
  qed
qed simp


text \<open>A run: two tasks, one that counts and one that throws, and a third that is dropped.\<close>

definition count_up :: body where
  "count_up m = (Return Void, m\<lparr>counter := counter m + 1\<rparr>)"

definition give :: "ret \<Rightarrow> body" where
  "give r m = (Return r, m)"

definition fail_with :: "string \<Rightarrow> body" where
  "fail_with msg m = (Throw (Runtime_Error msg), m)"

definition example_program :: "command list" where
  "example_program = [Submit_Task 0 count_up, Submit_Task 1 (fail_with ''no''), Submit_Task 2 count_up,
     Get_Future 0, Stop_At_Once]"

definition example_world :: "world option" where
  "example_world = world_run
     [Client 0, Client 0, Worker (Enter 0), Client 0, Body 0, Client 0, Worker (Enter 0), Client 0, Body 0]
     (start_test (the (ThreadPool 1 1)) example_program)"

lemma test_start: "ThreadPool c m \<noteq> None \<Longrightarrow> test_reaches c m cs (start_test (the (ThreadPool c m)) cs)"
  by (auto intro: test_new)

lemma example_world_reaches: "test_reaches 1 1 example_program (the example_world)"
proof (rule world_run_reaches)
  show "test_reaches 1 1 example_program (start_test (the (ThreadPool 1 1)) example_program)"
    by (rule test_start) (simp add: ThreadPool_def)
  show "world_run [Client 0, Client 0, Worker (Enter 0), Client 0, Body 0, Client 0, Worker (Enter 0), Client 0, Body 0]
     (start_test (the (ThreadPool 1 1)) example_program) = Some (the example_world)"
    unfolding example_world_def by (rule some_the) code_simp
qed


end
