(* ===== verification/Pool_Tests.thy ===== *)
theory Pool_Tests
  imports Pool_Futures
begin

text \<open>
  The tests of \<^verbatim>\<open>thread_pool/main.cpp\<close> as programs over the pool and its futures, one per function, but
  for the one of scaling up (\<^theory_text>\<open>Pool_Scaling\<close>).
  A loop that submits is a repeated command, a loop over the futures a command for each of them. A
  task's \<^verbatim>\<open>sleep_for\<close> is the time between the step that takes it and the step in which its body
  completes; a printed line leaves no trace. The checks of the tests are decided for every
  interleaving of the threads.
\<close>

section \<open>The tests\<close>

definition submit_tasks :: "nat \<Rightarrow> body \<Rightarrow> command list" where
  "submit_tasks n b = replicate n (Submit_Task default_priority b)"

definition get_all :: "nat \<Rightarrow> command list" where
  "get_all n = map Get_Future [0..<n]"

definition counter_is :: "int \<Rightarrow> pool \<Rightarrow> memory \<Rightarrow> locals \<Rightarrow> bool" where
  "counter_is n p m v \<longleftrightarrow> counter m = n"

definition reply_is :: "ret \<Rightarrow> pool \<Rightarrow> memory \<Rightarrow> locals \<Rightarrow> bool" where
  "reply_is r p m v \<longleftrightarrow> last (replies v) = Return r"

definition active_is :: "nat \<Rightarrow> pool \<Rightarrow> memory \<Rightarrow> locals \<Rightarrow> bool" where
  "active_is n p m v \<longleftrightarrow> active_threads p = n"

definition pending_is :: "nat \<Rightarrow> pool \<Rightarrow> memory \<Rightarrow> locals \<Rightarrow> bool" where
  "pending_is n p m v \<longleftrightarrow> pending_tasks p = n"

definition query_active :: "pool \<Rightarrow> memory \<Rightarrow> nat" where
  "query_active p m = active_threads p"

definition query_pending :: "pool \<Rightarrow> memory \<Rightarrow> nat" where
  "query_pending p m = pending_tasks p"

definition query_counter :: "pool \<Rightarrow> memory \<Rightarrow> nat" where
  "query_counter p m = nat (counter m)"

text \<open>A test: the arguments of the pool's constructor and the rest of the function.\<close>

record pool_test =
  core_arg :: nat
  max_arg :: nat
  script :: "command list"

definition test_basic_submit :: pool_test where
  "test_basic_submit = \<lparr>core_arg = 4, max_arg = 0, script =
     submit_tasks 100 count_up @ get_all 100 @ [Check (counter_is 100), Stop_Waiting, Destroy]\<rparr>"

definition test_return_value :: pool_test where
  "test_return_value = \<lparr>core_arg = 4, max_arg = 0, script =
     [Submit_Task default_priority (give (Number 42)),
      Submit_Task default_priority (give (Number (10 + 20))),
      Submit_Task default_priority (give (Text (''hello'' @ '' world''))),
      Get_Future 0, Check (reply_is (Number 42)), Get_Future 1, Check (reply_is (Number 30)),
      Get_Future 2, Check (reply_is (Text ''hello world'')), Stop_Waiting, Destroy]\<rparr>"

text \<open>The handler's check, and the one behind it.\<close>

definition only_runtime_error :: "string \<Rightarrow> pool \<Rightarrow> memory \<Rightarrow> locals \<Rightarrow> bool" where
  "only_runtime_error msg p m v \<longleftrightarrow>
     (\<forall>r \<in> set (replies v). case r of Return u \<Rightarrow> True | Throw (Runtime_Error what) \<Rightarrow> occurs msg what | Throw e \<Rightarrow> False)"

definition caught_from_get :: "pool \<Rightarrow> memory \<Rightarrow> locals \<Rightarrow> bool" where
  "caught_from_get p m v \<longleftrightarrow> (\<exists>r \<in> set (replies v). case r of Throw (Runtime_Error what) \<Rightarrow> True | _ \<Rightarrow> False)"

definition test_exception_propagation :: pool_test where
  "test_exception_propagation = \<lparr>core_arg = 4, max_arg = 0, script =
     [Submit_Task default_priority (fail_with ''test exception from task''), Try_Get 0,
      Check (only_runtime_error ''test exception from task''), Check caught_from_get, Stop_Waiting, Destroy]\<rparr>"

text \<open>The tasks append their priorities to a list under a mutex.\<close>

definition note_order :: "int \<Rightarrow> body" where
  "note_order n m = (Return Void, m\<lparr>order := order m @ [n]\<rparr>)"

definition order_is :: "nat \<Rightarrow> int \<Rightarrow> pool \<Rightarrow> memory \<Rightarrow> locals \<Rightarrow> bool" where
  "order_is k n p m v \<longleftrightarrow> k < length (order m) \<and> order m ! k = n"

definition test_priority_order :: pool_test where
  "test_priority_order = \<lparr>core_arg = 1, max_arg = 0, script =
     [Submit_Task 10 (note_order 10), Submit_Task 0 (note_order 0), Submit_Task 5 (note_order 5)] @ get_all 3 @
     [Check (\<lambda>p m v. length (order m) = 3), Check (order_is 0 0), Check (order_is 1 5), Check (order_is 2 10),
      Stop_Waiting, Destroy]\<rparr>"

definition test_wait_and_stop :: pool_test where
  "test_wait_and_stop = \<lparr>core_arg = 4, max_arg = 0, script =
     submit_tasks 200 count_up @ [Stop_Waiting, Check (counter_is 200), Destroy]\<rparr>"

definition test_stop_immediately :: pool_test where
  "test_stop_immediately = \<lparr>core_arg = 2, max_arg = 0, script =
     submit_tasks 500 count_up @ [Sleep, Stop_At_Once, Query query_counter,
       Check (\<lambda>p m v. last (seen v) < 500), Destroy]\<rparr>"

definition test_dynamic_scale_down :: pool_test where
  "test_dynamic_scale_down = \<lparr>core_arg = 2, max_arg = 6, script =
     submit_tasks 50 (give Void) @ get_all 50 @ [Query query_active, Sleep, Query query_active,
       Check (\<lambda>p m v. seen v ! 1 \<le> seen v ! 0),
       Check (\<lambda>p m v. active_threads p \<le> seen v ! 1 \<and> seen v ! 1 \<le> seen v ! 0), Stop_Waiting, Destroy]\<rparr>"

definition submitter :: "command list" where
  "submitter = submit_tasks 250 count_up @ get_all 250"

definition test_concurrent_submit :: pool_test where
  "test_concurrent_submit = \<lparr>core_arg = 8, max_arg = 0, script =
     replicate 8 (Start_Thread submitter) @ map Join_Thread [1..<9] @
     [Check (counter_is (8 * 250)), Stop_Waiting, Destroy]\<rparr>"

definition test_submit_after_stop :: pool_test where
  "test_submit_after_stop = \<lparr>core_arg = 4, max_arg = 0, script =
     [Stop_Waiting, Try_Submit default_priority (give (Number 1)), Check (\<lambda>p m v. caught v \<noteq> []), Destroy]\<rparr>"

definition test_zero_threads :: bool where
  "test_zero_threads \<longleftrightarrow> (case ThreadPool 0 0 of None \<Rightarrow> True | Some p \<Rightarrow> False)"

definition test_thread_count_queries :: pool_test where
  "test_thread_count_queries = \<lparr>core_arg = 4, max_arg = 0, script =
     [Check (active_is 4), Check (pending_is 0)] @ submit_tasks 50 (give Void) @
     [Query query_pending, Check (active_is 4)] @ get_all 50 @ [Check (pending_is 0), Stop_Waiting, Destroy]\<rparr>"

definition test_fixed_thread_pool :: pool_test where
  "test_fixed_thread_pool = \<lparr>core_arg = 4, max_arg = 0, script =
     [Check (active_is 4)] @ submit_tasks 200 (give Void) @ [Check (active_is 4)] @ get_all 200 @
     [Check (active_is 4), Stop_Waiting, Destroy]\<rparr>"

definition test_destructor_cleanup :: pool_test where
  "test_destructor_cleanup = \<lparr>core_arg = 2, max_arg = 0, script =
     submit_tasks 100 count_up @ [Destroy, Check (\<lambda>p m v. True)]\<rparr>"

section \<open>Joined threads have finished\<close>

definition joins_ok :: "world \<Rightarrow> bool" where
  "joins_ok w \<longleftrightarrow> (\<forall>c \<in> set (clients w). \<forall>j. Join_Thread j \<in> set (past c) \<longrightarrow>
     j < length (clients w) \<and> finished (clients w ! j))"

lemma ends_past:
  assumes "command_ends w c w' cmd c'" "pc c < length (program c)" "cmd = program c ! pc c"
  shows "past c' = past c \<or> past c' = past c @ [cmd] \<and> (\<forall>j. cmd = Join_Thread j \<longrightarrow> j < length (clients w) \<and> finished (clients w ! j))"
  using assms(1)
proof cases
  case (ends_enter v i)
  then show ?thesis by (simp add: past_def)
next
  case (ends_get k r v)
  then show ?thesis using assms(2,3) by (auto simp: past_next)
next
  case (ends_submit b a v)
  then show ?thesis using assms(2,3) by (auto simp: past_next)
next
  case (ends_quiet v)
  then show ?thesis using assms(2,3) by (auto simp: past_next)
qed simp

text \<open>One step of a thread, with all that it does to the list of threads.\<close>

lemma client_step:
  assumes "world_do (Client i) w = Some w'" "\<forall>c \<in> set (clients w). client_ok w c"
  obtains c' where "i < length (clients w)" "pc (clients w ! i) < length (program (clients w ! i))"
    "command_ends w (clients w ! i) w' (program (clients w ! i) ! pc (clients w ! i)) c'"
    "clients w' = (clients w)[i := c'] @ map new_client (started [program (clients w ! i) ! pc (clients w ! i)])"
    "\<not> finished (clients w ! i)" "\<not> aborted w"
proof (rule that)
  have i: "i < length (clients w)" and nf: "\<not> finished (clients w ! i)"
    and run: "run_command i (program (clients w ! i) ! pc (clients w ! i)) w = Some w'"
    using assms(1) by (auto split: if_splits)
  show "i < length (clients w)" "\<not> finished (clients w ! i)" by fact+
  show "\<not> aborted w" using assms(1) by (auto split: if_splits)
  show "pc (clients w ! i) < length (program (clients w ! i))"
    using nf assms(2) i by (auto simp: finished_def client_ok_def intro: le_neq_implies_less)
  show "command_ends w (clients w ! i) w' (program (clients w ! i) ! pc (clients w ! i)) (clients w' ! i)"
    "clients w' = (clients w)[i := clients w' ! i] @ map new_client (started [program (clients w ! i) ! pc (clients w ! i)])"
    using run_command_ends [OF run i] by blast+
qed

lemma other_steps_keep_clients:
  assumes "world_do ch w = Some w'" "\<nexists>i. ch = Client i"
  shows "clients w' = clients w \<and> test_ok w' = test_ok w \<and> aborted w' = aborted w"
  using assms by (cases ch) (auto split: if_splits worker.splits)

lemma joins_ok_step:
  assumes jo: "joins_ok w" and cok: "\<forall>c \<in> set (clients w). client_ok w c" and step: "world_do ch w = Some w'"
  shows "joins_ok w'"
proof (cases "\<exists>i. ch = Client i")
  case False
  then show ?thesis using other_steps_keep_clients [OF step] jo by (simp add: joins_ok_def)
next
  case True
  then obtain i where "world_do (Client i) w = Some w'" using step by blast
  from this cok show ?thesis
  proof (rule client_step)
    fix c'
    define c where "c = clients w ! i"
    define cmd where "cmd = program c ! pc c"
    assume i: "i < length (clients w)" and pc: "pc (clients w ! i) < length (program (clients w ! i))"
      and ends: "command_ends w (clients w ! i) w' (program (clients w ! i) ! pc (clients w ! i)) c'"
      and cl: "clients w' = (clients w)[i := c'] @ map new_client (started [program (clients w ! i) ! pc (clients w ! i)])"
      and nf: "\<not> finished (clients w ! i)"
    have keep: "j < length (clients w') \<and> finished (clients w' ! j)"
      if "j < length (clients w) \<and> finished (clients w ! j)" for j
    proof -
      have "i \<noteq> j" using that nf by auto
      then show ?thesis using that by (simp add: cl nth_append)
    qed
    note p = ends_past [OF ends pc refl]
    have new: "j < length (clients w') \<and> finished (clients w' ! j)" if "Join_Thread j \<in> set (past c')" for j
      using p that jo i nth_mem [OF i] keep [of j] by (fastforce simp: joins_ok_def)
    have "past (new_client d) = []" for d by (simp add: past_def new_client_def)
    then have "\<forall>d \<in> set (clients w'). d = c' \<or> d \<in> set (clients w) \<or> past d = []"
      unfolding cl using set_update_subset_insert [of "clients w" i c'] by auto
    moreover have "j < length (clients w') \<and> finished (clients w' ! j)"
      if "d \<in> set (clients w)" "Join_Thread j \<in> set (past d)" for d j
      using jo keep that unfolding joins_ok_def by blast
    ultimately show ?thesis using new unfolding joins_ok_def by (metis empty_iff empty_set)
  qed
qed

lemma test_joins_ok:
  assumes "test_reaches c m cs w" "flat cs"
  shows "joins_ok w"
  using assms(1)
proof (induction rule: test_reaches.induct)
  case (test_new p)
  then show ?case by (simp add: joins_ok_def start_test_def new_client_def past_def)
next
  case (test_next w w')
  then obtain ch where "world_do ch w = Some w'" by (auto simp: world_step_def simp del: world_do.simps)
  then show ?case using joins_ok_step [OF test_next(3)] test_world_ok [OF test_next(1) assms(2)] by (simp add: world_ok_def)
qed

section \<open>What a thread knows at a command\<close>

text \<open>Only the test's own thread stops the pool.\<close>

definition main_stops :: "command list \<Rightarrow> bool" where
  "main_stops cs \<longleftrightarrow> (\<forall>d \<in> set (started cs). \<not> list_ex stops d)"

lemma begun_subset: "set (begun c) \<subseteq> set (program c)"
  by (auto simp: begun_def dest: in_set_takeD)

lemma past_subset: "set (past c) \<subseteq> set (program c)"
  by (auto simp: past_def dest: in_set_takeD)

lemma main_begun:
  assumes "world_ok cs w" "well_formed 0 0 cs" "main_stops cs" "c \<in> set (clients w)" "x \<in> set (begun c)" "stops x"
  shows "x \<in> set (begun (clients w ! 0))"
proof -
  obtain i where i: "i < length (clients w)" "c = clients w ! i" using assms(4) by (metis in_set_conv_nth)
  show ?thesis
  proof (cases "i = 0")
    case False
    then have "program c \<in> set (started cs)" using thread_program(5) [OF assms(1) i(1) assms(2)] i(2) by simp
    then have "\<not> list_ex stops (program c)" using assms(3) by (simp add: main_stops_def)
    moreover have "x \<in> set (program c)" using begun_subset assms(5) by blast
    ultimately show ?thesis using assms(6) by (auto simp: list_ex_iff)
  qed (use i assms in simp)
qed

lemma still_accepting:
  assumes "world_ok cs w" "well_formed 0 0 cs" "main_stops cs" "\<not> list_ex stops (begun (clients w ! 0))"
  shows "accepting (threadpool w)"
  using main_begun [OF assms(1,2,3)] assms(1,4) by (auto simp: world_ok_def list_ex_iff)

definition hard_stop :: "command \<Rightarrow> bool" where
  "hard_stop x \<longleftrightarrow> stops x \<and> x \<noteq> Stop_Waiting"

lemma nothing_dropped:
  assumes "world_ok cs w" "well_formed 0 0 cs" "main_stops cs" "\<not> list_ex hard_stop (begun (clients w ! 0))"
  shows "dropped (threadpool w) = []"
  using main_begun [OF assms(1,2,3)] assms(1,4) by (auto simp: world_ok_def list_ex_iff hard_stop_def)

lemma stop_call_None: "pool_ok p \<Longrightarrow> stops cmd \<Longrightarrow> stop_call cmd p = None \<Longrightarrow> \<not> accepting p"
  by (cases cmd) (auto simp: stops_def wait_and_stop_def stop_immediately_def destroy_pool_def pool_ok_def
      stop_ok_def split: if_splits)

lemma stopped_stays: "pool_ok p \<Longrightarrow> stopper p = Stopped \<Longrightarrow> pool_step True p q \<Longrightarrow> stopper q = Stopped"
proof -
  assume ok: "pool_ok p" and st: "stopper p = Stopped" and step: "pool_step True p q"
  have acc: "\<not> accepting p" "stop p" using ok st by (auto simp: pool_ok_def stop_ok_def)
  from step show "stopper q = Stopped"
    by cases (use acc st in \<open>auto simp: pool_op_defs\<close>)
qed

text \<open>When a call that stops the pool has returned, the pool is stopped.\<close>

definition stop_returned :: "world \<Rightarrow> bool" where
  "stop_returned w \<longleftrightarrow> (list_ex stops (past (clients w ! 0)) \<longrightarrow> stopper (threadpool w) = Stopped)"

lemma stop_returned_step:
  assumes ok: "pool_ok (threadpool w)" and wo: "world_ok cs w" and wf: "well_formed 0 0 cs" and ms: "main_stops cs"
    and sr: "stop_returned w" and step: "world_do ch w = Some w'"
  shows "stop_returned w'"
proof -
  have stay: "stopper (threadpool w') = Stopped" if "stopper (threadpool w) = Stopped"
    using world_do_pool [OF step] stopped_stays [OF ok that] that by auto
  have cok: "\<forall>c \<in> set (clients w). client_ok w c" using wo by (simp add: world_ok_def)
  have z: "0 < length (clients w)" using wo by (simp add: world_ok_def)
  show ?thesis
  proof (cases "ch = Client 0")
    case False
    have "clients w' ! 0 = clients w ! 0"
    proof (cases "\<exists>i. ch = Client i")
      case True
      then obtain i where i: "world_do (Client i) w = Some w'" "i \<noteq> 0" using step False by auto
      show ?thesis by (rule client_step [OF i(1) cok]) (use i z in \<open>auto simp: nth_append\<close>)
    qed (use other_steps_keep_clients [OF step] in simp)
    then show ?thesis using sr stay by (simp add: stop_returned_def)
  next
    case True
    then have "world_do (Client 0) w = Some w'" using step by simp
    from this cok show ?thesis
    proof (rule client_step)
      fix c'
      define c where "c = clients w ! 0"
      define cmd where "cmd = program c ! pc c"
      assume pc: "pc (clients w ! 0) < length (program (clients w ! 0))"
        and ends: "command_ends w (clients w ! 0) w' (program (clients w ! 0) ! pc (clients w ! 0)) c'"
        and cl: "clients w' = (clients w)[0 := c'] @ map new_client (started [program (clients w ! 0) ! pc (clients w ! 0)])"
      note ends = ends [folded c_def, folded cmd_def] and pc = pc [folded c_def]
      have c': "clients w' ! 0 = c'" using z by (simp add: cl nth_append)
      have "stopper (threadpool w') = Stopped" if st: "list_ex stops (past c')"
      proof (cases "list_ex stops (past c)")
        case True
        then show ?thesis using sr stay by (simp add: stop_returned_def c_def)
      next
        case False
        then have new: "past c' = past c @ [cmd]" "stops cmd"
          using ends_past [OF ends pc cmd_def] st by auto
        from ends show ?thesis
        proof cases
          case (ends_quiet v)
          show ?thesis
          proof (cases "joining c")
            case True
            then show ?thesis using ends_quiet(10) new(2) stay by simp
          next
            case nj: False
            then have "stop_world cmd w = None" using ends_quiet(10) new(2) by simp
            then have "stop_call cmd (threadpool w) = None" by (simp add: stop_world_def split: option.splits)
            then have "\<not> accepting (threadpool w)" using stop_call_None [OF ok new(2)] by simp
            moreover have "begun c = past c" using nj by (simp add: begun_def past_def)
            ultimately show ?thesis using still_accepting [OF wo wf ms] False by (simp add: c_def)
          qed
        next
          case ends_abort
          then show ?thesis using new by simp
        next
          case (ends_enter v i)
          then show ?thesis using new by (simp add: past_def)
        qed (use new(2) in \<open>auto simp: stops_def\<close>)
      qed
      then show ?thesis by (simp add: stop_returned_def c')
    qed
  qed
qed

lemma test_stop_returned:
  assumes "test_reaches c m cs w" "well_formed 0 0 cs" "main_stops cs"
  shows "stop_returned w"
  using assms(1)
proof (induction rule: test_reaches.induct)
  case (test_new p)
  then show ?case by (simp add: stop_returned_def start_test_def new_client_def past_def)
next
  case (test_next w w')
  then obtain ch where "world_do ch w = Some w'" by (auto simp: world_step_def simp del: world_do.simps)
  then show ?case
    using stop_returned_step [OF _ _ assms(2,3) test_next(3)] test_pool_ok [OF test_next(1)]
      test_world_ok [OF test_next(1) well_formed_flat [OF assms(2)]] by blast
qed

text \<open>The tasks of the pool are those that the threads have submitted.\<close>

lemma tasks_of_threads:
  assumes r: "test_reaches c m cs w" and wo: "world_ok cs w"
    and tries: "\<forall>c \<in> set (clients w). tries (past c) = 0"
  shows "length (submitted (threadpool w)) = sum_list (map (\<lambda>c. length (task_bodies (past c))) (clients w))"
    "t < length (bodies w) \<Longrightarrow> \<exists>c \<in> set (clients w). t \<in> set (handles (vars c)) \<and> bodies w ! t \<in> set (task_bodies (past c))"
proof -
  have cok: "\<forall>c \<in> set (clients w). client_ok w c" using wo by (simp add: world_ok_def)
  have handed: "handed c = handles (vars c)" "length (handed c) = length (task_bodies (past c))"
    if "c \<in> set (clients w)" for c
  proof -
    have ok: "client_ok w c" using cok that by blast
    then show h: "handed c = handles (vars c)" using tries that by (simp add: client_ok_def handed_def)
    show "length (handed c) = length (task_bodies (past c))" using ok unfolding h client_ok_def by (metis length_map)
  qed
  have ms: "mset (concat (map handed (clients w))) = mset (submitted (threadpool w))" using wo by (simp add: world_ok_def)
  have "length (submitted (threadpool w)) = length (concat (map handed (clients w)))" using ms by (metis size_mset)
  also have "\<dots> = sum_list (map (\<lambda>c. length (handed c)) (clients w))" by (simp add: length_concat comp_def)
  also have "map (\<lambda>c. length (handed c)) (clients w) = map (\<lambda>c. length (task_bodies (past c))) (clients w)"
    using handed(2) by simp
  finally show "length (submitted (threadpool w)) = sum_list (map (\<lambda>c. length (task_bodies (past c))) (clients w))" .
  assume t: "t < length (bodies w)"
  have "submitted (threadpool w) = [0..<length (bodies w)]"
    using test_pool_ok [OF r] test_tasks_match [OF r] by (simp add: pool_ok_def tasks_ok_def tasks_match_def)
  then have "t \<in> set (concat (map handed (clients w)))" using ms t by (metis atLeastLessThan_iff le0 mset_eq_setD set_upt)
  then obtain c where c: "c \<in> set (clients w)" "t \<in> set (handles (vars c))" using handed(1) by auto
  have "set (map (\<lambda>t. bodies w ! t) (handles (vars c))) = set (task_bodies (past c))"
    using cok c(1) unfolding client_ok_def by metis
  then show "\<exists>c \<in> set (clients w). t \<in> set (handles (vars c)) \<and> bodies w ! t \<in> set (task_bodies (past c))"
    using c by auto
qed

text \<open>When every thread has got all its futures, every task has been run.\<close>

lemma all_executed:
  assumes r: "test_reaches c m cs w" and wo: "world_ok cs w"
    and tries: "\<forall>c \<in> set (clients w). tries (past c) = 0"
    and got: "\<forall>c \<in> set (clients w). {..<length (task_bodies (past c))} \<subseteq> set (gets (past c))"
    and nd: "dropped (threadpool w) = []"
  shows "mset (executed (threadpool w)) = mset (submitted (threadpool w)) \<and> tasks (threadpool w) = []"
proof -
  define p where "p = threadpool w"
  have ok: "pool_ok p" unfolding p_def by (rule test_pool_ok [OF r])
  have tm: "future w = expected_future (bodies w) p" "length (bodies w) = length (submitted p)"
    using test_tasks_match [OF r] by (simp_all add: tasks_match_def p_def)
  have ex: "t \<in> set (executed p)" if tl: "t < length (submitted p)" for t
  proof -
    obtain c where c: "c \<in> set (clients w)" "t \<in> set (handles (vars c))"
      using tasks_of_threads(2) [OF r wo tries, of t] tl tm(2) by auto
    then obtain k where k: "k < length (handles (vars c))" "handles (vars c) ! k = t" by (metis in_set_conv_nth)
    have cok: "client_ok w c" using wo c(1) by (simp add: world_ok_def)
    have "length (handles (vars c)) = length (task_bodies (past c))"
      using cok unfolding client_ok_def by (metis length_map)
    then have "k \<in> set (gets (past c))" using got c(1) k(1) by auto
    then obtain i where i: "i < length (gets (past c))" "gets (past c) ! i = k" by (metis in_set_conv_nth)
    have "list_all2 (\<lambda>k r. k < length (handles (vars c)) \<and> future w (handles (vars c) ! k) = Ready r)
       (gets (past c)) (replies (vars c))" using cok by (simp add: client_ok_def)
    then have "future w t = Ready (replies (vars c) ! i)" using list_all2_nthD i k(2) by fastforce
    then show ?thesis using expected_pending [of "bodies w" p t] nd by (simp add: tm(1) p_def)
  qed
  have places: "count (mset (executed p)) t = count (mset (submitted p)) t \<and> count (mset (map snd (tasks p))) t = 0" for t
  proof (cases "t < length (submitted p)")
    case True
    then have "0 < count (mset (executed p)) t" using ex by simp
    then have "count (mset (executed p)) t = 1" "count (mset (map snd (tasks p))) t = 0"
      using task_places [OF ok, of t] True by presburger+
    moreover have "submitted p = [0..<length (submitted p)]" using ok by (simp add: pool_ok_def tasks_ok_def)
    then have "count (mset (submitted p)) t = 1" using True distinct_count_atmost_1 [of "[0..<length (submitted p)]"]
      by (metis atLeastLessThan_iff distinct_upt le0 set_upt)
    ultimately show ?thesis by simp
  next
    case False
    then have "count (mset (executed p)) t = 0" "count (mset (map snd (tasks p))) t = 0"
      using task_places [OF ok, of t] by auto
    moreover have "submitted p = [0..<length (submitted p)]" using ok by (simp add: pool_ok_def tasks_ok_def)
    then have "t \<notin> set (submitted p)" using False by (metis atLeastLessThan_iff set_upt)
    ultimately show ?thesis by (metis count_mset_0_iff)
  qed
  then have "mset (executed p) = mset (submitted p)" by (simp add: multiset_eq_iff)
  moreover have "mset (map snd (tasks p)) = {#}" using places by (simp add: multiset_eq_iff del: mset_map)
  then have "tasks p = []" by simp
  ultimately show ?thesis by (simp add: p_def)
qed

lemma counter_counts:
  "\<forall>t \<in> set ts. bs ! t = count_up \<Longrightarrow> counter (final_memory bs ts m) = counter m + int (length ts)"
  by (induction ts arbitrary: m) (simp_all add: count_up_def)

text \<open>If every task counts, the counter is the number of tasks that have run.\<close>

lemma counter_executed:
  assumes r: "test_reaches c m cs w" and wo: "world_ok cs w"
    and tries: "\<forall>c \<in> set (clients w). tries (past c) = 0"
    and ups: "\<forall>c \<in> set (clients w). set (task_bodies (past c)) \<subseteq> {count_up}"
  shows "counter (memory w) = int (length (executed (threadpool w)))"
proof -
  have tm: "memory w = final_memory (bodies w) (executed (threadpool w)) empty_memory"
    "length (bodies w) = length (submitted (threadpool w))"
    using test_tasks_match [OF r] by (simp_all add: tasks_match_def)
  have "bodies w ! t = count_up" if "t \<in> set (executed (threadpool w))" for t
  proof -
    have "t < length (bodies w)" using executed_submitted [OF test_pool_ok [OF r] that] tm(2) by simp
    then show ?thesis using tasks_of_threads(2) [OF r wo tries] ups by blast
  qed
  then show ?thesis unfolding tm(1) by (simp add: counter_counts empty_memory_def)
qed

text \<open>The reply to a call of \<^verbatim>\<open>get\<close>, when nothing was dropped.\<close>

lemma ready_outcome:
  assumes r: "test_reaches c m cs w" and nd: "dropped (threadpool w) = []" and rd: "future w t = Ready r"
  shows "\<exists>m'. r = fst ((bodies w ! t) m')"
proof -
  define p where "p = threadpool w"
  have f: "future w t = expected_future (bodies w) p t" using test_tasks_match [OF r] by (simp add: tasks_match_def p_def)
  show ?thesis
  proof (cases "t \<in> set (executed p)")
    case True
    from outcome_split [OF this, of "bodies w" empty_memory] show ?thesis using f rd by (auto simp: expected_future_def)
  next
    case False
    then show ?thesis using expected_unfinished [OF False, of "bodies w"] f rd nd by (simp add: p_def)
  qed
qed

lemma fixed_pool_active:
  assumes "pool_reaches now c m p" "\<not> stop p" "m \<le> c"
  shows "active_threads p = c"
  using pool_reaches_ok [OF assms(1)] assms(2,3)
  by (auto simp: pool_ok_def stop_ok_def active_threads_def split: if_splits stopper.splits)

text \<open>When the pool has been stopped gracefully, every task has been run; otherwise some may be dropped.\<close>

lemma stopped_executed:
  assumes "pool_ok p" "stopper p = Stopped"
  shows "mset (executed p) + mset (dropped p) = mset (submitted p)" "tasks p = []"
proof -
  have "tasks p = []" "\<forall>x < spawned p. status p x = Exited"
    using assms by (auto simp: pool_ok_def stop_ok_def threads_ok_def held_def)
  then show "mset (executed p) + mset (dropped p) = mset (submitted p)" "tasks p = []"
    using assms(1) by (simp_all add: pool_ok_def tasks_ok_def busy_def)
qed

section \<open>Checking a program along its commands\<close>

text \<open>The next command of a thread neither fails a check nor lets an exception out.\<close>

definition safe :: "world \<Rightarrow> nat \<Rightarrow> bool" where
  "safe w i = (let c = clients w ! i in
     case program c ! pc c of
       Check ok \<Rightarrow> ok (threadpool w) (memory w) (vars c)
     | Submit_Task a b \<Rightarrow> accepting (threadpool w)
     | Get_Future k \<Rightarrow> \<forall>e. get_future w c k \<noteq> Some (Throw e)
     | _ \<Rightarrow> True)"

lemma submit_body_flags:
  "submit_body a b w = Some (t, v) \<Longrightarrow> test_ok v = test_ok w \<and> aborted v = aborted w"
  using submit_body_keeps by blast

lemma stop_world_flags:
  "stop_world cmd w = Some v \<Longrightarrow> test_ok v = test_ok w \<and> aborted v = aborted w"
  using stop_world_keeps by blast

lemma safe_step:
  assumes ok: "test_ok w" and cok: "\<forall>c \<in> set (clients w). client_ok w c" and step: "world_do ch w = Some w'"
    and safe: "\<And>i. i < length (clients w) \<Longrightarrow> \<not> finished (clients w ! i) \<Longrightarrow> safe w i"
  shows "test_ok w' \<and> \<not> aborted w'"
proof -
  have na: "\<not> aborted w" using step by (auto split: if_splits)
  show ?thesis
  proof (cases "\<exists>i. ch = Client i")
    case False
    then show ?thesis using other_steps_keep_clients [OF step] ok na by simp
  next
    case True
    then obtain i where "world_do (Client i) w = Some w'" using step by blast
    then have i: "i < length (clients w)" and nf: "\<not> finished (clients w ! i)"
      and run: "run_command i (program (clients w ! i) ! pc (clients w ! i)) w = Some w'"
      by (auto split: if_splits)
    define cmd where "cmd = program (clients w ! i) ! pc (clients w ! i)"
    note sf = safe [OF i nf, unfolded safe_def Let_def, folded cmd_def] and run = run [folded cmd_def]
    show ?thesis
    proof (cases "stops cmd")
      case True
      then show ?thesis using run run_stop [OF True, of i w] ok na
        by (auto dest: stop_world_flags split: if_splits option.splits)
    next
      case False
      show ?thesis
      proof (cases cmd)
        case (Submit_Task a b)
        then have "submit_body a b w \<noteq> None" using sf by (simp add: submit_body_def submit_impl_def Let_def)
        then obtain t v where "submit_body a b w = Some (t, v)" by auto
        then show ?thesis using run Submit_Task ok na submit_body_flags [of a b w t v] by auto
      next
        case (Try_Submit a b)
        show ?thesis
        proof (cases "submit_body a b w")
          case None
          then show ?thesis using run Try_Submit ok na by auto
        next
          case (Some y)
          then obtain t v where "submit_body a b w = Some (t, v)" by (cases y) auto
          then show ?thesis using run Try_Submit ok na submit_body_flags [of a b w t v] by auto
        qed
      next
        case (Get_Future k)
        then show ?thesis using run sf ok na by (auto split: option.splits outcome.splits)
      next
        case (Check good)
        then show ?thesis using run sf ok na by auto
      qed (use run sf ok na False in \<open>auto simp: stops_def Let_def split: if_splits option.splits\<close>)
    qed
  qed
qed

lemma safe_test:
  assumes safe: "\<And>w i. test_reaches c m cs w \<Longrightarrow> i < length (clients w) \<Longrightarrow> \<not> finished (clients w ! i) \<Longrightarrow> safe w i"
    and fl: "flat cs" and r: "test_reaches c m cs w"
  shows "test_ok w \<and> \<not> aborted w"
  using r
proof (induction rule: test_reaches.induct)
  case (test_new p)
  then show ?case by (simp add: start_test_def)
next
  case (test_next w w')
  then obtain ch where ch: "world_do ch w = Some w'" by (auto simp: world_step_def simp del: world_do.simps)
  show ?case
    by (rule safe_step [OF _ _ ch]) (use test_next safe test_world_ok [OF test_next(1) fl] in \<open>auto simp: world_ok_def\<close>)
qed

text \<open>A condition on every command of a program, given the commands before it.\<close>

fun checked :: "(command list \<Rightarrow> command \<Rightarrow> bool) \<Rightarrow> command list \<Rightarrow> command list \<Rightarrow> bool" where
  "checked Q us [] = True"
| "checked Q us (x # xs) = (Q us x \<and> checked Q (us @ [x]) xs)"

lemma checked_nth: "checked Q us cs \<Longrightarrow> k < length cs \<Longrightarrow> Q (us @ take k cs) (cs ! k)"
proof (induction Q us cs arbitrary: k rule: checked.induct)
  case (2 Q us x xs)
  then show ?case by (cases k) auto
qed simp

lemma checked_append [simp]: "checked Q us (xs @ ys) \<longleftrightarrow> checked Q us xs \<and> checked Q (us @ xs) ys"
  by (induction xs arbitrary: us) simp_all

lemma checked_submits:
  assumes "\<And>k. k < n \<Longrightarrow> Q (us @ submit_tasks k b) (Submit_Task default_priority b)"
  shows "checked Q us (submit_tasks n b)"
  using assms
proof (induction n)
  case (Suc n)
  have "submit_tasks (Suc n) b = submit_tasks n b @ [Submit_Task default_priority b]"
    by (simp add: submit_tasks_def replicate_append_same)
  then show ?case using Suc by simp
qed (simp add: submit_tasks_def)

lemma checked_gets:
  assumes "\<And>k. k < n \<Longrightarrow> Q (us @ get_all k) (Get_Future k)"
  shows "checked Q us (get_all n)"
  using assms
proof (induction n)
  case (Suc n)
  have "get_all (Suc n) = get_all n @ [Get_Future n]" by (simp add: get_all_def)
  then show ?case using Suc by simp
qed (simp add: get_all_def)

lemma submit_tasks_simps [simp]:
  "task_bodies (submit_tasks n b) = replicate n b" "gets (submit_tasks n b) = []" "started (submit_tasks n b) = []"
  "tries (submit_tasks n b) = 0" "\<not> list_ex stops (submit_tasks n b)" "\<not> list_ex hard_stop (submit_tasks n b)"
  "well_formed h s (submit_tasks n b)"
  unfolding submit_tasks_def by (induction n arbitrary: h) (simp_all add: stops_def hard_stop_def)

lemma get_all_simps [simp]:
  "task_bodies (get_all n) = []" "gets (get_all n) = [0..<n]" "started (get_all n) = []"
  "tries (get_all n) = 0" "\<not> list_ex stops (get_all n)" "\<not> list_ex hard_stop (get_all n)"
  "n \<le> h \<Longrightarrow> well_formed h s (get_all n)"
  unfolding get_all_def by (induction n) (simp_all add: stops_def hard_stop_def well_formed_append)

lemma stops_simps [simp]:
  "stops Stop_Waiting" "stops Stop_At_Once" "stops Destroy" "\<not> stops (Submit_Task a b)" "\<not> stops (Try_Submit a b)"
  "\<not> stops (Get_Future k)" "\<not> stops (Try_Get k)" "\<not> stops (Start_Thread d)" "\<not> stops (Join_Thread j)"
  "\<not> stops Sleep" "\<not> stops (Query q)" "\<not> stops (Check ok)"
  by (simp_all add: stops_def)

lemma hard_stop_simps [simp]:
  "\<not> hard_stop Stop_Waiting" "hard_stop Stop_At_Once" "hard_stop Destroy" "\<not> stops x \<Longrightarrow> \<not> hard_stop x"
  by (simp_all add: hard_stop_def)

section \<open>Tests of one thread\<close>

definition all_got :: "command list \<Rightarrow> bool" where
  "all_got us \<longleftrightarrow> {..<length (task_bodies us)} \<subseteq> set (gets us)"

text \<open>What holds after the commands \<open>us\<close>, whatever the workers did in the meantime.\<close>

definition known :: "nat \<Rightarrow> nat \<Rightarrow> command list \<Rightarrow> pool \<Rightarrow> memory \<Rightarrow> locals \<Rightarrow> bool" where
  "known c m us p mem v \<longleftrightarrow>
     (tries us = 0 \<and> set (task_bodies us) \<subseteq> {count_up} \<and> \<not> list_ex hard_stop us \<and> (list_ex stops us \<or> all_got us) \<longrightarrow>
        counter mem = int (length (task_bodies us))) \<and>
     (tries us = 0 \<and> \<not> list_ex stops us \<and> all_got us \<longrightarrow> pending_tasks p = 0) \<and>
     (\<not> list_ex stops us \<and> m \<le> c \<longrightarrow> active_threads p = c) \<and>
     (\<not> list_ex hard_stop us \<longrightarrow>
        list_all2 (\<lambda>k r. k < length (task_bodies us) \<and> (\<exists>m'. r = fst ((task_bodies us ! k) m'))) (gets us) (replies v)) \<and>
     length (discarded v) + length (caught v) = tries us"

lemma single_thread:
  assumes "test_reaches c m cs w" "well_formed 0 0 cs" "started cs = []"
  shows "clients w = [clients w ! 0]" "program (clients w ! 0) = cs"
proof -
  have wo: "world_ok cs w" by (rule test_world_ok [OF assms(1) well_formed_flat [OF assms(2)]])
  then have z: "0 < length (clients w)" by (simp add: world_ok_def)
  note tp = thread_program [OF wo z assms(2)]
  show p: "program (clients w ! 0) = cs" by (rule tp(3))
  have "started (past (clients w ! 0)) = []" using assms(3) started_nth p
    by (metis ex_in_conv past_def set_empty)
  then show "clients w = [clients w ! 0]" using tp(4) by (cases "clients w") auto
qed

lemma replies_known:
  assumes r: "test_reaches c m cs w" and cok: "client_ok w d" and nd: "dropped (threadpool w) = []"
  shows "list_all2 (\<lambda>k r. k < length (task_bodies (past d)) \<and> (\<exists>m'. r = fst ((task_bodies (past d) ! k) m')))
    (gets (past d)) (replies (vars d))"
proof -
  have hb: "map (\<lambda>t. bodies w ! t) (handles (vars d)) = task_bodies (past d)" using cok by (simp add: client_ok_def)
  then have len: "length (handles (vars d)) = length (task_bodies (past d))" by (metis length_map)
  have "list_all2 (\<lambda>k r. k < length (handles (vars d)) \<and> future w (handles (vars d) ! k) = Ready r)
       (gets (past d)) (replies (vars d))" using cok by (simp add: client_ok_def)
  then show ?thesis
  proof (rule list_all2_mono)
    fix k r
    assume a: "k < length (handles (vars d)) \<and> future w (handles (vars d) ! k) = Ready r"
    then have "bodies w ! (handles (vars d) ! k) = task_bodies (past d) ! k" using hb by (metis nth_map)
    then show "k < length (task_bodies (past d)) \<and> (\<exists>m'. r = fst ((task_bodies (past d) ! k) m'))"
      using ready_outcome [OF r nd, of "handles (vars d) ! k" r] a len by simp
  qed
qed

lemma known_here:
  assumes r: "test_reaches c m cs w" and wf: "well_formed 0 0 cs" and st: "started cs = []"
    and nj: "\<not> joining (clients w ! 0)"
  shows "known c m (past (clients w ! 0)) (threadpool w) (memory w) (vars (clients w ! 0))"
proof -
  define d where "d = clients w ! 0"
  define us where "us = past d"
  have cl: "clients w = [d]" using single_thread(1) [OF r wf st] by (simp add: d_def)
  have ms: "main_stops cs" using st by (simp add: main_stops_def)
  have wo: "world_ok cs w" by (rule test_world_ok [OF r well_formed_flat [OF wf]])
  then have cok: "client_ok w d" using cl by (simp add: world_ok_def)
  have bp: "begun d = us" using nj by (simp add: d_def us_def begun_def past_def)
  have ok: "pool_ok (threadpool w)" by (rule test_pool_ok [OF r])
  have nd: "dropped (threadpool w) = []" if "\<not> list_ex hard_stop us"
    using nothing_dropped [OF wo wf ms] that bp by (simp add: d_def)
  have acc: "accepting (threadpool w)" if "\<not> list_ex stops us"
    using still_accepting [OF wo wf ms] that bp by (simp add: d_def)
  have hs: "list_ex stops us" if "list_ex hard_stop us" using that by (auto simp: list_ex_iff hard_stop_def)
  have len: "length (submitted (threadpool w)) = length (task_bodies us)" if "tries us = 0"
    using tasks_of_threads(1) [OF r wo] that by (simp add: cl us_def)
  have ex: "mset (executed (threadpool w)) = mset (submitted (threadpool w)) \<and> tasks (threadpool w) = []"
    if "tries us = 0" "\<not> list_ex hard_stop us" "list_ex stops us \<or> all_got us"
  proof (cases "list_ex stops us")
    case True
    then have "stopper (threadpool w) = Stopped"
      using test_stop_returned [OF r wf ms] by (simp add: stop_returned_def us_def d_def)
    then show ?thesis using stopped_executed [OF ok] nd [OF that(2)] by simp
  next
    case False
    then show ?thesis using all_executed [OF r wo] nd [OF that(2)] that by (simp add: cl us_def all_got_def)
  qed
  have "counter (memory w) = int (length (task_bodies us))"
    if "tries us = 0" "set (task_bodies us) \<subseteq> {count_up}" "\<not> list_ex hard_stop us" "list_ex stops us \<or> all_got us"
  proof -
    have "counter (memory w) = int (length (executed (threadpool w)))"
      using counter_executed [OF r wo] that by (simp add: cl us_def)
    moreover have "length (executed (threadpool w)) = length (submitted (threadpool w))"
      using ex that by (metis size_mset)
    ultimately show ?thesis using len that(1) by simp
  qed
  moreover have "pending_tasks (threadpool w) = 0" if "tries us = 0" "\<not> list_ex stops us" "all_got us"
    using ex that hs by (auto simp: pending_tasks_def)
  moreover have "active_threads (threadpool w) = c" if "\<not> list_ex stops us" "m \<le> c"
    using fixed_pool_active [OF test_reaches_pool [OF r] _ that(2)] acc [OF that(1)] ok
    by (auto simp: pool_ok_def stop_ok_def)
  moreover have "list_all2 (\<lambda>k r. k < length (task_bodies us) \<and> (\<exists>m'. r = fst ((task_bodies us ! k) m')))
      (gets us) (replies (vars d))" if "\<not> list_ex hard_stop us"
    using replies_known [OF r cok nd [OF that]] by (simp add: us_def)
  moreover have "length (discarded (vars d)) + length (caught (vars d)) = tries us"
    using cok by (simp add: client_ok_def us_def)
  ultimately show ?thesis unfolding known_def d_def [symmetric] us_def [symmetric] by blast
qed

lemma get_no_throw:
  assumes r: "test_reaches c m cs w" and cok: "client_ok w d" and nd: "dropped (threadpool w) = []"
    and bs: "\<forall>b \<in> set (task_bodies (past d)). \<forall>m' e. fst (b m') \<noteq> Throw e"
  shows "get_future w d k \<noteq> Some (Throw e)"
proof
  assume "get_future w d k = Some (Throw e)"
  then have k: "k < length (handles (vars d))" "future w (handles (vars d) ! k) = Ready (Throw e)"
    by (simp_all add: get_future_Some)
  obtain m' where "Throw e = fst ((bodies w ! (handles (vars d) ! k)) m')" using ready_outcome [OF r nd k(2)] by blast
  moreover have "map (\<lambda>t. bodies w ! t) (handles (vars d)) = task_bodies (past d)" using cok by (simp add: client_ok_def)
  then have "bodies w ! (handles (vars d) ! k) \<in> set (task_bodies (past d))" using k(1) by (metis length_map nth_map nth_mem)
  ultimately show False using bs by metis
qed

text \<open>
  What a command needs, after the commands \<open>us\<close>. The argument \<open>X\<close> is a further fact that holds
  whenever the thread is there.
\<close>

fun allowed :: "(command list \<Rightarrow> pool \<Rightarrow> memory \<Rightarrow> locals \<Rightarrow> bool) \<Rightarrow> nat \<Rightarrow> nat \<Rightarrow> command list \<Rightarrow> command \<Rightarrow> bool" where
  "allowed X c m us (Submit_Task a b) \<longleftrightarrow> \<not> list_ex stops us"
| "allowed X c m us (Get_Future k) \<longleftrightarrow> \<not> list_ex hard_stop us \<and> (\<forall>b \<in> set (task_bodies us). \<forall>m' e. fst (b m') \<noteq> Throw e)"
| "allowed X c m us (Check ok) \<longleftrightarrow> (\<forall>p mem v. known c m us p mem v \<longrightarrow> X us p mem v \<longrightarrow> ok p mem v)"
| "allowed X c m us x \<longleftrightarrow> True"

definition nothing_more :: "command list \<Rightarrow> pool \<Rightarrow> memory \<Rightarrow> locals \<Rightarrow> bool" where
  "nothing_more us p mem v \<longleftrightarrow> True"

lemma allowed_safe:
  assumes al: "checked (allowed X c m) [] cs"
    and X: "\<And>w. test_reaches c m cs w \<Longrightarrow>
      X (past (clients w ! 0)) (threadpool w) (memory w) (vars (clients w ! 0))"
    and wf: "well_formed 0 0 cs" and st: "started cs = []"
    and r: "test_reaches c m cs w"
  shows "test_ok w \<and> \<not> aborted w"
proof (rule safe_test [OF _ well_formed_flat [OF wf] r])
  fix w i
  assume r: "test_reaches c m cs w" and i: "i < length (clients w)" and nf: "\<not> finished (clients w ! i)"
  note cl = single_thread [OF r wf st]
  define d where "d = clients w ! 0"
  define cmd where "cmd = program d ! pc d"
  have i0: "i = 0" using i cl(1) by (metis One_nat_def length_Cons less_one list.size(3))
  have wo: "world_ok cs w" by (rule test_world_ok [OF r well_formed_flat [OF wf]])
  have ms: "main_stops cs" using st by (simp add: main_stops_def)
  have cok: "client_ok w d" using wo i i0 by (simp add: world_ok_def d_def)
  have prog: "program d = cs" using cl(2) by (simp add: d_def)
  have pc: "pc d < length cs" using cok nf i0 prog by (auto simp: client_ok_def finished_def d_def)
  have here: "allowed X c m (past d) cmd" using checked_nth [OF al pc] prog by (simp add: past_def cmd_def)
  have nj: "\<not> joining d" if "\<not> stops cmd" using cok that by (auto simp: client_ok_def cmd_def)
  then have bp: "begun d = past d" if "\<not> stops cmd" using that by (simp add: begun_def past_def)
  show "safe w i"
  proof (cases cmd)
    case (Submit_Task a b)
    then have "accepting (threadpool w)" using still_accepting [OF wo wf ms] here bp by (simp add: d_def)
    then show ?thesis using Submit_Task i0 by (simp add: safe_def cmd_def d_def Let_def)
  next
    case (Get_Future k)
    have nd: "dropped (threadpool w) = []" using nothing_dropped [OF wo wf ms] here Get_Future bp by (simp add: d_def)
    have "get_future w d k \<noteq> Some (Throw e)" for e
      using get_no_throw [OF r cok nd] here Get_Future by simp
    then show ?thesis using Get_Future i0 by (simp add: safe_def cmd_def d_def Let_def)
  next
    case (Check ok)
    then have "ok (threadpool w) (memory w) (vars d)"
      using here known_here [OF r wf st] X [OF r] nj by (simp add: d_def)
    then show ?thesis using Check i0 by (simp add: safe_def cmd_def d_def Let_def)
  qed (use i0 in \<open>simp_all add: safe_def cmd_def d_def Let_def\<close>)
qed

section \<open>The tests pass on every schedule\<close>

definition passes :: "pool_test \<Rightarrow> world \<Rightarrow> bool" where
  "passes t w \<longleftrightarrow> test_ok w \<and> \<not> aborted w \<and> (finished (clients w ! 0) \<or> (\<exists>w'. world_step w w'))"

abbreviation test_run :: "pool_test \<Rightarrow> world \<Rightarrow> bool" where
  "test_run t w \<equiv> test_reaches (core_arg t) (max_arg t) (script t) w"

lemma single_passes:
  assumes "checked (allowed nothing_more (core_arg t) (max_arg t)) [] (script t)" "well_formed 0 0 (script t)"
    "started (script t) = []" "test_run t w"
  shows "passes t w"
  using allowed_safe [OF assms(1) _ assms(2-4)] test_progress [OF assms(4,2)]
  by (auto simp: passes_def nothing_more_def)

lemma all_got_gets: "n \<le> k \<Longrightarrow> {..<n} \<subseteq> {0..<k :: nat}"
  by auto

lemma give_no_throw [simp]: "fst (give r m) \<noteq> Throw e" "fst (count_up m) \<noteq> Throw e"
  by (simp_all add: give_def count_up_def)

lemmas test_simps = known_def all_got_def counter_is_def active_is_def pending_is_def reply_is_def lessThan_atLeast0

lemma basic_submit_passes: "test_run test_basic_submit w \<Longrightarrow> passes test_basic_submit w"
proof (rule single_passes)
  show "checked (allowed nothing_more (core_arg test_basic_submit) (max_arg test_basic_submit)) [] (script test_basic_submit)"
    by (auto simp: test_basic_submit_def test_simps intro!: checked_submits checked_gets)
qed (simp_all add: test_basic_submit_def well_formed_append)

lemma wait_and_stop_passes: "test_run test_wait_and_stop w \<Longrightarrow> passes test_wait_and_stop w"
proof (rule single_passes)
  show "checked (allowed nothing_more (core_arg test_wait_and_stop) (max_arg test_wait_and_stop)) [] (script test_wait_and_stop)"
    by (auto simp: test_wait_and_stop_def test_simps intro!: checked_submits checked_gets)
qed (simp_all add: test_wait_and_stop_def well_formed_append)

lemma thread_count_queries_passes: "test_run test_thread_count_queries w \<Longrightarrow> passes test_thread_count_queries w"
proof (rule single_passes)
  show "checked (allowed nothing_more (core_arg test_thread_count_queries) (max_arg test_thread_count_queries)) []
      (script test_thread_count_queries)"
    by (auto simp: test_thread_count_queries_def test_simps intro!: checked_submits checked_gets)
qed (simp_all add: test_thread_count_queries_def well_formed_append)

lemma fixed_thread_pool_passes: "test_run test_fixed_thread_pool w \<Longrightarrow> passes test_fixed_thread_pool w"
proof (rule single_passes)
  show "checked (allowed nothing_more (core_arg test_fixed_thread_pool) (max_arg test_fixed_thread_pool)) []
      (script test_fixed_thread_pool)"
    by (auto simp: test_fixed_thread_pool_def test_simps intro!: checked_submits checked_gets)
qed (simp_all add: test_fixed_thread_pool_def well_formed_append)

lemma destructor_cleanup_passes: "test_run test_destructor_cleanup w \<Longrightarrow> passes test_destructor_cleanup w"
proof (rule single_passes)
  show "checked (allowed nothing_more (core_arg test_destructor_cleanup) (max_arg test_destructor_cleanup)) []
      (script test_destructor_cleanup)"
    by (auto simp: test_destructor_cleanup_def test_simps intro!: checked_submits checked_gets)
qed (simp_all add: test_destructor_cleanup_def well_formed_append)

lemma return_value_passes: "test_run test_return_value w \<Longrightarrow> passes test_return_value w"
proof (rule single_passes)
  show "checked (allowed nothing_more (core_arg test_return_value) (max_arg test_return_value)) [] (script test_return_value)"
    by (auto simp: test_return_value_def test_simps list_all2_Cons1 give_def)
qed (simp_all add: test_return_value_def)

lemma exception_propagation_passes: "test_run test_exception_propagation w \<Longrightarrow> passes test_exception_propagation w"
proof (rule single_passes)
  show "checked (allowed nothing_more (core_arg test_exception_propagation) (max_arg test_exception_propagation)) []
      (script test_exception_propagation)"
    by (auto simp: test_exception_propagation_def test_simps list_all2_Cons1 fail_with_def
        only_runtime_error_def caught_from_get_def occurs_def)
qed (simp_all add: test_exception_propagation_def)

section \<open>Concurrent submission\<close>

lemma concurrent_simps:
  "script test_concurrent_submit = replicate 8 (Start_Thread submitter) @ map Join_Thread [1..<9] @
     [Check (counter_is (8 * 250)), Stop_Waiting, Destroy]"
  "length (script test_concurrent_submit) = 19"
  by (simp_all add: test_concurrent_submit_def)

lemma submitter_simps [simp]:
  "task_bodies submitter = replicate 250 count_up" "gets submitter = [0..<250]" "started submitter = []"
  "tries submitter = 0" "\<not> list_ex stops submitter" "well_formed 0 0 submitter"
  by (simp_all add: submitter_def well_formed_append)

lemma started_replicate [simp]: "started (replicate n (Start_Thread d)) = replicate n d"
  by (induction n) simp_all

lemma joins_simps [simp]:
  "started (map Join_Thread js) = []" "task_bodies (map Join_Thread js) = []"
  "gets (map Join_Thread js) = []" "tries (map Join_Thread js) = 0"
  by (induction js) simp_all

lemma starts_simps [simp]:
  "task_bodies (replicate n (Start_Thread d)) = []" "gets (replicate n (Start_Thread d)) = []"
  "tries (replicate n (Start_Thread d)) = 0"
  by (induction n) simp_all

lemma well_formed_concurrent: "well_formed 0 0 (script test_concurrent_submit)"
proof -
  have "well_formed 0 s (replicate n (Start_Thread submitter))" for n s by (induction n arbitrary: s) simp_all
  moreover have "\<forall>j \<in> set js. 0 < j \<and> j \<le> s \<Longrightarrow> well_formed h s (map Join_Thread js)" for js h s
    by (induction js) simp_all
  ultimately show ?thesis by (simp add: concurrent_simps(1) well_formed_append)
qed

lemma task_bodies_set: "b \<in> set (task_bodies cs) \<Longrightarrow> \<exists>a. Submit_Task a b \<in> set cs"
  by (induction cs rule: task_bodies.induct) auto

lemma past_tasks: "set (task_bodies (past d)) \<subseteq> set (task_bodies (program d))"
proof -
  have "program d = past d @ drop (pc d) (program d)" by (simp add: past_def)
  then have "task_bodies (program d) = task_bodies (past d) @ task_bodies (drop (pc d) (program d))"
    by (metis task_bodies_append)
  then show ?thesis by simp
qed

text \<open>While a submitter runs, the test has not come to the commands behind the joins.\<close>

lemma submitter_running:
  assumes r: "test_run test_concurrent_submit w" and i: "i < length (clients w)" "i \<noteq> 0"
    and nf: "\<not> finished (clients w ! i)"
  shows "pc (clients w ! 0) < 16"
proof (rule ccontr)
  define cs where "cs = script test_concurrent_submit"
  define d where "d = clients w ! 0"
  assume "\<not> pc (clients w ! 0) < 16"
  then have pc: "16 \<le> pc d" by (simp add: d_def)
  have wf: "well_formed 0 0 cs" unfolding cs_def by (rule well_formed_concurrent)
  have wo: "world_ok cs w" unfolding cs_def by (rule test_world_ok [OF r well_formed_flat [OF well_formed_concurrent]])
  have z: "0 < length (clients w)" using wo by (simp add: world_ok_def)
  have prog: "program d = cs" unfolding d_def by (rule thread_program(3) [OF wo z wf])
  have take: "take 16 cs = replicate 8 (Start_Thread submitter) @ map Join_Thread [1..<9]"
    by (simp add: cs_def concurrent_simps(1))
  have "take 16 (past d) = take 16 cs" using pc by (simp add: past_def prog min_absorb1)
  then have sub: "set (take 16 cs) \<subseteq> set (past d)" by (metis set_take_subset)
  have "length (started (past d)) \<le> length (started cs)"
    using prog by (metis append_take_drop_id length_append le_add1 past_def started_append)
  then have "length (clients w) \<le> 9"
    using thread_program(4) [OF wo z wf] by (simp add: d_def cs_def concurrent_simps(1))
  then have "i \<in> set [1..<9]" using i by simp
  then have "Join_Thread i \<in> set (past d)" using sub take by auto
  moreover have "joins_ok w" by (rule test_joins_ok [OF r well_formed_flat [OF well_formed_concurrent]])
  ultimately show False using nf z by (auto simp: joins_ok_def d_def)
qed

lemma concurrent_begun:
  assumes "pc d < 16" "program d = script test_concurrent_submit" "client_ok w d"
  shows "\<not> list_ex stops (begun d)"
proof -
  define n where "n = pc d + (if joining d then 1 else 0)"
  have "n \<le> 16" using assms(1) by (simp add: n_def)
  have "take 16 (script test_concurrent_submit) = replicate 8 (Start_Thread submitter) @ map Join_Thread [1..<9]"
    by (simp add: concurrent_simps(1))
  then have "\<not> list_ex stops (take 16 (script test_concurrent_submit))" by (auto simp: list_ex_iff)
  moreover have "take n (script test_concurrent_submit) = take n (take 16 (script test_concurrent_submit))"
    using \<open>n \<le> 16\<close> by (simp add: min_absorb1)
  then have "set (begun d) \<subseteq> set (take 16 (script test_concurrent_submit))"
    unfolding begun_def assms(2) n_def [symmetric] by (metis set_take_subset)
  ultimately show ?thesis by (auto simp: list_ex_iff)
qed

lemma concurrent_facts:
  assumes r: "test_run test_concurrent_submit w"
  shows "world_ok (script test_concurrent_submit) w" "main_stops (script test_concurrent_submit)"
    "0 < length (clients w)" "program (clients w ! 0) = script test_concurrent_submit"
    "i < length (clients w) \<Longrightarrow> i \<noteq> 0 \<Longrightarrow> program (clients w ! i) = submitter"
    "i < length (clients w) \<Longrightarrow> client_ok w (clients w ! i)"
proof -
  show wo: "world_ok (script test_concurrent_submit) w"
    by (rule test_world_ok [OF r well_formed_flat [OF well_formed_concurrent]])
  show "main_stops (script test_concurrent_submit)" by (auto simp: main_stops_def concurrent_simps(1))
  show z: "0 < length (clients w)" using wo by (simp add: world_ok_def)
  show "program (clients w ! 0) = script test_concurrent_submit"
    by (rule thread_program(3) [OF wo z well_formed_concurrent])
  show "program (clients w ! i) = submitter" if "i < length (clients w)" "i \<noteq> 0"
    using thread_program(5) [OF wo that(1) well_formed_concurrent that(2)] by (simp add: concurrent_simps(1))
  show "client_ok w (clients w ! i)" if "i < length (clients w)" using wo that by (simp add: world_ok_def)
qed

lemma concurrent_tasks:
  assumes r: "test_run test_concurrent_submit w" and d: "d \<in> set (clients w)"
  shows "set (task_bodies (past d)) \<subseteq> {count_up}" "tries (past d) = 0"
proof -
  note f = concurrent_facts [OF r]
  obtain i where i: "i < length (clients w)" "d = clients w ! i" using d by (metis in_set_conv_nth)
  have prog: "program d = script test_concurrent_submit \<or> program d = submitter" using f(4,5) i by (cases "i = 0") auto
  then show "set (task_bodies (past d)) \<subseteq> {count_up}" using past_tasks [of d] by (auto simp: concurrent_simps(1))
  have "program d = past d @ drop (pc d) (program d)" by (simp add: past_def)
  then have "tries (past d) \<le> tries (program d)" by (metis le_add1 tries_append)
  then show "tries (past d) = 0" using prog by (auto simp: concurrent_simps(1))
qed

text \<open>When all are joined, every submitter has got its 250 futures.\<close>

lemma joined_counter:
  assumes r: "test_run test_concurrent_submit w" and pc: "pc (clients w ! 0) = 16" and nj: "\<not> joining (clients w ! 0)"
  shows "counter (memory w) = 2000"
proof -
  note f = concurrent_facts [OF r]
  define d where "d = clients w ! 0"
  have take: "past d = replicate 8 (Start_Thread submitter) @ map Join_Thread [1..<9]"
    using f(4) pc by (simp add: past_def d_def concurrent_simps(1))
  have len: "length (clients w) = 9"
    using thread_program(4) [OF f(1,3) well_formed_concurrent] take by (simp add: d_def)
  have "past (clients w ! i) = submitter" if "i < length (clients w)" "i \<noteq> 0" for i
  proof -
    have "finished (clients w ! i)"
      using submitter_running [OF r that] pc by (metis less_irrefl)
    then show ?thesis using f(5) [OF that] by (simp add: past_def finished_def)
  qed
  then have pasts: "map past (clients w) = past d # replicate 8 submitter"
    by (intro nth_equalityI) (auto simp: len d_def nth_Cons split: nat.splits)
  have each: "past e = past d \<or> past e = submitter" if "e \<in> set (clients w)" for e
  proof -
    have "past e \<in> set (map past (clients w))" using that by simp
    then show ?thesis unfolding pasts by auto
  qed
  have got: "\<forall>e \<in> set (clients w). {..<length (task_bodies (past e))} \<subseteq> set (gets (past e))"
  proof
    fix e assume "e \<in> set (clients w)"
    then show "{..<length (task_bodies (past e))} \<subseteq> set (gets (past e))" using each [of e] take by auto
  qed
  have tries: "\<forall>e \<in> set (clients w). tries (past e) = 0" using concurrent_tasks(2) [OF r] by blast
  have "begun d = past d" using nj by (simp add: begun_def past_def d_def)
  then have "\<not> list_ex hard_stop (begun d)" by (auto simp: take list_ex_iff)
  then have nd: "dropped (threadpool w) = []"
    using nothing_dropped [OF f(1) well_formed_concurrent f(2)] by (simp add: d_def)
  have "length (executed (threadpool w)) = length (submitted (threadpool w))"
    using all_executed [OF r f(1) tries got nd] by (metis size_mset)
  also have "\<dots> = sum_list (map (\<lambda>us. length (task_bodies us)) (map past (clients w)))"
    using tasks_of_threads(1) [OF r f(1) tries] by (simp add: comp_def)
  also have "\<dots> = 2000" unfolding pasts take by (simp add: sum_list_replicate)
  finally show ?thesis
    using counter_executed [OF r f(1) tries] concurrent_tasks(1) [OF r] by simp
qed

lemma submitter_safe:
  assumes r: "test_run test_concurrent_submit w" and i: "i < length (clients w)" "i \<noteq> 0"
    and nf: "\<not> finished (clients w ! i)"
  shows "safe w i"
proof -
  note f = concurrent_facts [OF r]
  define d where "d = clients w ! i"
  have cok: "client_ok w d" using f(6) [OF i(1)] by (simp add: d_def)
  have prog: "program d = submitter" using f(5) [OF i] by (simp add: d_def)
  have pc: "pc d < length (program d)" using cok nf by (auto simp: client_ok_def finished_def d_def)
  have nb: "\<not> list_ex stops (begun (clients w ! 0))"
    using concurrent_begun submitter_running [OF r i nf] f(4) f(6) [OF f(3)] by blast
  then have "\<not> list_ex hard_stop (begun (clients w ! 0))" by (auto simp: list_ex_iff hard_stop_def)
  then have nd: "dropped (threadpool w) = []" by (rule nothing_dropped [OF f(1) well_formed_concurrent f(2)])
  have acc: "accepting (threadpool w)" by (rule still_accepting [OF f(1) well_formed_concurrent f(2) nb])
  have "\<forall>b \<in> set (task_bodies (past d)). \<forall>m' e. fst (b m') \<noteq> Throw e"
    using concurrent_tasks(1) [OF r, of d] i by (auto simp: d_def)
  note throws = get_no_throw [OF r cok nd this]
  show ?thesis
  proof (cases "program d ! pc d")
    case (Check ok)
    then have "Check ok \<in> set submitter" using pc prog by (metis nth_mem)
    then show ?thesis by (auto simp: submitter_def submit_tasks_def get_all_def)
  qed (use acc throws in \<open>auto simp: safe_def d_def Let_def\<close>)
qed

lemma concurrent_main_safe:
  assumes r: "test_run test_concurrent_submit w" and nf: "\<not> finished (clients w ! 0)"
  shows "safe w 0"
proof -
  note f = concurrent_facts [OF r]
  define d where "d = clients w ! 0"
  have cok: "client_ok w d" using f(6) [OF f(3)] by (simp add: d_def)
  have prog: "program d = script test_concurrent_submit" using f(4) by (simp add: d_def)
  have pc: "pc d < length (program d)" using cok nf by (auto simp: client_ok_def finished_def d_def)
  show ?thesis
  proof (cases "pc d < 16")
    case True
    have "take 16 (program d) = replicate 8 (Start_Thread submitter) @ map Join_Thread [1..<9]"
      by (simp add: prog concurrent_simps(1))
    moreover have "program d ! pc d \<in> set (take 16 (program d))"
      using True pc by (auto simp: in_set_conv_nth intro!: exI [of _ "pc d"])
    ultimately have "program d ! pc d = Start_Thread submitter \<or> (\<exists>j. program d ! pc d = Join_Thread j)" by auto
    then show ?thesis by (auto simp: safe_def d_def Let_def)
  next
    case False
    then have "pc d = 16 \<or> pc d = 17 \<or> pc d = 18" using pc by (auto simp: prog concurrent_simps(2))
    then show ?thesis
    proof
      assume p: "pc d = 16"
      have ch: "program d ! pc d = Check (counter_is (8 * 250))" by (simp add: p prog concurrent_simps(1) nth_append)
      then have "\<not> joining d" using cok by (auto simp: client_ok_def)
      then have "counter (memory w) = 2000" using joined_counter [OF r] p by (simp add: d_def)
      then show ?thesis using ch by (simp add: safe_def d_def Let_def counter_is_def)
    next
      assume "pc d = 17 \<or> pc d = 18"
      then have "program d ! pc d = Stop_Waiting \<or> program d ! pc d = Destroy"
        by (auto simp: prog concurrent_simps(1) nth_append)
      then show ?thesis by (auto simp: safe_def d_def Let_def)
    qed
  qed
qed

lemma concurrent_submit_passes:
  assumes r: "test_run test_concurrent_submit w"
  shows "passes test_concurrent_submit w"
proof -
  have "test_ok w \<and> \<not> aborted w"
  proof (rule safe_test [OF _ well_formed_flat [OF well_formed_concurrent] r])
    show "safe v i" if "test_run test_concurrent_submit v" "i < length (clients v)" "\<not> finished (clients v ! i)" for v i
      using submitter_safe [OF that(1,2)] concurrent_main_safe [OF that(1)] that(3) by (cases "i = 0") simp_all
  qed
  then show ?thesis using test_progress [OF r well_formed_concurrent] by (auto simp: passes_def)
qed

section \<open>Submission after a stop\<close>

text \<open>A program whose first command stops the pool submits nothing.\<close>

lemma never_submits:
  assumes r: "test_reaches c m (x # cs) w" and x: "stops x" and wf: "well_formed 0 0 (x # cs)" and st: "started (x # cs) = []"
  shows "submitted (threadpool w) = []"
  using r
proof (induction rule: test_reaches.induct)
  case (test_new p)
  then show ?case using pool_new_history(1) [OF test_new] by (simp add: start_test_def)
next
  case (test_next w w')
  note r = test_next(1)
  have ok: "pool_ok (threadpool w)" by (rule test_pool_ok [OF r])
  have wo: "world_ok (x # cs) w" by (rule test_world_ok [OF r well_formed_flat [OF wf]])
  then have cok: "\<forall>c \<in> set (clients w). client_ok w c" by (simp add: world_ok_def)
  have ms: "main_stops (x # cs)" using st by (simp add: main_stops_def)
  obtain ch where ch: "world_do ch w = Some w'" using test_next(2) by (auto simp: world_step_def simp del: world_do.simps)
  show ?case
  proof (cases ch)
    case (Client i)
    then have "world_do (Client i) w = Some w'" using ch by simp
    from this cok show ?thesis
    proof (rule client_step)
      fix c'
      define d where "d = clients w ! 0"
      assume i: "i < length (clients w)" and pc: "pc (clients w ! i) < length (program (clients w ! i))"
        and ends: "command_ends w (clients w ! i) w' (program (clients w ! i) ! pc (clients w ! i)) c'"
      have i0: "i = 0" using i single_thread(1) [OF r wf st] by (metis One_nat_def length_Cons less_one list.size(3))
      have prog: "program d = x # cs" using single_thread(2) [OF r wf st] by (simp add: d_def)
      note ends = ends [unfolded i0, folded d_def] and pc = pc [unfolded i0, folded d_def]
      have acc: "\<not> accepting (threadpool w)" if "pc d \<noteq> 0"
      proof -
        have "x \<in> set (past d)" using that prog by (cases "pc d") (simp_all add: past_def)
        then have "stopper (threadpool w) = Stopped"
          using test_stop_returned [OF r wf ms] x by (auto simp: stop_returned_def list_ex_iff d_def)
        then show ?thesis using ok by (auto simp: pool_ok_def stop_ok_def)
      qed
      from ends show ?thesis
      proof cases
        case (ends_submit b a v)
        then have "pc d = 0" using acc by blast
        then have "program d ! pc d = x" using prog by simp
        then show ?thesis using ends_submit x by auto
      next
        case (ends_enter v i)
        then show ?thesis using test_next(3) stop_world_keeps [OF ends_enter(2)] by simp
      next
        case (ends_get k r v)
        then show ?thesis using test_next(3) task_side_eqs [OF ends_get(2)] by simp
      next
        case (ends_quiet v)
        then show ?thesis using test_next(3) task_side_eqs [OF ends_quiet(2)] by simp
      qed (use test_next(3) in simp)
    qed
  next
    case (Body y)
    then show ?thesis using ch test_next(3) by (auto split: if_splits worker.splits)
  next
    case (Worker a)
    then show ?thesis using ch test_next(3) background_keeps by (auto split: if_splits)
  qed
qed

lemma after_stop_discards:
  assumes r: "test_run test_submit_after_stop w"
  shows "discarded (vars (clients w ! 0)) = []"
proof -
  define cs where "cs = tl (script test_submit_after_stop)"
  have sc: "script test_submit_after_stop = Stop_Waiting # cs" by (simp add: test_submit_after_stop_def cs_def)
  have wf: "well_formed 0 0 (Stop_Waiting # cs)" "started (Stop_Waiting # cs) = []"
    by (simp_all add: cs_def test_submit_after_stop_def)
  note r' = r [unfolded sc]
  have "submitted (threadpool w) = []" by (rule never_submits [OF r' _ wf]) simp
  moreover have "world_ok (Stop_Waiting # cs) w" by (rule test_world_ok [OF r' well_formed_flat [OF wf(1)]])
  ultimately have "handed (clients w ! 0) = []" using single_thread(1) [OF r' wf] unfolding world_ok_def by auto
  then show ?thesis by (simp add: handed_def)
qed

lemma submit_after_stop_passes:
  assumes r: "test_run test_submit_after_stop w"
  shows "passes test_submit_after_stop w"
proof -
  define X where "X us p mem v \<longleftrightarrow> discarded v = []" for us :: "command list" and p :: pool and mem :: memory and v :: locals
  have wf: "well_formed 0 0 (script test_submit_after_stop)" and st: "started (script test_submit_after_stop) = []"
    by (simp_all add: test_submit_after_stop_def)
  have "checked (allowed X (core_arg test_submit_after_stop) (max_arg test_submit_after_stop)) []
      (script test_submit_after_stop)"
    by (auto simp: test_submit_after_stop_def known_def X_def)
  from allowed_safe [OF this _ wf st r] show ?thesis
    using after_stop_discards test_progress [OF r wf] by (auto simp: passes_def X_def)
qed

section \<open>Numbers that the test reads\<close>

definition observed :: "command \<Rightarrow> world \<Rightarrow> nat list" where
  "observed cmd w = (case cmd of Query q \<Rightarrow> [q (threadpool w) (memory w)] | _ \<Rightarrow> [])"

lemma observed_stop: "stops cmd \<Longrightarrow> observed cmd w = []"
  by (cases cmd) (simp_all add: observed_def)

lemma ends_seen: "command_ends w c w' cmd c' \<Longrightarrow> seen (vars c') = seen (vars c) @ observed cmd w"
  by (induction rule: command_ends.induct) (auto simp: observed_def observed_stop [unfolded observed_def])

fun queries :: "command list \<Rightarrow> nat" where
  "queries [] = 0"
| "queries (Query q # cs) = Suc (queries cs)"
| "queries (_ # cs) = queries cs"

lemma queries_append [simp]: "queries (cs @ ds) = queries cs + queries ds"
  by (induction cs rule: queries.induct) simp_all

lemma length_observed: "length (observed cmd w) = queries [cmd]"
  by (cases cmd) (simp_all add: observed_def)

text \<open>A step of the only thread of a program.\<close>

lemma single_client_step:
  assumes r: "test_reaches c m cs w" and wf: "well_formed 0 0 cs" and st: "started cs = []"
    and step: "world_do (Client i) w = Some w'" and Q: "checked Q [] cs"
  obtains cmd where "command_ends w (clients w ! 0) w' cmd (clients w' ! 0)" "Q (past (clients w ! 0)) cmd"
    "cmd = program (clients w ! 0) ! pc (clients w ! 0)" "pc (clients w ! 0) < length (program (clients w ! 0))"
    "client_ok w (clients w ! 0)"
proof -
  have wo: "world_ok cs w" by (rule test_world_ok [OF r well_formed_flat [OF wf]])
  then have cok: "\<forall>c \<in> set (clients w). client_ok w c" and z: "0 < length (clients w)" by (simp_all add: world_ok_def)
  define d where "d = clients w ! 0"
  have prog: "program d = cs" using single_thread(2) [OF r wf st] by (simp add: d_def)
  from step cok show ?thesis
  proof (rule client_step)
    fix c'
    assume i: "i < length (clients w)" and pc: "pc (clients w ! i) < length (program (clients w ! i))"
      and ends: "command_ends w (clients w ! i) w' (program (clients w ! i) ! pc (clients w ! i)) c'"
      and cl: "clients w' = (clients w)[i := c'] @ map new_client (started [program (clients w ! i) ! pc (clients w ! i)])"
    have i0: "i = 0" using i single_thread(1) [OF r wf st] by (metis One_nat_def length_Cons less_one list.size(3))
    have "clients w' ! 0 = c'" using z i0 by (simp add: cl nth_append)
    moreover have "Q (past d) (program d ! pc d)" using checked_nth [OF Q, of "pc d"] pc i0 prog by (simp add: past_def d_def)
    ultimately show ?thesis using that ends pc i0 cok z by (simp add: d_def)
  qed
qed

text \<open>Nothing but a submission adds a thread, so that the counts that the test reads go down.\<close>

definition reads_active :: "command list \<Rightarrow> command \<Rightarrow> bool" where
  "reads_active us cmd \<longleftrightarrow> (case cmd of Submit_Task a b \<Rightarrow> queries us = 0 | Try_Submit a b \<Rightarrow> queries us = 0
     | Query q \<Rightarrow> q = query_active | _ \<Rightarrow> True)"

definition going_down :: "command list \<Rightarrow> pool \<Rightarrow> memory \<Rightarrow> locals \<Rightarrow> bool" where
  "going_down us p mem v \<longleftrightarrow> length (seen v) = queries us \<and> sorted_wrt (\<ge>) (seen v) \<and>
     (\<forall>n \<in> set (seen v). active_threads p \<le> n)"

definition counts_go_down :: "world \<Rightarrow> bool" where
  "counts_go_down w \<longleftrightarrow> going_down (past (clients w ! 0)) (threadpool w) (memory w) (vars (clients w ! 0))"

lemma background_active:
  "background a \<Longrightarrow> perform a p = Some q \<Longrightarrow> active_threads q \<le> active_threads p"
  by (cases a; auto simp: background_def active_threads_def pool_op_defs length_remove1
      split: if_splits stopper.splits list.splits)

lemma ends_queries:
  assumes "command_ends w c w' cmd c'" "pc c < length (program c)" "cmd = program c ! pc c"
  shows "queries (past c') = queries (past c) + queries [cmd]"
  using assms(1)
proof cases
  case ends_abort
  then show ?thesis by auto
next
  case (ends_enter v i)
  then have "queries [cmd] = 0" by (cases cmd) simp_all
  then show ?thesis using ends_enter by (simp add: past_def)
qed (use assms(2,3) in \<open>simp_all add: past_next\<close>)

lemma seen_counted:
  assumes r: "test_reaches c m cs w" and wf: "well_formed 0 0 cs" and st: "started cs = []"
    and eq: "length (seen (vars (clients w ! 0))) = queries (past (clients w ! 0))" and ch: "world_do ch w = Some w'"
  shows "length (seen (vars (clients w' ! 0))) = queries (past (clients w' ! 0))"
proof (cases "\<exists>i. ch = Client i")
  case True
  then obtain i where step: "world_do (Client i) w = Some w'" using ch by blast
  have "checked (\<lambda>_ _. True) us cs" for us by (induction cs arbitrary: us) simp_all
  from single_client_step [OF r wf st step this] show ?thesis
    using eq ends_seen ends_queries length_observed by (metis length_append)
next
  case False
  then show ?thesis using other_steps_keep_clients [OF ch] eq by simp
qed

lemma ends_active:
  assumes "command_ends w c w' cmd c'" "\<And>a b. cmd \<noteq> Submit_Task a b" "\<And>a b. cmd \<noteq> Try_Submit a b"
  shows "active_threads (threadpool w') = active_threads (threadpool w)"
  using assms(1)
proof cases
  case (ends_enter v i)
  obtain p where p: "stop_call cmd (threadpool w) = Some p" "threadpool v = p"
    by (rule stop_worldD [OF ends_enter(2)]) simp
  then show ?thesis using stop_history(7) [OF p(1)] ends_enter by (simp add: active_threads_def)
next
  case (ends_get k r v)
  then show ?thesis using task_side_eqs [OF ends_get(2)] by simp
next
  case (ends_quiet v)
  then show ?thesis using task_side_eqs [OF ends_quiet(2)] by simp
qed (use assms in auto)

lemma counts_go_down_step:
  assumes r: "test_reaches c m cs w" and wf: "well_formed 0 0 cs" and st: "started cs = []"
    and Q: "checked reads_active [] cs" and cd: "counts_go_down w" and ch: "world_do ch w = Some w'"
  shows "counts_go_down w'"
proof (cases ch)
  case (Client i)
  then have step: "world_do (Client i) w = Some w'" using ch by simp
  define d where "d = clients w ! 0"
  define e where "e = clients w' ! 0"
  from r wf st step Q show ?thesis
  proof (rule single_client_step)
    fix cmd
    assume ends: "command_ends w (clients w ! 0) w' cmd (clients w' ! 0)" and q: "reads_active (past (clients w ! 0)) cmd"
      and at: "cmd = program (clients w ! 0) ! pc (clients w ! 0)" and pc: "pc (clients w ! 0) < length (program (clients w ! 0))"
    have seen: "seen (vars e) = seen (vars d) @ observed cmd w" and past: "queries (past e) = queries (past d) + queries [cmd]"
      using ends_seen [OF ends] ends_queries [OF ends pc at] by (simp_all add: d_def e_def)
    have old: "length (seen (vars d)) = queries (past d)" "sorted_wrt (\<ge>) (seen (vars d))"
      "\<forall>n \<in> set (seen (vars d)). active_threads (threadpool w) \<le> n"
      using cd by (simp_all add: counts_go_down_def going_down_def d_def)
    have len: "length (seen (vars e)) = queries (past e)" using old(1) by (simp add: seen past length_observed)
    have obs: "\<forall>n \<in> set (observed cmd w). n = active_threads (threadpool w)"
      using q by (cases cmd) (simp_all add: observed_def reads_active_def query_active_def)
    have sorted: "sorted_wrt (\<ge>) (seen (vars e))"
      using old(2,3) obs by (cases cmd) (auto simp: seen observed_def sorted_wrt_append)
    have "\<forall>n \<in> set (seen (vars e)). active_threads (threadpool w') \<le> n"
    proof (cases "\<exists>a b. cmd = Submit_Task a b \<or> cmd = Try_Submit a b")
      case True
      then have "seen (vars e) = []" using q old(1) by (auto simp: seen reads_active_def observed_def d_def)
      then show ?thesis by simp
    next
      case False
      then have "active_threads (threadpool w') = active_threads (threadpool w)" using ends_active [OF ends] by blast
      then show ?thesis using old(3) obs by (auto simp: seen)
    qed
    then show ?thesis using len sorted by (simp add: counts_go_down_def going_down_def e_def [symmetric])
  qed
next
  case (Body x)
  then show ?thesis using ch cd
    by (auto simp: counts_go_down_def going_down_def active_threads_def finish_task_def split: if_splits worker.splits)
next
  case (Worker a)
  then obtain p where "background a" "perform a (threadpool w) = Some p" "w' = w\<lparr>threadpool := p\<rparr>"
    using ch by (auto split: if_splits)
  then show ?thesis using cd background_active [of a "threadpool w" p]
    by (fastforce simp: counts_go_down_def going_down_def)
qed

lemma dynamic_scale_down_passes:
  assumes r: "test_run test_dynamic_scale_down w"
  shows "passes test_dynamic_scale_down w"
proof -
  define cs where "cs = script test_dynamic_scale_down"
  have r': "test_reaches 2 6 cs w" using r by (simp add: test_dynamic_scale_down_def cs_def)
  have sc: "cs = submit_tasks 50 (give Void) @ get_all 50 @ [Query query_active, Sleep, Query query_active,
       Check (\<lambda>p m v. seen v ! 1 \<le> seen v ! 0),
       Check (\<lambda>p m v. active_threads p \<le> seen v ! 1 \<and> seen v ! 1 \<le> seen v ! 0), Stop_Waiting, Destroy]"
    by (simp add: cs_def test_dynamic_scale_down_def)
  have wf: "well_formed 0 0 cs" and st: "started cs = []" by (simp_all add: sc well_formed_append)
  have Q: "checked reads_active [] cs"
  proof -
    have "queries (submit_tasks n b) = 0" for n b by (induction n) (simp_all add: submit_tasks_def)
    then show ?thesis unfolding sc by (auto simp: reads_active_def intro!: checked_submits checked_gets)
  qed
  have down: "counts_go_down w" if "test_reaches 2 6 cs w" for w
    using that
  proof (induction rule: test_reaches.induct)
    case (test_new p)
    then show ?case by (simp add: counts_go_down_def going_down_def start_test_def new_client_def no_locals_def past_def)
  next
    case (test_next w w')
    then show ?case using counts_go_down_step [OF test_next(1) wf st Q test_next(3)] by (auto simp: world_step_def)
  qed
  have "checked (allowed going_down 2 6) [] cs"
  proof -
    have q: "queries (submit_tasks n b) = 0" "queries (get_all n) = 0" for n b
      by (induction n) (simp_all add: submit_tasks_def get_all_def)
    have two: "xs ! 1 \<le> xs ! 0 \<and> xs ! 1 \<in> set xs"
      if "length xs = Suc (Suc 0)" "sorted_wrt (\<ge>) xs" for xs :: "nat list"
      using sorted_wrt_nth_less [OF that(2), of 0 1] nth_mem [of 1 xs] that(1) by simp
    show ?thesis unfolding sc
      by (auto simp: going_down_def q two [simplified] intro!: checked_submits checked_gets)
  qed
  then have "test_ok w \<and> \<not> aborted w"
    by (rule allowed_safe [OF _ _ wf st r']) (use down in \<open>simp add: counts_go_down_def\<close>)
  then show ?thesis using test_progress [OF r' wf] by (auto simp: passes_def)
qed

section \<open>Stopping at once\<close>

definition reads_counter :: "command list \<Rightarrow> command \<Rightarrow> bool" where
  "reads_counter us cmd \<longleftrightarrow> (case cmd of Query q \<Rightarrow> q = query_counter \<and> list_ex stops us | _ \<Rightarrow> True)"

text \<open>A stopped pool leaves the memory alone, so that what was read is what is there.\<close>

definition read_final :: "world \<Rightarrow> bool" where
  "read_final w \<longleftrightarrow> (\<forall>n \<in> set (seen (vars (clients w ! 0))). stopper (threadpool w) = Stopped \<and> n = nat (counter (memory w)))"

lemma client_memory: "world_do (Client i) w = Some w' \<Longrightarrow> memory w' = memory w"
proof -
  assume "world_do (Client i) w = Some w'"
  then have "run_command i (program (clients w ! i) ! pc (clients w ! i)) w = Some w'" by (auto split: if_splits)
  then show ?thesis
  proof (cases rule: run_command_tasks)
    case (submit a b t v)
    have "memory v = memory w" by (rule submit_bodyD [OF submit(1)]) simp
    then show ?thesis using submit(2) by (simp add: task_side_def)
  next
    case (stop v)
    have "memory v = memory w" by (rule stop_worldD [OF stop(1)]) simp
    then show ?thesis using stop(2) by (simp add: task_side_def)
  qed (simp add: task_side_def)
qed

lemma read_final_step:
  assumes r: "test_reaches c m cs w" and wf: "well_formed 0 0 cs" and st: "started cs = []"
    and Q: "checked reads_counter [] cs" and rf: "read_final w" and ch: "world_do ch w = Some w'"
  shows "read_final w'"
proof -
  have ok: "pool_ok (threadpool w)" by (rule test_pool_ok [OF r])
  have stay: "stopper (threadpool w') = Stopped" if "stopper (threadpool w) = Stopped"
    using world_do_pool [OF ch] stopped_stays [OF ok that] that by auto
  have ms: "main_stops cs" using st by (simp add: main_stops_def)
  show ?thesis
  proof (cases ch)
    case (Client i)
    then have step: "world_do (Client i) w = Some w'" using ch by simp
    note mem = client_memory [OF step]
    from r wf st step Q show ?thesis
    proof (rule single_client_step)
      fix cmd
      assume ends: "command_ends w (clients w ! 0) w' cmd (clients w' ! 0)" and q: "reads_counter (past (clients w ! 0)) cmd"
      have stopped: "stopper (threadpool w) = Stopped" if "n \<in> set (observed cmd w)" for n
        using that q test_stop_returned [OF r wf ms] by (cases cmd) (auto simp: observed_def reads_counter_def stop_returned_def)
      have "\<forall>n \<in> set (observed cmd w). n = nat (counter (memory w))"
        using q by (cases cmd) (simp_all add: observed_def reads_counter_def query_counter_def)
      then show ?thesis
        using rf stay stopped ends_seen [OF ends] mem by (auto simp: read_final_def)
    qed
  next
    case (Body x)
    then have "stopper (threadpool w) \<noteq> Stopped"
      using ch ok by (auto simp: pool_ok_def stop_ok_def threads_ok_def held_def split: if_splits worker.splits)
    then show ?thesis using Body ch rf by (auto simp: read_final_def split: if_splits worker.splits)
  next
    case (Worker a)
    then have "memory w' = memory w" "clients w' = clients w" using ch by (auto split: if_splits)
    then show ?thesis using rf stay by (auto simp: read_final_def)
  qed
qed

text \<open>
  The test of \<^verbatim>\<open>stop_immediately\<close> checks that not all 500 tasks have been run when the call has
  returned. The number it reads and the tasks that the pool threw away make up the 500, so that the
  check holds exactly if the pool threw one away: it depends on the speed of the workers.
\<close>

lemma stop_immediately_count:
  assumes r: "test_run test_stop_immediately w" and pc: "pc (clients w ! 0) = 503" and nj: "\<not> joining (clients w ! 0)"
  shows "seen (vars (clients w ! 0)) = [500 - length (dropped (threadpool w))]"
    "last (seen (vars (clients w ! 0))) < 500 \<longleftrightarrow> dropped (threadpool w) \<noteq> []"
proof -
  define cs where "cs = script test_stop_immediately"
  define d where "d = clients w ! 0"
  have r': "test_reaches 2 0 cs w" using r by (simp add: test_stop_immediately_def cs_def)
  have sc: "cs = submit_tasks 500 count_up @ [Sleep, Stop_At_Once, Query query_counter,
       Check (\<lambda>p m v. last (seen v) < 500), Destroy]" by (simp add: cs_def test_stop_immediately_def)
  have wf: "well_formed 0 0 cs" and st: "started cs = []" by (simp_all add: sc well_formed_append)
  have ms: "main_stops cs" using st by (simp add: main_stops_def)
  have Q: "checked reads_counter [] cs" unfolding sc by (auto simp: reads_counter_def intro!: checked_submits)
  have wo: "world_ok cs w" by (rule test_world_ok [OF r' well_formed_flat [OF wf]])
  have cl: "clients w = [d]" "program d = cs" using single_thread [OF r' wf st] by (simp_all add: d_def)
  have past: "past d = submit_tasks 500 count_up @ [Sleep, Stop_At_Once, Query query_counter]"
    using pc cl(2) by (simp add: past_def d_def sc submit_tasks_def)
  have ok: "pool_ok (threadpool w)" by (rule test_pool_ok [OF r'])
  have rf: "read_final w" using r'
  proof (induction rule: test_reaches.induct)
    case (test_new p)
    then show ?case by (simp add: read_final_def start_test_def new_client_def no_locals_def)
  next
    case (test_next w w')
    then show ?case using read_final_step [OF test_next(1) wf st Q test_next(3)] by (auto simp: world_step_def)
  qed
  have down: "length (seen (vars d)) = 1"
  proof -
    have "queries (submit_tasks n b) = 0" for n b by (induction n) (simp_all add: submit_tasks_def)
    moreover have "length (seen (vars (clients w ! 0))) = queries (past (clients w ! 0))" using r'
    proof (induction rule: test_reaches.induct)
      case (test_new p)
      then show ?case by (simp add: start_test_def new_client_def no_locals_def past_def)
    next
      case (test_next w w')
      then show ?case using seen_counted [OF test_next(1) wf st test_next(3)] by (auto simp: world_step_def)
    qed
    ultimately show ?thesis by (simp add: past d_def [symmetric])
  qed
  have stopped: "stopper (threadpool w) = Stopped"
    using test_stop_returned [OF r' wf ms] past by (simp add: stop_returned_def d_def [symmetric])
  have tries: "\<forall>c \<in> set (clients w). tries (past c) = 0" by (simp add: cl past)
  have "length (submitted (threadpool w)) = 500" using tasks_of_threads(1) [OF r' wo tries] by (simp add: cl past)
  moreover have "length (executed (threadpool w)) + length (dropped (threadpool w)) = length (submitted (threadpool w))"
    using stopped_executed(1) [OF ok stopped] by (metis size_mset size_union)
  moreover have "counter (memory w) = int (length (executed (threadpool w)))"
    by (rule counter_executed [OF r' wo tries]) (simp add: cl past)
  moreover obtain n where n: "seen (vars d) = [n]" using down by (metis One_nat_def Suc_length_conv length_0_conv)
  then have "n = nat (counter (memory w))" using rf by (simp add: read_final_def d_def)
  ultimately have "n + length (dropped (threadpool w)) = 500" by simp
  then show "seen (vars (clients w ! 0)) = [500 - length (dropped (threadpool w))]"
    "last (seen (vars (clients w ! 0))) < 500 \<longleftrightarrow> dropped (threadpool w) \<noteq> []"
    using n by (cases "dropped (threadpool w)"; simp add: d_def [symmetric])+
qed

end
