(* ===== verification/Pool_Test_Results.thy ===== *)
theory Pool_Test_Results
  imports Pool_Tests
begin

text \<open>
  What the tests of \<^verbatim>\<open>thread_pool/main.cpp\<close> come to: on a pool of fixed size every one of them ends,
  the tests whose checks do not depend on time pass on every schedule, and the test of the
  priorities passes on one schedule and fails on another.
\<close>

section \<open>A bound on the steps\<close>

text \<open>What a thread may still do, in a pool of \<open>c\<close> threads: a stop has \<open>c + 2\<close> steps in the pool.\<close>

fun cost :: "nat \<Rightarrow> command \<Rightarrow> nat" where
  "cost c (Submit_Task a b) = 4"
| "cost c (Try_Submit a b) = 4"
| "cost c (Start_Thread d) = 1 + sum_list (map (cost c) d)"
| "cost c Stop_Waiting = c + 4"
| "cost c Stop_At_Once = c + 4"
| "cost c Destroy = c + 4"
| "cost c _ = 1"

definition client_cost :: "nat \<Rightarrow> client \<Rightarrow> nat" where
  "client_cost c d = sum_list (map (cost c) (drop (pc d) (program d))) - (if joining d then c + 3 else 0)"

definition activity :: "worker \<Rightarrow> nat" where
  "activity st = (case st of Exited \<Rightarrow> 0 | Waiting \<Rightarrow> 1 | Looping \<Rightarrow> 2 | Busy t \<Rightarrow> 3)"

definition pool_cost :: "pool \<Rightarrow> nat" where
  "pool_cost p = 3 * length (tasks p) + (\<Sum>x < spawned p. activity (status p x)) + to_join p"

definition world_cost :: "nat \<Rightarrow> world \<Rightarrow> nat" where
  "world_cost c w = sum_list (map (client_cost c) (clients w)) + pool_cost (threadpool w) + (if aborted w then 0 else 1)"

lemmas activity_set_status = status_sum_update [where f = activity]

lemma cost_pos: "0 < cost c cmd"
  by (cases cmd) simp_all

lemma stop_cost: "stops cmd \<Longrightarrow> cost c cmd = c + 4"
  by (cases cmd) (simp_all add: stops_def)

lemma client_cost_next:
  assumes "pc d < length (program d)" "joining d \<longrightarrow> stops (program d ! pc d)"
  shows "client_cost c (next_client d v) + (if joining d then 1 else cost c (program d ! pc d)) = client_cost c d"
proof -
  have "drop (pc d) (program d) = (program d ! pc d) # drop (Suc (pc d)) (program d)"
    using assms(1) by (simp add: Cons_nth_drop_Suc)
  then show ?thesis using assms(2) stop_cost [of "program d ! pc d" c] by (simp add: client_cost_def)
qed

lemma client_cost_enter:
  assumes "pc d < length (program d)" "stops (program d ! pc d)" "\<not> joining d"
  shows "client_cost c (d\<lparr>joining := True\<rparr>) + (c + 3) = client_cost c d"
proof -
  have "drop (pc d) (program d) = (program d ! pc d) # drop (Suc (pc d)) (program d)"
    using assms(1) by (simp add: Cons_nth_drop_Suc)
  then show ?thesis using assms(2,3) stop_cost [of "program d ! pc d" c] by (simp add: client_cost_def)
qed

lemma new_client_cost: "sum_list (map (client_cost c) (map new_client ds)) = sum_list (map (\<lambda>d. sum_list (map (cost c) d)) ds)"
  by (induction ds) (simp_all add: client_cost_def new_client_def)

section \<open>The pool's own steps\<close>

text \<open>No thread is added to a pool of fixed size.\<close>

lemma fixed_submit:
  assumes ok: "pool_ok p" and fixed: "max_threads p \<le> core_threads p" and sub: "submit_impl a p = Some q"
  shows "pool_cost q = pool_cost p + 3"
proof -
  have acc: "accepting p" using sub by (auto simp: submit_impl_def split: if_splits)
  then have "stopper p = No_Stop" using accepting_runs [OF ok] by simp
  then have "core_threads p \<le> length (workers p)" using ok by (simp add: pool_ok_def stop_ok_def)
  then have q: "q = p\<lparr>tasks := push_heap fst (tasks p @ [(a, length (submitted p))]),
      submitted := submitted p @ [length (submitted p)]\<rparr>"
    using sub acc fixed by (simp add: submit_impl_def Let_def)
  have "length (push_heap fst (tasks p @ [(a, length (submitted p))])) = Suc (length (tasks p))"
    using arg_cong [OF mset_push_heap [of fst "tasks p @ [(a, length (submitted p))]"], of size] by simp
  moreover have "to_join q = to_join p" by (rule to_join_cong) (simp_all add: q)
  ultimately show ?thesis by (simp add: pool_cost_def q)
qed

lemma pool_cost_idle:
  assumes "x < spawned p"
  shows "pool_cost (set_status x st p) + activity (status p x) = pool_cost p + activity st"
proof -
  have "to_join (set_status x st p) = to_join p" by (rule to_join_cong) simp_all
  then show ?thesis using activity_set_status [OF assms, of st] by (simp add: pool_cost_def)
qed

lemma leave_or_take_cost:
  assumes "x < spawned p" "0 < activity (status p x)" "stop p \<or> tasks p \<noteq> []" "is_heap fst (tasks p)"
  shows "pool_cost (leave_or_take x p) < pool_cost p"
proof (cases "tasks p = []")
  case True
  then show ?thesis using pool_cost_idle [OF assms(1), of Exited] assms(2,3) by (simp add: leave_or_take_def activity_def)
next
  case False
  define p1 where "p1 = p\<lparr>tasks := butlast (pop_heap fst (tasks p))\<rparr>"
  have p': "leave_or_take x p = set_status x (Busy (snd (hd (tasks p)))) p1" using False by (simp add: leave_or_take_def p1_def)
  have "mset (tasks p) = add_mset (hd (tasks p)) (mset (tasks p1))"
    using vec.pop_front [OF assms(4) False] by (simp add: p1_def)
  then have len: "length (tasks p) = length (tasks p1) + 1" by (metis Suc_eq_plus1 size_add_mset size_mset)
  have "to_join p1 = to_join p" by (rule to_join_cong) (simp_all add: p1_def)
  then have "pool_cost p = pool_cost p1 + 3" using len by (simp add: pool_cost_def p1_def)
  moreover have "pool_cost (set_status x (Busy (snd (hd (tasks p)))) p1) + activity (status p x) = pool_cost p1 + 3"
    using pool_cost_idle [of x p1 "Busy (snd (hd (tasks p)))"] assms(1) by (simp add: p1_def activity_def)
  ultimately show ?thesis using assms(2) by (simp add: p')
qed

lemma background_cost:
  assumes ok: "pool_ok p" and fixed: "max_threads p \<le> core_threads p" and a: "background a" "perform a p = Some q"
  shows "pool_cost q < pool_cost p"
proof -
  have heap: "is_heap fst (tasks p)" using ok by (simp add: pool_ok_def tasks_ok_def)
  show ?thesis
  proof (cases a)
    case (Enter x)
    then have x: "x < spawned p" "status p x = Looping" "q = enter_loop x p" using a by (auto split: if_splits)
    show ?thesis
    proof (cases "tasks p = [] \<and> \<not> stop p")
      case True
      then show ?thesis using x pool_cost_idle [OF x(1), of Waiting] by (simp add: enter_loop_def activity_def)
    next
      case False
      then show ?thesis using x leave_or_take_cost [OF x(1) _ _ heap] by (auto simp: enter_loop_def activity_def)
    qed
  next
    case (Wake x)
    then have x: "x < spawned p" "status p x = Waiting" "wait_over p" "q = leave_or_take x p" using a by (auto split: if_splits)
    then show ?thesis using leave_or_take_cost [OF x(1) _ _ heap] by (simp add: wait_over_def activity_def)
  next
    case (Time_Out x)
    then show ?thesis using a fixed by (auto split: if_splits)
  next
    case Swap_Out
    then show ?thesis using a by (auto simp: pool_cost_def to_join_def swap_workers_def split: if_splits)
  next
    case Join_Next
    then show ?thesis using a by (auto simp: pool_cost_def to_join_def split: stopper.splits list.splits if_splits)
  qed (use a in \<open>simp_all add: background_def\<close>)
qed

lemma finish_cost:
  assumes "x < spawned p" "status p x = Busy t"
  shows "pool_cost (finish_task x t p) < pool_cost p"
proof -
  define p1 where "p1 = p\<lparr>executed := executed p @ [t]\<rparr>"
  have "to_join p1 = to_join p" by (rule to_join_cong) (simp_all add: p1_def)
  then have "pool_cost p1 = pool_cost p" by (simp add: pool_cost_def p1_def)
  then show ?thesis using pool_cost_idle [of x p1 Looping] assms by (simp add: finish_task_def p1_def activity_def)
qed

lemma stop_cost_pool:
  assumes ok: "pool_ok p" and fixed: "max_threads p \<le> core_threads p" and s: "stop_call cmd p = Some q"
  shows "pool_cost q \<le> pool_cost p + (core_threads p + 2)"
proof -
  have acc: "accepting p" using stop_callD [OF s] ok
    by (auto simp: wait_and_stop_def stop_immediately_def pool_ok_def stop_ok_def split: if_splits)
  then have st: "stopper p = No_Stop" using accepting_runs [OF ok] by simp
  then have "length (workers p) \<le> core_threads p" using ok fixed by (auto simp: pool_ok_def stop_ok_def)
  moreover have "tasks q = [] \<or> tasks q = tasks p" "spawned q = spawned p" "status q = status p"
    using stop_callD [OF s] by (force simp: wait_and_stop_def stop_immediately_def split: if_splits)+
  then have "3 * length (tasks q) + (\<Sum>x < spawned q. activity (status q x)) \<le>
      3 * length (tasks p) + (\<Sum>x < spawned p. activity (status p x))" by auto
  moreover have "to_join q = length (workers p) + 2" "to_join p = 0"
    using stop_history(6,7) [OF s] st by (simp_all add: to_join_def)
  ultimately show ?thesis by (simp add: pool_cost_def)
qed

section \<open>Every step costs\<close>

lemma started_cost: "1 + sum_list (map (\<lambda>d. sum_list (map (cost c) d)) (started [cmd])) \<le> cost c cmd"
  using cost_pos [of c cmd] by (cases cmd) simp_all

lemma client_sum_update:
  assumes "i < length (clients w)" "clients w' = (clients w)[i := c'] @ map new_client ds"
  shows "sum_list (map (client_cost c) (clients w')) + client_cost c (clients w ! i) =
    sum_list (map (client_cost c) (clients w)) + client_cost c c' + sum_list (map (\<lambda>d. sum_list (map (cost c) d)) ds)"
  using sum_list_map_update [OF assms(1), of "client_cost c" c'] new_client_cost [of c ds]
  by (simp add: assms(2) del: map_map)

lemma client_step_cost:
  assumes ok: "pool_ok (threadpool w)" and fixed: "max_threads (threadpool w) \<le> core_threads (threadpool w)"
    and c: "core_threads (threadpool w) = c" and cok: "\<forall>d \<in> set (clients w). client_ok w d"
    and step: "world_do (Client i) w = Some w'"
  shows "world_cost c w' < world_cost c w"
  using step cok
proof (rule client_step)
  fix c'
  define d where "d = clients w ! i"
  define cmd where "cmd = program d ! pc d"
  assume i: "i < length (clients w)" and pc: "pc (clients w ! i) < length (program (clients w ! i))"
    and ends: "command_ends w (clients w ! i) w' (program (clients w ! i) ! pc (clients w ! i)) c'"
    and cl: "clients w' = (clients w)[i := c'] @ map new_client (started [program (clients w ! i) ! pc (clients w ! i)])"
    and na: "\<not> aborted w"
  note ends = ends [folded d_def, folded cmd_def] and pc = pc [folded d_def]
  have jn: "joining d \<longrightarrow> stops (program d ! pc d)" using cok i by (auto simp: client_ok_def d_def)
  note sum = client_sum_update [OF i cl, of c, folded d_def, folded cmd_def]
    and nx = client_cost_next [OF pc jn, of c, folded cmd_def] and sc = started_cost [of c cmd]
  have js: "started [cmd] = []" if "joining d" using jn that stops_neutral by (simp add: cmd_def)
  from ends show ?thesis
  proof cases
    case ends_abort
    then have "started [cmd] = []" by auto
    then show ?thesis using sum ends_abort na by (simp add: world_cost_def)
  next
    case (ends_enter v j)
    obtain p where p: "stop_call cmd (threadpool w) = Some p" "v = w\<lparr>threadpool := p, future := stop_futures cmd (tasks (threadpool w)) (future w)\<rparr>"
      by (rule stop_worldD [OF ends_enter(2)])
    have "started [cmd] = []" using ends_enter stops_neutral by blast
    then show ?thesis
      using sum stop_cost_pool [OF ok fixed p(1)] client_cost_enter [OF pc, of c] ends_enter p(2) na c
      by (simp add: world_cost_def cmd_def)
  next
    case (ends_submit b a v)
    then have "started [cmd] = []" "cost c cmd = 4" "\<not> joining d" using jn by (auto simp: cmd_def)
    moreover have "pool_cost (threadpool w') = pool_cost (threadpool w) + 3"
      by (rule fixed_submit [OF ok fixed]) (use ends_submit in simp)
    ultimately show ?thesis using sum nx [of v] ends_submit(1,9) na by (simp add: world_cost_def)
  next
    case (ends_get k r v)
    then have "started [cmd] = []" by auto
    then show ?thesis
      using sum nx [of v] sc ends_get(1) task_side_eqs [OF ends_get(2)] \<open>aborted w' = aborted w\<close> cost_pos [of c cmd]
      by (simp add: world_cost_def split: if_splits)
  next
    case (ends_quiet v)
    then show ?thesis
      using sum nx [of v] sc js task_side_eqs [OF ends_quiet(2)] \<open>aborted w' = aborted w\<close>
      by (cases "joining d") (simp_all add: world_cost_def)
  qed
qed

lemma world_step_cost:
  assumes ok: "pool_ok (threadpool w)" and fixed: "max_threads (threadpool w) \<le> core_threads (threadpool w)"
    and c: "core_threads (threadpool w) = c" and cok: "\<forall>d \<in> set (clients w). client_ok w d"
    and step: "world_do ch w = Some w'"
  shows "world_cost c w' < world_cost c w"
proof (cases ch)
  case (Client i)
  then show ?thesis using client_step_cost [OF ok fixed c cok] step by blast
next
  case (Body x)
  then obtain t where "x < spawned (threadpool w)" "status (threadpool w) x = Busy t" "w' = run_body x t w"
    using step by (auto split: if_splits worker.splits)
  then show ?thesis using finish_cost [of x "threadpool w" t] by (simp add: world_cost_def)
next
  case (Worker a)
  then obtain p where "background a" "perform a (threadpool w) = Some p" "w' = w\<lparr>threadpool := p\<rparr>"
    using step by (auto split: if_splits)
  then show ?thesis using background_cost [OF ok fixed, of a p] by (simp add: world_cost_def)
qed

definition test_bound :: "pool_test \<Rightarrow> nat" where
  "test_bound t = sum_list (map (cost (core_arg t)) (script t)) + 2 * core_arg t + 1"

lemma start_cost:
  assumes "ThreadPool (core_arg t) (max_arg t) = Some p"
  shows "world_cost (core_arg t) (start_test p (script t)) = test_bound t"
proof -
  note h = pool_new_history [OF assms]
  have "stopper p = No_Stop" using accepting_runs ThreadPool_ok [OF assms] h(5) by blast
  then have "to_join p = 0" by (simp add: to_join_def)
  moreover have "(\<Sum>x < spawned p. activity (status p x)) = 2 * core_arg t"
    using h(8,9) by (simp add: activity_def)
  ultimately show ?thesis
    using h(4) by (simp add: world_cost_def start_test_def pool_cost_def client_cost_def new_client_def test_bound_def)
qed

lemma test_steps_bounded:
  assumes p: "ThreadPool (core_arg t) (max_arg t) = Some p" and fixed: "max_arg t \<le> core_arg t"
    and wf: "well_formed 0 0 (script t)" and run: "(world_step ^^ n) (start_test p (script t)) w"
  shows "test_run t w \<and> n + world_cost (core_arg t) w \<le> test_bound t"
  using run
proof (induction n arbitrary: w)
  case 0
  then show ?case using start_cost [OF p] test_new [OF p, of "script t"] by auto
next
  case (Suc n)
  then obtain v where v: "(world_step ^^ n) (start_test p (script t)) v" "world_step v w" by (auto elim: relpowp_Suc_E)
  obtain ch where ch: "world_do ch v = Some w" using v(2) by (auto simp: world_step_def simp del: world_do.simps)
  note ih = Suc.IH [OF v(1)]
  have "pool_ok (threadpool v)" "core_threads (threadpool v) = core_arg t"
    "max_threads (threadpool v) \<le> core_threads (threadpool v)"
    using pool_reaches_ok [OF test_reaches_pool] ih fixed by auto
  moreover have "\<forall>d \<in> set (clients v). client_ok v d"
    using test_world_ok [OF conjunct1 [OF ih] well_formed_flat [OF wf]] by (simp add: world_ok_def)
  ultimately have "world_cost (core_arg t) w < world_cost (core_arg t) v" using world_step_cost ch by blast
  then show ?case using ih test_next [OF _ v(2)] by auto
qed

section \<open>The results\<close>

text \<open>The tests whose checks do not depend on how fast the threads are.\<close>

definition steady_tests :: "pool_test list" where
  "steady_tests = [test_basic_submit, test_return_value, test_exception_propagation, test_wait_and_stop,
     test_dynamic_scale_down, test_concurrent_submit, test_submit_after_stop, test_thread_count_queries,
     test_fixed_thread_pool, test_destructor_cleanup]"

text \<open>The tests with a pool of fixed size.\<close>

definition fixed_tests :: "pool_test list" where
  "fixed_tests = [test_basic_submit, test_return_value, test_exception_propagation, test_priority_order,
     test_wait_and_stop, test_stop_immediately, test_concurrent_submit, test_submit_after_stop,
     test_thread_count_queries, test_fixed_thread_pool, test_destructor_cleanup]"

lemma zero_threads_passes: test_zero_threads
  by (simp add: test_zero_threads_def ThreadPool_def)


lemma fixed_well_formed: "t \<in> set fixed_tests \<Longrightarrow> well_formed 0 0 (script t) \<and> max_arg t \<le> core_arg t"
  using well_formed_concurrent
  by (auto simp: fixed_tests_def test_basic_submit_def test_return_value_def test_exception_propagation_def
      test_priority_order_def test_wait_and_stop_def test_stop_immediately_def test_submit_after_stop_def
      test_thread_count_queries_def test_fixed_thread_pool_def test_destructor_cleanup_def well_formed_append)
    (simp_all add: test_concurrent_submit_def)




section \<open>The test of the priorities\<close>

text \<open>
  The test expects the three tasks in the order of their priorities. They run in that order if the
  only worker comes to its loop after the third submission, and in another one if it is faster.
\<close>

definition order_test :: "choice list \<Rightarrow> world option" where
  "order_test chs = world_run chs (start_test (the (ThreadPool 1 0)) (script test_priority_order))"

definition run_one :: "choice list" where
  "run_one = [Worker (Enter 0), Body 0]"

lemma order_test_passes:
  "map_option (\<lambda>w. (test_ok w, order (memory w), finished (clients w ! 0)))
     (order_test (replicate 3 (Client 0) @ concat (replicate 3 run_one) @ replicate 8 (Client 0) @
       [Worker (Enter 0), Worker Swap_Out, Worker Join_Next, Worker Join_Next, Client 0, Client 0])) =
   Some (True, [0, 5, 10], True)"
  by code_simp

lemma order_test_may_fail:
  "map_option (\<lambda>w. (test_ok w, order (memory w)))
     (order_test ([Client 0] @ run_one @ replicate 2 (Client 0) @ concat (replicate 2 run_one) @ replicate 7 (Client 0))) =
   Some (False, [10, 0, 5])"
  by code_simp

end
