(* ===== verification/Pool_Scaling.thy ===== *)
theory Pool_Scaling
  imports Pool_Tests
begin

text \<open>
  The test of \<^verbatim>\<open>thread_pool/main.cpp\<close> in which a congested pool is expected to grow. Its tasks are not
  one atomic action each: they count themselves, raise a shared maximum by a loop around
  \<^verbatim>\<open>compare_exchange_weak\<close>, sleep, and count themselves out. Here each of these is a step of the
  worker that has taken the task, between the steps of the pool and of the test's own thread, which
  remain those of \<^theory_text>\<open>Pool_Futures\<close>.
\<close>

section \<open>State\<close>

text \<open>
  How far a worker is in the body of its task: \<open>Counted\<close> with the local \<^verbatim>\<open>cur\<close>, \<open>Loaded\<close> with \<^verbatim>\<open>cur\<close>
  and \<^verbatim>\<open>prev\<close> at the condition of the loop, \<open>Sleeping\<close> behind the loop, \<open>Gone\<close> at the end.
\<close>

datatype stage = Fresh | Started | Counted int | Loaded int int | Sleeping | Gone

text \<open>
  \<open>base\<close> has the pool, the futures and the test's thread. The two checks that the thread makes
  between the last future and \<^verbatim>\<open>wait_and_stop\<close> read \<^verbatim>\<open>max_concurrent\<close>, which is part of the state
  here; they are kept as the list of those still to come. \<open>peak\<close> is history: the largest value that
  \<^verbatim>\<open>in_flight\<close> has had.
\<close>

record scaling =
  base :: world
  stage :: "nat \<Rightarrow> stage"
  tasks_started :: int
  in_flight :: int
  max_concurrent :: int
  checks_left :: "(int \<Rightarrow> bool) list"
  checks_ok :: bool
  peak :: int

section \<open>Operations\<close>

definition scaling_script :: "nat \<Rightarrow> command list" where
  "scaling_script n = submit_tasks n (give Void) @ get_all n @ [Stop_Waiting, Destroy]"

definition scaling_checks :: "(int \<Rightarrow> bool) list" where
  "scaling_checks = [\<lambda>x. x \<ge> 3, \<lambda>x. x \<le> 8]"

definition test_dynamic_scale_up :: pool_test where
  "test_dynamic_scale_up = \<lparr>core_arg = 2, max_arg = 8, script = scaling_script 100\<rparr>"

definition start_scaling :: "pool \<Rightarrow> command list \<Rightarrow> scaling" where
  "start_scaling p cs = \<lparr>base = start_test p cs, stage = (\<lambda>_. Fresh), tasks_started = 0, in_flight = 0,
     max_concurrent = 0, checks_left = scaling_checks, checks_ok = True, peak = 0\<rparr>"

fun is_busy :: "worker \<Rightarrow> bool" where
  "is_busy (Busy t) = True"
| "is_busy _ = False"

definition at_stage :: "nat \<Rightarrow> stage \<Rightarrow> scaling \<Rightarrow> scaling" where
  "at_stage x st s = s\<lparr>stage := (stage s)(x := st)\<rparr>"

text \<open>\<^verbatim>\<open>compare_exchange_weak\<close>: on failure, which may be spurious, \<open>prev\<close> is what was found.\<close>

definition exchange :: "nat \<Rightarrow> int \<Rightarrow> int \<Rightarrow> bool \<Rightarrow> scaling \<Rightarrow> scaling" where
  "exchange x cur prev spurious s =
     (if max_concurrent s = prev \<and> \<not> spurious then at_stage x Sleeping (s\<lparr>max_concurrent := cur\<rparr>)
      else at_stage x (Loaded cur (max_concurrent s)) s)"

text \<open>The next atomic operation of the body; \<open>spurious\<close> says how an exchange ends.\<close>

definition advance :: "nat \<Rightarrow> bool \<Rightarrow> scaling \<Rightarrow> scaling option" where
  "advance x spurious s =
     (case stage s x of
        Fresh \<Rightarrow> Some (at_stage x Started (s\<lparr>tasks_started := tasks_started s + 1\<rparr>))
      | Started \<Rightarrow> Some (at_stage x (Counted (in_flight s + 1))
          (s\<lparr>in_flight := in_flight s + 1, peak := max (peak s) (in_flight s + 1)\<rparr>))
      | Counted cur \<Rightarrow> Some (at_stage x (Loaded cur (max_concurrent s)) s)
      | Loaded cur prev \<Rightarrow>
          Some (if cur > prev then exchange x cur prev spurious s else at_stage x Sleeping s)
      | Sleeping \<Rightarrow> Some (at_stage x Gone (s\<lparr>in_flight := in_flight s - 1\<rparr>))
      | Gone \<Rightarrow> None)"

text \<open>The test's thread has all futures and is at its checks.\<close>

definition at_checks :: "scaling \<Rightarrow> bool" where
  "at_checks s \<longleftrightarrow> checks_left s \<noteq> [] \<and>
     (let c = clients (base s) ! 0 in pc c < length (program c) \<and> stops (program c ! pc c))"

section \<open>Interleaving\<close>

datatype scale_choice = Plain choice | In_Body nat bool | Check_Max

definition plain_step :: "choice \<Rightarrow> scaling \<Rightarrow> scaling option" where
  "plain_step ch s = map_option (\<lambda>w. s\<lparr>base := w\<rparr>) (world_do ch (base s))"

fun scale_do :: "scale_choice \<Rightarrow> scaling \<Rightarrow> scaling option" where
  "scale_do (Plain (Body x)) s =
     (if stage s x = Gone then map_option (at_stage x Fresh) (plain_step (Body x) s) else None)"
| "scale_do (Plain ch) s = (if ch = Client 0 \<and> at_checks s then None else plain_step ch s)"
| "scale_do (In_Body x spurious) s =
     (if \<not> aborted (base s) \<and> x < spawned (threadpool (base s)) \<and> is_busy (status (threadpool (base s)) x)
      then advance x spurious s else None)"
| "scale_do Check_Max s =
     (if \<not> aborted (base s) \<and> at_checks s
      then Some (s\<lparr>checks_left := tl (checks_left s),
                 checks_ok := (checks_ok s \<and> hd (checks_left s) (max_concurrent s))\<rparr>)
      else None)"

inductive scale_reaches :: "nat \<Rightarrow> nat \<Rightarrow> nat \<Rightarrow> scaling \<Rightarrow> bool" for c m n where
  scale_new: "ThreadPool c m = Some p \<Longrightarrow> scale_reaches c m n (start_scaling p (scaling_script n))"
| scale_next: "scale_reaches c m n s \<Longrightarrow> scale_do ch s = Some s' \<Longrightarrow> scale_reaches c m n s'"

fun scale_run :: "scale_choice list \<Rightarrow> scaling \<Rightarrow> scaling option" where
  "scale_run [] s = Some s"
| "scale_run (ch # chs) s = (case scale_do ch s of None \<Rightarrow> None | Some s' \<Rightarrow> scale_run chs s')"

lemma scale_run_reaches:
  "scale_run chs s = Some s' \<Longrightarrow> scale_reaches c m n s \<Longrightarrow> scale_reaches c m n s'"
proof (induction chs arbitrary: s)
  case (Cons ch chs)
  then obtain v where v: "scale_do ch s = Some v" "scale_run chs v = Some s'"
    by (cases "scale_do ch s") (simp_all del: scale_do.simps)
  show ?case by (rule Cons.IH [OF v(2) scale_next [OF Cons.prems(2) v(1)]])
qed simp

section \<open>The refined test is a run of the plain one\<close>

lemma at_stage_simps [simp]:
  "base (at_stage x st s) = base s" "stage (at_stage x st s) = (stage s)(x := st)"
  "tasks_started (at_stage x st s) = tasks_started s" "in_flight (at_stage x st s) = in_flight s"
  "max_concurrent (at_stage x st s) = max_concurrent s" "checks_left (at_stage x st s) = checks_left s"
  "checks_ok (at_stage x st s) = checks_ok s" "peak (at_stage x st s) = peak s"
  by (simp_all add: at_stage_def)

lemma advance_keeps:
  "advance x spurious s = Some s' \<Longrightarrow> base s' = base s \<and> checks_left s' = checks_left s \<and> checks_ok s' = checks_ok s"
  by (auto simp: advance_def exchange_def split: stage.splits if_splits)

lemma scale_doE:
  assumes "scale_do ch s = Some s'"
  obtains (body) x w where "ch = Plain (Body x)" "stage s x = Gone" "world_do (Body x) (base s) = Some w"
      "s' = at_stage x Fresh (s\<lparr>base := w\<rparr>)"
    | (plain) c w where "ch = Plain c" "\<And>x. c \<noteq> Body x" "\<not> (c = Client 0 \<and> at_checks s)"
      "world_do c (base s) = Some w" "s' = s\<lparr>base := w\<rparr>"
    | (inside) x b where "ch = In_Body x b" "x < spawned (threadpool (base s))"
      "is_busy (status (threadpool (base s)) x)" "advance x b s = Some s'"
    | (check) "ch = Check_Max" "at_checks s" "s' = s\<lparr>checks_left := tl (checks_left s),
        checks_ok := (checks_ok s \<and> hd (checks_left s) (max_concurrent s))\<rparr>"
proof (cases ch)
  case (Plain c)
  show ?thesis
  proof (cases "\<exists>x. c = Body x")
    case True
    then obtain x where x: "c = Body x" ..
    then obtain w where "stage s x = Gone" "world_do (Body x) (base s) = Some w" "s' = at_stage x Fresh (s\<lparr>base := w\<rparr>)"
      using assms Plain by (auto simp: plain_step_def simp del: world_do.simps split: if_splits)
    with Plain x show ?thesis by (intro body) auto
  next
    case False
    then have "(if c = Client 0 \<and> at_checks s then None else plain_step c s) = Some s'"
      using Plain assms by (cases c) (simp_all split: if_splits)
    then obtain w where "\<not> (c = Client 0 \<and> at_checks s)" "world_do c (base s) = Some w" "s' = s\<lparr>base := w\<rparr>"
      by (auto simp: plain_step_def simp del: world_do.simps split: if_splits)
    with Plain False show ?thesis by (intro plain) auto
  qed
next
  case (In_Body x b)
  then show ?thesis using assms by (intro inside [of x b]) (auto split: if_splits)
next
  case Check_Max
  then show ?thesis using assms by (intro check) (auto split: if_splits)
qed

lemma scale_base: "scale_reaches c m n s \<Longrightarrow> test_reaches c m (scaling_script n) (base s)"
proof (induction rule: scale_reaches.induct)
  case (scale_new p)
  then show ?case by (simp add: start_scaling_def test_new)
next
  case (scale_next s ch s')
  have go: "test_reaches c m (scaling_script n) w" if "world_do d (base s) = Some w" for d w
    by (rule test_reaches.test_next [OF scale_next.IH]) (use that in \<open>auto simp: world_step_def simp del: world_do.simps\<close>)
  from scale_next.hyps(2) show ?case
    by (cases rule: scale_doE) (use go scale_next.IH in \<open>auto dest: advance_keeps\<close>)
qed
section \<open>How many tasks can be in flight\<close>

text \<open>The threads that the pool has handles for are never more than its bounds allow.\<close>

lemma step_held:
  assumes ok: "pool_ok p" and step: "pool_step True p q"
  shows "length (held q) \<le> max (length (held p)) (max_threads p)"
  using step
proof cases
  case (submit_task a)
  then have "stopper p = No_Stop" using accepting_runs [OF ok] submit_history(4) by blast
  then show ?thesis using submit_task by (auto simp: submit_impl_def held_def Let_def split: if_splits)
next
  case (enter w)
  then show ?thesis by (auto simp: enter_loop_def leave_or_take_def held_def split: stopper.splits)
next
  case (woken w)
  then show ?thesis by (auto simp: leave_or_take_def held_def split: stopper.splits)
next
  case (timed_out w)
  then show ?thesis
    by (auto simp: wait_timed_out_def remove_this_thread_def held_def length_remove1 split: stopper.splits)
next
  case (finished w t)
  then show ?thesis by (auto simp: finish_task_def held_def split: stopper.splits)
next
  case graceful
  then have "stopper p = No_Stop" using accepting_runs [OF ok] by (auto simp: wait_and_stop_def split: if_splits)
  then show ?thesis using graceful by (auto simp: wait_and_stop_def held_def split: if_splits)
next
  case immediate
  then have "stopper p = No_Stop"
    using ok by (auto simp: stop_immediately_def pool_ok_def stop_ok_def split: if_splits)
  then show ?thesis using immediate by (auto simp: stop_immediately_def held_def split: if_splits)
next
  case swap
  then show ?thesis by (auto simp: swap_workers_def held_def)
next
  case join
  then show ?thesis using ok
    by (auto simp: held_def pool_ok_def stop_ok_def split: stopper.splits list.splits if_splits)
qed

lemma held_bound: "pool_reaches True c m p \<Longrightarrow> length (held p) \<le> max c m"
proof (induction rule: pool_reaches.induct)
  case (pool_new p)
  then show ?case using pool_new_history(6) [OF pool_new] ThreadPool_ok [OF pool_new]
    by (auto simp: ThreadPool_def pool_ok_def stop_ok_def held_def split: stopper.splits if_splits)
next
  case (pool_next p q)
  then show ?case using step_held [of p q] pool_reaches_ok [OF pool_next(1)] by (auto split: if_splits)
qed

lemma busy_bound:
  assumes "pool_reaches True c m p"
  shows "card {x. x < spawned p \<and> is_busy (status p x)} \<le> max c m"
proof -
  have ok: "threads_ok p" using pool_reaches_ok [OF assms] by (simp add: pool_ok_def)
  then have "{x. x < spawned p \<and> is_busy (status p x)} \<subseteq> set (held p)" by (auto simp: threads_ok_def)
  then have "card {x. x < spawned p \<and> is_busy (status p x)} \<le> length (held p)"
    by (meson card_length card_mono finite_set order_trans)
  then show ?thesis using held_bound [OF assms] by simp
qed

section \<open>Invariant\<close>

fun flying :: "stage \<Rightarrow> bool" where
  "flying (Counted cur) = True"
| "flying (Loaded cur prev) = True"
| "flying Sleeping = True"
| "flying _ = False"

text \<open>A value that its worker may still write to \<^verbatim>\<open>max_concurrent\<close>.\<close>

fun announced :: "stage \<Rightarrow> int option" where
  "announced (Counted cur) = Some cur"
| "announced (Loaded cur prev) = Some cur"
| "announced _ = None"

definition stages_ok :: "scaling \<Rightarrow> bool" where
  "stages_ok s \<longleftrightarrow> (\<forall>x. stage s x \<noteq> Fresh \<longrightarrow>
     x < spawned (threadpool (base s)) \<and> is_busy (status (threadpool (base s)) x))"

definition counts_ok :: "scaling \<Rightarrow> bool" where
  "counts_ok s \<longleftrightarrow> in_flight s = int (card {x. flying (stage s x)}) \<and>
     tasks_started s = int (length (executed (threadpool (base s)))) + int (card {x. stage s x \<noteq> Fresh})"

text \<open>
  The loop around the exchange: \<^verbatim>\<open>max_concurrent\<close> never exceeds the peak, and as long as it is
  smaller, some worker is on its way to raise it.
\<close>

definition peak_ok :: "scaling \<Rightarrow> bool" where
  "peak_ok s \<longleftrightarrow> in_flight s \<le> peak s \<and> 0 \<le> max_concurrent s \<and> max_concurrent s \<le> peak s \<and>
     (\<forall>x cur. announced (stage s x) = Some cur \<longrightarrow> cur \<le> peak s) \<and>
     (\<forall>x cur prev. stage s x = Loaded cur prev \<longrightarrow> prev \<le> max_concurrent s) \<and>
     (max_concurrent s = peak s \<or> (\<exists>x. announced (stage s x) = Some (peak s))) \<and>
     (executed (threadpool (base s)) \<noteq> [] \<or> (\<exists>x. stage s x \<notin> {Fresh, Started}) \<longrightarrow> 1 \<le> peak s)"

lemma card_update:
  assumes "finite {x. P (f x)}"
  shows "int (card {x. P ((f(y := v)) x)}) = int (card {x. P (f x)}) + of_bool (P v) - of_bool (P (f y))"
proof -
  define A where "A = {x. P (f x)} - {y}"
  have A: "finite A" "y \<notin> A" using assms by (simp_all add: A_def)
  have "{x. P ((f(y := v)) x)} = (if P v then insert y A else A)" "{x. P (f x)} = (if P (f y) then insert y A else A)"
    by (auto simp: A_def)
  then show ?thesis using A by (simp del: fun_upd_apply)
qed

lemma stages_finite:
  assumes "stages_ok s"
  shows "finite {x. stage s x \<noteq> Fresh}" "finite {x. flying (stage s x)}"
    "card {x. flying (stage s x)} \<le> card {x. x < spawned (threadpool (base s)) \<and> is_busy (status (threadpool (base s)) x)}"
proof -
  define B where "B = {x. x < spawned (threadpool (base s)) \<and> is_busy (status (threadpool (base s)) x)}"
  have B: "finite B" by (simp add: B_def)
  have sub: "{x. stage s x \<noteq> Fresh} \<subseteq> B" "{x. flying (stage s x)} \<subseteq> {x. stage s x \<noteq> Fresh}"
    using assms by (auto simp: stages_ok_def B_def)
  show "finite {x. stage s x \<noteq> Fresh}" "finite {x. flying (stage s x)}" using sub B by (meson finite_subset order_trans)+
  show "card {x. flying (stage s x)} \<le> card {x. x < spawned (threadpool (base s)) \<and> is_busy (status (threadpool (base s)) x)}"
    using sub B card_mono [of B] unfolding B_def [symmetric] by blast
qed

lemma advance_counts:
  assumes st: "stages_ok s" and ok: "counts_ok s" and step: "advance x b s = Some s'"
  shows "counts_ok s'"
proof -
  note fin = stages_finite [OF st]
  note up = card_update [of flying "stage s" x, OF fin(2)] card_update [of "\<lambda>z. z \<noteq> Fresh" "stage s" x, OF fin(1)]
  show ?thesis
    using step ok
    by (auto simp: advance_def exchange_def counts_ok_def up split: stage.splits if_splits simp del: fun_upd_apply)
qed

lemma announced_update:
  "announced ((f(x := v)) y) = (if y = x then announced v else announced (f y))"
  by simp

lemma still_announced:
  assumes "announced (f y) = Some k" "announced (f x) \<noteq> Some k \<or> announced v = Some k"
  shows "\<exists>y. announced ((f(x := v)) y) = Some k"
  using assms by (cases "y = x") auto

text \<open>Worker \<open>x\<close> goes on, perhaps raising the maximum or counting a task out.\<close>

lemma peak_move:
  assumes ok: "peak_ok s" and s': "s' = at_stage x v (s\<lparr>max_concurrent := k, in_flight := j\<rparr>)"
    and j: "j \<le> in_flight s" and k: "max_concurrent s \<le> k" "k \<le> peak s"
    and ann: "\<And>cur. announced v = Some cur \<Longrightarrow> cur \<le> peak s" "\<And>cur prev. v = Loaded cur prev \<Longrightarrow> prev \<le> k"
    and top: "announced (stage s x) = Some (peak s) \<Longrightarrow> announced v = Some (peak s) \<or> k = peak s"
    and late: "v \<notin> {Fresh, Started} \<Longrightarrow> stage s x \<notin> {Fresh, Started}"
  shows "peak_ok s'"
proof -
  have "k = peak s \<or> (\<exists>y. announced (((stage s)(x := v)) y) = Some (peak s))"
  proof (cases "max_concurrent s = peak s \<or> k = peak s")
    case True
    then show ?thesis using k by auto
  next
    case False
    then obtain y where "announced (stage s y) = Some (peak s)" using ok by (auto simp: peak_ok_def)
    then show ?thesis using still_announced [of "stage s" y "peak s" x v] top False by auto
  qed
  moreover have "\<forall>y cur prev. ((stage s)(x := v)) y = Loaded cur prev \<longrightarrow> prev \<le> k"
  proof (intro allI impI)
    fix y cur prev
    assume a: "((stage s)(x := v)) y = Loaded cur prev"
    show "prev \<le> k"
    proof (cases "y = x")
      case False
      then have "prev \<le> max_concurrent s" using ok a by (simp add: peak_ok_def)
      then show ?thesis using k(1) by simp
    qed (use a ann(2) in simp)
  qed
  moreover have "\<forall>y cur. announced (((stage s)(x := v)) y) = Some cur \<longrightarrow> cur \<le> peak s"
    using ok ann(1) by (auto simp: peak_ok_def)
  moreover have "1 \<le> peak s"
    if "executed (threadpool (base s)) \<noteq> [] \<or> (\<exists>y. ((stage s)(x := v)) y \<notin> {Fresh, Started})"
    using that ok late unfolding peak_ok_def by (metis fun_upd_apply)
  ultimately show ?thesis using ok j k unfolding s' by (simp add: peak_ok_def)
qed

lemma announced_le: "peak_ok s \<Longrightarrow> announced (stage s x) = Some cur \<Longrightarrow> cur \<le> peak s"
  by (simp add: peak_ok_def)

lemma loaded_le: "peak_ok s \<Longrightarrow> stage s x = Loaded cur prev \<Longrightarrow> prev \<le> max_concurrent s"
  by (simp add: peak_ok_def)

lemma past_start_peak: "peak_ok s \<Longrightarrow> stage s x \<noteq> Fresh \<Longrightarrow> stage s x \<noteq> Started \<Longrightarrow> 1 \<le> peak s"
  by (auto simp: peak_ok_def)

lemma max_le_peak: "peak_ok s \<Longrightarrow> max_concurrent s \<le> peak s"
  by (simp add: peak_ok_def)

lemma peak_ok_tasks_started [simp]: "peak_ok (s\<lparr>tasks_started := a\<rparr>) = peak_ok s"
  by (simp add: peak_ok_def)

lemma advance_count_in:
  assumes ok: "peak_ok s" and st: "stage s x = Started" and step: "advance x b s = Some s'"
    and low: "0 \<le> in_flight s"
  shows "peak_ok s'"
proof -
  define k where "k = in_flight s + 1"
  have s': "s' = at_stage x (Counted k) (s\<lparr>in_flight := k, peak := max (peak s) k\<rparr>)"
    using step st by (simp add: advance_def k_def)
  have top: "max_concurrent s = max (peak s) k \<or> (\<exists>y. announced (((stage s)(x := Counted k)) y) = Some (max (peak s) k))"
  proof (cases "peak s < k")
    case True
    then show ?thesis by (intro disjI2 exI [of _ x]) simp
  next
    case False
    then have "max (peak s) k = peak s" by simp
    consider "max_concurrent s = peak s" | y where "announced (stage s y) = Some (peak s)"
      using ok by (auto simp: peak_ok_def)
    then show ?thesis
    proof cases
      case 2
      have "announced (stage s x) \<noteq> Some (peak s)" using st by simp
      then show ?thesis using still_announced [of "stage s" y "peak s" x "Counted k"] 2 \<open>max (peak s) k = peak s\<close> by simp
    qed (use \<open>max (peak s) k = peak s\<close> in simp)
  qed
  have old: "cur \<le> peak s" if "announced (stage s y) = Some cur" for y cur using ok that by (auto simp: peak_ok_def)
  have "\<forall>y cur. announced (((stage s)(x := Counted k)) y) = Some cur \<longrightarrow> cur \<le> max (peak s) k"
    using old by (auto simp: le_max_iff_disj)
  moreover have "\<forall>y cur prev. ((stage s)(x := Counted k)) y = Loaded cur prev \<longrightarrow> prev \<le> max_concurrent s"
    using ok by (auto simp: peak_ok_def)
  moreover have "1 \<le> max (peak s) k" using low by (simp add: k_def)
  ultimately show ?thesis using ok top unfolding s' by (simp add: peak_ok_def le_max_iff_disj k_def)
qed

lemma advance_peak:
  assumes ok: "peak_ok s" and step: "advance x b s = Some s'" and low: "0 \<le> in_flight s"
  shows "peak_ok s'"
proof (cases "stage s x")
  case Fresh
  then have "s' = at_stage x Started ((s\<lparr>tasks_started := tasks_started s + 1\<rparr>)
      \<lparr>max_concurrent := max_concurrent s, in_flight := in_flight s\<rparr>)"
    using step by (simp add: advance_def)
  then show ?thesis
    by (rule peak_move [rotated]) (use ok Fresh max_le_peak [OF ok] in simp_all)
next
  case Started
  then show ?thesis using advance_count_in [OF ok _ step low] by simp
next
  case (Counted cur)
  then have "s' = at_stage x (Loaded cur (max_concurrent s)) (s\<lparr>max_concurrent := max_concurrent s, in_flight := in_flight s\<rparr>)"
    using step by (simp add: advance_def)
  then show ?thesis
    by (rule peak_move [OF ok]) (use announced_le [OF ok, of x cur] Counted max_le_peak [OF ok] in auto)
next
  case (Loaded cur prev)
  have cur: "cur \<le> peak s" "prev \<le> max_concurrent s" using announced_le [OF ok, of x cur] loaded_le [OF ok Loaded] Loaded by simp_all
  note max = max_le_peak [OF ok]
  consider (stay) "s' = at_stage x (Loaded cur (max_concurrent s)) (s\<lparr>max_concurrent := max_concurrent s, in_flight := in_flight s\<rparr>)"
    | (raise) "prev < cur" "max_concurrent s = prev"
      "s' = at_stage x Sleeping (s\<lparr>max_concurrent := cur, in_flight := in_flight s\<rparr>)"
    | (low) "cur \<le> prev" "s' = at_stage x Sleeping (s\<lparr>max_concurrent := max_concurrent s, in_flight := in_flight s\<rparr>)"
    using step Loaded by (auto simp: advance_def exchange_def split: if_splits)
  then show ?thesis
  proof cases
    case stay
    then show ?thesis by (rule peak_move [OF ok]) (use cur max Loaded in auto)
  next
    case raise
    then show ?thesis by (intro peak_move [OF ok raise(3)]) (use cur max Loaded in auto)
  next
    case low
    then show ?thesis by (intro peak_move [OF ok low(2)]) (use cur max Loaded in auto)
  qed
next
  case Sleeping
  then have "s' = at_stage x Gone (s\<lparr>max_concurrent := max_concurrent s, in_flight := in_flight s - 1\<rparr>)"
    using step by (simp add: advance_def)
  then show ?thesis by (rule peak_move [OF ok]) (use Sleeping max_le_peak [OF ok] in simp_all)
qed (use step in \<open>simp add: advance_def\<close>)

text \<open>What a step other than the end of a body does to the workers.\<close>

definition workers_keep :: "pool \<Rightarrow> pool \<Rightarrow> bool" where
  "workers_keep p q \<longleftrightarrow> executed q = executed p \<and> spawned p \<le> spawned q \<and>
     (\<forall>x < spawned p. is_busy (status p x) \<longrightarrow> status q x = status p x)"

lemma submit_workers: "submit_impl a p = Some q \<Longrightarrow> workers_keep p q"
  by (auto simp: workers_keep_def submit_impl_def Let_def split: if_splits)

lemma stop_workers: "stop_call cmd p = Some q \<Longrightarrow> workers_keep p q"
  by (drule stop_callD) (auto simp: workers_keep_def wait_and_stop_def stop_immediately_def split: if_splits)

lemma background_workers:
  assumes "background a" "perform a p = Some q"
  shows "workers_keep p q"
proof -
  have "spawned p \<le> spawned q \<and> (\<forall>x < spawned p. is_busy (status p x) \<longrightarrow> status q x = status p x)"
    using assms
    by (cases a) (auto simp: background_def pool_op_defs split: if_splits stopper.splits list.splits)
  then show ?thesis using background_keeps(2) [OF assms] by (simp add: workers_keep_def)
qed

lemma plain_workers:
  assumes "world_do c w = Some w'" "\<And>x. c \<noteq> Body x"
  shows "workers_keep (threadpool w) (threadpool w')"
proof (cases c)
  case (Client i)
  then have "run_command i (program (clients w ! i) ! pc (clients w ! i)) w = Some w'"
    using assms(1) by (auto split: if_splits)
  then show ?thesis
  proof (cases rule: run_command_tasks)
    case (submit a b t v)
    then show ?thesis using submit_workers by (auto simp: task_side_def elim!: submit_bodyD)
  next
    case (stop v)
    then show ?thesis using stop_workers by (auto simp: task_side_def elim!: stop_worldD)
  qed (simp add: task_side_def workers_keep_def)
next
  case (Body x)
  then show ?thesis using assms(2) by simp
next
  case (Worker a)
  then show ?thesis using assms(1) background_workers by (auto split: if_splits)
qed

text \<open>The end of a body.\<close>

lemma body_end:
  assumes "world_do (Body x) w = Some w'"
  obtains t where "x < spawned (threadpool w)" "status (threadpool w) x = Busy t" "w' = run_body x t w"
  using assms by (auto split: if_splits worker.splits)

definition scale_ok :: "scaling \<Rightarrow> bool" where
  "scale_ok s \<longleftrightarrow> stages_ok s \<and> counts_ok s \<and> peak_ok s"

lemma plain_ok:
  assumes ok: "scale_ok s" and keep: "workers_keep (threadpool (base s)) (threadpool w)"
  shows "scale_ok (s\<lparr>base := w\<rparr>)"
  using assms unfolding scale_ok_def stages_ok_def counts_ok_def peak_ok_def workers_keep_def by fastforce

lemma body_ok:
  assumes ok: "scale_ok s" and st: "stage s x = Gone" and w: "w = run_body x t (base s)"
    and x: "x < spawned (threadpool (base s))"
  shows "scale_ok (at_stage x Fresh (s\<lparr>base := w\<rparr>))"
proof -
  define s' where "s' = at_stage x Fresh (s\<lparr>base := w\<rparr>)"
  have so: "stages_ok s" and co: "counts_ok s" and po: "peak_ok s" using ok by (simp_all add: scale_ok_def)
  note fin = stages_finite [OF so]
  note up = card_update [of flying "stage s" x, OF fin(2)] card_update [of "\<lambda>z. z \<noteq> Fresh" "stage s" x, OF fin(1)]
  have tp: "threadpool w = finish_task x t (threadpool (base s))" by (simp add: w)
  have "stages_ok s'" using so unfolding s'_def stages_ok_def by (simp add: tp finish_task_def)
  moreover have "counts_ok s'"
    using co st unfolding s'_def by (simp add: counts_ok_def up tp del: fun_upd_apply)
  moreover have "peak_ok s'"
  proof -
    have "peak_ok (at_stage x Fresh (s\<lparr>max_concurrent := max_concurrent s, in_flight := in_flight s\<rparr>))"
      by (rule peak_move [OF po refl]) (use st max_le_peak [OF po] in simp_all)
    moreover have "1 \<le> peak s" by (rule past_start_peak [OF po, of x]) (simp_all add: st)
    ultimately show ?thesis unfolding s'_def by (simp add: peak_ok_def)
  qed
  ultimately show ?thesis by (simp add: scale_ok_def s'_def)
qed

lemma advance_stages:
  assumes "stages_ok s" "advance x b s = Some s'" "x < spawned (threadpool (base s))"
    "is_busy (status (threadpool (base s)) x)"
  shows "stages_ok s'"
  using assms by (auto simp: stages_ok_def advance_def exchange_def split: stage.splits if_splits)

lemma scale_step_ok:
  assumes ok: "scale_ok s" and step: "scale_do ch s = Some s'"
  shows "scale_ok s'"
  using step
proof (cases rule: scale_doE)
  case (body x w)
  show ?thesis unfolding body(4) by (rule body_end [OF body(3)]) (rule body_ok [OF ok body(2)])
next
  case (plain c w)
  then show ?thesis using plain_ok [OF ok plain_workers] by simp
next
  case (inside x b)
  have "0 \<le> in_flight s" using ok by (simp add: scale_ok_def counts_ok_def)
  then show ?thesis
    using ok advance_stages [OF _ inside(4,2,3)] advance_counts [OF _ _ inside(4)] advance_peak [OF _ inside(4)]
    by (simp add: scale_ok_def)
next
  case check
  then show ?thesis using ok by (simp add: scale_ok_def stages_ok_def counts_ok_def peak_ok_def)
qed

lemma scale_start_ok: "ThreadPool c m = Some p \<Longrightarrow> scale_ok (start_scaling p cs)"
  by (drule pool_new_history(2))
    (simp add: scale_ok_def stages_ok_def counts_ok_def peak_ok_def start_scaling_def start_test_def)

lemma scale_reaches_ok: "scale_reaches c m n s \<Longrightarrow> scale_ok s"
  by (induction rule: scale_reaches.induct) (auto intro: scale_start_ok scale_step_ok)

section \<open>When all futures have been got\<close>

definition main_pc :: "scaling \<Rightarrow> nat" where
  "main_pc s = pc (clients (base s) ! 0)"

lemma scaling_script_simps [simp]:
  "task_bodies (scaling_script n) = replicate n (give Void)" "gets (scaling_script n) = [0..<n]"
  "tries (scaling_script n) = 0" "started (scaling_script n) = []" "well_formed 0 0 (scaling_script n)"
  "length (scaling_script n) = 2 * n + 2"
proof -
  show "length (scaling_script n) = 2 * n + 2" by (simp add: scaling_script_def submit_tasks_def get_all_def)
qed (simp_all add: scaling_script_def well_formed_append)

lemma scaling_prefix:
  "take (2 * n) (scaling_script n) = submit_tasks n (give Void) @ get_all n"
  "take (Suc (2 * n)) (scaling_script n) = submit_tasks n (give Void) @ get_all n @ [Stop_Waiting]"
  by (simp_all add: scaling_script_def submit_tasks_def get_all_def)

lemma scaling_stops:
  assumes "stops (scaling_script n ! k)" "k < length (scaling_script n)"
  shows "2 * n \<le> k"
proof (rule ccontr)
  assume "\<not> 2 * n \<le> k"
  then have "scaling_script n ! k = (submit_tasks n (give Void) @ get_all n) ! k"
    by (auto simp: scaling_script_def nth_append submit_tasks_def get_all_def)
  moreover have "(submit_tasks n (give Void) @ get_all n) ! k \<in> set (submit_tasks n (give Void) @ get_all n)"
    using \<open>\<not> 2 * n \<le> k\<close> by (intro nth_mem) (simp add: submit_tasks_def get_all_def)
  ultimately show False using assms(1) by (auto simp: submit_tasks_def get_all_def)
qed

lemma scaling_world:
  assumes "scale_reaches c m n s"
  shows "world_ok (scaling_script n) (base s)" "program (clients (base s) ! 0) = scaling_script n"
    "clients (base s) = [clients (base s) ! 0]" "main_pc s \<le> 2 * n + 2"
proof -
  note r = scale_base [OF assms]
  show wo: "world_ok (scaling_script n) (base s)" by (rule test_world_ok [OF r well_formed_flat [of 0 0]]) simp
  show p: "program (clients (base s) ! 0) = scaling_script n" and c: "clients (base s) = [clients (base s) ! 0]"
    using single_thread [OF r] by simp_all
  have "client_ok (base s) (clients (base s) ! 0)" using wo by (simp add: world_ok_def)
  then show "main_pc s \<le> 2 * n + 2" using p by (simp add: client_ok_def main_pc_def)
qed

lemma all_run:
  assumes r: "scale_reaches c m n s" and pc: "main_pc s = 2 * n"
  shows "length (executed (threadpool (base s))) = n" "busy (threadpool (base s)) = {#}"
proof -
  define d where "d = clients (base s) ! 0"
  define p where "p = threadpool (base s)"
  note wr = scale_base [OF r] and wo = scaling_world(1) [OF r] and cl = scaling_world(3) [OF r]
  have past: "past d = submit_tasks n (give Void) @ get_all n"
    using pc scaling_world(2) [OF r] scaling_prefix(1) by (simp add: past_def d_def main_pc_def)
  have "set (begun d) \<subseteq> set (take (Suc (2 * n)) (scaling_script n))"
    using pc scaling_world(2) [OF r] set_take_subset_set_take [of "2 * n" "Suc (2 * n)" "scaling_script n"]
    by (auto simp: begun_def d_def main_pc_def split: if_splits)
  then have "\<not> list_ex hard_stop (begun d)"
    unfolding scaling_prefix(2) by (auto simp: list_ex_iff submit_tasks_def get_all_def hard_stop_def)
  then have nd: "dropped p = []"
    using nothing_dropped [OF wo, unfolded main_stops_def] by (simp add: d_def p_def)
  have cs: "set (clients (base s)) = {d}" using cl unfolding d_def by (metis list.set(1) list.set(2))
  have t: "\<forall>c \<in> set (clients (base s)). tries (past c) = 0"
    and g: "\<forall>c \<in> set (clients (base s)). {..<length (task_bodies (past c))} \<subseteq> set (gets (past c))"
    by (simp_all add: cs past lessThan_atLeast0)
  have sum: "sum_list (map f (clients (base s))) = f d" for f :: "client \<Rightarrow> nat" using cl d_def by (metis sum_list.Cons sum_list.Nil list.map add_0_right)
  have all: "mset (executed p) = mset (submitted p)" "tasks p = []"
    using all_executed [OF wr wo t g] nd by (simp_all add: p_def)
  have len: "length (submitted p) = n" using tasks_of_threads(1) [OF wr wo t] by (simp add: sum past p_def)
  then show "length (executed (threadpool (base s))) = n" using all(1) by (metis p_def size_mset)
  have "tasks_ok p" using test_pool_ok [OF wr] by (simp add: pool_ok_def p_def)
  then show "busy (threadpool (base s)) = {#}" using all nd by (simp add: tasks_ok_def p_def)
qed

lemma none_busy:
  assumes r: "scale_reaches c m n s" and pc: "2 * n \<le> main_pc s" and x: "x < spawned (threadpool (base s))"
  shows "\<not> is_busy (status (threadpool (base s)) x)"
proof (cases "main_pc s = 2 * n")
  case True
  show ?thesis
  proof
    assume "is_busy (status (threadpool (base s)) x)"
    then obtain t where "status (threadpool (base s)) x = Busy t" by (elim is_busy.elims)
    then show False using busy_count [OF x] all_run(2) [OF r True] by simp
  qed
next
  case False
  then have "Stop_Waiting \<in> set (take (main_pc s) (scaling_script n))"
    using pc set_take_subset_set_take [of "Suc (2 * n)" "main_pc s" "scaling_script n"]
    unfolding scaling_prefix(2) by auto
  then have "list_ex stops (past (clients (base s) ! 0))"
    using scaling_world(2) [OF r] by (auto simp: past_def main_pc_def list_ex_iff intro: bexI [of _ Stop_Waiting])
  then have "stopper (threadpool (base s)) = Stopped"
    using test_stop_returned [OF scale_base [OF r]] by (simp add: stop_returned_def main_stops_def)
  then have "status (threadpool (base s)) x = Exited"
    using test_pool_ok [OF scale_base [OF r]] x by (auto simp: pool_ok_def stop_ok_def threads_ok_def held_def)
  then show ?thesis by simp
qed

text \<open>No worker is inside a body any more, and the maximum has caught up with the peak.\<close>

lemma all_landed:
  assumes r: "scale_reaches c m n s" and pc: "2 * n \<le> main_pc s"
  shows "stage s x = Fresh" "in_flight s = 0" "max_concurrent s = peak s"
    "tasks_started s = int (length (executed (threadpool (base s))))"
proof -
  have ok: "stages_ok s" "counts_ok s" "peak_ok s" using scale_reaches_ok [OF r] by (simp_all add: scale_ok_def)
  have st: "stage s x = Fresh" for x using ok(1) none_busy [OF r pc] by (auto simp: stages_ok_def)
  show "stage s x = Fresh" by (rule st)
  show "in_flight s = 0" "tasks_started s = int (length (executed (threadpool (base s))))"
    using ok(2) by (simp_all add: counts_ok_def st)
  show "max_concurrent s = peak s" using ok(3) by (simp add: peak_ok_def st)
qed

section \<open>The verdict of the test\<close>

lemma ends_pc: "command_ends w c w' cmd c' \<Longrightarrow> pc c' = pc c \<or> pc c' = Suc (pc c)"
  by (cases rule: command_ends.cases) (auto simp: next_client_def)

lemma scale_clients:
  assumes r: "scale_reaches c m n s" and step: "scale_do ch s = Some s'"
  shows "clients (base s') = clients (base s) \<or> ch = Plain (Client 0) \<and> \<not> at_checks s \<and>
    (main_pc s' = main_pc s \<or> main_pc s' = Suc (main_pc s))"
  using step
proof (cases rule: scale_doE)
  case (body x w)
  then show ?thesis using other_steps_keep_clients [OF body(3)] by simp
next
  case (plain d w)
  show ?thesis
  proof (cases "\<exists>i. d = Client i")
    case False
    then show ?thesis using other_steps_keep_clients [OF plain(4)] plain(5) by simp
  next
    case True
    then obtain i where i: "d = Client i" ..
    then have "i < length (clients (base s))" using plain(4) by (auto split: if_splits)
    then have z: "i = 0" using scaling_world(3) [OF r] by (metis One_nat_def length_Cons less_one list.size(3))
    have "checked (\<lambda>us x. True) [] (scaling_script n)" for n
    proof -
      have "checked (\<lambda>us x. True) us xs" for us xs by (induction xs arbitrary: us) simp_all
      then show ?thesis .
    qed
    then obtain cmd where "command_ends (base s) (clients (base s) ! 0) w cmd (clients w ! 0)"
      using single_client_step [OF scale_base [OF r], of i w "\<lambda>us x. True"] plain(4) i by auto
    then show ?thesis using ends_pc plain i z by (simp add: main_pc_def)
  qed
qed (auto dest: advance_keeps)

definition verdict_ok :: "nat \<Rightarrow> scaling \<Rightarrow> bool" where
  "verdict_ok n s \<longleftrightarrow>
     (2 * n \<le> main_pc s \<longrightarrow> tasks_started s = int n) \<and>
     (2 * n < main_pc s \<longrightarrow> checks_left s = []) \<and>
     (\<exists>k. checks_left s = drop k scaling_checks \<and> (k = 0 \<or> 2 * n \<le> main_pc s) \<and>
        checks_ok s = list_all (\<lambda>q. q (peak s)) (take k scaling_checks))"

text \<open>At the checks all futures have been got; the other way round, before the first stop come the checks.\<close>

lemma at_checks_pc:
  assumes r: "scale_reaches c m n s"
  shows "at_checks s \<Longrightarrow> 2 * n \<le> main_pc s" "main_pc s = 2 * n \<Longrightarrow> checks_left s \<noteq> [] \<Longrightarrow> at_checks s"
proof -
  note p = scaling_world(2) [OF r]
  show "at_checks s \<Longrightarrow> 2 * n \<le> main_pc s"
    using scaling_stops [of n "main_pc s"] by (simp add: at_checks_def Let_def p main_pc_def)
  show "main_pc s = 2 * n \<Longrightarrow> checks_left s \<noteq> [] \<Longrightarrow> at_checks s"
    by (simp add: at_checks_def Let_def p main_pc_def) (simp add: scaling_script_def nth_append submit_tasks_def get_all_def)
qed

lemma verdict_step:
  assumes r: "scale_reaches c m n s" and ok: "verdict_ok n s" and step: "scale_do ch s = Some s'"
  shows "verdict_ok n s'"
proof -
  have r': "scale_reaches c m n s'" by (rule scale_next [OF r step])
  have pc: "main_pc s' = main_pc s \<or> \<not> at_checks s \<and> main_pc s' = Suc (main_pc s)"
    using scale_clients [OF r step] by (auto simp: main_pc_def)
  have started: "tasks_started s' = int n" if "2 * n \<le> main_pc s'"
  proof (cases "main_pc s' = 2 * n")
    case True
    then show ?thesis using all_run(1) [OF r' True] all_landed(4) [OF r' that] by simp
  next
    case False
    then have "2 * n \<le> main_pc s" using that pc by linarith
    then have t: "tasks_started s = int n" and nb: "\<And>x. x < spawned (threadpool (base s)) \<Longrightarrow>
        \<not> is_busy (status (threadpool (base s)) x)"
      using ok none_busy [OF r] by (simp_all add: verdict_ok_def)
    from step show ?thesis by (cases rule: scale_doE) (use t nb in auto)
  qed
  have checks: "checks_left s' = []" if "2 * n < main_pc s'"
  proof -
    have "checks_left s = []"
    proof (cases "2 * n < main_pc s")
      case True
      then show ?thesis using ok by (simp add: verdict_ok_def)
    next
      case False
      then have "main_pc s = 2 * n" "\<not> at_checks s" using that pc by auto
      then show ?thesis using at_checks_pc(2) [OF r] by blast
    qed
    with step show ?thesis by (cases rule: scale_doE) (auto dest: advance_keeps simp: at_checks_def)
  qed
  obtain k where k: "checks_left s = drop k scaling_checks" "k = 0 \<or> 2 * n \<le> main_pc s"
    "checks_ok s = list_all (\<lambda>q. q (peak s)) (take k scaling_checks)" using ok by (auto simp: verdict_ok_def)
  have "\<exists>k. checks_left s' = drop k scaling_checks \<and> (k = 0 \<or> 2 * n \<le> main_pc s') \<and>
      checks_ok s' = list_all (\<lambda>q. q (peak s')) (take k scaling_checks)"
  proof (cases "ch = Check_Max")
    case True
    with step have ac: "at_checks s" and s': "s' = s\<lparr>checks_left := tl (checks_left s),
        checks_ok := (checks_ok s \<and> hd (checks_left s) (max_concurrent s))\<rparr>" by (auto split: if_splits)
    have peak: "max_concurrent s = peak s" "2 * n \<le> main_pc s"
      using all_landed(3) [OF r] at_checks_pc(1) [OF r ac] by auto
    have "k < length scaling_checks" using ac k(1) by (auto simp: at_checks_def)
    then have "checks_left s' = drop (Suc k) scaling_checks \<and>
        checks_ok s' = list_all (\<lambda>q. q (peak s')) (take (Suc k) scaling_checks)"
      using k(1,3) peak by (simp add: s' drop_Suc tl_drop hd_drop_conv_nth take_Suc_conv_app_nth)
    moreover have "main_pc s' = main_pc s" by (simp add: s' main_pc_def)
    ultimately show ?thesis using peak(2) by metis
  next
    case False
    have same: "checks_left s' = checks_left s \<and> checks_ok s' = checks_ok s \<and> (k = 0 \<or> peak s' = peak s)"
      using step
    proof (cases rule: scale_doE)
      case (inside x b)
      then show ?thesis using none_busy [OF r _ inside(2)] k(2) advance_keeps [OF inside(4)] by auto
    qed (use False in auto)
    then show ?thesis using k pc by (intro exI [of _ k]) auto
  qed
  with started checks show ?thesis by (simp add: verdict_ok_def)
qed

lemma scale_verdict: "scale_reaches c m n s \<Longrightarrow> verdict_ok n s"
proof (induction rule: scale_reaches.induct)
  case (scale_new p)
  show ?case by (simp add: verdict_ok_def start_scaling_def start_test_def new_client_def main_pc_def)
    (intro exI [of _ 0], simp)
qed (rule verdict_step)

text \<open>Nothing is thrown, and there is always a next step.\<close>

lemma scale_safe:
  assumes "scale_reaches c m n s"
  shows "test_ok (base s) \<and> \<not> aborted (base s)"
proof (rule allowed_safe [OF _ _ _ _ scale_base [OF assms], of nothing_more])
  show "checked (allowed nothing_more c m) [] (scaling_script n)"
    by (auto simp: scaling_script_def test_simps intro!: checked_submits checked_gets)
qed (simp_all add: nothing_more_def)

lemma scale_progress:
  assumes r: "scale_reaches c m n s" and nf: "\<not> finished (clients (base s) ! 0)"
  shows "\<exists>ch s'. scale_do ch s = Some s'"
proof -
  have na: "\<not> aborted (base s)" using scale_safe [OF r] by simp
  obtain w c where w: "world_do c (base s) = Some w"
    using test_progress [OF scale_base [OF r] scaling_script_simps(5) na nf] unfolding world_step_def by blast
  show ?thesis
  proof (cases "\<exists>x. c = Body x")
    case True
    then obtain x where x: "c = Body x" ..
    obtain t where t: "x < spawned (threadpool (base s))" "status (threadpool (base s)) x = Busy t"
      using body_end w x by metis
    show ?thesis
    proof (cases "stage s x = Gone")
      case True
      then have "scale_do (Plain (Body x)) s = Some (at_stage x Fresh (s\<lparr>base := w\<rparr>))"
        using w x by (simp add: plain_step_def del: world_do.simps)
      then show ?thesis by blast
    next
      case False
      then obtain s' where "advance x False s = Some s'" by (cases "stage s x") (auto simp: advance_def)
      then have "scale_do (In_Body x False) s = Some s'" using t na by simp
      then show ?thesis by blast
    qed
  next
    case False
    show ?thesis
    proof (cases "c = Client 0 \<and> at_checks s")
      case True
      then show ?thesis using na scale_do.simps(5) by (metis (no_types))
    next
      case no: False
      then have "scale_do (Plain c) s = Some (s\<lparr>base := w\<rparr>)"
        using False w by (cases c) (simp_all add: plain_step_def del: world_do.simps)
      then show ?thesis by blast
    qed
  qed
qed

lemma in_flight_bound:
  assumes r: "scale_reaches c m n s"
  shows "in_flight s \<le> int (max c m)"
proof -
  have ok: "stages_ok s" "counts_ok s" using scale_reaches_ok [OF r] by (simp_all add: scale_ok_def)
  have "card {x. flying (stage s x)} \<le> max c m"
    using stages_finite(3) [OF ok(1)] busy_bound [OF test_reaches_pool [OF scale_base [OF r]]] by (rule order_trans)
  then show ?thesis using ok(2) by (simp add: counts_ok_def)
qed

lemma peak_bound: "scale_reaches c m n s \<Longrightarrow> peak s \<le> int (max c m)"
proof (induction rule: scale_reaches.induct)
  case (scale_new p)
  then show ?case by (simp add: start_scaling_def)
next
  case (scale_next s ch s')
  have "in_flight s' \<le> int (max c m)" by (rule in_flight_bound [OF scale_reaches.scale_next [OF scale_next.hyps]])
  moreover have "peak s' = peak s \<or> peak s' = max (peak s) (in_flight s')"
    using scale_next.hyps(2)
    by (cases rule: scale_doE) (auto simp: advance_def exchange_def split: stage.splits if_splits)
  ultimately show ?case using scale_next.IH by linarith
qed

section \<open>The test\<close>

text \<open>The thread has returned: both checks were made, on the peak.\<close>

lemma scale_finished:
  assumes r: "scale_reaches c m n s" and fin: "finished (clients (base s) ! 0)"
  shows "checks_left s = [] \<and> checks_ok s = list_all (\<lambda>q. q (peak s)) scaling_checks \<and> tasks_started s = int n \<and>
    in_flight s = 0 \<and> max_concurrent s = peak s"
proof -
  have pc: "main_pc s = 2 * n + 2" using fin scaling_world(2) [OF r] by (simp add: finished_def main_pc_def)
  note v = scale_verdict [OF r, unfolded verdict_ok_def]
  have "checks_left s = []" using v pc by simp
  moreover from this v have "checks_ok s = list_all (\<lambda>q. q (peak s)) scaling_checks" by auto
  ultimately show ?thesis using v pc all_landed [OF r] by simp
qed

text \<open>
  C20: The test of scaling up, with its tasks in their atomic operations and its pool in its locked
  sections: whatever the schedule, for any number of tasks and any bounds on the threads, the tasks
  in flight and the maximum that they record are never more than the larger bound, nothing is
  thrown and there is a next step until the test is over; and then every task has run once, none is
  in flight, \<^verbatim>\<open>max_concurrent\<close> is the largest number of tasks that ever were in flight, although the
  workers raise it by a weak exchange that others get ahead of and that may fail for no reason, and the
  verdict is right: the checks pass if and only if that number is at least 3 and at most 8.
\<close>

theorem scaling_test_measures_the_peak:
  assumes "scale_reaches c m n s"
  shows "in_flight s \<le> int (max c m) \<and> max_concurrent s \<le> int (max c m) \<and> \<not> aborted (base s) \<and>
    (if finished (clients (base s) ! 0)
     then tasks_started s = int n \<and> in_flight s = 0 \<and> max_concurrent s = peak s \<and> checks_left s = [] \<and>
       (checks_ok s \<longleftrightarrow> 3 \<le> peak s \<and> peak s \<le> 8)
     else \<exists>ch s'. scale_do ch s = Some s')"
proof -
  have max: "max_concurrent s \<le> peak s" using scale_reaches_ok [OF assms] by (simp add: scale_ok_def peak_ok_def)
  have "tasks_started s = int n \<and> in_flight s = 0 \<and> max_concurrent s = peak s \<and> checks_left s = [] \<and>
      (checks_ok s \<longleftrightarrow> 3 \<le> peak s \<and> peak s \<le> 8)" if "finished (clients (base s) ! 0)"
    using scale_finished [OF assms that] by (simp add: scaling_checks_def)
  then show ?thesis
    using in_flight_bound [OF assms] peak_bound [OF assms] max scale_safe [OF assms] scale_progress [OF assms] by auto
qed

text \<open>
  Runs. Three tasks make the pool of the test grow by one thread; all three bodies are begun before
  one ends, the second worker's exchange comes after the third's and fails, and the third's first
  exchange fails for no reason.
\<close>

definition crowded_run :: "scale_choice list" where
  "crowded_run = replicate 3 (Plain (Client 0)) @ map (\<lambda>x. Plain (Worker (Enter x))) [0, 1, 2] @
     concat (replicate 3 (map (\<lambda>x. In_Body x False) [0, 1, 2])) @
     [In_Body 2 True, In_Body 2 False, In_Body 1 False, In_Body 1 False, In_Body 0 False, In_Body 0 False] @
     map (\<lambda>x. In_Body x False) [0, 1, 2] @ map (\<lambda>x. Plain (Body x)) [2, 1, 0] @ replicate 3 (Plain (Client 0))"

definition closing :: "nat list \<Rightarrow> scale_choice list" where
  "closing xs = [Check_Max, Check_Max, Plain (Client 0), Plain (Worker Swap_Out)] @
     map (\<lambda>x. Plain (Worker (Enter x))) xs @ replicate (Suc (length xs)) (Plain (Worker Join_Next)) @
     [Plain (Client 0), Plain (Client 0)]"

definition scaling_example :: "scaling option" where
  "scaling_example = scale_run (crowded_run @ closing [0, 1, 2])
     (start_scaling (the (ThreadPool 2 8)) (scaling_script 3))"

lemma scaling_example_run:
  "\<not> Option.is_none scaling_example" "finished (clients (base (the scaling_example)) ! 0)" "peak (the scaling_example) = 3"
  by code_simp+

text \<open>Observation: with threads that keep up with the submissions the first check fails.\<close>

definition lonely_run :: "scale_choice list" where
  "lonely_run = concat (replicate 3 ([Plain (Client 0), Plain (Worker (Enter 0))] @ replicate 5 (In_Body 0 False) @
     [Plain (Body 0)])) @ replicate 3 (Plain (Client 0))"

lemma scaling_test_may_fail:
  "map_option (\<lambda>s. (finished (clients (base s) ! 0), peak s, checks_ok s))
     (scale_run (lonely_run @ closing [0, 1]) (start_scaling (the (ThreadPool 2 8)) (scaling_script 3))) =
   Some (True, 1, False)"
  by code_simp

lemma scaling_example_reaches: "scale_reaches 2 8 3 (the scaling_example)"
proof -
  have "\<not> Option.is_none (ThreadPool 2 8)" by code_simp
  then have p: "ThreadPool 2 8 = Some (the (ThreadPool 2 8))" by (rule some_the)
  have "scaling_example = Some (the scaling_example)" by (rule some_the [OF scaling_example_run(1)])
  then show ?thesis unfolding scaling_example_def using scale_run_reaches scale_new [OF p] by blast
qed

theorem scaling_test_measures_the_peak_witness:
  "tasks_started (the scaling_example) = 3 \<and> max_concurrent (the scaling_example) = 3 \<and> checks_ok (the scaling_example)"
  using scaling_test_measures_the_peak [OF scaling_example_reaches] scaling_example_run(2,3) by simp

end
