(* ===== verification/Pool_Suite.thy ===== *)
theory Pool_Suite
  imports Pool_Scaling Pool_Test_Results
begin

text \<open>
  The program \<^verbatim>\<open>thread_pool/main.cpp\<close> as a whole: its fourteen tests one after the other, the counts of
  those that passed and failed, and the result of \<^verbatim>\<open>main\<close>, over all verdicts that the schedules of the
  tests allow.
\<close>

section \<open>The program\<close>

record suite =
  tests_passed :: nat
  tests_failed :: nat

definition ENDTEST :: "bool \<Rightarrow> suite \<Rightarrow> suite" where
  "ENDTEST ok s =
     (if ok then s\<lparr>tests_passed := tests_passed s + 1\<rparr> else s\<lparr>tests_failed := tests_failed s + 1\<rparr>)"

text \<open>
  Three kinds of tests: the programs of \<^theory_text>\<open>Pool_Tests\<close>, the one of \<^theory_text>\<open>Pool_Scaling\<close>, and the one that
  only calls the constructor.
\<close>

datatype test_case = Pool_Program pool_test | Scaling_Program | Zero_Threads

definition suite_tests :: "test_case list" where
  "suite_tests = [Pool_Program test_basic_submit, Pool_Program test_return_value,
     Pool_Program test_exception_propagation, Pool_Program test_priority_order, Pool_Program test_wait_and_stop,
     Pool_Program test_stop_immediately, Scaling_Program, Pool_Program test_dynamic_scale_down,
     Pool_Program test_concurrent_submit, Pool_Program test_submit_after_stop, Zero_Threads,
     Pool_Program test_thread_count_queries, Pool_Program test_fixed_thread_pool, Pool_Program test_destructor_cleanup]"

text \<open>\<^verbatim>\<open>g_test_ok\<close> at the end of a test: what it can be when the test has returned.\<close>

inductive verdict :: "test_case \<Rightarrow> bool \<Rightarrow> bool" where
  of_program: "test_run t w \<Longrightarrow> finished (clients w ! 0) \<Longrightarrow> verdict (Pool_Program t) (test_ok w)"
| of_scaling: "scale_reaches (core_arg test_dynamic_scale_up) (max_arg test_dynamic_scale_up) 100 s \<Longrightarrow>
    finished (clients (base s) ! 0) \<Longrightarrow> verdict Scaling_Program (checks_ok s)"
| of_zero: "verdict Zero_Threads test_zero_threads"

definition suite_counts :: "bool list \<Rightarrow> suite" where
  "suite_counts oks = fold ENDTEST oks \<lparr>tests_passed = 0, tests_failed = 0\<rparr>"

definition suite_result :: "bool list \<Rightarrow> nat" where
  "suite_result oks = (if tests_failed (suite_counts oks) = 0 then 0 else 1)"

inductive_cases verdict_programE: "verdict (Pool_Program t) ok"
inductive_cases verdict_zeroE: "verdict Zero_Threads ok"
inductive_cases verdict_scalingE: "verdict Scaling_Program ok"

section \<open>What it returns\<close>

lemma fold_ENDTEST:
  "tests_passed (fold ENDTEST oks s) = tests_passed s + length (filter id oks)"
  "tests_failed (fold ENDTEST oks s) = tests_failed s + length (filter Not oks)"
  by (induction oks arbitrary: s) (simp_all add: ENDTEST_def)

lemma suite_count_lengths:
  "tests_passed (suite_counts oks) = length (filter id oks)"
  "tests_failed (suite_counts oks) = length (filter Not oks)"
  by (simp_all add: suite_counts_def fold_ENDTEST)

lemma steady_verdict: "verdict (Pool_Program t) ok \<Longrightarrow> t \<in> set steady_tests \<Longrightarrow> ok"
  using basic_submit_passes return_value_passes exception_propagation_passes wait_and_stop_passes
    dynamic_scale_down_passes concurrent_submit_passes submit_after_stop_passes thread_count_queries_passes
    fixed_thread_pool_passes destructor_cleanup_passes
  unfolding steady_tests_def by (auto simp: passes_def elim!: verdict_programE)

lemma steady_members:
  "test_basic_submit \<in> set steady_tests" "test_return_value \<in> set steady_tests"
  "test_exception_propagation \<in> set steady_tests" "test_wait_and_stop \<in> set steady_tests"
  "test_dynamic_scale_down \<in> set steady_tests" "test_concurrent_submit \<in> set steady_tests"
  "test_submit_after_stop \<in> set steady_tests" "test_thread_count_queries \<in> set steady_tests"
  "test_fixed_thread_pool \<in> set steady_tests" "test_destructor_cleanup \<in> set steady_tests"
  by (simp_all add: steady_tests_def)

lemmas steady_verdicts = steady_members [THEN steady_verdict [rotated]]

lemma zero_verdict: "verdict Zero_Threads ok \<Longrightarrow> ok"
  using zero_threads_passes by (auto elim!: verdict_zeroE)

text \<open>
  Only three of the tests depend on how fast the threads are: the test of the priorities, that of
  the immediate stop, and the one of scaling up, whose verdict says whether three tasks were in flight at
  a time. Everything else passes on every schedule, so that these three decide the result.
\<close>

theorem suite_decided_by_three_tests:
  assumes "list_all2 verdict suite_tests oks"
  shows "suite_result oks = (if oks ! 3 \<and> oks ! 5 \<and> oks ! 6 then 0 else 1) \<and>
    tests_passed (suite_counts oks) + tests_failed (suite_counts oks) = 14 \<and> tests_failed (suite_counts oks) \<le> 3"
proof -
  obtain a b c where form: "oks = [True, True, True, a, True, b, c, True, True, True, True, True, True, True]"
    using assms by (auto simp: suite_tests_def list_all2_Cons1 dest!: steady_verdicts zero_verdict)
  show ?thesis unfolding form by (simp add: suite_result_def suite_count_lengths)
qed

lemma scaling_verdict:
  assumes "verdict Scaling_Program ok"
  obtains s where "scale_reaches 2 8 100 s" "ok \<longleftrightarrow> 3 \<le> peak s" "peak s \<le> 8"
proof -
  from assms obtain s where s: "scale_reaches 2 8 100 s" "finished (clients (base s) ! 0)" "ok = checks_ok s"
    by (auto simp: test_dynamic_scale_up_def elim!: verdict_scalingE)
  have "checks_left s = []" and all: "checks_ok s = list_all (\<lambda>q. q (peak s)) scaling_checks"
    using scale_finished [OF s(1,2)] by blast+
  show ?thesis by (rule that [OF s(1)]) (use s(3) all peak_bound [OF s(1)] in \<open>auto simp: scaling_checks_def\<close>)
qed

end
