(* ===== verification/Logger.thy ===== *)
theory Logger
  imports Std_Format
begin

text \<open>
  \<^verbatim>\<open>logger/log_level.h\<close>, \<^verbatim>\<open>logger/log_file.h/.cpp\<close> and \<^verbatim>\<open>logger/logger.h/.cpp\<close>: the lines of the
  log, the file they are appended to, and its rotation by day and by size. The file system is a
  map from paths to contents. What the program reads from its surroundings during one call (the
  clock, which it reads up to four times, and whether the system calls succeed) is an argument.
  Both classes do all their work under a mutex, so their operations are sequential functions.
\<close>

section \<open>Levels\<close>

datatype log_level = DEBUG | INFO | WARN | ERROR | FATAL

fun LogLevelToString :: "log_level \<Rightarrow> string" where
  "LogLevelToString DEBUG = ''DEBUG''"
| "LogLevelToString INFO = ''INFO''"
| "LogLevelToString WARN = ''WARN''"
| "LogLevelToString ERROR = ''ERROR''"
| "LogLevelToString FATAL = ''FATAL''"

section \<open>Surroundings\<close>

text \<open>A broken-down local time, with the milliseconds of the clock.\<close>

record tm =
  tm_year :: int
  tm_mon :: int
  tm_mday :: int
  tm_hour :: int
  tm_min :: int
  tm_sec :: int
  tm_yday :: int
  msec :: int

record disk =
  dirs :: "string set"
  files :: "string \<rightharpoonup> string"

text \<open>
  The four readings of the clock in the order of the code (the day, the name of the current file,
  the time in the archive's name, the name of the new file), the results of \<^verbatim>\<open>create_directories\<close>,
  \<^verbatim>\<open>rename\<close> and \<^verbatim>\<open>fopen\<close>, and the number of bytes that \<^verbatim>\<open>fwrite\<close> and \<^verbatim>\<open>fflush\<close> bring to the file.
\<close>

record env =
  day_time :: tm
  old_time :: tm
  archive_time :: tm
  new_time :: tm
  mkdir_ok :: bool
  rename_ok :: bool
  open_ok :: bool
  taken :: nat

datatype log_error = Cannot_Create string | Cannot_Open string

section \<open>Names of files\<close>

text \<open>\<^verbatim>\<open>%0wd\<close> of an integer, \<^verbatim>\<open>std::string::rfind\<close> and \<^verbatim>\<open>strrchr\<close> of a character.\<close>

definition pad_int :: "nat \<Rightarrow> int \<Rightarrow> string" where
  "pad_int w i = (if i < 0 then CHR ''-'' # zero_pad (w - 1) (nat (- i)) else zero_pad w (nat i))"

fun rfind :: "char \<Rightarrow> string \<Rightarrow> nat option" where
  "rfind c [] = None"
| "rfind c (x # xs) =
     (case rfind c xs of Some i \<Rightarrow> Some (Suc i) | None \<Rightarrow> if x = c then Some 0 else None)"

definition date_suffix :: "tm \<Rightarrow> string" where
  "date_suffix t = snprintf 32 (pad_int 4 (tm_year t + 1900) @ pad_int 2 (tm_mon t + 1) @ pad_int 2 (tm_mday t))"

definition MakeFileName :: "tm \<Rightarrow> string \<Rightarrow> string" where
  "MakeFileName t base_name =
     (case rfind CHR ''.'' base_name of
        Some dot_pos \<Rightarrow> take dot_pos base_name @ ''_'' @ date_suffix t @ drop dot_pos base_name
      | None \<Rightarrow> base_name @ ''_'' @ date_suffix t)"

definition archive_path :: "tm \<Rightarrow> string \<Rightarrow> string" where
  "archive_path t old_path =
     (let ts = snprintf 32 (pad_int 2 (tm_hour t) @ pad_int 2 (tm_min t) @ pad_int 2 (tm_sec t))
      in case rfind CHR ''.'' old_path of
           Some dot_pos \<Rightarrow> take dot_pos old_path @ ''_'' @ ts @ drop dot_pos old_path
         | None \<Rightarrow> old_path @ ''_'' @ ts)"

section \<open>LogFile\<close>

text \<open>
  \<^term>\<open>stream\<close> is the open file, with its position: a stream opened for appending starts at the
  end of the file and every write goes to its end.
\<close>

record log_file =
  stream :: "(string \<times> nat) option"
  dir :: string
  base_name :: string
  max_size :: usize
  current_day :: int

definition log_path :: "tm \<Rightarrow> log_file \<Rightarrow> string" where
  "log_path t f = dir f @ ''/'' @ MakeFileName t (base_name f)"

definition content :: "disk \<Rightarrow> string \<Rightarrow> string" where
  "content d p = (case files d p of None \<Rightarrow> '''' | Some c \<Rightarrow> c)"

definition make_dirs :: "env \<Rightarrow> string \<Rightarrow> disk \<Rightarrow> disk" where
  "make_dirs e p d = (if p \<in> dirs d \<or> \<not> mkdir_ok e then d else d\<lparr>dirs := insert p (dirs d)\<rparr>)"

definition OpenFileLocked :: "env \<Rightarrow> log_file \<times> disk \<Rightarrow> log_error option \<times> log_file \<times> disk" where
  "OpenFileLocked e fd =
     (case fd of (f, d) \<Rightarrow>
        let d = make_dirs e (dir f) d; file_path = log_path (new_time e) f
        in if open_ok e \<and> dir f \<in> dirs d
           then (None, f\<lparr>stream := Some (file_path, length (content d file_path))\<rparr>,
                 d\<lparr>files := (files d)(file_path \<mapsto> content d file_path)\<rparr>)
           else (Some (Cannot_Open file_path), f\<lparr>stream := None\<rparr>, d))"

definition CloseFileLocked :: "log_file \<Rightarrow> log_file" where
  "CloseFileLocked f = f\<lparr>stream := None\<rparr>"

definition RotateFileLocked :: "env \<Rightarrow> log_file \<times> disk \<Rightarrow> log_file \<times> disk" where
  "RotateFileLocked e fd =
     (case fd of (f, d) \<Rightarrow>
        if stream f = None then (f, d)
        else
          let old_path = log_path (old_time e) f; f = f\<lparr>stream := None\<rparr>
          in case files d old_path of
               None \<Rightarrow> (f, d)
             | Some c \<Rightarrow>
                 if rename_ok e
                 then (f, d\<lparr>files := (files d)(old_path := None, archive_path (archive_time e) old_path \<mapsto> c)\<rparr>)
                 else (f, d))"

text \<open>\<^verbatim>\<open>static_cast<long>\<close> of the size reads it as a signed number.\<close>

definition over_size :: "log_file \<Rightarrow> bool" where
  "over_size f = (case stream f of None \<Rightarrow> False | Some (p, pos) \<Rightarrow> int pos \<ge> sint (max_size f))"

definition CheckRotate :: "env \<Rightarrow> log_file \<times> disk \<Rightarrow> log_error option \<times> log_file \<times> disk" where
  "CheckRotate e fd =
     (let today = tm_yday (day_time e); f = fst fd;
          need_rotate = (current_day f \<noteq> -1 \<and> current_day f \<noteq> today) \<or> over_size f
      in if need_rotate
         then case RotateFileLocked e fd of (f, d) \<Rightarrow> OpenFileLocked e (f\<lparr>current_day := today\<rparr>, d)
         else (None, fd))"

definition Write :: "env \<Rightarrow> string \<Rightarrow> log_file \<times> disk \<Rightarrow> log_file \<times> disk" where
  "Write e msg fd =
     (case fd of (f, d) \<Rightarrow>
        case stream f of
          None \<Rightarrow> (f, d)
        | Some (p, pos) \<Rightarrow>
            let c = content d p @ take (taken e) msg
            in (f\<lparr>stream := Some (p, length c)\<rparr>, d\<lparr>files := (files d)(p \<mapsto> c)\<rparr>))"

text \<open>The constructor; with an exception there is no object.\<close>

definition LogFile :: "env \<Rightarrow> string \<Rightarrow> string \<Rightarrow> usize \<Rightarrow> disk \<Rightarrow> (log_error + log_file) \<times> disk" where
  "LogFile e d b m fs =
     (if d \<notin> dirs fs \<and> \<not> mkdir_ok e then (Inl (Cannot_Create d), fs)
      else
        let f = \<lparr>stream = None, dir = d, base_name = b, max_size = m, current_day = tm_yday (day_time e)\<rparr>
        in case OpenFileLocked e (f, make_dirs e d fs) of
             (None, f, fs) \<Rightarrow> (Inr f, fs)
           | (Some err, f, fs) \<Rightarrow> (Inl err, fs))"

text \<open>
  Moving: the new object and what is left of the other one. The strings moved from keep some
  unspecified value, here the arguments \<open>x\<close> and \<open>y\<close>.
\<close>

definition move_construct :: "string \<Rightarrow> string \<Rightarrow> log_file \<Rightarrow> log_file \<times> log_file" where
  "move_construct x y other =
     (other, other\<lparr>stream := None, dir := x, base_name := y, current_day := -1\<rparr>)"

definition move_assign :: "string \<Rightarrow> string \<Rightarrow> log_file \<Rightarrow> log_file \<Rightarrow> log_file \<times> log_file" where
  "move_assign x y this other =
     (let this = CloseFileLocked this
      in (this\<lparr>stream := stream other, dir := dir other, base_name := base_name other,
            max_size := max_size other, current_day := current_day other\<rparr>,
          other\<lparr>stream := None, dir := x, base_name := y, current_day := -1\<rparr>))"

section \<open>Logger\<close>

record logger =
  initialized :: bool
  log_sink :: "log_file option"

definition new_logger :: logger where
  "new_logger = \<lparr>initialized = False, log_sink = None\<rparr>"

text \<open>\<^verbatim>\<open>make_unique\<close> opens the new file before the assignment closes the old one.\<close>

definition Init :: "env \<Rightarrow> string \<Rightarrow> string \<Rightarrow> usize \<Rightarrow> logger \<times> disk \<Rightarrow> log_error option \<times> logger \<times> disk" where
  "Init e d b m ld =
     (case LogFile e d b m (snd ld) of
        (Inl err, fs) \<Rightarrow> (Some err, fst ld, fs)
      | (Inr f, fs) \<Rightarrow> (None, \<lparr>initialized = True, log_sink = Some f\<rparr>, fs))"

definition GetTimestamp :: "tm \<Rightarrow> string" where
  "GetTimestamp t = snprintf 64
     (pad_int 4 (tm_year t + 1900) @ ''-'' @ pad_int 2 (tm_mon t + 1) @ ''-'' @ pad_int 2 (tm_mday t) @ '' '' @
      pad_int 2 (tm_hour t) @ '':'' @ pad_int 2 (tm_min t) @ '':'' @ pad_int 2 (tm_sec t) @ ''.'' @ pad_int 3 (msec t))"

definition file_name :: "string \<Rightarrow> string" where
  "file_name file =
     (let last_slash = rfind CHR ''/'' file; last_bslash = rfind CHR 0x5C file;
          filename = (case last_slash of None \<Rightarrow> file | Some i \<Rightarrow> drop (i + 1) file)
      in case last_bslash of
           None \<Rightarrow> filename
         | Some j \<Rightarrow> if (case last_slash of None \<Rightarrow> True | Some i \<Rightarrow> i < j) then drop (j + 1) file else filename)"

text \<open>The text of a line before it is cut to the buffer, and the line.\<close>

definition log_text :: "tm \<Rightarrow> log_level \<Rightarrow> string \<Rightarrow> int \<Rightarrow> string \<Rightarrow> string" where
  "log_text t level file line msg =
     ''['' @ GetTimestamp t @ ''] ['' @ left_justify 5 (LogLevelToString level) @ ''] ['' @
     file_name file @ '':'' @ dec_int line @ ''] '' @ c_str msg @ [CHR 0x0A]"

definition MakeLogLine :: "tm \<Rightarrow> log_level \<Rightarrow> string \<Rightarrow> int \<Rightarrow> string \<Rightarrow> string" where
  "MakeLogLine t level file line msg =
     (if int (length (log_text t level file line msg)) > 2147483647 then ''''
      else snprintf 4096 (log_text t level file line msg))"

datatype log_outcome = Returned | Threw log_error | Aborted

text \<open>\<^verbatim>\<open>Logger::Log\<close>: the message is \<^term>\<open>None\<close> when formatting it fails; \<open>t\<close> is the time of the line.\<close>

definition Log ::
  "env \<Rightarrow> tm \<Rightarrow> log_level \<Rightarrow> string \<Rightarrow> int \<Rightarrow> string option \<Rightarrow> logger \<times> disk \<Rightarrow> log_outcome \<times> logger \<times> disk" where
  "Log e t level file line msg ld =
     (case (log_sink (fst ld), msg) of
        (Some f, Some text) \<Rightarrow>
          if \<not> initialized (fst ld) then (Returned, ld)
          else
            let log_line = MakeLogLine t level file line (c_str text)
            in (case CheckRotate e (f, snd ld) of
                  (Some err, f, d) \<Rightarrow> (Threw err, (fst ld)\<lparr>log_sink := Some f\<rparr>, d)
                | (None, f, d) \<Rightarrow>
                    (case Write e log_line (f, d) of
                       (f, d) \<Rightarrow> (if level = FATAL then Aborted else Returned, (fst ld)\<lparr>log_sink := Some f\<rparr>, d)))
      | _ \<Rightarrow> (Returned, ld))"

section \<open>Lines\<close>

lemma rfind_Some: "rfind c s = Some i \<Longrightarrow> i < length s \<and> s ! i = c \<and> c \<notin> set (drop (i + 1) s)"
proof (induction s arbitrary: i)
  case (Cons x xs)
  show ?case
  proof (cases "rfind c xs")
    case None
    then have "c \<notin> set xs" by (induction xs) (auto split: option.splits if_splits)
    then show ?thesis using Cons.prems None by (auto split: if_splits)
  qed (use Cons in auto)
qed simp

lemma rfind_None: "rfind c s = None \<longleftrightarrow> c \<notin> set s"
  by (induction s) (auto split: option.splits)

lemma set_drop_mono: "i \<le> j \<Longrightarrow> set (drop j s) \<subseteq> set (drop i s)"
  by (rule set_drop_subset_set_drop)

text \<open>What is left of a path has no separator of either kind any more.\<close>

lemma file_name_plain: "CHR ''/'' \<notin> set (file_name s) \<and> CHR 0x5C \<notin> set (file_name s)"
proof (cases "rfind CHR ''/'' s")
  case None
  then show ?thesis
    using rfind_Some [of "CHR 0x5C" s] rfind_None [of "CHR 0x5C" s] rfind_None [of "CHR ''/''" s]
    by (auto simp: file_name_def split: option.split dest: in_set_dropD)
next
  case (Some i)
  note slash = rfind_Some [OF Some]
  show ?thesis
  proof (cases "rfind CHR 0x5C s")
    case None
    then have "file_name s = drop (i + 1) s" using Some by (simp add: file_name_def)
    then show ?thesis using slash None by (auto simp: rfind_None dest: in_set_dropD)
  next
    case (Some j)
    note bslash = rfind_Some [OF Some]
    show ?thesis
      using \<open>rfind CHR ''/'' s = Some i\<close> Some slash bslash set_drop_mono [of "i + 1" "j + 1" s]
        set_drop_mono [of "j + 1" "i + 1" s]
      by (auto simp: file_name_def)
  qed
qed

lemma file_name_drop: "\<exists>k. file_name s = drop k s"
proof -
  have "\<exists>k. s = drop k s" by (rule exI [of _ 0]) simp
  then show ?thesis unfolding file_name_def Let_def by (simp split: option.split) blast
qed

lemma file_name_suffix: "\<exists>path. s = path @ file_name s"
  using file_name_drop [of s] append_take_drop_id by metis

lemma MakeLogLine_short:
  "length (log_text t level file line msg) < 4096 \<Longrightarrow>
    MakeLogLine t level file line msg = log_text t level file line msg"
  by (simp add: MakeLogLine_def snprintf_id)

lemma length_MakeLogLine: "length (MakeLogLine t level file line msg) \<le> 4095"
  by (simp add: MakeLogLine_def snprintf_def)

section \<open>Nothing written is lost\<close>

text \<open>Every content that was in some file still begins the content of some file.\<close>

definition kept :: "disk \<Rightarrow> disk \<Rightarrow> bool" where
  "kept d d' \<longleftrightarrow> (\<forall>p c. files d p = Some c \<longrightarrow> (\<exists>q r. files d' q = Some (c @ r)))"

definition disk_size :: "disk \<Rightarrow> nat" where
  "disk_size d = (\<Sum>p \<in> dom (files d). length (content d p))"

definition archive_free :: "env \<Rightarrow> log_file \<Rightarrow> disk \<Rightarrow> bool" where
  "archive_free e f d \<longleftrightarrow> files d (archive_path (archive_time e) (log_path (old_time e) f)) = None"

lemma kept_refl [simp]: "kept d d"
  unfolding kept_def by (metis append_Nil2)

lemma kept_trans:
  assumes "kept a b" "kept b c"
  shows "kept a c"
  unfolding kept_def
proof (intro allI impI)
  fix p x assume "files a p = Some x"
  then obtain q r where "files b q = Some (x @ r)" using assms(1) unfolding kept_def by blast
  then obtain q' r' where "files c q' = Some ((x @ r) @ r')" using assms(2) unfolding kept_def by blast
  then show "\<exists>q r. files c q = Some (x @ r)" by auto
qed

lemma archive_longer: "length p < length (archive_path t p)"
  by (auto simp: archive_path_def Let_def split: option.split dest: rfind_Some)

lemma archive_not_old [simp]: "archive_path t p \<noteq> p" "p \<noteq> archive_path t p"
  using archive_longer [of p t] by auto

text \<open>Appending to a file, and moving one to a free name.\<close>

lemma append_to_file:
  assumes "finite (dom (files d))" "files d' = (files d)(p \<mapsto> content d p @ s)"
  shows "kept d d'" "finite (dom (files d'))" "disk_size d' = disk_size d + length s"
proof -
  show "kept d d'"
    unfolding kept_def
  proof (intro allI impI)
    fix q c assume q: "files d q = Some c"
    show "\<exists>q r. files d' q = Some (c @ r)"
    proof (cases "q = p")
      case True
      then show ?thesis using q assms(2) by (auto simp: content_def)
    next
      case False
      then have "files d' q = Some (c @ [])" using q assms(2) by simp
      then show ?thesis by blast
    qed
  qed
  show "finite (dom (files d'))" using assms by simp
  have "disk_size d' = (\<Sum>q \<in> insert p (dom (files d)). length (content d' q))"
    using assms(2) by (simp add: disk_size_def)
  also have "\<dots> = length (content d' p) + (\<Sum>q \<in> dom (files d) - {p}. length (content d' q))"
    using assms(1) by (rule sum.insert_remove)
  also have "(\<Sum>q \<in> dom (files d) - {p}. length (content d' q)) = (\<Sum>q \<in> dom (files d) - {p}. length (content d q))"
    by (rule sum.cong) (auto simp: assms(2) content_def)
  also have "length (content d' p) = length (content d p) + length s" by (simp add: assms(2) content_def)
  also have "length (content d p) + length s + (\<Sum>q \<in> dom (files d) - {p}. length (content d q)) = disk_size d + length s"
  proof (cases "p \<in> dom (files d)")
    case True
    then show ?thesis using sum.remove [OF assms(1) True, of "\<lambda>q. length (content d q)"] by (simp add: disk_size_def)
  qed (auto simp: disk_size_def content_def domIff split: option.split)
  finally show "disk_size d' = disk_size d + length s" .
qed

lemma move_file:
  assumes fin: "finite (dom (files d))" and c: "files d p = Some c" and free: "files d q = None"
    and d': "files d' = (files d)(p := None, q \<mapsto> c)"
  shows "kept d d'" "finite (dom (files d'))" "disk_size d' = disk_size d"
proof -
  show "kept d d'"
    unfolding kept_def
  proof (intro allI impI)
    fix x y assume x: "files d x = Some y"
    show "\<exists>q r. files d' q = Some (y @ r)"
    proof (cases "x = p")
      case True
      then have "files d' q = Some (y @ [])" using x c by (simp add: d')
      then show ?thesis by blast
    next
      case False
      then have "files d' x = Some (y @ [])" using x free by (auto simp: d')
      then show ?thesis by blast
    qed
  qed
  show "finite (dom (files d'))" using fin by (simp add: d')
  have pq: "p \<noteq> q" "p \<in> dom (files d)" "q \<notin> dom (files d)" using c free by auto
  then have dom: "dom (files d') = insert q (dom (files d) - {p})" by (auto simp: d')
  have "disk_size d' = length (content d' q) + (\<Sum>x \<in> dom (files d) - {p}. length (content d' x))"
    unfolding disk_size_def dom using fin pq by simp
  also have "(\<Sum>x \<in> dom (files d) - {p}. length (content d' x)) = (\<Sum>x \<in> dom (files d) - {p}. length (content d x))"
    using pq by (intro sum.cong) (auto simp: d' content_def)
  also have "content d' q = content d p" using c by (simp add: d' content_def)
  also have "length (content d p) + (\<Sum>x \<in> dom (files d) - {p}. length (content d x)) = disk_size d"
    using sum.remove [OF fin pq(2), of "\<lambda>q. length (content d q)"] by (simp add: disk_size_def)
  finally show "disk_size d' = disk_size d" .
qed

text \<open>The files keep what they have and get \<open>n\<close> bytes more.\<close>

definition grows :: "disk \<Rightarrow> disk \<Rightarrow> nat \<Rightarrow> bool" where
  "grows d d' n \<longleftrightarrow> kept d d' \<and> finite (dom (files d')) \<and> disk_size d' = disk_size d + n"

lemma grows_refl: "finite (dom (files d)) \<Longrightarrow> grows d d 0"
  by (simp add: grows_def)

lemma grows_trans: "grows a b m \<Longrightarrow> grows b c n \<Longrightarrow> grows a c (m + n)"
  using kept_trans by (auto simp: grows_def)

lemma grows_append:
  "finite (dom (files d)) \<Longrightarrow> files d' = (files d)(p \<mapsto> content d p @ s) \<Longrightarrow> grows d d' (length s)"
  using append_to_file by (simp add: grows_def)

lemma files_make_dirs [simp]: "files (make_dirs e p d) = files d" "content (make_dirs e p d) = content d"
  by (auto simp: make_dirs_def content_def)

lemma open_grows:
  assumes "finite (dom (files d))" "OpenFileLocked e (f, d) = (err, f', d')"
  shows "grows d d' 0"
proof (cases err)
  case None
  then have "files d' = (files d)(log_path (new_time e) f \<mapsto> content d (log_path (new_time e) f) @ [])"
    using assms(2) by (auto simp: OpenFileLocked_def Let_def split: if_splits)
  then show ?thesis using grows_append [OF assms(1)] by fastforce
next
  case (Some x)
  then have "files d' = files d" using assms(2) by (auto simp: OpenFileLocked_def Let_def split: if_splits)
  then show ?thesis using grows_refl [OF assms(1)] unfolding grows_def kept_def disk_size_def content_def by simp
qed

lemma rotate_grows:
  assumes fin: "finite (dom (files d))" and free: "archive_free e f d" and r: "RotateFileLocked e (f, d) = (f', d')"
  shows "grows d d' 0"
proof -
  have cases: "d' = d \<or> (\<exists>c. files d (log_path (old_time e) f) = Some c \<and>
      files d' = (files d)(log_path (old_time e) f := None, archive_path (archive_time e) (log_path (old_time e) f) \<mapsto> c))"
    using r by (auto simp: RotateFileLocked_def Let_def split: if_splits option.splits)
  then show ?thesis
  proof
    assume "d' = d"
    then show ?thesis using grows_refl [OF fin] by simp
  next
    assume "\<exists>c. files d (log_path (old_time e) f) = Some c \<and>
      files d' = (files d)(log_path (old_time e) f := None, archive_path (archive_time e) (log_path (old_time e) f) \<mapsto> c)"
    then obtain c where c: "files d (log_path (old_time e) f) = Some c"
      "files d' = (files d)(log_path (old_time e) f := None, archive_path (archive_time e) (log_path (old_time e) f) \<mapsto> c)"
      by blast
    show ?thesis
      using move_file [OF fin c(1) _ c(2)] free by (simp add: grows_def archive_free_def)
  qed
qed

lemma check_grows:
  assumes fin: "finite (dom (files d))" and free: "archive_free e f d" and c: "CheckRotate e (f, d) = (err, f', d')"
  shows "grows d d' 0"
proof (cases "(current_day f \<noteq> -1 \<and> current_day f \<noteq> tm_yday (day_time e)) \<or> over_size f")
  case False
  then show ?thesis using c grows_refl [OF fin] by (auto simp: CheckRotate_def Let_def)
next
  case True
  obtain f1 d1 where r: "RotateFileLocked e (f, d) = (f1, d1)" by (cases "RotateFileLocked e (f, d)")
  have g: "grows d d1 0" by (rule rotate_grows [OF fin free r])
  then have "finite (dom (files d1))" by (simp add: grows_def)
  then have "grows d1 d' 0"
    using open_grows c True r by (auto simp: CheckRotate_def Let_def)
  then show ?thesis using grows_trans [OF g] by simp
qed

text \<open>After the check a file is open, unless it could not be opened again or none was open before.\<close>

lemma check_opens:
  assumes "CheckRotate e (f, d) = (None, f', d')" "stream f \<noteq> None"
  shows "stream f' \<noteq> None"
  using assms by (auto simp: CheckRotate_def RotateFileLocked_def OpenFileLocked_def Let_def
      split: if_splits option.splits prod.splits)

lemma Log_Returned:
  assumes "Log e t level file line (Some text) (lg, d) = (out, lg', d')" "initialized lg"
    "log_sink lg = Some f" "stream f \<noteq> None" "\<forall>err. out \<noteq> Threw err"
  obtains f1 d1 p pos where "CheckRotate e (f, d) = (None, f1, d1)" "stream f1 = Some (p, pos)"
    "d' = d1\<lparr>files := (files d1)(p \<mapsto> content d1 p @ take (taken e) (MakeLogLine t level file line (c_str text)))\<rparr>"
    "initialized lg'" "log_sink lg' =
      Some (f1\<lparr>stream := Some (p, length (content d1 p @ take (taken e) (MakeLogLine t level file line (c_str text))))\<rparr>)"
proof -
  obtain err f1 d1 where c: "CheckRotate e (f, d) = (err, f1, d1)" by (cases "CheckRotate e (f, d)") auto
  have "err = None" using assms c by (auto simp: Log_def split: option.splits)
  moreover obtain p pos where "stream f1 = Some (p, pos)" using check_opens assms(4) c calculation by fastforce
  ultimately show thesis
    using that [of f1 d1 p pos] assms c by (auto simp: Log_def Write_def Let_def)
qed

lemma Log_keeps:
  assumes "Log e t level file line (Some text) (lg, d) = (out, lg', d')" "initialized lg"
    "log_sink lg = Some f" "stream f \<noteq> None" "\<forall>err. out \<noteq> Threw err" "archive_free e f d"
    "finite (dom (files d))" "length (MakeLogLine t level file line (c_str text)) \<le> taken e"
  shows "grows d d' (length (MakeLogLine t level file line (c_str text)))"
    and "\<exists>p c. files d' p = Some (c @ MakeLogLine t level file line (c_str text))"
    and "\<exists>f'. initialized lg' \<and> log_sink lg' = Some f' \<and> stream f' \<noteq> None"
proof -
  obtain f1 d1 p pos where c: "CheckRotate e (f, d) = (None, f1, d1)" "stream f1 = Some (p, pos)"
    and d': "d' = d1\<lparr>files := (files d1)(p \<mapsto> content d1 p @ take (taken e) (MakeLogLine t level file line (c_str text)))\<rparr>"
    and lg: "initialized lg'" "\<exists>f'. log_sink lg' = Some f' \<and> stream f' \<noteq> None"
    by (rule Log_Returned [OF assms(1-5)]) auto
  have g: "grows d d1 0" by (rule check_grows [OF assms(7,6) c(1)])
  then have fin: "finite (dom (files d1))" by (simp add: grows_def)
  have files: "files d' = (files d1)(p \<mapsto> content d1 p @ MakeLogLine t level file line (c_str text))"
    using assms(8) by (simp add: d')
  show "grows d d' (length (MakeLogLine t level file line (c_str text)))"
    using grows_trans [OF g grows_append [OF fin files]] by simp
  show "\<exists>p c. files d' p = Some (c @ MakeLogLine t level file line (c_str text))" using files by auto
  show "\<exists>f'. initialized lg' \<and> log_sink lg' = Some f' \<and> stream f' \<noteq> None" using lg by blast
qed

section \<open>Properties\<close>

text \<open>A run of calls that return, none of which finds the name of its archive taken.\<close>

inductive logging :: "logger \<times> disk \<Rightarrow> string list \<Rightarrow> logger \<times> disk \<Rightarrow> bool" where
  no_call: "logging s [] s"
| log_call: "logging s ls (lg, d) \<Longrightarrow> log_sink lg = Some f \<Longrightarrow> archive_free e f d \<Longrightarrow>
    length (MakeLogLine t level file line (c_str text)) \<le> taken e \<Longrightarrow>
    Log e t level file line (Some text) (lg, d) = (Returned, s') \<Longrightarrow>
    logging s (ls @ [MakeLogLine t level file line (c_str text)]) s'"

lemma occurs_append: "occurs p x \<Longrightarrow> occurs p (x @ y)"
  unfolding occurs_iff by (metis append.assoc)

lemma kept_occurs:
  assumes "kept d d'" "files d p = Some c" "occurs l c"
  shows "\<exists>q c. files d' q = Some c \<and> occurs l c"
proof -
  obtain q r where "files d' q = Some (c @ r)" using assms(1,2) unfolding kept_def by blast
  then show ?thesis using occurs_append [OF assms(3)] by blast
qed

lemma logging_grows:
  assumes "logging s ls s'"
  shows "initialized (fst s) \<Longrightarrow> log_sink (fst s) = Some f \<Longrightarrow> stream f \<noteq> None \<Longrightarrow> finite (dom (files (snd s))) \<Longrightarrow>
    grows (snd s) (snd s') (length (concat ls)) \<and> (\<forall>l \<in> set ls. \<exists>p c. files (snd s') p = Some c \<and> occurs l c) \<and>
    (\<exists>f. initialized (fst s') \<and> log_sink (fst s') = Some f \<and> stream f \<noteq> None)"
  using assms
proof induction
  case (no_call s)
  then show ?case using grows_refl by auto
next
  case (log_call s ls lg d f' e t level fn line msg s')
  obtain lg' d' where s': "s' = (lg', d')" by (cases s')
  let ?l = "MakeLogLine t level fn line (c_str msg)"
  have ih: "grows (snd s) d (length (concat ls))" "\<forall>l \<in> set ls. \<exists>p c. files d p = Some c \<and> occurs l c"
    "initialized lg" "stream f' \<noteq> None"
    using log_call.IH [OF log_call.prems] log_call.hyps(2) by auto
  have fin: "finite (dom (files d))" using ih(1) by (simp add: grows_def)
  have ret: "\<forall>err. Returned \<noteq> Threw err" by simp
  note keeps = Log_keeps [OF log_call.hyps(5) [unfolded s'] ih(3) log_call.hyps(2) ih(4) ret log_call.hyps(3) fin log_call.hyps(4)]
  have "grows (snd s) d' (length (concat (ls @ [?l])))" using grows_trans [OF ih(1) keeps(1)] by simp
  moreover have "\<exists>p c. files d' p = Some c \<and> occurs l c" if l: "l \<in> set (ls @ [?l])" for l
  proof (cases "l \<in> set ls")
    case True
    then obtain p c where "files d p = Some c" "occurs l c" using ih(2) by blast
    moreover have "kept d d'" using keeps(1) by (simp add: grows_def)
    ultimately show ?thesis using kept_occurs by blast
  next
    case False
    then have "l = ?l" using l by simp
    moreover obtain p c where "files d' p = Some (c @ ?l)" using keeps(2) by blast
    moreover have "occurs ?l (c @ ?l)" unfolding occurs_iff by (metis append_Nil2)
    ultimately show ?thesis by blast
  qed
  ultimately show ?case using keeps(3) by (simp add: s')
qed


text \<open>
  The limit on the size holds up to one line. During a day, when renaming works, a call of
  \<^verbatim>\<open>Log\<close> on a log whose limit is a number below 2 to the 63 leaves a current file of at most the
  limit and one line of 4095 bytes, however large it was before.\<close>

theorem log_file_stays_small:
  assumes "Log e t level file line (Some text) (lg, d) = (out, lg', d')" "initialized lg"
    "log_sink lg = Some f" "stream f = Some (p, length (content d p))" "\<forall>err. out \<noteq> Threw err"
    "log_path (old_time e) f = p" "log_path (new_time e) f = p" "rename_ok e" "files d p \<noteq> None"
    "current_day f = tm_yday (day_time e)" "0 \<le> sint (max_size f)"
  shows "\<exists>f'. log_sink lg' = Some f' \<and> stream f' = Some (p, length (content d' p)) \<and>
    int (length (content d' p)) \<le> sint (max_size f) + 4095"
proof -
  let ?l = "take (taken e) (MakeLogLine t level file line (c_str text))"
  have open': "stream f \<noteq> None" using assms(4) by simp
  obtain f1 d1 q pos where c: "CheckRotate e (f, d) = (None, f1, d1)" "stream f1 = Some (q, pos)"
    and d': "d' = d1\<lparr>files := (files d1)(q \<mapsto> content d1 q @ ?l)\<rparr>"
    and lg': "log_sink lg' = Some (f1\<lparr>stream := Some (q, length (content d1 q @ ?l))\<rparr>)"
    by (rule Log_Returned [OF assms(1-3) open' assms(5)])
  have "q = p \<and> int (length (content d1 p)) \<le> sint (max_size f)"
  proof (cases "over_size f")
    case False
    then show ?thesis
      using c assms(4,10) by (auto simp: CheckRotate_def over_size_def Let_def)
  next
    case True
    obtain c0 where c0: "files d p = Some c0" using assms(9) by blast
    define d0 where "d0 = d\<lparr>files := (files d)(p := None, archive_path (archive_time e) p \<mapsto> c0)\<rparr>"
    have r: "RotateFileLocked e (f, d) = (f\<lparr>stream := None\<rparr>, d0)"
      using assms(4,6,8) c0 by (simp add: RotateFileLocked_def Let_def log_path_def d0_def)
    have "OpenFileLocked e (f\<lparr>stream := None, current_day := tm_yday (day_time e)\<rparr>, d0) = (None, f1, d1)"
      using c(1) True r by (simp add: CheckRotate_def Let_def)
    moreover have "log_path (new_time e) (f\<lparr>stream := None, current_day := tm_yday (day_time e)\<rparr>) = p"
      using assms(7) by (simp add: log_path_def)
    moreover have "content d0 p = []" by (simp add: content_def d0_def)
    ultimately have "stream f1 = Some (p, 0)" "content d1 p = []"
      by (auto simp: OpenFileLocked_def Let_def content_def split: if_splits)
    then show ?thesis using c(2) assms(11) by simp
  qed
  moreover have "content d' q = content d1 q @ ?l" by (simp add: d' content_def)
  moreover have "length ?l \<le> 4095" by (simp add: length_MakeLogLine le_trans [OF min.cobounded1])
  ultimately show ?thesis using lg' by auto
qed

section \<open>Runs\<close>

text \<open>A log with a limit of ten bytes, on the evening of a day in June.\<close>

definition demo_tm :: "int \<Rightarrow> tm" where
  "demo_tm s = \<lparr>tm_year = 126, tm_mon = 5, tm_mday = 8, tm_hour = 20, tm_min = 29, tm_sec = s, tm_yday = 158, msec = 7\<rparr>"

definition demo_env :: "int \<Rightarrow> env" where
  "demo_env s = \<lparr>day_time = demo_tm s, old_time = demo_tm s, archive_time = demo_tm s, new_time = demo_tm s,
     mkdir_ok = True, rename_ok = True, open_ok = True, taken = 100\<rparr>"

definition demo_path :: string where
  "demo_path = ''logs/app_20260608.log''"

definition demo_file :: "nat \<Rightarrow> log_file" where
  "demo_file n = \<lparr>stream = Some (demo_path, n), dir = ''logs'', base_name = ''app.log'', max_size = 10, current_day = 158\<rparr>"

definition demo_logger :: "nat \<Rightarrow> logger" where
  "demo_logger n = \<lparr>initialized = True, log_sink = Some (demo_file n)\<rparr>"

definition demo_line :: "int \<Rightarrow> string \<Rightarrow> string" where
  "demo_line s msg = MakeLogLine (demo_tm s) INFO ''src/a.cpp'' 7 (c_str msg)"

definition demo_log :: "int \<Rightarrow> string \<Rightarrow> logger \<times> disk \<Rightarrow> log_outcome \<times> logger \<times> disk" where
  "demo_log s msg = Log (demo_env s) (demo_tm s) INFO ''src/a.cpp'' 7 (Some msg)"

definition demo_disk :: "(string \<rightharpoonup> string) \<Rightarrow> disk" where
  "demo_disk fs = \<lparr>dirs = {''logs''}, files = fs\<rparr>"

lemma digits:
  "digit_char 0 = CHR ''0''" "digit_char (Suc 0) = CHR ''1''" "digit_char 2 = CHR ''2''" "digit_char 5 = CHR ''5''"
  "digit_char 6 = CHR ''6''" "digit_char 7 = CHR ''7''" "digit_char 8 = CHR ''8''" "digit_char 9 = CHR ''9''"
  by code_simp+

lemma demo_stamps:
  "GetTimestamp (demo_tm 1) = ''2026-06-08 20:29:01.007''" "GetTimestamp (demo_tm 2) = ''2026-06-08 20:29:02.007''"
  by (simp_all add: GetTimestamp_def demo_tm_def pad_int_def zero_pad_def dec.simps digits snprintf_def)
    (simp_all add: numeral_2_eq_2)

lemma demo_text:
  "log_text (demo_tm s) INFO ''src/a.cpp'' 7 (c_str msg) =
     ''['' @ GetTimestamp (demo_tm s) @ ''] [INFO ] [a.cpp:7] '' @ c_str (c_str msg) @ [CHR 0x0A]"
proof -
  have "left_justify 5 ''INFO'' = ''INFO ''" "file_name ''src/a.cpp'' = ''a.cpp''" "dec_int 7 = ''7''" by code_simp+
  then show ?thesis by (simp add: log_text_def)
qed

lemma demo_line_text:
  "demo_line 1 ''one'' = ''[2026-06-08 20:29:01.007] [INFO ] [a.cpp:7] one'' @ [CHR 0x0A]"
  "demo_line 2 ''two'' = ''[2026-06-08 20:29:02.007] [INFO ] [a.cpp:7] two'' @ [CHR 0x0A]"
  "demo_line 2 ''three'' = ''[2026-06-08 20:29:02.007] [INFO ] [a.cpp:7] three'' @ [CHR 0x0A]"
  using demo_text [of 1 "''one''"] demo_text [of 2 "''two''"] demo_text [of 2 "''three''"]
  by (simp_all add: demo_line_def MakeLogLine_def snprintf_def demo_stamps c_str_def)

lemma demo_lengths:
  "length (demo_line 1 ''one'') = 48" "length (demo_line 2 ''two'') = 48" "length (demo_line 2 ''three'') = 50"
  by (simp_all add: demo_line_text)

lemma demo_names [simp]:
  "MakeFileName (demo_tm s) ''app.log'' = ''app_20260608.log''"
  "archive_path (demo_tm 2) demo_path = ''logs/app_20260608_202902.log''"
proof -
  have "date_suffix (demo_tm s) = ''20260608''"
    by (simp add: date_suffix_def demo_tm_def pad_int_def zero_pad_def dec.simps digits snprintf_def)
  then show "MakeFileName (demo_tm s) ''app.log'' = ''app_20260608.log''" by (simp add: MakeFileName_def)
  show "archive_path (demo_tm 2) demo_path = ''logs/app_20260608_202902.log''" by code_simp
qed

lemma demo_log_path [simp]:
  "log_path (demo_tm s) (demo_file n) = demo_path"
  "log_path (demo_tm s) (demo_file n\<lparr>stream := x, current_day := y\<rparr>) = demo_path"
  "log_path (demo_tm s) (demo_file n\<lparr>stream := x\<rparr>) = demo_path"
  by (simp_all add: log_path_def demo_file_def demo_path_def)

lemma demo_Init:
  "Init (demo_env 0) ''logs'' ''app.log'' 10 (new_logger, \<lparr>dirs = {}, files = Map.empty\<rparr>) =
     (None, demo_logger 0, demo_disk [demo_path \<mapsto> []])"
proof -
  have f: "\<lparr>stream = None, dir = ''logs'', base_name = ''app.log'', max_size = 10, current_day = tm_yday (day_time (demo_env 0))\<rparr> =
      demo_file 0\<lparr>stream := None\<rparr>"
    by (simp add: demo_file_def demo_env_def demo_tm_def)
  have m: "make_dirs (demo_env 0) ''logs'' \<lparr>dirs = {}, files = Map.empty\<rparr> = demo_disk Map.empty"
    "make_dirs (demo_env 0) ''logs'' (demo_disk Map.empty) = demo_disk Map.empty"
    by (simp_all add: make_dirs_def demo_env_def demo_disk_def)
  have d: "dir (demo_file 0) = ''logs''" "''logs'' \<in> dirs (demo_disk Map.empty)"
    by (simp_all add: demo_file_def demo_disk_def)
  have "OpenFileLocked (demo_env 0) (demo_file 0\<lparr>stream := None\<rparr>, demo_disk Map.empty) =
      (None, demo_file 0, demo_disk [demo_path \<mapsto> []])"
    using d m by (simp add: OpenFileLocked_def demo_env_def Let_def)
      (simp add: demo_file_def demo_disk_def content_def)
  then show ?thesis
    using f m by (simp add: Init_def LogFile_def Let_def demo_env_def demo_logger_def)
qed

lemma demo_appends:
  "n < 10 \<Longrightarrow> length (demo_line s msg) \<le> 100 \<Longrightarrow> content (demo_disk fs) demo_path = c \<Longrightarrow>
    demo_log s msg (demo_logger n, demo_disk fs) =
      (Returned, demo_logger (length (c @ demo_line s msg)), demo_disk (fs(demo_path \<mapsto> c @ demo_line s msg)))"
  by (simp add: demo_log_def Log_def demo_logger_def demo_line_def [symmetric] CheckRotate_def over_size_def Write_def
      Let_def demo_env_def)
    (simp add: demo_file_def demo_tm_def demo_disk_def)

lemma demo_rotates:
  assumes "10 \<le> n" "length (demo_line s msg) \<le> 100" "fs demo_path = Some c"
  shows "demo_log s msg (demo_logger n, demo_disk fs) =
      (Returned, demo_logger (length (demo_line s msg)),
       demo_disk (fs(archive_path (demo_tm s) demo_path \<mapsto> c, demo_path \<mapsto> demo_line s msg)))"
proof -
  have over: "over_size (demo_file n)" using assms(1) by (simp add: over_size_def demo_file_def)
  have r: "RotateFileLocked (demo_env s) (demo_file n, demo_disk fs) = (demo_file n\<lparr>stream := None\<rparr>,
      demo_disk (fs(demo_path := None, archive_path (demo_tm s) demo_path \<mapsto> c)))"
    using assms(3) by (simp add: RotateFileLocked_def demo_env_def Let_def) (simp add: demo_file_def demo_disk_def)
  have o: "CheckRotate (demo_env s) (demo_file n, demo_disk fs) =
      (None, demo_file 0, demo_disk (fs(archive_path (demo_tm s) demo_path \<mapsto> c, demo_path \<mapsto> [])))"
    using over r by (simp add: CheckRotate_def OpenFileLocked_def make_dirs_def Let_def demo_env_def)
      (simp add: demo_file_def demo_disk_def content_def demo_tm_def)
  have w: "Write (demo_env s) l (demo_file 0, demo_disk (fs(archive_path (demo_tm s) demo_path \<mapsto> c, demo_path \<mapsto> []))) =
      (demo_file (length l), demo_disk (fs(archive_path (demo_tm s) demo_path \<mapsto> c, demo_path \<mapsto> l)))" if "length l \<le> 100" for l
    using that by (simp add: Write_def demo_file_def demo_disk_def content_def demo_env_def Let_def)
  show ?thesis
    using o w [OF assms(2)] by (simp add: demo_log_def Log_def demo_logger_def demo_line_def [symmetric])
qed

definition demo_2 :: disk where
  "demo_2 = demo_disk [demo_path \<mapsto> demo_line 2 ''two'', ''logs/app_20260608_202902.log'' \<mapsto> demo_line 1 ''one'']"

lemma demo_distinct [simp]: "''logs/app_20260608_202902.log'' \<noteq> demo_path" "demo_path \<noteq> ''logs/app_20260608_202902.log''"
  by (simp_all add: demo_path_def)

lemma demo_calls:
  "demo_log 1 ''one'' (demo_logger 0, demo_disk [demo_path \<mapsto> []]) =
     (Returned, demo_logger 48, demo_disk [demo_path \<mapsto> demo_line 1 ''one''])"
  "demo_log 2 ''two'' (demo_logger 48, demo_disk [demo_path \<mapsto> demo_line 1 ''one'']) =
     (Returned, demo_logger 48, demo_2)"
proof -
  show "demo_log 1 ''one'' (demo_logger 0, demo_disk [demo_path \<mapsto> []]) =
      (Returned, demo_logger 48, demo_disk [demo_path \<mapsto> demo_line 1 ''one''])"
    using demo_appends [of 0 1 "''one''" "[demo_path \<mapsto> []]" "[]"] demo_lengths
    by (simp add: content_def demo_disk_def)
  show "demo_log 2 ''two'' (demo_logger 48, demo_disk [demo_path \<mapsto> demo_line 1 ''one'']) =
      (Returned, demo_logger 48, demo_2)"
    using demo_rotates [of 48 2 "''two''" "[demo_path \<mapsto> demo_line 1 ''one'']"] demo_lengths
    by (simp add: demo_2_def fun_upd_twist [OF demo_distinct(1)])
qed

lemma demo_sink: "log_sink (demo_logger n) = Some (demo_file n)" "initialized (demo_logger n)"
  by (simp_all add: demo_logger_def)

lemma demo_run:
  "logging (demo_logger 0, demo_disk [demo_path \<mapsto> []]) [demo_line 1 ''one'', demo_line 2 ''two''] (demo_logger 48, demo_2)"
proof -
  have free: "archive_free (demo_env s) (demo_file n) (demo_disk [demo_path \<mapsto> l])" for s n l
    by (simp add: archive_free_def demo_env_def demo_disk_def)
  have step: "logging (demo_logger 0, demo_disk [demo_path \<mapsto> []]) (ls @ [demo_line n m]) s'"
    if "logging (demo_logger 0, demo_disk [demo_path \<mapsto> []]) ls (demo_logger k, demo_disk [demo_path \<mapsto> l])"
      "length (demo_line n m) \<le> 100" "demo_log n m (demo_logger k, demo_disk [demo_path \<mapsto> l]) = (Returned, s')"
    for ls n m k l s'
  proof -
    have "length (demo_line n m) \<le> taken (demo_env n)" using that(2) by (simp add: demo_env_def)
    then show ?thesis
      using logging.log_call [OF that(1) demo_sink(1) free [of n]] that(3) unfolding demo_log_def demo_line_def by blast
  qed
  have "logging (demo_logger 0, demo_disk [demo_path \<mapsto> []]) ([] @ [demo_line 1 ''one''])
      (demo_logger 48, demo_disk [demo_path \<mapsto> demo_line 1 ''one''])"
    by (rule step [OF no_call _ demo_calls(1)]) (simp add: demo_lengths)
  then have "logging (demo_logger 0, demo_disk [demo_path \<mapsto> []]) (([] @ [demo_line 1 ''one'']) @ [demo_line 2 ''two''])
      (demo_logger 48, demo_2)"
    by (rule step [OF _ _ demo_calls(2)]) (simp add: demo_lengths)
  then show ?thesis by simp
qed


theorem log_file_stays_small_witness: "int (length (content demo_2 demo_path)) \<le> 10 + 4095"
proof -
  have size: "sint (max_size (demo_file 48)) = 10" by (simp add: demo_file_def)
  have "stream (demo_file 48) = Some (demo_path, length (content (demo_disk [demo_path \<mapsto> demo_line 1 ''one'']) demo_path))"
    by (simp add: demo_file_def content_def demo_disk_def demo_lengths)
  from log_file_stays_small [OF demo_calls(2) [unfolded demo_log_def] demo_sink(2,1) this]
  show ?thesis using size by (auto simp: demo_env_def) (auto simp: demo_disk_def demo_file_def demo_tm_def)
qed

section \<open>Observations\<close>

text \<open>Two rotations by size within a second: the second archive replaces the first, whose line is gone.\<close>

lemma second_rotation_overwrites_archive:
  "demo_log 2 ''three'' (demo_logger 48, demo_2) =
     (Returned, demo_logger 50, demo_disk [demo_path \<mapsto> demo_line 2 ''three'',
        ''logs/app_20260608_202902.log'' \<mapsto> demo_line 2 ''two''])"
  using demo_rotates [of 48 2 "''three''" "[demo_path \<mapsto> demo_line 2 ''two'', ''logs/app_20260608_202902.log'' \<mapsto> demo_line 1 ''one'']"]
  by (simp add: demo_lengths demo_2_def fun_upd_twist [OF demo_distinct(1)])

text \<open>
  The limit is compared after a cast to a signed number: the largest \<^verbatim>\<open>size_t\<close>, a natural way to
  say that there is no limit, makes every call rotate.
\<close>

lemma unlimited_rotates_always: "stream f = Some (p, pos) \<Longrightarrow> max_size f = -1 \<Longrightarrow> over_size f"
  by (simp add: over_size_def)

text \<open>
  The last dot is searched in the whole path: with a base name without an extension and the
  directory of the example in the documentation, the archive would lie in a directory whose name is
  a time followed by a dot, which does not exist.
\<close>

lemma archive_outside_directory:
  "archive_path (demo_tm 5) (''./logs/'' @ MakeFileName (demo_tm 5) ''app'') = ''_202905./logs/app_20260608''"
  by code_simp

text \<open>Days are compared by their number in the year only: after exactly a year nothing is rotated.\<close>

lemma same_day_of_another_year:
  "tm_yday (day_time e) = current_day f \<Longrightarrow> \<not> over_size f \<Longrightarrow> CheckRotate e (f, d) = (None, f, d)"
  by (simp add: CheckRotate_def)

text \<open>
  When the file cannot be opened again after a rotation the exception leaves the log without a
  file, and for the rest of the day every further call drops its line silently.
\<close>

lemma failed_reopen_drops_lines:
  assumes "Log e t level file line msg (lg, d) = (Threw err, lg', d')" "tm_yday (day_time e') = tm_yday (day_time e)"
  shows "Log e' t' level' file' line' msg' (lg', d') \<in> {(Returned, lg', d'), (Aborted, lg', d')}"
proof -
  obtain f m where f: "log_sink lg = Some f" "msg = Some m" "initialized lg"
    using assms(1) by (auto simp: Log_def split: option.splits if_splits prod.splits)
  then obtain f1 where c: "CheckRotate e (f, d) = (Some err, f1, d')" and lg': "lg' = lg\<lparr>log_sink := Some f1\<rparr>"
    using assms(1) by (auto simp: Log_def split: option.splits if_splits prod.splits)
  have "stream f1 = None" "current_day f1 = tm_yday (day_time e')"
    using c assms(2) by (auto simp: CheckRotate_def OpenFileLocked_def RotateFileLocked_def Let_def
        split: if_splits option.splits prod.splits)
  then have "CheckRotate e' (f1, d') = (None, f1, d')" "\<And>l. Write e' l (f1, d') = (f1, d')"
    by (simp_all add: CheckRotate_def over_size_def Write_def)
  then show ?thesis by (auto simp: Log_def lg' split: option.split)
qed

text \<open>A line that does not fit the buffer is cut and loses its end of line: the next one continues it.\<close>

lemma long_line_loses_its_end:
  assumes "4096 \<le> length (log_text t level file line msg)" "int (length (log_text t level file line msg)) \<le> 2147483647"
  shows "MakeLogLine t level file line msg = take 4095 (log_text t level file line msg)"
  using assms by (simp add: MakeLogLine_def snprintf_def)

text \<open>On a change of the day the old file keeps its name; only the name of the new day is looked for.\<close>

lemma day_change_archives_nothing:
  "files d (log_path (old_time e) f) = None \<Longrightarrow> stream f \<noteq> None \<Longrightarrow>
    RotateFileLocked e (f, d) = (f\<lparr>stream := None\<rparr>, d)"
  by (simp add: RotateFileLocked_def Let_def log_path_def split: option.splits)

text \<open>Moving hands the file over: afterwards exactly one of the two objects holds it.\<close>

lemma move_hands_over:
  "stream (fst (move_construct x y f)) = stream f \<and> stream (snd (move_construct x y f)) = None"
  "stream (fst (move_assign x y g f)) = stream f \<and> stream (snd (move_assign x y g f)) = None"
  by (simp_all add: move_construct_def move_assign_def CloseFileLocked_def)

end
