(* ===== verification/Log_Stress.thy ===== *)
theory Log_Stress
  imports Logger Multiset_Facts
begin

text \<open>
  \<^verbatim>\<open>logger/main.cpp\<close>: the calls of its first test and the stress test, in which several threads log
  at once and count what they have logged. A thread's call of \<^verbatim>\<open>Log\<close> is one step, as it holds the
  mutex of the logger throughout, and the increment of the atomic counter is another. The texts are
  the bytes of the source in UTF-8. What is printed and measured is left out.
\<close>

section \<open>The calls\<close>

text \<open>Line numbers are those of the macro calls; the name of the source file is an argument.\<close>

definition basic_calls :: "(log_level \<times> int \<times> string) list" where
  "basic_calls =
     [(DEBUG, 47, [CHR 0xE8, CHR 0xB0, CHR 0x83, CHR 0xE8, CHR 0xAF, CHR 0x95, CHR 0xE4, CHR 0xBF, CHR 0xA1, CHR 0xE6,
        CHR 0x81, CHR 0xAF, CHR 0xEF, CHR 0xBC, CHR 0x9A, CHR 0xE8, CHR 0xBF, CHR 0x9B, CHR 0xE5, CHR 0x85,
        CHR 0xA5] @ '' TestBasicFeatures()''),
      (INFO, 48, [CHR 0xE7, CHR 0x94, CHR 0xA8, CHR 0xE6, CHR 0x88, CHR 0xB7] @ '' 1024 (Alice) '' @ [CHR 0xE7, CHR
        0x99, CHR 0xBB, CHR 0xE5, CHR 0xBD, CHR 0x95, CHR 0xE6, CHR 0x88, CHR 0x90, CHR 0xE5, CHR 0x8A, CHR
        0x9F, CHR 0xEF, CHR 0xBC, CHR 0x8C, CHR 0xE4, CHR 0xBD, CHR 0x99, CHR 0xE9, CHR 0xA2, CHR 0x9D] @ ''
        '' @ [CHR 0xC2, CHR 0xA5] @ ''99.95''),
      (WARN, 49, [CHR 0xE7, CHR 0x94, CHR 0xA8, CHR 0xE6, CHR 0x88, CHR 0xB7] @ '' 1024 '' @ [CHR 0xE5, CHR 0xAF, CHR
        0x86, CHR 0xE7, CHR 0xA0, CHR 0x81, CHR 0xE5, CHR 0x8D, CHR 0xB3, CHR 0xE5, CHR 0xB0, CHR 0x86, CHR
        0xE8, CHR 0xBF, CHR 0x87, CHR 0xE6, CHR 0x9C, CHR 0x9F, CHR 0xEF, CHR 0xBC, CHR 0x8C, CHR 0xE5, CHR
        0x89, CHR 0xA9, CHR 0xE4, CHR 0xBD, CHR 0x99] @ '' 3 '' @ [CHR 0xE5, CHR 0xA4, CHR 0xA9]),
      (ERROR, 50, [CHR 0xE7, CHR 0x94, CHR 0xA8, CHR 0xE6, CHR 0x88, CHR 0xB7] @ '' 1024 '' @ [CHR 0xE6, CHR 0x93, CHR
        0x8D, CHR 0xE4, CHR 0xBD, CHR 0x9C, CHR 0xE5, CHR 0xA4, CHR 0xB1, CHR 0xE8, CHR 0xB4, CHR 0xA5, CHR
        0xEF, CHR 0xBC, CHR 0x9A, CHR 0xE6, CHR 0x9D, CHR 0x83, CHR 0xE9, CHR 0x99, CHR 0x90, CHR 0xE4, CHR
        0xB8, CHR 0x8D, CHR 0xE8, CHR 0xB6, CHR 0xB3] @ '' (errno=13)'')]"

definition last_call :: "log_level \<times> int \<times> string" where
  "last_call = (INFO, 187, [CHR 0xE5, CHR 0x8E, CHR 0x8B, CHR 0xE6, CHR 0xB5, CHR 0x8B, CHR 0xE7, CHR 0xBB, CHR 0x93, CHR 0xE6,
        CHR 0x9D, CHR 0x9F, CHR 0xEF, CHR 0xBC, CHR 0x8C, CHR 0xE7, CHR 0xA8, CHR 0x8B, CHR 0xE5, CHR 0xBA,
        CHR 0x8F, CHR 0xE6, CHR 0xAD, CHR 0xA3, CHR 0xE5, CHR 0xB8, CHR 0xB8, CHR 0xE9, CHR 0x80, CHR 0x80,
        CHR 0xE5, CHR 0x87, CHR 0xBA])"

definition stress_level :: "nat \<Rightarrow> log_level" where
  "stress_level i =
     (if i mod 100 < 70 then DEBUG else if i mod 100 < 90 then INFO else if i mod 100 < 98 then WARN else ERROR)"

definition stress_line :: "nat \<Rightarrow> int" where
  "stress_line i =
     (if i mod 100 < 70 then 100 else if i mod 100 < 90 then 104 else if i mod 100 < 98 then 107 else 110)"

definition thread_tag :: "nat \<Rightarrow> string" where
  "thread_tag tid = ''['' @ [CHR 0xE7, CHR 0xBA, CHR 0xBF, CHR 0xE7, CHR 0xA8, CHR 0x8B] @ dec_int (int tid) @ ''] ''"

text \<open>The formatted message of iteration \<open>i\<close> in thread \<open>tid\<close>, which has \<open>my_count\<close> of them.\<close>

definition stress_message :: "nat \<Rightarrow> nat \<Rightarrow> nat \<Rightarrow> string" where
  "stress_message tid my_count i =
     (if i mod 100 < 70 then thread_tag tid @
        [CHR 0xE7, CHR 0xAC, CHR 0xAC] @ '' '' @ dec_int (int i) @ '' '' @ [CHR 0xE6, CHR 0x9D, CHR 0xA1,
        CHR 0xE6, CHR 0x97, CHR 0xA5, CHR 0xE5, CHR 0xBF, CHR 0x97] @ '': value='' @ dec_int (int i * 100) @
        '', name=debug_msg''
      else if i mod 100 < 90 then thread_tag tid @
        [CHR 0xE5, CHR 0xA4, CHR 0x84, CHR 0xE7, CHR 0x90, CHR 0x86, CHR 0xE8, CHR 0xAE, CHR 0xB0, CHR 0xE5,
        CHR 0xBD, CHR 0x95] @ '' '' @ dec_int (int i) @ ''/'' @ dec_int (int my_count)
      else if i mod 100 < 98 then thread_tag tid @
        [CHR 0xE6, CHR 0xA3, CHR 0x80, CHR 0xE6, CHR 0xB5, CHR 0x8B, CHR 0xE5, CHR 0x88, CHR 0xB0, CHR 0xE6,
        CHR 0x85, CHR 0xA2, CHR 0xE6, CHR 0x93, CHR 0x8D, CHR 0xE4, CHR 0xBD, CHR 0x9C, CHR 0xEF, CHR 0xBC,
        CHR 0x8C, CHR 0xE8, CHR 0x80, CHR 0x97, CHR 0xE6, CHR 0x97, CHR 0xB6] @ '' '' @ dec_int (int i * 7)
        @ ''ms''
      else thread_tag tid @
        [CHR 0xE5, CHR 0xBC, CHR 0x82, CHR 0xE5, CHR 0xB8, CHR 0xB8] @ '' #'' @ dec_int (int i) @ '': '' @
        [CHR 0xE6, CHR 0xA8, CHR 0xA1, CHR 0xE6, CHR 0x8B, CHR 0x9F, CHR 0xE9, CHR 0x94, CHR 0x99, CHR 0xE8,
        CHR 0xAF, CHR 0xAF] @ '' (code='' @ dec_int (int (i mod 256)) @ '')'')"

section \<open>The stress test\<close>

text \<open>A thread is about to test its loop condition, or has logged and not yet counted.\<close>

datatype stress_thread = At nat | Logged nat

record stress =
  threads :: "stress_thread list"
  total_written :: nat
  log_state :: "logger \<times> disk"
  log_lines :: "(nat \<times> nat \<times> string) list"

text \<open>\<open>log_lines\<close> is history: thread, iteration and line of every call that returned.\<close>

definition my_count :: "nat \<Rightarrow> nat \<Rightarrow> nat \<Rightarrow> nat" where
  "my_count thread_count total_messages tid =
     total_messages div thread_count + (if tid < total_messages mod thread_count then 1 else 0)"

definition new_stress :: "nat \<Rightarrow> logger \<times> disk \<Rightarrow> stress" where
  "new_stress thread_count ld =
     \<lparr>threads = replicate thread_count (At 0), total_written = 0, log_state = ld, log_lines = []\<rparr>"

definition logged :: "nat \<Rightarrow> nat \<Rightarrow> string \<Rightarrow> logger \<times> disk \<Rightarrow> stress \<Rightarrow> stress" where
  "logged tid i line ld s = s\<lparr>threads := (threads s)[tid := Logged i], log_state := ld,
     log_lines := log_lines s @ [(tid, i, line)]\<rparr>"

definition counted :: "nat \<Rightarrow> nat \<Rightarrow> stress \<Rightarrow> stress" where
  "counted tid i s = s\<lparr>threads := (threads s)[tid := At (Suc i)], total_written := total_written s + 1\<rparr>"

text \<open>
  The surroundings do their part: a rotation finds the name of its archive free, and the line
  reaches the file. \<open>src\<close> is the name of the source file.
\<close>

inductive stress_step :: "string \<Rightarrow> nat \<Rightarrow> nat \<Rightarrow> stress \<Rightarrow> stress \<Rightarrow> bool" for src n msgs where
  log_message: "tid < n \<Longrightarrow> threads s ! tid = At i \<Longrightarrow> i < my_count n msgs tid \<Longrightarrow>
    log_sink (fst (log_state s)) = Some f \<Longrightarrow> archive_free e f (snd (log_state s)) \<Longrightarrow>
    line = MakeLogLine t (stress_level i) src (stress_line i) (c_str (stress_message tid (my_count n msgs tid) i)) \<Longrightarrow>
    length line \<le> taken e \<Longrightarrow>
    Log e t (stress_level i) src (stress_line i) (Some (stress_message tid (my_count n msgs tid) i)) (log_state s) =
      (Returned, ld) \<Longrightarrow>
    stress_step src n msgs s (logged tid i line ld s)"
| count_message: "tid < n \<Longrightarrow> threads s ! tid = Logged i \<Longrightarrow> stress_step src n msgs s (counted tid i s)"

inductive stress_reaches :: "string \<Rightarrow> nat \<Rightarrow> nat \<Rightarrow> logger \<times> disk \<Rightarrow> stress \<Rightarrow> bool" for src n msgs ld where
  stress_new: "stress_reaches src n msgs ld (new_stress n ld)"
| stress_next: "stress_reaches src n msgs ld s \<Longrightarrow> stress_step src n msgs s s' \<Longrightarrow> stress_reaches src n msgs ld s'"

text \<open>All threads have left their loops: the joins return.\<close>

definition stress_joined :: "nat \<Rightarrow> nat \<Rightarrow> stress \<Rightarrow> bool" where
  "stress_joined n msgs s \<longleftrightarrow> (\<forall>tid < n. threads s ! tid = At (my_count n msgs tid))"

text \<open>The verdict that \<^verbatim>\<open>main\<close> prints.\<close>

definition nothing_lost :: "nat \<Rightarrow> stress \<Rightarrow> bool" where
  "nothing_lost total_messages s \<longleftrightarrow> total_messages \<le> total_written s"

section \<open>Invariant\<close>

fun iteration :: "stress_thread \<Rightarrow> nat" where
  "iteration (At i) = i"
| "iteration (Logged i) = i"

fun lines_done :: "stress_thread \<Rightarrow> nat" where
  "lines_done (At i) = i"
| "lines_done (Logged i) = Suc i"

definition lines_of :: "nat \<Rightarrow> (nat \<times> nat \<times> string) list \<Rightarrow> nat list" where
  "lines_of tid ls = map (\<lambda>(j, i, l). i) (filter (\<lambda>(j, i, l). j = tid) ls)"

definition stress_ok :: "string \<Rightarrow> nat \<Rightarrow> nat \<Rightarrow> logger \<times> disk \<Rightarrow> stress \<Rightarrow> bool" where
  "stress_ok src n msgs ld s \<longleftrightarrow> length (threads s) = n \<and>
     total_written s = sum_list (map iteration (threads s)) \<and>
     (\<forall>tid < n. lines_of tid (log_lines s) = [0..<lines_done (threads s ! tid)]) \<and>
     (\<forall>(tid, i, l) \<in> set (log_lines s). \<exists>t. l = MakeLogLine t (stress_level i) src (stress_line i)
        (c_str (stress_message tid (my_count n msgs tid) i))) \<and>
     logging ld (map (\<lambda>(j, i, l). l) (log_lines s)) (log_state s)"

lemma lines_of_append: "lines_of tid (ls @ [(j, i, l)]) = lines_of tid ls @ (if j = tid then [i] else [])"
  by (simp add: lines_of_def)

lemma stress_ok_new: "stress_ok src n msgs ld (new_stress n ld)"
  by (simp add: stress_ok_def new_stress_def lines_of_def sum_list_replicate no_call)

lemma stress_ok_step:
  assumes ok: "stress_ok src n msgs ld s" and step: "stress_step src n msgs s s'"
  shows "stress_ok src n msgs ld s'"
  using step
proof cases
  case (log_message tid i f e line t ld')
  have len: "length (threads s) = n" using ok by (simp add: stress_ok_def)
  have "sum_list (map iteration ((threads s)[tid := Logged i])) = sum_list (map iteration (threads s))"
    using sum_list_map_update [of tid "threads s" iteration "Logged i"] log_message(2,3) len by simp
  moreover have "logging ld (map (\<lambda>(j, i, l). l) (log_lines s) @ [line]) ld'"
  proof -
    obtain lg d where st: "log_state s = (lg, d)" by (cases "log_state s")
    have "logging ld (map (\<lambda>(j, i, l). l) (log_lines s)) (lg, d)" using ok st by (simp add: stress_ok_def)
    from logging.log_call [OF this, of f e t "stress_level i" src "stress_line i"
        "stress_message tid (my_count n msgs tid) i" ld'] log_message st
    show ?thesis by simp
  qed
  ultimately show ?thesis
    using ok log_message len by (auto simp: stress_ok_def logged_def lines_of_append nth_list_update)
next
  case (count_message tid i)
  have len: "length (threads s) = n" using ok by (simp add: stress_ok_def)
  have "sum_list (map iteration ((threads s)[tid := At (Suc i)])) = sum_list (map iteration (threads s)) + 1"
    using sum_list_map_update [of tid "threads s" iteration "At (Suc i)"] count_message(2,3) len by simp
  then show ?thesis
    using ok count_message len by (auto simp: stress_ok_def counted_def nth_list_update)
qed

lemma stress_reaches_ok: "stress_reaches src n msgs ld s \<Longrightarrow> stress_ok src n msgs ld s"
  by (induction rule: stress_reaches.induct) (auto intro: stress_ok_new stress_ok_step)

text \<open>The shares of the threads add up to the total.\<close>

lemma shares_add_up:
  assumes "0 < n"
  shows "sum_list (map (my_count n msgs) [0..<n]) = msgs"
proof -
  have "sum_list (map (\<lambda>tid. if tid < r then 1 else (0 :: nat)) [0..<k]) = min r k" for r k
    by (induction k) auto
  then have "sum_list (map (my_count n msgs) [0..<n]) = n * (msgs div n) + msgs mod n"
    unfolding my_count_def using assms
    by (simp add: sum_list_addf sum_list_triv mod_less_divisor min_absorb1 less_imp_le)
  then show ?thesis by simp
qed

section \<open>Property\<close>

text \<open>
  The stress test loses nothing. However its threads interleave, once all are joined the counter
  is the number of messages asked for, so that the test reports that nothing was lost; every thread
  has logged its share, which is its part of the total, in its order; and every line of every thread
  is found, in one piece, in some file, as long as no archive replaces another.\<close>

theorem stress_test_loses_nothing:
  assumes "stress_reaches src n msgs ld s" "stress_joined n msgs s" "0 < n"
    "initialized (fst ld)" "log_sink (fst ld) = Some f" "stream f \<noteq> None" "finite (dom (files (snd ld)))"
  shows "total_written s = msgs \<and> nothing_lost msgs s \<and>
    (\<forall>tid < n. lines_of tid (log_lines s) = [0..<my_count n msgs tid]) \<and>
    (\<forall>(tid, i, l) \<in> set (log_lines s).
       (\<exists>t. l = MakeLogLine t (stress_level i) src (stress_line i) (c_str (stress_message tid (my_count n msgs tid) i))) \<and>
       (\<exists>p c. files (snd (log_state s)) p = Some c \<and> occurs l c))"
proof -
  have ok: "stress_ok src n msgs ld s" by (rule stress_reaches_ok [OF assms(1)])
  then have len: "length (threads s) = n" by (simp add: stress_ok_def)
  have "map iteration (threads s) = map (my_count n msgs) [0..<n]"
    by (rule nth_equalityI) (use assms(2) len in \<open>simp_all add: stress_joined_def\<close>)
  then have tot: "total_written s = msgs" using ok shares_add_up [OF assms(3)] by (simp add: stress_ok_def)
  have "logging ld (map (\<lambda>(j, i, l). l) (log_lines s)) (log_state s)" using ok by (simp add: stress_ok_def)
  from logging_grows [OF this assms(4-7)]
  have found: "\<exists>p c. files (snd (log_state s)) p = Some c \<and> occurs l c"
    if "(tid, i, l) \<in> set (log_lines s)" for tid i l
    using that by force
  have lines: "\<exists>t. l = MakeLogLine t (stress_level i) src (stress_line i) (c_str (stress_message tid (my_count n msgs tid) i))"
    if "(tid, i, l) \<in> set (log_lines s)" for tid i l
    using ok that unfolding stress_ok_def by fast
  have "\<forall>tid < n. lines_of tid (log_lines s) = [0..<my_count n msgs tid]"
    using ok assms(2) by (simp add: stress_ok_def stress_joined_def)
  then show ?thesis using tot found lines by (auto simp: nothing_lost_def)
qed

section \<open>A run\<close>

lemma demo_returns:
  assumes "level \<noteq> FATAL"
  shows "fst (Log (demo_env 1\<lparr>taken := 5000\<rparr>) t level src line (Some msg) (demo_logger 0, demo_disk fs)) = Returned"
proof -
  have "CheckRotate (demo_env 1\<lparr>taken := 5000\<rparr>) (demo_file 0, demo_disk fs) = (None, demo_file 0, demo_disk fs)"
    by (simp add: CheckRotate_def over_size_def demo_env_def Let_def) (simp add: demo_file_def demo_tm_def)
  then show ?thesis using assms by (simp add: Log_def demo_logger_def split: prod.split)
qed

theorem stress_test_loses_nothing_witness:
  "\<exists>s. stress_reaches ''main.cpp'' 1 1 (demo_logger 0, demo_disk [demo_path \<mapsto> []]) s \<and> stress_joined 1 1 s \<and>
     total_written s = 1 \<and> lines_of 0 (log_lines s) = [0]"
proof -
  define ld where "ld = (demo_logger 0, demo_disk [demo_path \<mapsto> []])"
  define e where "e = demo_env 1\<lparr>taken := 5000\<rparr>"
  define msg where "msg = stress_message 0 (my_count 1 1 0) 0"
  define line where "line = MakeLogLine (demo_tm 1) (stress_level 0) ''main.cpp'' (stress_line 0) (c_str msg)"
  define ld' where "ld' = snd (Log e (demo_tm 1) (stress_level 0) ''main.cpp'' (stress_line 0) (Some msg) ld)"
  define s1 where "s1 = logged 0 0 line ld' (new_stress 1 ld)"
  define s2 where "s2 = counted 0 0 s1"
  have share: "my_count 1 1 0 = 1" by (simp add: my_count_def)
  have ret: "Log e (demo_tm 1) (stress_level 0) ''main.cpp'' (stress_line 0) (Some msg) ld = (Returned, ld')"
    using demo_returns [of "stress_level 0" "demo_tm 1" "''main.cpp''" "stress_line 0" msg "[demo_path \<mapsto> []]"]
    by (simp add: ld'_def e_def ld_def prod_eq_iff stress_level_def)
  have free: "archive_free e (demo_file 0) (snd ld)"
    by (simp add: archive_free_def e_def ld_def demo_env_def demo_disk_def)
  have short: "length line \<le> taken e" unfolding line_def e_def
    using order_trans [OF length_MakeLogLine [of "demo_tm 1" "stress_level 0" "''main.cpp''" "stress_line 0" "c_str msg"], of 5000]
    by simp
  have "stress_step ''main.cpp'' 1 1 (new_stress 1 ld) s1"
    unfolding s1_def
    by (rule stress_step.log_message [OF _ _ _ _ _ _ short])
      (use ret free share in \<open>simp_all add: new_stress_def ld_def demo_sink line_def msg_def\<close>)
  then have r1: "stress_reaches ''main.cpp'' 1 1 ld s1" using stress_new stress_next by blast
  have "stress_step ''main.cpp'' 1 1 s1 s2"
    unfolding s2_def by (rule stress_step.count_message) (simp_all add: s1_def logged_def new_stress_def)
  then have r2: "stress_reaches ''main.cpp'' 1 1 ld s2" using r1 stress_next by blast
  have joined: "stress_joined 1 1 s2"
    using share by (simp add: stress_joined_def s2_def counted_def s1_def logged_def new_stress_def)
  have "stream (demo_file 0) \<noteq> None" by (simp add: demo_file_def)
  from stress_test_loses_nothing [OF r2 joined _ _ _ this] have "total_written s2 = 1 \<and> lines_of 0 (log_lines s2) = [0]"
    using share by (simp add: ld_def demo_sink demo_disk_def)
  then show ?thesis using r2 joined by (auto simp: ld_def)
qed

end
