(* ===== verification/Log_Main.thy ===== *)
theory Log_Main
  imports Log_Stress
begin

text \<open>
  The whole of \<^verbatim>\<open>logger/main.cpp\<close>: \<^verbatim>\<open>Init\<close>, which may throw, the calls of the first test, the stress
  test and the last call, made through the macros of \<^verbatim>\<open>logger.h\<close>. What is printed besides the verdict
  and what is measured is left out.
\<close>

section \<open>The macros\<close>

definition LOG_DEBUG :: "env \<Rightarrow> tm \<Rightarrow> string \<Rightarrow> int \<Rightarrow> string option \<Rightarrow> logger \<times> disk \<Rightarrow> log_outcome \<times> logger \<times> disk" where
  "LOG_DEBUG e t = Log e t DEBUG"

definition LOG_INFO :: "env \<Rightarrow> tm \<Rightarrow> string \<Rightarrow> int \<Rightarrow> string option \<Rightarrow> logger \<times> disk \<Rightarrow> log_outcome \<times> logger \<times> disk" where
  "LOG_INFO e t = Log e t INFO"

definition LOG_WARN :: "env \<Rightarrow> tm \<Rightarrow> string \<Rightarrow> int \<Rightarrow> string option \<Rightarrow> logger \<times> disk \<Rightarrow> log_outcome \<times> logger \<times> disk" where
  "LOG_WARN e t = Log e t WARN"

definition LOG_ERROR :: "env \<Rightarrow> tm \<Rightarrow> string \<Rightarrow> int \<Rightarrow> string option \<Rightarrow> logger \<times> disk \<Rightarrow> log_outcome \<times> logger \<times> disk" where
  "LOG_ERROR e t = Log e t ERROR"

definition LOG_FATAL :: "env \<Rightarrow> tm \<Rightarrow> string \<Rightarrow> int \<Rightarrow> string option \<Rightarrow> logger \<times> disk \<Rightarrow> log_outcome \<times> logger \<times> disk" where
  "LOG_FATAL e t = Log e t FATAL"

definition log_macro :: "log_level \<Rightarrow> env \<Rightarrow> tm \<Rightarrow> string \<Rightarrow> int \<Rightarrow> string option \<Rightarrow> logger \<times> disk \<Rightarrow>
    log_outcome \<times> logger \<times> disk" where
  "log_macro level = (case level of DEBUG \<Rightarrow> LOG_DEBUG | INFO \<Rightarrow> LOG_INFO | WARN \<Rightarrow> LOG_WARN | ERROR \<Rightarrow> LOG_ERROR | FATAL \<Rightarrow> LOG_FATAL)"

lemma log_macro_Log: "log_macro level e t = Log e t level"
  by (simp add: log_macro_def LOG_DEBUG_def LOG_INFO_def LOG_WARN_def LOG_ERROR_def LOG_FATAL_def split: log_level.split)

section \<open>The program\<close>

text \<open>
  Calls in order, all of which return, with the lines that they write. As for the stress test, a
  rotation finds the name of its archive free and a line reaches the file.
\<close>

inductive calls_made :: "string \<Rightarrow> (log_level \<times> int \<times> string) list \<Rightarrow> logger \<times> disk \<Rightarrow> string list \<Rightarrow> logger \<times> disk \<Rightarrow> bool"
  for src where
  no_more: "calls_made src [] ld [] ld"
| one_made: "log_sink (fst ld) = Some f \<Longrightarrow> archive_free e f (snd ld) \<Longrightarrow>
    length (MakeLogLine t level src line (c_str msg)) \<le> taken e \<Longrightarrow>
    log_macro level e t src line (Some msg) ld = (Returned, ld1) \<Longrightarrow> calls_made src cs ld1 ls ld2 \<Longrightarrow>
    calls_made src ((level, line, msg) # cs) ld (MakeLogLine t level src line (c_str msg) # ls) ld2"

definition logs_dir :: string where "logs_dir = ''./logs''"
definition log_name :: string where "log_name = ''app.log''"
definition kMaxFileSize :: usize where "kMaxFileSize = 50 * 1024 * 1024"

text \<open>
  The result of \<^verbatim>\<open>main\<close>, the verdict it prints, the lines it has logged and the state it leaves. The
  numbers of threads and messages, 8 and 1000000 in the code, are arguments.
\<close>

inductive logger_main :: "string \<Rightarrow> nat \<Rightarrow> nat \<Rightarrow> disk \<Rightarrow> int \<Rightarrow> bool option \<Rightarrow> string list \<Rightarrow> logger \<times> disk \<Rightarrow> bool"
  for src n msgs d where
  init_throws: "Init e logs_dir log_name kMaxFileSize (new_logger, d) = (Some err, ld) \<Longrightarrow>
    logger_main src n msgs d 1 None [] ld"
| all_done: "Init e logs_dir log_name kMaxFileSize (new_logger, d) = (None, ld0) \<Longrightarrow>
    calls_made src basic_calls ld0 ls1 ld1 \<Longrightarrow>
    stress_reaches src n msgs ld1 s \<Longrightarrow> stress_joined n msgs s \<Longrightarrow>
    calls_made src [last_call] (log_state s) ls2 ld2 \<Longrightarrow>
    logger_main src n msgs d 0 (Some (nothing_lost msgs s)) (ls1 @ map (\<lambda>(j, i, l). l) (log_lines s) @ ls2) ld2"

section \<open>Facts\<close>

lemma logging_append: "logging b l2 c \<Longrightarrow> logging a l1 b \<Longrightarrow> logging a (l1 @ l2) c"
proof (induction rule: logging.induct)
  case (no_call s)
  then show ?case by simp
next
  case (log_call s ls lg d f e t level fn line msg s1)
  from logging.log_call [OF log_call.IH [OF log_call.prems] log_call.hyps(2-5)] show ?case by simp
qed

lemma one_call_logging:
  assumes "log_sink (fst ld) = Some f" "archive_free e f (snd ld)"
    "length (MakeLogLine t level src line (c_str msg)) \<le> taken e"
    "log_macro level e t src line (Some msg) ld = (Returned, ld1)"
  shows "logging ld [MakeLogLine t level src line (c_str msg)] ld1"
proof -
  obtain lg d where ld: "ld = (lg, d)" by (cases ld)
  from logging.log_call [OF no_call [of "(lg, d)"], of f e t level src line msg ld1] show ?thesis
    using assms by (simp add: ld log_macro_Log)
qed

lemma calls_made_logging: "calls_made src cs ld ls ld' \<Longrightarrow> logging ld ls ld' \<and> length ls = length cs"
proof (induction rule: calls_made.induct)
  case (no_more ld)
  then show ?case by (simp add: no_call)
next
  case (one_made ld f e t level line msg ld1 cs ls ld2)
  then show ?case using logging_append [OF _ one_call_logging [OF one_made.hyps(1-4)], of ls ld2] by simp
qed

lemma stress_line_count:
  assumes "stress_reaches src n msgs ld s"
  shows "length (log_lines s) = sum_list (map lines_done (threads s)) \<and> length (threads s) = n"
  using assms
proof (induction rule: stress_reaches.induct)
  case stress_new
  then show ?case by (simp add: new_stress_def sum_list_replicate)
next
  case (stress_next s s')
  from stress_next.hyps(2) show ?case
  proof cases
    case (log_message tid i f e line t ld')
    then show ?thesis
      using stress_next.IH sum_list_map_update [of tid "threads s" lines_done "Logged i"] by (simp add: logged_def)
  next
    case (count_message tid i)
    then show ?thesis
      using stress_next.IH sum_list_map_update [of tid "threads s" lines_done "At (Suc i)"] by (simp add: counted_def)
  qed
qed

lemma joined_line_count:
  assumes "stress_reaches src n msgs ld s" "stress_joined n msgs s" "0 < n"
  shows "length (log_lines s) = msgs" "total_written s = msgs"
proof -
  note c = stress_line_count [OF assms(1)]
  have "map lines_done (threads s) = map (my_count n msgs) [0..<n]" "map iteration (threads s) = map (my_count n msgs) [0..<n]"
    by (rule nth_equalityI; use assms(2) c in \<open>simp add: stress_joined_def\<close>)+
  then show "length (log_lines s) = msgs" "total_written s = msgs"
    using c shares_add_up [OF assms(3)] stress_reaches_ok [OF assms(1)] by (simp_all add: stress_ok_def)
qed

lemma Init_opens:
  assumes "Init e dn b m (new_logger, d) = (None, ld)"
  shows "initialized (fst ld)" "\<exists>f. log_sink (fst ld) = Some f \<and> stream f \<noteq> None"
    "finite (dom (files d)) \<Longrightarrow> finite (dom (files (snd ld)))"
    "files d p = Some c \<Longrightarrow> files (snd ld) p = Some c"
  using assms
  by (auto simp: Init_def LogFile_def OpenFileLocked_def make_dirs_def content_def Let_def split: if_splits prod.splits option.splits)

section \<open>Property\<close>


section \<open>A run\<close>

text \<open>A day without rotations: one file, far from its limit.\<close>

definition calm_env :: env where
  "calm_env = demo_env 1\<lparr>taken := 5000\<rparr>"

definition calm_file :: "string \<Rightarrow> log_file" where
  "calm_file c = \<lparr>stream = Some (''./logs/'' @ MakeFileName (demo_tm 1) log_name, length c), dir = logs_dir,
     base_name = log_name, max_size = kMaxFileSize, current_day = 158\<rparr>"

definition calm_state :: "string \<Rightarrow> logger \<times> disk" where
  "calm_state c = (\<lparr>initialized = True, log_sink = Some (calm_file c)\<rparr>,
     \<lparr>dirs = {logs_dir}, files = [''./logs/'' @ MakeFileName (demo_tm 1) log_name \<mapsto> c]\<rparr>)"

lemma archive_path_longer: "length p < length (archive_path t p)"
proof (cases "rfind CHR ''.'' p")
  case (Some i)
  then have "i < length p" using rfind_Some by blast
  then show ?thesis by (simp add: archive_path_def Some Let_def)
qed (simp add: archive_path_def Let_def)

lemma calm_archive_free: "archive_free calm_env (calm_file c) (snd (calm_state c))"
proof -
  define p where "p = ''./logs/'' @ MakeFileName (demo_tm 1) log_name"
  have "log_path (old_time calm_env) (calm_file c) = p"
    by (simp add: log_path_def calm_env_def demo_env_def calm_file_def logs_dir_def p_def)
  moreover have "archive_path t p \<noteq> p" for t using archive_path_longer [of p t] by auto
  moreover have "files (snd (calm_state c)) = [p \<mapsto> c]" by (simp add: calm_state_def p_def)
  ultimately show ?thesis by (simp add: archive_free_def)
qed

lemma calm_call:
  assumes "length c < 52428800" "level \<noteq> FATAL"
  shows "log_macro level calm_env t src line (Some msg) (calm_state c) =
    (Returned, calm_state (c @ MakeLogLine t level src line (c_str msg)))"
proof -
  define l where "l = MakeLogLine t level src line (c_str msg)"
  have max: "sint kMaxFileSize = 52428800" by (simp add: kMaxFileSize_def)
  have calm: "CheckRotate calm_env (calm_file c, snd (calm_state c)) = (None, calm_file c, snd (calm_state c))"
    using assms(1) max by (simp add: CheckRotate_def over_size_def Let_def calm_env_def demo_env_def)
      (simp add: calm_file_def demo_tm_def)
  have "length l \<le> 5000" using length_MakeLogLine [of t level src line "c_str msg"] by (simp add: l_def)
  then have "take (taken calm_env) l = l" by (simp add: calm_env_def)
  then have "Write calm_env l (calm_file c, snd (calm_state c)) = (calm_file (c @ l), snd (calm_state (c @ l)))"
    by (simp add: Write_def calm_file_def calm_state_def content_def Let_def)
  then show ?thesis
    using calm assms(2) by (simp add: log_macro_Log Log_def l_def calm_state_def)
qed

lemma calm_calls:
  assumes "\<forall>(level, line, msg) \<in> set cs. level \<noteq> FATAL" "length c + 5000 * length cs < 52428800"
  shows "\<exists>ls c'. calls_made src cs (calm_state c) ls (calm_state c') \<and> length c' \<le> length c + 5000 * length cs"
  using assms
proof (induction cs arbitrary: c)
  case Nil
  then show ?case using no_more by fastforce
next
  case (Cons x cs)
  obtain level line msg where x: "x = (level, line, msg)" by (cases x)
  define l where "l = MakeLogLine (demo_tm 1) level src line (c_str msg)"
  have l: "length l \<le> 5000" using length_MakeLogLine [of "demo_tm 1" level src line "c_str msg"] by (simp add: l_def)
  have call: "log_macro level calm_env (demo_tm 1) src line (Some msg) (calm_state c) = (Returned, calm_state (c @ l))"
    unfolding l_def by (rule calm_call) (use Cons.prems x in auto)
  have "length (c @ l) + 5000 * length cs < 52428800" using Cons.prems(2) l by simp
  then obtain ls c' where r: "calls_made src cs (calm_state (c @ l)) ls (calm_state c')" "length c' \<le> length (c @ l) + 5000 * length cs"
    using Cons.IH [of "c @ l"] Cons.prems(1) by auto
  have "log_sink (fst (calm_state c)) = Some (calm_file c)" by (simp add: calm_state_def)
  moreover have "length l \<le> taken calm_env" using l by (simp add: calm_env_def)
  ultimately have "calls_made src (x # cs) (calm_state c) (l # ls) (calm_state c')"
    unfolding x l_def using calm_archive_free call [unfolded l_def] r(1) [unfolded l_def] by (intro one_made)
  then show ?case using r(2) l by fastforce
qed


end
