(* ===== verification/Event_Loop_Thread.thy ===== *)
theory Event_Loop_Thread
  imports Event_Loop
begin

text \<open>
  \<^verbatim>\<open>EventLoopThread.h/.cpp\<close>: a thread with a loop of its own. The thread that starts and destroys the
  object and the thread of the loop interleave; the loop is a variable of the latter's function, so it
  exists only while that runs. Of the loop itself the model has its life time and the flag that ends
  it, which \<^verbatim>\<open>loop()\<close> clears when it is entered.
\<close>

section \<open>State\<close>

text \<open>
  The thread's function: not started, loop constructed, its pointer published, in \<^verbatim>\<open>loop()\<close>, returned
  from it, pointer cleared, ended. The owner: before the start, waiting in \<^verbatim>\<open>startLoop\<close>, returned from
  it, in the destructor having seen a pointer, joining, through.
\<close>

datatype thread_stage = Unstarted | Constructed | Published | In_Loop | Left_Loop | Cleared | Ended

datatype owner_stage = Before_Start | Awaiting | Started | Saw_Loop | Joining_Thread | Destroyed

record loop_thread =
  loop_ptr :: bool
  loop_quit :: bool
  exiting :: bool
  thread_stage :: thread_stage
  owner_stage :: owner_stage

definition EventLoopThread :: loop_thread where
  "EventLoopThread = \<lparr>loop_ptr = False, loop_quit = False, exiting = False, thread_stage = Unstarted, owner_stage = Before_Start\<rparr>"

definition loop_exists :: "loop_thread \<Rightarrow> bool" where
  "loop_exists t \<longleftrightarrow> thread_stage t \<in> {Constructed, Published, In_Loop, Left_Loop, Cleared}"

text \<open>\<^verbatim>\<open>threadFunc\<close>, from one lock to the next; \<^term>\<open>None\<close>, it cannot go on.\<close>

fun threadFunc :: "loop_thread \<Rightarrow> loop_thread option" where
  "threadFunc t =
     (case thread_stage t of
        Constructed \<Rightarrow> Some (t\<lparr>loop_ptr := True, thread_stage := Published\<rparr>)
      | Published \<Rightarrow> Some (t\<lparr>loop_quit := False, thread_stage := In_Loop\<rparr>)
      | In_Loop \<Rightarrow> if loop_quit t then Some (t\<lparr>thread_stage := Left_Loop\<rparr>) else None
      | Left_Loop \<Rightarrow> Some (t\<lparr>loop_ptr := False, thread_stage := Cleared\<rparr>)
      | Cleared \<Rightarrow> Some (t\<lparr>thread_stage := Ended\<rparr>)
      | _ \<Rightarrow> None)"

text \<open>
  The owner: \<^verbatim>\<open>startLoop\<close> up to the wait and after it, then the destructor, which reads the pointer
  without the lock, calls \<^verbatim>\<open>quit\<close> through it, and joins the thread.
\<close>

fun owner :: "loop_thread \<Rightarrow> loop_thread option" where
  "owner t =
     (case owner_stage t of
        Before_Start \<Rightarrow> Some (t\<lparr>thread_stage := Constructed, owner_stage := Awaiting\<rparr>)
      | Awaiting \<Rightarrow> if loop_ptr t then Some (t\<lparr>owner_stage := Started\<rparr>) else None
      | Started \<Rightarrow> Some (t\<lparr>exiting := True, owner_stage := (if loop_ptr t then Saw_Loop else Joining_Thread)\<rparr>)
      | Saw_Loop \<Rightarrow> Some (t\<lparr>loop_quit := True, owner_stage := Joining_Thread\<rparr>)
      | Joining_Thread \<Rightarrow> if thread_stage t = Ended then Some (t\<lparr>owner_stage := Destroyed\<rparr>) else None
      | Destroyed \<Rightarrow> None)"

text \<open>Once it has been started, others may end the loop too, while it exists.\<close>

inductive loop_thread_step :: "loop_thread \<Rightarrow> loop_thread \<Rightarrow> bool" where
  by_thread: "threadFunc t = Some t' \<Longrightarrow> loop_thread_step t t'"
| by_owner: "owner t = Some t' \<Longrightarrow> loop_thread_step t t'"
| by_others: "owner_stage t = Started \<Longrightarrow> loop_exists t \<Longrightarrow> loop_thread_step t (t\<lparr>loop_quit := True\<rparr>)"

section \<open>Facts\<close>

definition loop_thread_ok :: "loop_thread \<Rightarrow> bool" where
  "loop_thread_ok t \<longleftrightarrow> (loop_ptr t \<longleftrightarrow> thread_stage t \<in> {Published, In_Loop, Left_Loop}) \<and>
     (owner_stage t = Before_Start \<longleftrightarrow> thread_stage t = Unstarted) \<and>
     (thread_stage t = Constructed \<longrightarrow> owner_stage t = Awaiting)"

lemma loop_thread_step_ok: "loop_thread_step t t' \<Longrightarrow> loop_thread_ok t \<Longrightarrow> loop_thread_ok t'"
  by (induction rule: loop_thread_step.induct)
    (auto simp: loop_thread_ok_def split: thread_stage.splits owner_stage.splits if_splits)

lemma loop_thread_reaches_ok: "loop_thread_step\<^sup>*\<^sup>* EventLoopThread t \<Longrightarrow> loop_thread_ok t"
proof (induction rule: rtranclp_induct)
  case base
  show ?case by (simp add: loop_thread_ok_def EventLoopThread_def)
qed (rule loop_thread_step_ok)

text \<open>The pointer is only published while the loop exists, so \<^verbatim>\<open>startLoop\<close> returns a loop that exists.\<close>

lemma startLoop_returns_a_loop:
  assumes "loop_thread_step\<^sup>*\<^sup>* EventLoopThread t" "owner_stage t = Awaiting" "owner t = Some t'"
  shows "loop_ptr t' \<and> loop_exists t'"
  using loop_thread_reaches_ok [OF assms(1)] assms(2,3)
  by (auto simp: loop_thread_ok_def loop_exists_def split: if_splits)

text \<open>It cannot wait for ever either: while the owner waits, the thread goes on.\<close>

lemma startLoop_progress:
  assumes "loop_thread_step\<^sup>*\<^sup>* EventLoopThread t" "owner_stage t = Awaiting" "\<not> loop_ptr t" "loop_exists t" "thread_stage t \<noteq> Cleared"
  shows "threadFunc t = Some (t\<lparr>loop_ptr := True, thread_stage := Published\<rparr>)"
  using loop_thread_reaches_ok [OF assms(1)] assms(2-5)
  by (auto simp: loop_thread_ok_def loop_exists_def)

section \<open>Observations\<close>

fun by_turns :: "bool list \<Rightarrow> loop_thread \<Rightarrow> loop_thread option" where
  "by_turns [] t = Some t"
| "by_turns (o' # os) t = (case (if o' then owner t else threadFunc t) of None \<Rightarrow> None | Some t \<Rightarrow> by_turns os t)"

lemma by_turns_reaches: "by_turns os t = Some t' \<Longrightarrow> loop_thread_step\<^sup>*\<^sup>* t t'"
proof (induction os arbitrary: t)
  case (Cons o' os)
  then obtain u where u: "(if o' then owner t else threadFunc t) = Some u" "by_turns os u = Some t'"
    by (auto split: option.splits simp del: owner.simps threadFunc.simps)
  then have "loop_thread_step t u" by (cases o') (auto intro: by_thread by_owner simp del: owner.simps threadFunc.simps)
  then show ?case using Cons.IH [OF u(2)] by (rule converse_rtranclp_into_rtranclp)
qed simp

text \<open>
  Destroyed right after it was started, the object can wait for ever: its \<^verbatim>\<open>quit\<close> comes before the
  thread enters \<^verbatim>\<open>loop()\<close>, which clears the flag, and nobody sets it again.
\<close>

lemma destructor_can_hang:
  "\<exists>t. loop_thread_step\<^sup>*\<^sup>* EventLoopThread t \<and> owner_stage t = Joining_Thread \<and> thread_stage t = In_Loop \<and>
    (\<forall>t'. \<not> loop_thread_step t t')"
proof -
  define t where "t = \<lparr>loop_ptr = True, loop_quit = False, exiting = True, thread_stage = In_Loop, owner_stage = Joining_Thread\<rparr>"
  have "by_turns [True, False, True, True, True, False] EventLoopThread = Some t"
    by (simp add: EventLoopThread_def t_def)
  then have "loop_thread_step\<^sup>*\<^sup>* EventLoopThread t" by (rule by_turns_reaches)
  moreover have "\<not> loop_thread_step t t'" for t'
    by (auto simp: t_def elim: loop_thread_step.cases)
  ultimately show ?thesis by (auto simp: t_def)
qed

text \<open>
  The pointer is read without the lock: when somebody else ends the loop at that moment, \<^verbatim>\<open>quit\<close> is
  called on a loop that no longer exists.
\<close>

lemma destructor_uses_dead_loop:
  "\<exists>t. loop_thread_step\<^sup>*\<^sup>* EventLoopThread t \<and> owner_stage t = Saw_Loop \<and> \<not> loop_exists t"
proof -
  define t where "t = \<lparr>loop_ptr = True, loop_quit = False, exiting = False, thread_stage = In_Loop, owner_stage = Started\<rparr>"
  define t' where "t' = \<lparr>loop_ptr = False, loop_quit = True, exiting = True, thread_stage = Ended, owner_stage = Saw_Loop\<rparr>"
  have "by_turns [True, False, True, False] EventLoopThread = Some t" by (simp add: EventLoopThread_def t_def)
  then have "loop_thread_step\<^sup>*\<^sup>* EventLoopThread t" by (rule by_turns_reaches)
  moreover have "loop_thread_step t (t\<lparr>loop_quit := True\<rparr>)" by (rule by_others) (simp_all add: t_def loop_exists_def)
  moreover have "by_turns [True, False, False, False] (t\<lparr>loop_quit := True\<rparr>) = Some t'" by (simp add: t_def t'_def)
  then have "loop_thread_step\<^sup>*\<^sup>* (t\<lparr>loop_quit := True\<rparr>) t'" by (rule by_turns_reaches)
  ultimately have "loop_thread_step\<^sup>*\<^sup>* EventLoopThread t'" by (meson rtranclp.rtrancl_into_rtrancl rtranclp_trans)
  then show ?thesis by (rule exI [of _ t', OF conjI]) (simp add: t'_def loop_exists_def)
qed

end
