(* ===== verification/Reactor_Main.thy ===== *)
theory Reactor_Main
  imports Tcp_Server Tcp_Connection
begin

text \<open>
  \<^verbatim>\<open>reactor_net/src/main.cpp\<close>: the command line of the demonstration and the two servers it puts
  together, a \<^verbatim>\<open>TcpServer\<close> with the callbacks of its connections. The callbacks for a connection that
  comes up or goes down only print; there is none for a completed write.
\<close>

section \<open>The two servers\<close>

definition echo_callbacks :: user_callbacks where
  "echo_callbacks = \<lparr>on_connection = (\<lambda>_. []), on_message = echo_onMessage, on_write_complete = []\<rparr>"

definition http_callbacks :: "(string \<Rightarrow> string option) \<Rightarrow> string \<Rightarrow> user_callbacks" where
  "http_callbacks fs docRoot =
     \<lparr>on_connection = (\<lambda>_. []), on_message = onMessage fs docRoot, on_write_complete = []\<rparr>"

record app =
  app_server :: server
  app_callbacks :: user_callbacks
  app_listen :: inet_address

definition EchoServer :: "inet_address \<Rightarrow> app" where
  "EchoServer addr = \<lparr>app_server = TcpServer ''EchoServer'', app_callbacks = echo_callbacks, app_listen = addr\<rparr>"

definition HttpServer :: "(string \<Rightarrow> string option) \<Rightarrow> inet_address \<Rightarrow> string \<Rightarrow> app" where
  "HttpServer fs addr docRoot =
     \<lparr>app_server = TcpServer ''HttpServer'', app_callbacks = http_callbacks fs docRoot, app_listen = addr\<rparr>"

definition app_start :: "int \<Rightarrow> app \<Rightarrow> app option" where
  "app_start n a = map_option (\<lambda>s. a\<lparr>app_server := start s\<rparr>) (setThreadNum n (app_server a))"

section \<open>main\<close>

text \<open>The arguments after the program's name: \<^term>\<open>None\<close>, only the usage is printed; else the mode and the number of threads.\<close>

fun parse_args :: "string list \<Rightarrow> cxx_exn + (bool \<times> int) option" where
  "parse_args [] = Inr (Some (False, 0))"
| "parse_args (a # as) =
     (if a = ''http'' then
        (case as of
           [] \<Rightarrow> Inr (Some (True, 0))
         | b # bs \<Rightarrow> (case stoi b of Inl e \<Rightarrow> Inl e | Inr n \<Rightarrow> Inr (Some (True, n))))
      else if a = ''-h'' \<or> a = ''--help'' then Inr None
      else case stoi a of Inl e \<Rightarrow> Inl e | Inr n \<Rightarrow> Inr (Some (False, n)))"

definition document_root :: "(string \<Rightarrow> string option) \<Rightarrow> string" where
  "document_root fs = (if fs (''../www/'' @ ''index.html'') = None then ''www/'' else ''../www/'')"

datatype main_result = Uncaught_Exception cxx_exn | Usage | Assertion | Serving app

definition reactor_main :: "(string \<Rightarrow> string option) \<Rightarrow> string list \<Rightarrow> main_result" where
  "reactor_main fs args =
     (let listenAddr = InetAddress 8080 [] False
      in case parse_args args of
           Inl e \<Rightarrow> Uncaught_Exception e
         | Inr None \<Rightarrow> Usage
         | Inr (Some (httpMode, numThreads)) \<Rightarrow>
             (case app_start numThreads
                     (if httpMode then HttpServer fs listenAddr (document_root fs) else EchoServer listenAddr) of
                None \<Rightarrow> Assertion
              | Some a \<Rightarrow> Serving a))"

section \<open>Facts\<close>

lemma app_start_fresh:
  "app_server a = TcpServer name \<Longrightarrow>
    app_start n a = Some (a\<lparr>app_server := start ((TcpServer name)\<lparr>threadNum := n\<rparr>)\<rparr>)"
  by (simp add: app_start_def setThreadNum_def TcpServer_def)

lemma main_never_asserts: "reactor_main fs args \<noteq> Assertion"
  by (auto simp: reactor_main_def Let_def app_start_fresh EchoServer_def HttpServer_def split: sum.split option.split)

text \<open>
  With a positive number of threads the program runs a server that is in the initial state of the
  component \<^verbatim>\<open>TcpServer\<close>, with that many loops, so that everything proved of it holds from there on.
\<close>

lemma main_starts_server:
  assumes "parse_args args = Inr (Some (mode, n))" "0 < n"
  shows "\<exists>a name. reactor_main fs args = Serving a \<and> server_reaches name n (app_server a) \<and>
    subLoops (app_server a) = [1..<nat n + 1] \<and>
    app_callbacks a = (if mode then http_callbacks fs (document_root fs) else echo_callbacks)"
proof -
  define name where "name = (if mode then ''HttpServer'' else ''EchoServer'')"
  define s where "s = start ((TcpServer name)\<lparr>threadNum := n\<rparr>)"
  have r: "server_reaches name n s"
    unfolding s_def by (rule server_start) (simp add: setThreadNum_def TcpServer_def)
  have "\<exists>a. reactor_main fs args = Serving a \<and> app_server a = s \<and>
      app_callbacks a = (if mode then http_callbacks fs (document_root fs) else echo_callbacks)"
    using assms(1) by (simp add: reactor_main_def Let_def app_start_fresh EchoServer_def HttpServer_def name_def s_def)
  then show ?thesis using r server_reaches_ok [OF r assms(2)] by blast
qed

text \<open>The command lines of the usage message.\<close>

lemma usage_examples:
  "parse_args [] = Inr (Some (False, 0)) \<and> parse_args [''4''] = Inr (Some (False, 4)) \<and>
   parse_args [''http''] = Inr (Some (True, 0)) \<and> parse_args [''http'', ''4''] = Inr (Some (True, 4)) \<and>
   parse_args [''--help''] = Inr None"
  by code_simp

text \<open>Any other word ends the program with an exception.\<close>

lemma unknown_argument_throws: "reactor_main fs [''https''] = Uncaught_Exception Invalid_argument"
proof -
  have "parse_args [''https''] = Inl Invalid_argument" by code_simp
  then show ?thesis by (simp add: reactor_main_def)
qed

text \<open>A negative number of threads means none, like zero.\<close>

lemma negative_threads: "n \<le> 0 \<Longrightarrow> subLoops (start ((TcpServer name)\<lparr>threadNum := n\<rparr>)) = []"
  by (simp add: start_def TcpServer_def)

end
