(* ===== verification/Memory_Pool.thy ===== *)
theory Memory_Pool
  imports Prelude
begin

text \<open>
  \<^verbatim>\<open>pool/pool.c\<close>: a pool of blocks of one size, cut from one allocation in order and kept, when they
  are freed, in a list whose links are stored in the freed blocks themselves. Addresses are numbers;
  the memory is what the first bytes of each block hold when they are read as a pointer. The user
  of the pool may write to the blocks it was given.
\<close>

section \<open>The pool\<close>

record memory_pool =
  block_size :: usize
  total_blocks :: usize
  used_count :: usize
  pool_start :: nat
  next_free :: nat
  free_list_head :: "nat option"

text \<open>\<^verbatim>\<open>sizeof(struct Node)\<close> and the results of the two calls of \<^verbatim>\<open>malloc\<close>, the second of the product.\<close>

definition sizeof_Node :: usize where
  "sizeof_Node = 8"

definition node_sized :: "usize \<Rightarrow> usize" where
  "node_sized sz = (if sz < sizeof_Node then sizeof_Node else sz)"

definition arena_bytes :: "usize \<Rightarrow> usize \<Rightarrow> usize" where
  "arena_bytes sz num_blocks = node_sized sz * num_blocks"

definition pool_init :: "usize \<Rightarrow> usize \<Rightarrow> bool \<Rightarrow> nat option \<Rightarrow> memory_pool option" where
  "pool_init sz num_blocks malloc_ok arena =
     (if \<not> malloc_ok then None
      else case arena of
             None \<Rightarrow> None
           | Some start \<Rightarrow> Some \<lparr>block_size = node_sized sz, total_blocks = num_blocks, used_count = 0,
               pool_start = start, next_free = start, free_list_head = None\<rparr>)"

type_synonym links = "nat \<Rightarrow> nat option"

definition pool_alloc :: "memory_pool \<times> links \<Rightarrow> nat option \<times> memory_pool \<times> links" where
  "pool_alloc pm =
     (case pm of (pool, mem) \<Rightarrow>
        case free_list_head pool of
          Some node \<Rightarrow> (Some node, pool\<lparr>free_list_head := mem node\<rparr>, mem)
        | None \<Rightarrow>
            let linear_used = (next_free pool - pool_start pool) div unat (block_size pool)
            in if linear_used < unat (total_blocks pool)
               then (Some (next_free pool),
                 pool\<lparr>next_free := next_free pool + unat (block_size pool), used_count := used_count pool + 1\<rparr>, mem)
               else (None, pool, mem))"

definition pool_free :: "nat option \<Rightarrow> memory_pool \<times> links \<Rightarrow> memory_pool \<times> links" where
  "pool_free ptr pm =
     (case ptr of
        None \<Rightarrow> pm
      | Some node \<Rightarrow>
          (case pm of (pool, mem) \<Rightarrow>
             (pool\<lparr>free_list_head := Some node, used_count := used_count pool - 1\<rparr>,
              mem(node := free_list_head pool))))"

section \<open>Use of the pool\<close>

text \<open>
  A program that allocates, frees blocks it holds, each once, and writes what it likes to blocks it
  holds. The first component is the blocks it holds.
\<close>

inductive pool_use :: "nat list \<times> memory_pool \<times> links \<Rightarrow> nat list \<times> memory_pool \<times> links \<Rightarrow> bool" where
  use_alloc: "pool_alloc pm = (Some b, pm') \<Longrightarrow> pool_use (live, pm) (b # live, pm')"
| use_fail: "pool_alloc pm = (None, pm') \<Longrightarrow> pool_use (live, pm) (live, pm')"
| use_free: "b \<in> set live \<Longrightarrow> pool_use (live, pm) (remove1 b live, pool_free (Some b) pm)"
| use_write: "b \<in> set live \<Longrightarrow> pool_use (live, pool, mem) (live, pool, mem(b := v))"

inductive pool_used :: "usize \<Rightarrow> usize \<Rightarrow> nat \<Rightarrow> nat list \<times> memory_pool \<times> links \<Rightarrow> bool" for sz n start where
  used_init: "pool_init sz n True (Some start) = Some pool \<Longrightarrow> pool_used sz n start ([], pool, mem)"
| used_next: "pool_used sz n start s \<Longrightarrow> pool_use s s' \<Longrightarrow> pool_used sz n start s'"

section \<open>Invariant\<close>

text \<open>The free list, read off the memory.\<close>

fun chain :: "links \<Rightarrow> nat option \<Rightarrow> nat list \<Rightarrow> bool" where
  "chain mem p [] \<longleftrightarrow> p = None"
| "chain mem p (b # bs) \<longleftrightarrow> p = Some b \<and> chain mem (mem b) bs"

definition block :: "nat \<Rightarrow> nat \<Rightarrow> nat \<Rightarrow> nat" where
  "block start w i = start + i * w"

definition blocks_ok :: "usize \<Rightarrow> usize \<Rightarrow> nat \<Rightarrow> nat list \<Rightarrow> memory_pool \<Rightarrow> links \<Rightarrow> nat list \<Rightarrow> nat \<Rightarrow> bool" where
  "blocks_ok sz n start live pool mem free carved \<longleftrightarrow>
     block_size pool = node_sized sz \<and> total_blocks pool = n \<and> pool_start pool = start \<and>
     next_free pool = block start (unat (node_sized sz)) carved \<and> carved \<le> unat n \<and>
     chain mem (free_list_head pool) free \<and> distinct (live @ free) \<and>
     set (live @ free) = block start (unat (node_sized sz)) ` {..<carved}"

lemma node_sized_pos: "0 < unat (node_sized sz)"
  by (auto simp: node_sized_def sizeof_Node_def usize_less_iff)

lemma block_inj: "0 < w \<Longrightarrow> block start w i = block start w j \<longleftrightarrow> i = j"
  by (simp add: block_def)

lemma chain_cong: "chain mem p bs \<Longrightarrow> b \<notin> set bs \<Longrightarrow> chain (mem(b := v)) p bs"
  by (induction mem p bs rule: chain.induct) auto

lemma card_blocks:
  assumes "blocks_ok sz n start live pool mem free carved"
  shows "length live + length free = carved"
proof -
  have "length (live @ free) = card (block start (unat (node_sized sz)) ` {..<carved})"
    using assms distinct_card by (metis blocks_ok_def)
  also have "\<dots> = carved"
    by (subst card_image) (simp_all add: inj_on_def block_inj node_sized_pos)
  finally show ?thesis by simp
qed

text \<open>Allocation takes the most recently freed block, else the next one of the arena, else fails.\<close>

lemma alloc_ok:
  assumes ok: "blocks_ok sz n start live pool mem free carved"
  shows "\<exists>r pool'. pool_alloc (pool, mem) = (r, pool', mem) \<and>
    (case r of
       None \<Rightarrow> free = [] \<and> carved = unat n \<and> pool' = pool
     | Some b \<Rightarrow> b \<notin> set live \<and>
         (\<exists>free' carved'. blocks_ok sz n start (b # live) pool' mem free' carved' \<and> (free \<noteq> [] \<longrightarrow> b = hd free)))"
proof (cases free)
  case (Cons b bs)
  then have head: "free_list_head pool = Some b" and rest: "chain mem (mem b) bs" using ok by (auto simp: blocks_ok_def)
  have "blocks_ok sz n start (b # live) (pool\<lparr>free_list_head := mem b\<rparr>) mem bs carved"
    using ok rest Cons by (auto simp: blocks_ok_def)
  moreover have "b \<notin> set live" using ok Cons by (auto simp: blocks_ok_def)
  ultimately show ?thesis using head Cons by (auto simp: pool_alloc_def)
next
  case Nil
  let ?w = "unat (node_sized sz)"
  have w: "0 < ?w" by (rule node_sized_pos)
  have head: "free_list_head pool = None" using ok Nil by (simp add: blocks_ok_def)
  have lin: "(next_free pool - pool_start pool) div unat (block_size pool) = carved"
    using ok w by (simp add: blocks_ok_def block_def)
  show ?thesis
  proof (cases "carved < unat n")
    case False
    then show ?thesis using ok Nil head lin by (simp add: pool_alloc_def blocks_ok_def)
  next
    case True
    let ?pool = "pool\<lparr>next_free := next_free pool + unat (block_size pool), used_count := used_count pool + 1\<rparr>"
    have fresh: "block start ?w carved \<notin> set live"
      using ok Nil block_inj [OF w] by (auto simp: blocks_ok_def)
    have "blocks_ok sz n start (block start ?w carved # live) ?pool mem [] (carved + 1)"
      using ok Nil True head fresh by (auto simp: blocks_ok_def block_def lessThan_Suc)
    moreover have "pool_alloc (pool, mem) = (Some (block start ?w carved), ?pool, mem)"
      using head lin True ok by (simp add: pool_alloc_def blocks_ok_def Let_def)
    ultimately show ?thesis using fresh Nil by auto
  qed
qed

lemma free_ok:
  assumes ok: "blocks_ok sz n start live pool mem free carved" and b: "b \<in> set live"
    and f: "pool_free (Some b) (pool, mem) = (pool', mem')"
  shows "blocks_ok sz n start (remove1 b live) pool' mem' (b # free) carved"
proof -
  have "b \<notin> set free" "distinct live" using ok b by (auto simp: blocks_ok_def)
  moreover from this have "chain mem' (Some b) (b # free)"
    using ok f chain_cong by (auto simp: blocks_ok_def pool_free_def)
  moreover have "set (remove1 b live @ b # free) = set (live @ free)" using b \<open>distinct live\<close> by auto
  ultimately show ?thesis using ok f by (auto simp: blocks_ok_def pool_free_def)
qed

lemma pool_used_ok:
  assumes "pool_used sz n start s"
  shows "\<exists>free carved. blocks_ok sz n start (fst s) (fst (snd s)) (snd (snd s)) free carved"
  using assms
proof induction
  case (used_init pool mem)
  then show ?case
    by (intro exI [of _ "[]"] exI [of _ 0]) (auto simp: pool_init_def blocks_ok_def block_def)
next
  case (used_next s s')
  obtain live pool mem where s: "s = (live, pool, mem)" by (cases s)
  obtain free carved where ok: "blocks_ok sz n start live pool mem free carved" using used_next.IH s by auto
  show ?case
    using used_next.hyps(2) unfolding s
  proof cases
    case (use_alloc b pm')
    then show ?thesis using alloc_ok [OF ok] by auto blast
  next
    case (use_fail pm')
    then show ?thesis using alloc_ok [OF ok] ok by auto
  next
    case (use_free b)
    obtain pool' mem' where f: "pool_free (Some b) (pool, mem) = (pool', mem')" by (cases "pool_free (Some b) (pool, mem)")
    then have "fst s' = remove1 b live" "snd s' = (pool', mem')" using use_free(1) by simp_all
    then show ?thesis
      using free_ok [OF ok use_free(2) f] by (intro exI [of _ "b # free"] exI [of _ carved]) simp
  next
    case (use_write b v)
    have "b \<notin> set free" using ok use_write(2) by (auto simp: blocks_ok_def)
    moreover have "chain mem (free_list_head pool) free" using ok by (simp add: blocks_ok_def)
    ultimately have "chain (mem(b := v)) (free_list_head pool) free" using chain_cong by blast
    then have "blocks_ok sz n start live pool (mem(b := v)) free carved" using ok by (simp add: blocks_ok_def)
    then show ?thesis using use_write(1) by (simp del: fun_upd_apply) blast
  qed
qed

section \<open>Properties\<close>

text \<open>
  C16: The blocks a program holds never overlap and lie in the arena. Whatever it allocated, freed
  and wrote before, as long as it frees and writes only what it holds: if the size of the arena did
  not wrap around, every block it holds is inside the arena, two different ones have no byte in
  common, there are never more than the pool was made for, and the next allocation fails exactly
  when it holds that many.\<close>

theorem held_blocks_are_separate:
  assumes "pool_used sz n start (live, pool, mem)" "unat (node_sized sz) * unat n < SIZE_MAX_P1"
  shows "(\<forall>b \<in> set live. start \<le> b \<and> b + unat (node_sized sz) \<le> start + unat (arena_bytes sz n)) \<and>
    (\<forall>b \<in> set live. \<forall>c \<in> set live. b \<noteq> c \<longrightarrow> b + unat (node_sized sz) \<le> c \<or> c + unat (node_sized sz) \<le> b) \<and>
    distinct live \<and> length live \<le> unat n \<and>
    (fst (pool_alloc (pool, mem)) = None \<longleftrightarrow> length live = unat n)"
proof -
  let ?w = "unat (node_sized sz)"
  obtain free k where ok: "blocks_ok sz n start live pool mem free k" using pool_used_ok [OF assms(1)] by auto
  have bytes: "unat (arena_bytes sz n) = ?w * unat n"
    using assms(2) by (simp add: arena_bytes_def unat_word_ariths)
  have idx: "\<exists>i < unat n. b = start + i * ?w" if "b \<in> set live" for b
  proof -
    have "b \<in> block start ?w ` {..<k}" "k \<le> unat n" using ok that by (auto simp: blocks_ok_def)
    then obtain i where "i < k" "b = start + i * ?w" by (auto simp: block_def)
    then show ?thesis using \<open>k \<le> unat n\<close> by (intro exI [of _ i]) simp
  qed
  have inside: "start \<le> b \<and> b + ?w \<le> start + unat (arena_bytes sz n)" if live: "b \<in> set live" for b
  proof -
    obtain i where i: "i < unat n" "b = start + i * ?w" using idx [OF live] by blast
    have "(i + 1) * ?w \<le> unat n * ?w" using i(1) by (intro mult_right_mono) auto
    then show ?thesis using i(2) by (simp add: bytes algebra_simps)
  qed
  have apart: "b + ?w \<le> c \<or> c + ?w \<le> b" if bc: "b \<in> set live" "c \<in> set live" "b \<noteq> c" for b c
  proof -
    obtain i j where i: "b = start + i * ?w" and j: "c = start + j * ?w" using idx bc by metis
    then have "i < j \<or> j < i" using bc(3) by (metis linorder_less_linear)
    moreover have "x < y \<Longrightarrow> x * ?w + ?w \<le> y * ?w" for x y
      using mult_right_mono [of "x + 1" y ?w] by (simp add: algebra_simps)
    ultimately show ?thesis using i j by fastforce
  qed
  have len: "length live + length free = k" "k \<le> unat n" using card_blocks [OF ok] ok by (auto simp: blocks_ok_def)
  obtain r pool' where r: "pool_alloc (pool, mem) = (r, pool', mem)"
    "case r of None \<Rightarrow> free = [] \<and> k = unat n \<and> pool' = pool
     | Some b \<Rightarrow> b \<notin> set live \<and> (\<exists>free' k'. blocks_ok sz n start (b # live) pool' mem free' k' \<and> (free \<noteq> [] \<longrightarrow> b = hd free))"
    using alloc_ok [OF ok] by blast
  have "r = None \<longleftrightarrow> length live = unat n"
  proof (cases r)
    case None
    then show ?thesis using r(2) len by simp
  next
    case (Some b)
    then obtain free' k' where e: "blocks_ok sz n start (b # live) pool' mem free' k'" using r(2) by auto
    have "length (b # live) + length free' = k'" by (rule card_blocks [OF e])
    moreover have "k' \<le> unat n" using e by (simp add: blocks_ok_def)
    ultimately have "length live < unat n" by simp
    then show ?thesis using Some by simp
  qed
  then show ?thesis using inside apart ok len r(1) by (auto simp: blocks_ok_def)
qed

text \<open>A block freed is the next one given out, whatever is done to other blocks in between.\<close>

lemma freed_block_is_reused:
  "pool_free (Some b) (pool, mem) = pm \<Longrightarrow> fst (pool_alloc pm) = Some b"
  by (auto simp: pool_free_def pool_alloc_def)

definition demo_pool :: memory_pool where
  "demo_pool = the (pool_init 64 10 True (Some 4096))"

definition demo_held :: "nat list \<times> memory_pool \<times> links" where
  "demo_held = ([4160, 4096], snd (pool_alloc (snd (pool_alloc (demo_pool, \<lambda>_. None)))))"

lemma demo_pool_used: "pool_used 64 10 4096 demo_held"
proof -
  have p: "demo_pool = \<lparr>block_size = 64, total_blocks = 10, used_count = 0, pool_start = 4096, next_free = 4096, free_list_head = None\<rparr>"
    by (simp add: demo_pool_def pool_init_def node_sized_def sizeof_Node_def)
  have init: "pool_used 64 10 4096 ([], demo_pool, \<lambda>_. None)"
    by (rule used_init) (simp add: demo_pool_def pool_init_def)
  have a1: "pool_alloc (demo_pool, \<lambda>_. None) = (Some 4096, demo_pool\<lparr>next_free := 4160, used_count := 1\<rparr>, \<lambda>_. None)"
    by (simp add: pool_alloc_def p)
  have a2: "pool_alloc (demo_pool\<lparr>next_free := 4160, used_count := 1\<rparr>, \<lambda>_. None) =
      (Some (4160), demo_pool\<lparr>next_free := 4224, used_count := 2\<rparr>, \<lambda>_. None)"
    by (simp add: pool_alloc_def p)
  show ?thesis
    using used_next [OF used_next [OF init use_alloc [OF a1]] use_alloc [OF a2]] by (simp add: demo_held_def a1 a2)
qed

theorem held_blocks_are_separate_witness:
  "\<exists>live pool mem. pool_used 64 10 4096 (live, pool, mem) \<and> live = [4160, 4096] \<and> length live \<le> 10 \<and>
    fst (pool_alloc (pool, mem)) \<noteq> None"
proof -
  obtain live pool mem where h: "demo_held = (live, pool, mem)" by (cases demo_held)
  have u: "pool_used 64 10 4096 (live, pool, mem)" using demo_pool_used h by simp
  moreover have "live = [4160, 4096]" using h by (simp add: demo_held_def)
  moreover have "unat (node_sized 64) * unat (10 :: usize) < SIZE_MAX_P1"
    by (simp add: node_sized_def sizeof_Node_def)
  ultimately show ?thesis using held_blocks_are_separate [OF u] by auto
qed

section \<open>Observations\<close>

text \<open>
  The count of used blocks goes down with every free but up only with blocks cut from the arena:
  after allocating, freeing, and allocating and freeing again it has wrapped around.
\<close>

lemma used_count_wraps:
  assumes "pool_init 64 10 True (Some a) = Some pool"
  shows "used_count (fst (pool_free (Some a) (snd (pool_alloc (pool_free (Some a) (snd (pool_alloc (pool, mem)))))))) = -1"
  using assms by (auto simp: pool_init_def pool_alloc_def pool_free_def node_sized_def sizeof_Node_def)

text \<open>The size of the arena can wrap around: then it has room for no block at all, and yet blocks are given out.\<close>

lemma arena_size_wraps:
  "arena_bytes 0x8000000000000000 2 = 0 \<and>
   fst (pool_alloc (the (pool_init 0x8000000000000000 2 True (Some a)), mem)) = Some a"
  by (simp add: arena_bytes_def node_sized_def sizeof_Node_def pool_init_def pool_alloc_def)

end
