(* ===== verification/File_Header.thy ===== *)
theory File_Header
  imports Prelude
begin

text \<open>
  \<^verbatim>\<open>struct/struct.c\<close>: a file header of one sector, written to a file as it lies in memory. The
  structure is packed, so its fields follow each other without padding; their bytes are in the order
  of a little-endian machine.
\<close>

section \<open>Layout\<close>

type_synonym byte = "8 word"

definition SECTOR_SIZE :: nat where
  "SECTOR_SIZE = 512"

definition RESERVED_SIZE :: nat where
  "RESERVED_SIZE = 494"

record file_header =
  magic :: u32
  version :: u16
  file_size :: u64
  align_offset :: u32
  reserved :: "byte list"

text \<open>The \<open>n\<close> low bytes of a number, lowest first, and back.\<close>

fun le_bytes :: "nat \<Rightarrow> nat \<Rightarrow> byte list" where
  "le_bytes 0 x = []"
| "le_bytes (Suc n) x = of_nat (x mod 256) # le_bytes n (x div 256)"

fun le_value :: "byte list \<Rightarrow> nat" where
  "le_value [] = 0"
| "le_value (b # bs) = unat b + 256 * le_value bs"

text \<open>The bytes of the object, and the object whose bytes these are.\<close>

definition header_bytes :: "file_header \<Rightarrow> byte list" where
  "header_bytes h = le_bytes 4 (unat (magic h)) @ le_bytes 2 (unat (version h)) @ le_bytes 8 (unat (file_size h)) @
     le_bytes 4 (unat (align_offset h)) @ reserved h"

definition header_of :: "byte list \<Rightarrow> file_header" where
  "header_of bs =
     \<lparr>magic = of_nat (le_value (take 4 bs)),
      version = of_nat (le_value (take 2 (drop 4 bs))),
      file_size = of_nat (le_value (take 8 (drop 6 bs))),
      align_offset = of_nat (le_value (take 4 (drop 14 bs))),
      reserved = drop 18 bs\<rparr>"

text \<open>An object of the type: its array has all its elements.\<close>

definition header_ok :: "file_header \<Rightarrow> bool" where
  "header_ok h \<longleftrightarrow> length (reserved h) = RESERVED_SIZE"

definition sizeof_FileHeader :: nat where
  "sizeof_FileHeader = 4 + 2 + 8 + 4 + RESERVED_SIZE"

text \<open>What \<^verbatim>\<open>print_layout\<close> prints: the offsets of the fields.\<close>

definition layout :: "(string \<times> nat) list" where
  "layout = [(''magic'', 0), (''version'', 4), (''file_size'', 4 + 2), (''align_offset'', 4 + 2 + 8),
     (''reserved'', 4 + 2 + 8 + 4)]"

section \<open>Writing\<close>

text \<open>
  The file's new content, \<^term>\<open>None\<close> when it could not be opened, and the function's result. How many
  bytes reach the file, and whether closing it succeeds, are arguments; \<^verbatim>\<open>fwrite\<close> of one object counts
  it only when it is written as a whole. Opening for writing empties the file.
\<close>

definition write_header :: "bool \<Rightarrow> nat \<Rightarrow> bool \<Rightarrow> file_header \<Rightarrow> byte list option \<times> nat" where
  "write_header open_ok taken close_ok header =
     (if \<not> open_ok then (None, 1)
      else
        let data = take taken (header_bytes header);
            written = (if sizeof_FileHeader \<le> taken then 1 else 0 :: nat)
        in if written \<noteq> 1 then (Some data, 1) else if \<not> close_ok then (Some data, 1) else (Some data, 0))"

text \<open>The header that \<^verbatim>\<open>main\<close> writes.\<close>

definition main_header :: file_header where
  "main_header = \<lparr>magic = 0x44484D47, version = 0x0102, file_size = 0x1122334455667788, align_offset = 0xAABBCCDD,
     reserved = replicate RESERVED_SIZE 0\<rparr>"

section \<open>Properties\<close>

lemma length_le_bytes [simp]: "length (le_bytes n x) = n"
  by (induction n arbitrary: x) simp_all

lemma le_value_bytes: "le_value (le_bytes n x) = x mod 256 ^ n"
proof (induction n arbitrary: x)
  case (Suc n)
  have "unat (of_nat (x mod 256) :: byte) = x mod 256"
    by (simp add: unat_of_nat take_bit_eq_mod)
  then show ?case using Suc by (simp add: mod_mult2_eq [of x 256])
qed simp

lemma le_value_word:
  fixes w :: "'a::len word"
  assumes "LENGTH('a) = 8 * n"
  shows "of_nat (le_value (le_bytes n (unat w))) = w"
proof -
  have "unat w < 2 ^ (8 * n)" using unsigned_less [of w] assms by simp
  then have "unat w mod 256 ^ n = unat w" by (simp add: power_mult)
  then show ?thesis by (simp add: le_value_bytes)
qed

lemma length_header_bytes: "header_ok h \<Longrightarrow> length (header_bytes h) = 512"
  by (simp add: header_bytes_def header_ok_def RESERVED_SIZE_def)

text \<open>The offsets that are printed are those of the encoding.\<close>

lemma layout_offsets:
  "take 4 (header_bytes h) = le_bytes 4 (unat (magic h))"
  "take 2 (drop 4 (header_bytes h)) = le_bytes 2 (unat (version h))"
  "take 8 (drop 6 (header_bytes h)) = le_bytes 8 (unat (file_size h))"
  "take 4 (drop 14 (header_bytes h)) = le_bytes 4 (unat (align_offset h))"
  "drop 18 (header_bytes h) = reserved h"
  by (simp_all add: header_bytes_def)

text \<open>
  C40: A header written is the header read. If the function reports success, the file holds exactly
  one sector, and its bytes are those of the header: reading them back as a header gives the one
  that was written, every field of it.\<close>

theorem written_header_reads_back:
  assumes "header_ok h" "write_header open_ok taken close_ok h = (f, 0)"
  shows "\<exists>bs. f = Some bs \<and> length bs = SECTOR_SIZE \<and> header_of bs = h"
proof -
  have len: "length (header_bytes h) = 512" by (rule length_header_bytes [OF assms(1)])
  have "512 \<le> taken" "f = Some (take taken (header_bytes h))"
    using assms(2) by (auto simp: write_header_def Let_def sizeof_FileHeader_def RESERVED_SIZE_def split: if_splits)
  then have fb: "f = Some (header_bytes h)" using len by simp
  have "header_of (header_bytes h) = h"
    by (simp add: header_of_def layout_offsets le_value_word)
  then show ?thesis using fb len by (simp add: SECTOR_SIZE_def)
qed

theorem written_header_reads_back_witness:
  "header_of (the (fst (write_header True 512 True main_header))) = main_header"
proof -
  have ok: "header_ok main_header" by (simp add: header_ok_def main_header_def)
  have w: "write_header True 512 True main_header = (Some (take 512 (header_bytes main_header)), 0)"
    by (simp add: write_header_def sizeof_FileHeader_def RESERVED_SIZE_def)
  show ?thesis using written_header_reads_back [OF ok w] w by auto
qed

text \<open>The compile-time assertion of the source.\<close>

lemma sizeof_is_sector: "sizeof_FileHeader = SECTOR_SIZE"
  by (simp add: sizeof_FileHeader_def SECTOR_SIZE_def RESERVED_SIZE_def)

text \<open>The first bytes of the file that the program writes.\<close>

lemma le_bytes_numeral:
  "le_bytes (numeral k) x = of_nat (x mod 256) # le_bytes (pred_numeral k) (x div 256)"
  by (subst numeral_eq_Suc) (rule le_bytes.simps(2))

lemma main_header_front:
  "take 18 (header_bytes main_header) =
     [0x47, 0x4D, 0x48, 0x44, 0x02, 0x01, 0x88, 0x77, 0x66, 0x55, 0x44, 0x33, 0x22, 0x11, 0xDD, 0xCC, 0xBB, 0xAA]"
  by (simp add: header_bytes_def main_header_def le_bytes_numeral)

end
