(* ===== verification/Spec2Isabelle.thy ===== *)
theory Spec2Isabelle
  imports Prelude Queue_Interface Ring_Buffer Spsc_Queue Spsc_Client Spsc_Tests Queue_Clients Ring_Demo Stream_Interface Byte_Buffer
    Std_Map Std_Format Std_Heap Http_Request Http_Response Http_Server Channel_Poller Event_Loop Loop_Threads
    Tcp_Connection Connection_Order Inet_Address Acceptor Socket_Options Reactor_Start Tcp_Server Server_Connections Timer_Queue Timer_List
    Timer_Clients Timer_Agreement Timer_Demo Multiset_Facts Thread_Pool Pool_Futures Pool_Tests Pool_Test_Results
    Pool_Scaling Pool_Suite Logger Log_Stress Log_Main Event_Loop_Thread Reactor_Main Memory_Pool File_Header
begin

text \<open>
  A verification library for the seven programs of the repository. This theory imports all others
  and says what they model and what they show; paths are those under \<^verbatim>\<open>src/\<close>.

  \<^bold>\<open>The programs.\<close> \<^verbatim>\<open>ring_buffer\<close> is a pair of bounded queues, one for a single producer and a
  single consumer without locks, one with a lock. \<^verbatim>\<open>reactor_net\<close> is a network library in the
  reactor style with an echo and an HTTP server on top: an event loop per thread, a poller over
  \<^verbatim>\<open>epoll\<close>, channels that dispatch reports, buffers, connections, an acceptor, a server that
  spreads connections over loops, and timers. \<^verbatim>\<open>timer\<close> is an independent sorted list of timers,
  \<^verbatim>\<open>thread_pool\<close> a pool with task priorities and idle threads that leave, \<^verbatim>\<open>logger\<close> a logger
  with rotating files. \<^verbatim>\<open>pool\<close> and \<^verbatim>\<open>struct\<close> are C: a pool of memory blocks, and a packed file
  header. The seven programs share no code; inside \<^verbatim>\<open>reactor_net\<close> the components call each other
  as follows, and the theories import each other in the same way.

    \<^item> The loop polls, dispatches the active channels, then calls the queued functors.
    \<^item> A channel calls the handlers of its owner: a connection, the acceptor, the timer queue or
      the loop's own wake-up descriptor.
    \<^item> A connection reads into its input buffer, hands it to the message callback (the HTTP
      parser and the response writer in the HTTP server) and sends from its output buffer.
    \<^item> The acceptor hands new sockets to the server, which creates a connection, picks a loop for
      it and is told by the connection's close callback when to forget it.
\<close>

section \<open>Which theory models what\<close>

text \<open>
  Shared: \<^verbatim>\<open>Prelude\<close> (64-bit \<open>usize\<close>, power-of-two masks, \<^verbatim>\<open>std::search\<close> and
  \<^verbatim>\<open>std::string::find\<close>, contiguous memory), \<^verbatim>\<open>Std_Map\<close> (the part of \<^verbatim>\<open>std::map\<close> in use, as
  lists sorted by key, behind the locale \<open>ordered_map\<close>), \<^verbatim>\<open>Std_Format\<close> (\<^verbatim>\<open>snprintf\<close>: decimals,
  padding, the cut at the size of the buffer), \<^verbatim>\<open>Std_Heap\<close> (the heap algorithms on vectors,
  behind the locale \<open>std_heap\<close>), \<^verbatim>\<open>Multiset_Facts\<close> (what a list of threads holds, when one
  entry changes).

    \<^item> \<^verbatim>\<open>Queue_Interface\<close>, \<^verbatim>\<open>Ring_Buffer\<close>: \<^verbatim>\<open>RingBufferBase\<close> and \<^verbatim>\<open>MPMCLockedQueue\<close> of
      \<^verbatim>\<open>ring_buffer/include/ring_buffer.h\<close>. The indexes are 64-bit words that wrap, the slots a
      list that is read and written through the mask.
    \<^item> \<^verbatim>\<open>Spsc_Queue\<close>: \<^verbatim>\<open>SPSCQueue\<close> of the same file. Each atomic load and store and each copy of
      one element is a step of a relation over all interleavings of the two threads.
    \<^item> \<^verbatim>\<open>ring_buffer/tests/test_ring_buffer.cpp\<close>: \<^verbatim>\<open>Spsc_Client\<close> has calls that run undisturbed and the
      test of the edge cases, \<^verbatim>\<open>Spsc_Tests\<close> the two tests in which a thread sends numbers to
      another, one at a time or in chunks, \<^verbatim>\<open>Queue_Clients\<close> the concurrent test of the locked queue.
      \<^verbatim>\<open>Ring_Demo\<close> has the demonstration \<^verbatim>\<open>ring_buffer/src/main.cpp\<close>, whose two parts are such runs
      with other numbers.
    \<^item> \<^verbatim>\<open>Stream_Interface\<close>, \<^verbatim>\<open>Byte_Buffer\<close>: \<^verbatim>\<open>reactor_net/src/Buffer.cpp\<close>, indexes and vector as in
      the code, \<^verbatim>\<open>makeSpace\<close> with its wrapping sum, \<^verbatim>\<open>readFd\<close> with the spare stack buffer.
    \<^item> \<^verbatim>\<open>Http_Request\<close>, \<^verbatim>\<open>Http_Response\<close>, \<^verbatim>\<open>Http_Server\<close>: the parser (the exceptions of
      \<^verbatim>\<open>std::stoi\<close> included), the response writer with its 256-byte line buffer, and the message
      callbacks of \<^verbatim>\<open>reactor_net/src/main.cpp\<close>.
    \<^item> \<^verbatim>\<open>Channel_Poller\<close>: \<^verbatim>\<open>Channel.cpp\<close>, \<^verbatim>\<open>EPollPoller.cpp\<close>, \<^verbatim>\<open>Poller.h\<close>: interest, registration
      and dispatch; the \<^verbatim>\<open>epoll_ctl\<close> calls are kept as a history that a model of the kernel's set
      executes.
    \<^item> \<^verbatim>\<open>Event_Loop\<close>: \<^verbatim>\<open>EventLoop.cpp\<close>: the rounds of the loop, the functor queue, the 64-bit counter
      of the wake-up descriptor and \<^verbatim>\<open>quit\<close>, interleaved with calls of other threads. \<^verbatim>\<open>Loop_Threads\<close>
      has any number of loops and threads and the checks that abort when a call comes from the wrong
      one; functors are lists of the calls they make.
    \<^item> \<^verbatim>\<open>Tcp_Connection\<close>, \<^verbatim>\<open>Connection_Order\<close>: \<^verbatim>\<open>TcpConnection.cpp\<close>: every handler and method, with
      failed assertions and escaping exceptions as error values, and the order of the states.
    \<^item> \<^verbatim>\<open>Inet_Address\<close>, \<^verbatim>\<open>Acceptor\<close>, \<^verbatim>\<open>Tcp_Server\<close>, \<^verbatim>\<open>Event_Loop_Thread\<close>, \<^verbatim>\<open>Reactor_Main\<close>: the
      classes of these names and the command line. The acceptor works on a table of descriptors with a
      limit; \<^verbatim>\<open>Socket_Options\<close> has the rest of \<^verbatim>\<open>Socket.cpp\<close>, options, \<^verbatim>\<open>bind\<close>, \<^verbatim>\<open>listen\<close> and the
      destructor, on a table of sockets, and \<^verbatim>\<open>Reactor_Start\<close> the descriptors that the program opens
      before it serves. \<^verbatim>\<open>Server_Connections\<close> composes the server with the connections it has made: a
      close callback is a call of the server, and what the server posts is a task of the connection.
    \<^item> \<^verbatim>\<open>Timer_Queue\<close>: \<^verbatim>\<open>Timer.cpp\<close> and \<^verbatim>\<open>TimerQueue.cpp\<close>: the heap, the set of active timers and the
      timerfd. \<^verbatim>\<open>Timer_List\<close>: \<^verbatim>\<open>timer/timer.cc\<close> over an explicit store of nodes.
      \<^verbatim>\<open>Timer_Clients\<close> abstracts the list and the data of its clients to a map from timers to
      expirations, \<^verbatim>\<open>Timer_Agreement\<close> compares the two implementations, and \<^verbatim>\<open>Timer_Demo\<close> is the
      program \<^verbatim>\<open>timer/main.cpp\<close>, step by step, with the readings of the clock as argument.
    \<^item> \<^verbatim>\<open>Thread_Pool\<close>: \<^verbatim>\<open>thread_pool/ThreadPool.h\<close>: workers, callers of \<^verbatim>\<open>submit\<close> and of the two ways
      to stop interleave at the locked sections. \<^verbatim>\<open>Pool_Futures\<close> adds what its users see: tasks with
      bodies on a shared memory, futures, and threads that run programs of calls. \<^verbatim>\<open>Pool_Tests\<close> writes
      the tests of \<^verbatim>\<open>thread_pool/main.cpp\<close> as such programs, \<^verbatim>\<open>Pool_Test_Results\<close> decides them,
      \<^verbatim>\<open>Pool_Scaling\<close> has the one whose tasks are several atomic operations each, as steps of the
      workers between the others, and \<^verbatim>\<open>Pool_Suite\<close> the program that runs all fourteen.
    \<^item> \<^verbatim>\<open>Logger\<close>: \<^verbatim>\<open>logger/src/log_file.cpp\<close>, \<^verbatim>\<open>logger/src/logger.cpp\<close> and their headers, over a
      file system that maps paths to contents. \<^verbatim>\<open>Log_Stress\<close> has the tests of \<^verbatim>\<open>logger/main.cpp\<close>, the
      second with several threads, and \<^verbatim>\<open>Log_Main\<close> the whole program from \<^verbatim>\<open>Init\<close> to its result.
    \<^item> \<^verbatim>\<open>Memory_Pool\<close>: \<^verbatim>\<open>pool/pool.c\<close>, over addresses and the links that free blocks hold.
      \<^verbatim>\<open>File_Header\<close>: \<^verbatim>\<open>struct/struct.c\<close>, the packed layout and the function that writes it.

  In each theory the definitions come first and in the order of the code: a record per class, one
  definition per member function under the function's name, datatypes for the enumerations, for
  control points of threads and for errors. A member function with a loop is a recursive function
  on what the loop consumes; code run by several threads is an inductive step relation, and where
  runs are computed, a function is proved to follow the relation.
\<close>

section \<open>Interfaces\<close>

text \<open>
  Four contracts are locales, each interpreted on the definitions of the code that provides it.

    \<^item> \<open>bounded_queue\<close> (interpretation \<open>mpmc\<close>): bulk operations on a queue with a capacity; inside
      it, any sequence of operations is a bounded first-in-first-out list.
    \<^item> \<open>byte_stream\<close> (interpretation \<open>buf\<close>): appending at the end and taking from the front; the
      connection, the response writer and the HTTP server rest on it.
    \<^item> \<open>ordered_map\<close> (interpretation \<open>omap\<close>): assignment, lookup and removal by key; used for
      headers, channels and connections.
    \<^item> \<open>std_heap\<close> (interpretation \<open>vec\<close>): pushing, popping and remaking keep the elements and put
      a least one in front; used for the timer queue and the tasks of the pool.
\<close>

section \<open>What is shown\<close>

text \<open>
  \<^bold>\<open>Queues.\<close> Both queues deliver what was put in, in order and once, never holding more than the
  capacity, also when the indexes wrap around; the two threads of the lock-free one never touch
  the same slot. The locked one refines the abstract bounded queue. Its concurrent test, for any
  number of threads and values, can only pass and never gets stuck. The tests and the demonstration of the
  lock-free one store the numbers in order, whatever the interleaving, and can always be finished.

  \<^bold>\<open>Connections.\<close> What \<^verbatim>\<open>send\<close> accepted is what was written followed by what waits in the output
  buffer; output that waits is watched; the write side is shut down only after everything is
  written, and then it is; callbacks come once and in order, states only advance, and no
  assertion fails. Every statement is about all states that all orders of reports, tasks and calls
  lead to.

  \<^bold>\<open>Loop and poller.\<close> A queued functor is run or the loop will be woken; functors run in order,
  and a round runs all that were queued before it. The kernel's set of descriptors follows the
  channels through every operation. A discipline on who calls what, checked call by call on what functors
  contain, excludes every abort of the thread checks. \<^bold>\<open>Server.\<close> A closing connection is found under its name,
  connections go to the loops in turn, the acceptor survives running out of descriptors. Its start aborts
  exactly when there is no descriptor for a socket or a loop, or \<^verbatim>\<open>bind\<close> or \<^verbatim>\<open>listen\<close> fails;
  otherwise the listening socket has the options that were not refused, and three descriptors per loop and
  two for the acceptor are in use. Server and connections together fail no assertion, an open connection is held, and a closed one can always
  be released. All this is for a server with loops of its own; without them names collide, which
  \<^verbatim>\<open>Tcp_Server\<close> proves.

  \<^bold>\<open>HTTP.\<close> A path with \<^verbatim>\<open>..\<close> is not accepted, also when it is percent-encoded; parsing is not
  changed by more input; decoding inverts encoding; a written response reads back; a complete
  request is answered once.

  \<^bold>\<open>Timers.\<close> The timerfd is armed for no later than the earliest timer; expired timers run, those
  and no others, in order. The linked list stays linked and sorted, frees what it takes out and
  touches nothing that was freed. The two implementations call back the same timers. The demonstration
  of the list prints the counts it announces, for every clock that does not run too far between two of
  its steps, and frees every client once.

  \<^bold>\<open>Thread pool.\<close> The number of threads stays in its bounds; the most urgent task is taken first;
  after a stop nothing is accepted, everything accepted was run (or dropped by the immediate stop)
  exactly once, and stopping ends: a measure decreases with every step and some step is possible. The
  memory and the futures are those of running the bodies one after the other, in the order in which the
  pool finished them. Ten of the tests pass on every schedule, those on a pool of fixed size end
  within a computed number of steps, the one of scaling up reports the largest number of tasks that
  were in flight, and the result of the program is decided by three tests that depend on timing.

  \<^bold>\<open>Logger.\<close> Every line stays in some file as long as an archive does not replace another; a file
  exceeds its limit by at most a line. The program of the logger ends with 1 if \<^verbatim>\<open>Init\<close> throws, and
  otherwise every line that was logged is found in one piece in the files, provided that a rotation finds
  the name of its archive free, and the verdict it prints is right. \<^bold>\<open>C programs.\<close> Blocks in use never overlap and lie inside
  the pool; the header is read back from the bytes that were written.

  The sections on observations at the ends of the theories prove what else modelling showed:
  inputs for which the code does something it hardly means to, or something a comment excludes.
\<close>

section \<open>Bounds, termination and idealisations\<close>

text \<open>
  \<^bold>\<open>Integers.\<close> \<^verbatim>\<open>size_t\<close>, the queue indexes, the event masks and the counter of the wake-up
  descriptor are words of their width and wrap. \<^verbatim>\<open>int\<close> and \<^verbatim>\<open>int64_t\<close> are integers where the code
  stays inside their range, with the range as a hypothesis or written out where it can leave it:
  \<^verbatim>\<open>std::stoi\<close> raises outside of \<^verbatim>\<open>int\<close>, the number of connections of a server is below 2^31.
  Time stamps are microseconds, and an interval is the number of microseconds that the code
  converts it to. \<^bold>\<open>Buffers.\<close> The sizes of the code's fixed buffers are kept: 4096 bytes for a log
  line, 256 for a line of a response, 64 for an address and a connection's
  number, 65536 for what is read beyond the free space of a buffer. The
  connection's theorems assume that less than 2^64 bytes were sent in all, which is what keeps the
  sum in \<^verbatim>\<open>makeSpace\<close> from wrapping.

  \<^bold>\<open>Termination.\<close> No operation is given fuel, except that an undisturbed call of the lock-free
  queue in \<^verbatim>\<open>Spsc_Client\<close> may take seven actions, of which it is shown to need at most six. Loops over pointers in \<^verbatim>\<open>Timer_List\<close> are partial
  functions whose result is \<^term>\<open>None\<close> when they do not end or use a freed node; on every
  well-formed list they are shown to have a result. The bound on the tests of the pool is \<open>test_bound\<close>: what the
  threads have still to do, in steps, plus what the pool has for each worker. The loop around
  \<^verbatim>\<open>compare_exchange_weak\<close> in \<^verbatim>\<open>Pool_Scaling\<close> may fail spuriously without end; there it is shown that
  a step is always possible. The other loops are total functions with a
  measure where the recursion is not structural.

  \<^bold>\<open>System calls.\<close> Their results are arguments of the operations, restricted by what the manual
  pages promise (a report names only what was asked for, an error or a hang-up; \<^verbatim>\<open>write\<close> takes at
  most what it is given; \<^verbatim>\<open>accept4\<close> returns the smallest free descriptor). Readings of the clock
  are arguments, and so are the callbacks of a library's user.

  \<^bold>\<open>Threads.\<close> They interleave at atomic operations and locked sections. Memory orders weaker than
  sequential consistency are not modelled; what the orders in the code are for, that the slot is
  written before the index is, is the order of the steps. Timing is not modelled: a wait with a
  time limit may end either way.
\<close>

section \<open>Not modelled\<close>

text \<open>
  Output to the terminal is left out everywhere, with what is computed only for it: the times and
  throughputs of \<^verbatim>\<open>ring_buffer/src/main.cpp\<close> and \<^verbatim>\<open>logger/main.cpp\<close> (\<^verbatim>\<open>print_stats\<close>, \<^verbatim>\<open>NowString\<close>, the
  seconds in \<^verbatim>\<open>StressResult\<close>), the usage message and the messages on \<^verbatim>\<open>std::cerr\<close>. A sleep is a point at which
  others may run. The conversion of an interval in seconds, a \<^verbatim>\<open>double\<close>, to microseconds in
  \<^verbatim>\<open>Timer.h\<close> is not modelled: the number of microseconds is the argument. The object that ignores
  \<^verbatim>\<open>SIGPIPE\<close> in \<^verbatim>\<open>EventLoop.cpp\<close> is the reason why a failing \<^verbatim>\<open>write\<close> is a result here and not the end of the process.
  Headers contribute their classes' members and inline functions; declarations, setters of callbacks,
  getters and \<^verbatim>\<open>noncopyable.h\<close> have no content in a model without copies.
\<close>

end
